(* ===== verification/Prelude.thy ===== *)
theory Prelude
  imports "HOL-Library.Word"
begin

text \<open>
  What the component theories share: the faults a C++ step can end in, the state-and-fault
  computations in which the member functions are written, the preservation rules for them,
  fixed-size arrays, and a few facts on lists and words.
\<close>

section \<open>Faults\<close>

text \<open>
  \<^item> \<open>Null_deref\<close>: a member access through \<open>nullptr\<close> (undefined behaviour, a crash in practice);
  \<^item> \<open>Out_of_bounds\<close>: an unchecked \<open>operator[]\<close> or buffer copy past the end (undefined behaviour);
  \<^item> \<open>Div_by_zero\<close>: an integer \<open>%\<close> by zero (undefined behaviour);
  \<^item> \<open>Terminate\<close>: an exception that leaves a \<open>noexcept\<close> function, as the one of \<open>std::array::at\<close>;
  \<^item> \<open>Fatal m\<close>: \<open>ASSERT\<close> or \<open>FATAL\<close> of \<open>macros.h\<close>, which print a message and call \<open>exit\<close>;
  \<^item> \<open>Diverge\<close>: a loop that never ends.
\<close>

datatype fault =
    Null_deref
  | Out_of_bounds
  | Div_by_zero
  | Terminate
  | Fatal string
  | Diverge

section \<open>Computations with a state and faults\<close>

text \<open>
  A member function that reads and writes the object \<open>'s\<close> and returns \<open>'a\<close>. A fault ends the
  process, so no state comes with it.
\<close>

type_synonym ('s, 'a) prog = "'s \<Rightarrow> fault + 'a \<times> 's"

named_theorems prog_simps \<open>equations that run a computation on a known state\<close>
named_theorems keeps_intro \<open>rules: a computation keeps a property of the state\<close>

definition ret :: "'a \<Rightarrow> ('s, 'a) prog" where
  "ret a s = Inr (a, s)"

definition fail :: "fault \<Rightarrow> ('s, 'a) prog" where
  "fail e s = Inl e"

definition bnd :: "('s, 'a) prog \<Rightarrow> ('a \<Rightarrow> ('s, 'b) prog) \<Rightarrow> ('s, 'b) prog" where
  "bnd m f s = (case m s of Inl e \<Rightarrow> Inl e | Inr (a, s') \<Rightarrow> f a s')"

definition sq :: "('s, unit) prog \<Rightarrow> ('s, 'b) prog \<Rightarrow> ('s, 'b) prog" where
  "sq m n = bnd m (\<lambda>_. n)"

definition rd :: "('s \<Rightarrow> 'a) \<Rightarrow> ('s, 'a) prog" where
  "rd f s = Inr (f s, s)"

definition wr :: "('s \<Rightarrow> 's) \<Rightarrow> ('s, unit) prog" where
  "wr f s = Inr ((), f s)"

definition lift_res :: "fault + 'a \<Rightarrow> ('s, 'a) prog" where
  "lift_res r s = (case r of Inl e \<Rightarrow> Inl e | Inr a \<Rightarrow> Inr (a, s))"

text \<open>\<open>when_do c m\<close>: the statement \<open>if (c) m;\<close> with no \<open>else\<close>.\<close>

definition when_do :: "bool \<Rightarrow> ('s, unit) prog \<Rightarrow> ('s, unit) prog" where
  "when_do c m = (if c then m else ret ())"

text \<open>\<open>ASSERT(cond, msg)\<close> and \<open>FATAL(msg)\<close> of \<open>macros.h\<close>; the message is kept without its run-time part.\<close>

definition FATAL :: "string \<Rightarrow> ('s, 'a) prog" where
  "FATAL msg = fail (Fatal msg)"

definition ASSERT :: "bool \<Rightarrow> string \<Rightarrow> ('s, unit) prog" where
  "ASSERT cond msg = (if \<not> cond then FATAL msg else ret ())"

text \<open>A computation on a part of the state: \<open>g\<close> reads the part, \<open>p\<close> writes it back.\<close>

definition zoom :: "('s \<Rightarrow> 't) \<Rightarrow> ('t \<Rightarrow> 's \<Rightarrow> 's) \<Rightarrow> ('t, 'a) prog \<Rightarrow> ('s, 'a) prog" where
  "zoom g p m s = (case m (g s) of Inl e \<Rightarrow> Inl e | Inr (a, t) \<Rightarrow> Inr (a, p t s))"

lemma ret_run [prog_simps, simp]: "ret a s = Inr (a, s)"
  by (simp add: ret_def)

lemma fail_run [prog_simps, simp]: "fail e s = Inl e"
  by (simp add: fail_def)

lemma bnd_Inr [prog_simps]: "m s = Inr (a, s') \<Longrightarrow> bnd m f s = f a s'"
  by (simp add: bnd_def)

lemma bnd_Inl [prog_simps]: "m s = Inl e \<Longrightarrow> bnd m f s = Inl e"
  by (simp add: bnd_def)

lemma bnd_ret [simp]: "bnd (ret a) f = f a"
  by (simp add: bnd_def ret_def fun_eq_iff)

lemma bnd_ret_right: "bnd m ret = m"
  by (auto simp: bnd_def ret_def fun_eq_iff split: sum.split)

lemma bnd_fail [simp]: "bnd (fail e) f = fail e"
  by (simp add: bnd_def fail_def fun_eq_iff)

lemma sq_Inr [prog_simps]: "m s = Inr (u, s') \<Longrightarrow> sq m n s = n s'"
  by (simp add: sq_def bnd_def)

lemma sq_Inl [prog_simps]: "m s = Inl e \<Longrightarrow> sq m n s = Inl e"
  by (simp add: sq_def bnd_def)

text \<open>A nested block runs its statements in a row.\<close>

lemma bnd_bnd: "bnd (bnd m f) g = bnd m (\<lambda>a. bnd (f a) g)"
  by (auto simp: bnd_def fun_eq_iff split: sum.splits prod.splits)

lemma sq_sq: "sq (sq m n) k = sq m (sq n k)"
  by (simp add: sq_def bnd_bnd)

lemma sq_bnd: "sq (bnd m f) k = bnd m (\<lambda>a. sq (f a) k)"
  by (simp add: sq_def bnd_bnd)

lemma bnd_sq: "bnd (sq m n) f = sq m (bnd n f)"
  by (simp add: sq_def bnd_bnd)

lemmas block_simps = bnd_bnd sq_sq sq_bnd bnd_sq

lemma rd_run [prog_simps, simp]: "rd f s = Inr (f s, s)"
  by (simp add: rd_def)

lemma wr_run [prog_simps, simp]: "wr f s = Inr ((), f s)"
  by (simp add: wr_def)

lemma lift_res_run [prog_simps, simp]:
  "lift_res (Inr a) s = Inr (a, s)" "lift_res (Inl e) s = Inl e"
  by (simp_all add: lift_res_def)

lemma when_do_run [prog_simps, simp]:
  "when_do True m = m" "when_do False m = ret ()"
  by (simp_all add: when_do_def)

lemma FATAL_run [prog_simps, simp]: "FATAL msg s = Inl (Fatal msg)"
  by (simp add: FATAL_def)

lemma ASSERT_run [prog_simps, simp]:
  "ASSERT True msg = ret ()" "ASSERT False msg = fail (Fatal msg)"
  by (simp_all add: ASSERT_def FATAL_def)

lemma zoom_Inr [prog_simps]: "m (g s) = Inr (a, t) \<Longrightarrow> zoom g p m s = Inr (a, p t s)"
  by (simp add: zoom_def)

lemma zoom_Inl [prog_simps]: "m (g s) = Inl e \<Longrightarrow> zoom g p m s = Inl e"
  by (simp add: zoom_def)

lemma bnd_eq_Inr [simp]:
  "bnd m f s = Inr (b, t) \<longleftrightarrow> (\<exists>a s'. m s = Inr (a, s') \<and> f a s' = Inr (b, t))"
  by (auto simp: bnd_def split: sum.splits prod.splits)

lemma sq_eq_Inr [simp]:
  "sq m n s = Inr (b, t) \<longleftrightarrow> (\<exists>s'. m s = Inr ((), s') \<and> n s' = Inr (b, t))"
  by (simp add: sq_def)

lemma zoom_eq_Inr [simp]:
  "zoom g p m s = Inr (a, s') \<longleftrightarrow> (\<exists>t. m (g s) = Inr (a, t) \<and> s' = p t s)"
  by (auto simp: zoom_def split: sum.splits prod.splits)

lemma lift_res_eq_Inr [simp]: "lift_res r s = Inr (a, s') \<longleftrightarrow> r = Inr a \<and> s' = s"
  by (auto simp: lift_res_def split: sum.splits)

lemma ASSERT_eq_Inr [simp]: "ASSERT c msg s = Inr (u, s') \<longleftrightarrow> c \<and> s' = s"
  by (auto simp: ASSERT_def FATAL_def)

text \<open>The congruence rule lets \<^theory_text>\<open>function\<close> see that the continuation runs on a result of \<open>m\<close>.\<close>

lemma bnd_cong [fundef_cong]:
  assumes "m s = m' s'" and "\<And>a t. m' s' = Inr (a, t) \<Longrightarrow> f a t = f' a t"
  shows "bnd m f s = bnd m' f' s'"
  using assms by (auto simp: bnd_def split: sum.splits prod.splits)

section \<open>Preservation\<close>

definition keeps :: "('s \<Rightarrow> bool) \<Rightarrow> ('s, 'a) prog \<Rightarrow> bool" where
  "keeps P m \<longleftrightarrow> (\<forall>s a s'. P s \<longrightarrow> m s = Inr (a, s') \<longrightarrow> P s')"

lemma keepsI: "(\<And>s a s'. P s \<Longrightarrow> m s = Inr (a, s') \<Longrightarrow> P s') \<Longrightarrow> keeps P m"
  by (auto simp: keeps_def)

lemma keepsD: "keeps P m \<Longrightarrow> m s = Inr (a, s') \<Longrightarrow> P s \<Longrightarrow> P s'"
  by (auto simp: keeps_def)

lemma keeps_ret [keeps_intro]: "keeps P (ret a)"
  by (simp add: keeps_def)

lemma keeps_fail [keeps_intro]: "keeps P (fail e)"
  by (simp add: keeps_def)

lemma keeps_FATAL [keeps_intro]: "keeps P (FATAL e)"
  by (simp add: keeps_def)

lemma keeps_bnd [keeps_intro]: "keeps P m \<Longrightarrow> (\<And>a. keeps P (f a)) \<Longrightarrow> keeps P (bnd m f)"
  by (rule keepsI) (auto dest: keepsD)

lemma keeps_sq [keeps_intro]: "keeps P m \<Longrightarrow> keeps P n \<Longrightarrow> keeps P (sq m n)"
  by (simp add: sq_def keeps_bnd)

lemma keeps_rd [keeps_intro]: "keeps P (rd f)"
  by (simp add: keeps_def)

lemma keeps_lift_res [keeps_intro]: "keeps P (lift_res r)"
  by (simp add: keeps_def)

lemma keeps_ASSERT [keeps_intro]: "keeps P (ASSERT c msg)"
  by (simp add: keeps_def)

lemma keeps_when_do [keeps_intro]: "keeps P m \<Longrightarrow> keeps P (when_do c m)"
  by (simp add: when_do_def keeps_ret)

lemma keeps_if [keeps_intro]: "keeps P m \<Longrightarrow> keeps P n \<Longrightarrow> keeps P (if c then m else n)"
  by simp

lemma keeps_wr: "(\<And>s. P s \<Longrightarrow> P (f s)) \<Longrightarrow> keeps P (wr f)"
  by (auto simp: keeps_def)

lemma keeps_zoom:
  "(\<And>s a t. P s \<Longrightarrow> m (g s) = Inr (a, t) \<Longrightarrow> P (p t s)) \<Longrightarrow> keeps P (zoom g p m)"
  by (auto simp: keeps_def)

lemma keeps_case_prod [keeps_intro]: "(\<And>a b. keeps P (f a b)) \<Longrightarrow> keeps P (case r of (a, b) \<Rightarrow> f a b)"
  by (cases r) simp

lemma keeps_case_option [keeps_intro]:
  "keeps P m \<Longrightarrow> (\<And>x. keeps P (f x)) \<Longrightarrow> keeps P (case r of None \<Rightarrow> m | Some x \<Rightarrow> f x)"
  by (cases r) simp_all

lemma keeps_Let [keeps_intro]: "(\<And>x. keeps P (f x)) \<Longrightarrow> keeps P (let x = v in f x)"
  by simp

text \<open>\<open>lowers \<mu> m\<close>: where \<open>m\<close> returns, the measure \<open>\<mu>\<close> of the state is smaller.\<close>

definition lowers :: "('s \<Rightarrow> nat) \<Rightarrow> ('s, 'a) prog \<Rightarrow> bool" where
  "lowers \<mu> m \<longleftrightarrow> (\<forall>s a s'. m s = Inr (a, s') \<longrightarrow> \<mu> s' < \<mu> s)"

lemma lowersD: "lowers \<mu> m \<Longrightarrow> m s = Inr (a, s') \<Longrightarrow> \<mu> s' < \<mu> s"
  by (auto simp: lowers_def)

lemma lowers_bnd:
  assumes "\<And>n. keeps (\<lambda>s. \<mu> s = n) m" "\<And>a. lowers \<mu> (f a)"
  shows "lowers \<mu> (bnd m f)"
  unfolding lowers_def
proof (intro allI impI)
  fix s b t assume "bnd m f s = Inr (b, t)"
  then obtain a s' where m: "m s = Inr (a, s')" and f: "f a s' = Inr (b, t)" by auto
  have "\<mu> s' = \<mu> s" using keepsD [OF assms(1) m] by simp
  with lowersD [OF assms(2) f] show "\<mu> t < \<mu> s" by simp
qed

lemma lowers_sq: "(\<And>n. keeps (\<lambda>s. \<mu> s = n) m) \<Longrightarrow> lowers \<mu> k \<Longrightarrow> lowers \<mu> (sq m k)"
  unfolding sq_def by (rule lowers_bnd)

section \<open>Fixed-size arrays\<close>

text \<open>
  \<open>std::array\<close> and the never-resized \<open>std::vector\<close>s: a length and the element at each index. The
  representation by a function keeps arrays of \<open>1024 * 1024\<close> elements cheap to write down.
\<close>

record 'a carray =
  alen :: nat
  aget :: "nat \<Rightarrow> 'a"

definition arr_fill :: "nat \<Rightarrow> 'a \<Rightarrow> 'a carray" where
  "arr_fill n v = \<lparr>alen = n, aget = (\<lambda>_. v)\<rparr>"

text \<open>\<open>a.at(i)\<close> throws when the index is out of range; all its callers are \<open>noexcept\<close>.\<close>

definition arr_at :: "'a carray \<Rightarrow> nat \<Rightarrow> fault + 'a" where
  "arr_at a i = (if i < alen a then Inr (aget a i) else Inl Terminate)"

text \<open>\<open>a[i]\<close> is unchecked.\<close>

definition arr_idx :: "'a carray \<Rightarrow> nat \<Rightarrow> fault + 'a" where
  "arr_idx a i = (if i < alen a then Inr (aget a i) else Inl Out_of_bounds)"

definition arr_put :: "nat \<Rightarrow> 'a \<Rightarrow> 'a carray \<Rightarrow> 'a carray" where
  "arr_put i v a = a\<lparr>aget := (aget a)(i := v)\<rparr>"

lemma alen_arr_put [simp]: "alen (arr_put i v a) = alen a"
  by (simp add: arr_put_def)

lemma aget_arr_put [simp]: "aget (arr_put i v a) = (aget a)(i := v)"
  by (simp add: arr_put_def)

lemma alen_arr_fill [simp]: "alen (arr_fill n v) = n"
  by (simp add: arr_fill_def)

lemma aget_arr_fill [simp]: "aget (arr_fill n v) i = v"
  by (simp add: arr_fill_def)

lemma arr_at_in [simp]: "i < alen a \<Longrightarrow> arr_at a i = Inr (aget a i)"
  by (simp add: arr_at_def)

lemma arr_idx_in [simp]: "i < alen a \<Longrightarrow> arr_idx a i = Inr (aget a i)"
  by (simp add: arr_idx_def)

lemma arr_at_out: "\<not> i < alen a \<Longrightarrow> arr_at a i = Inl Terminate"
  by (simp add: arr_at_def)

lemma arr_idx_out: "\<not> i < alen a \<Longrightarrow> arr_idx a i = Inl Out_of_bounds"
  by (simp add: arr_idx_def)

section \<open>Lists and words\<close>

lemma map_upd_notin [simp]: "i \<notin> set xs \<Longrightarrow> map (f(i := v)) xs = map f xs"
  by (induction xs) auto

lemma word_dec_min:
  fixes a b :: "'w::len word"
  shows "unat (a - min a b) = unat a - unat b"
  by (cases "a \<le> b") (auto simp: min_def unat_sub word_le_nat_alt)

end
