(* ===== verification/Types.thy ===== *)
theory Types
  imports Prelude "HOL-Library.Char_ord"
begin

text \<open>
  \<open>low-latency-components/types.h\<close>, the message structs of \<open>client_request.h\<close>,
  \<open>client_response.h\<close> and \<open>market_update.h\<close>, and the order and price-level structs of
  \<open>me_order.h\<close>, with their \<open>toString\<close> functions. Identifiers, quantities and priorities are
  words of the width of their C++ type; a price is the 64-bit pattern of an \<open>int64_t\<close>, compared
  through \<open>sint\<close>.
\<close>

section \<open>Identifiers and limits\<close>

type_synonym OrderId = "64 word"
type_synonym TickerId = "32 word"
type_synonym ClientId = "32 word"
type_synonym Price = "64 word"
type_synonym Qty = "32 word"
type_synonym Priority = "64 word"
type_synonym Nanos = "64 word"

definition OrderId_INVALID :: OrderId where "OrderId_INVALID = 2 ^ 64 - 1"
definition TickerId_INVALID :: TickerId where "TickerId_INVALID = 2 ^ 32 - 1"
definition ClientId_INVALID :: ClientId where "ClientId_INVALID = 2 ^ 32 - 1"
definition Price_INVALID :: Price where "Price_INVALID = 2 ^ 63 - 1"
definition Qty_INVALID :: Qty where "Qty_INVALID = 2 ^ 32 - 1"
definition Priority_INVALID :: Priority where "Priority_INVALID = 2 ^ 64 - 1"

definition ME_MAX_TICKERS :: nat where "ME_MAX_TICKERS = 8"
definition ME_MAX_NUM_CLIENTS :: nat where "ME_MAX_NUM_CLIENTS = 256"
definition ME_MAX_PRICE_LEVELS :: nat where "ME_MAX_PRICE_LEVELS = 256"
definition ME_MAX_ORDER_IDS :: nat where "ME_MAX_ORDER_IDS = 1024 * 1024"
definition ME_MAX_CLIENT_UPDATES :: nat where "ME_MAX_CLIENT_UPDATES = 256 * 1024"
definition ME_MAX_MARKET_UPDATES :: nat where "ME_MAX_MARKET_UPDATES = 256 * 1024"

lemmas limit_defs = ME_MAX_TICKERS_def ME_MAX_NUM_CLIENTS_def ME_MAX_PRICE_LEVELS_def
  ME_MAX_ORDER_IDS_def ME_MAX_CLIENT_UPDATES_def ME_MAX_MARKET_UPDATES_def

text \<open>
  An \<open>enum class\<close> over an 8-bit type can hold any byte, and the requests come from the wire: the
  last constructor of each enumeration stands for the values without an enumerator.
\<close>

datatype Side = Side_INVALID | BUY | SELL | Side_other "8 word"

datatype ClientRequestType =
    Request_INVALID | Request_NEW | Request_CANCEL | Request_other "8 word"

datatype ClientResponseType =
    Response_INVALID | ACCEPTED | CANCELED | FILLED | CANCEL_REJECTED
  | Response_other "8 word"

datatype MEMarketUpdateType =
    Update_INVALID | CLEAR | ADD | MODIFY | CANCEL | TRADE | SNAPSHOT_START | SNAPSHOT_END
  | Update_other "8 word"

section \<open>Decimal rendering\<close>

definition digit_char :: "nat \<Rightarrow> char" where
  "digit_char d = char_of (48 + d)"

fun decimal :: "nat \<Rightarrow> string" where
  "decimal n = (if n < 10 then [digit_char n] else decimal (n div 10) @ [digit_char (n mod 10)])"

declare decimal.simps [simp del]

text \<open>\<open>std::to_string\<close> on unsigned and on signed arguments.\<close>

definition to_string_unsigned :: "'w::len word \<Rightarrow> string" where
  "to_string_unsigned x = decimal (unat x)"

definition to_string_int :: "int \<Rightarrow> string" where
  "to_string_int i = (if i < 0 then ''-'' @ decimal (nat (- i)) else decimal (nat i))"

definition to_string_signed :: "'w::len word \<Rightarrow> string" where
  "to_string_signed x = to_string_int (sint x)"

section \<open>Rendering of identifiers\<close>

definition orderIdToString :: "OrderId \<Rightarrow> string" where
  "orderIdToString order_id =
     (if order_id = OrderId_INVALID then ''INVALID'' else to_string_unsigned order_id)"

definition tickerIdToString :: "TickerId \<Rightarrow> string" where
  "tickerIdToString ticker_id =
     (if ticker_id = TickerId_INVALID then ''INVALID'' else to_string_unsigned ticker_id)"

definition clientIdToString :: "ClientId \<Rightarrow> string" where
  "clientIdToString client_id =
     (if client_id = ClientId_INVALID then ''INVALID'' else to_string_unsigned client_id)"

definition priceToString :: "Price \<Rightarrow> string" where
  "priceToString price = (if price = Price_INVALID then ''INVALID'' else to_string_signed price)"

definition qtyToString :: "Qty \<Rightarrow> string" where
  "qtyToString qty = (if qty = Qty_INVALID then ''INVALID'' else to_string_unsigned qty)"

definition priorityToString :: "Priority \<Rightarrow> string" where
  "priorityToString priority =
     (if priority = Priority_INVALID then ''INVALID'' else to_string_unsigned priority)"

fun sideToString :: "Side \<Rightarrow> string" where
  "sideToString BUY = ''BUY''"
| "sideToString SELL = ''SELL''"
| "sideToString Side_INVALID = ''INVALID''"
| "sideToString (Side_other _) = ''UNKNOWN''"

fun clientRequestTypeToString :: "ClientRequestType \<Rightarrow> string" where
  "clientRequestTypeToString Request_NEW = ''NEW''"
| "clientRequestTypeToString Request_CANCEL = ''CANCEL''"
| "clientRequestTypeToString Request_INVALID = ''INVALID''"
| "clientRequestTypeToString (Request_other _) = ''UNKNOWN''"

fun clientResponseTypeToString :: "ClientResponseType \<Rightarrow> string" where
  "clientResponseTypeToString ACCEPTED = ''ACCEPTED''"
| "clientResponseTypeToString CANCELED = ''CANCELED''"
| "clientResponseTypeToString FILLED = ''FILLED''"
| "clientResponseTypeToString CANCEL_REJECTED = ''CANCEL_REJECTED''"
| "clientResponseTypeToString Response_INVALID = ''INVALID''"
| "clientResponseTypeToString (Response_other _) = ''UNKNOWN''"

fun marketUpdateTypeToString :: "MEMarketUpdateType \<Rightarrow> string" where
  "marketUpdateTypeToString ADD = ''ADD''"
| "marketUpdateTypeToString CLEAR = ''CLEAR''"
| "marketUpdateTypeToString MODIFY = ''MODIFY''"
| "marketUpdateTypeToString CANCEL = ''CANCEL''"
| "marketUpdateTypeToString TRADE = ''TRADE''"
| "marketUpdateTypeToString SNAPSHOT_START = ''SNAPSHOT_START''"
| "marketUpdateTypeToString SNAPSHOT_END = ''SNAPSHOT_END''"
| "marketUpdateTypeToString Update_INVALID = ''INVALID''"
| "marketUpdateTypeToString (Update_other _) = ''UNKNOWN''"

section \<open>Messages\<close>

record MEClientRequest =
  req_type :: ClientRequestType
  req_client_id :: ClientId
  req_ticker_id :: TickerId
  req_order_id :: OrderId
  req_side :: Side
  req_price :: Price
  req_qty :: Qty

record OMClientRequest =
  om_seq_num :: "64 word"
  om_me_client_request :: MEClientRequest

record MEClientResponse =
  resp_type :: ClientResponseType
  resp_client_id :: ClientId
  resp_ticker_id :: TickerId
  resp_client_order_id :: OrderId
  resp_market_order_id :: OrderId
  resp_side :: Side
  resp_price :: Price
  resp_exec_qty :: Qty
  resp_leaves_qty :: Qty

record OMClientResponse =
  om_resp_seq_num :: "64 word"
  om_me_client_response :: MEClientResponse

record MEMarketUpdate =
  upd_type :: MEMarketUpdateType
  upd_order_id :: OrderId
  upd_ticker_id :: TickerId
  upd_side :: Side
  upd_price :: Price
  upd_qty :: Qty
  upd_priority :: Priority

record MDPMarketUpdate =
  mdp_seq_num :: "64 word"
  mdp_me_market_update :: MEMarketUpdate

definition MEClientRequest_default :: MEClientRequest where
  "MEClientRequest_default = \<lparr>req_type = Request_INVALID, req_client_id = ClientId_INVALID,
     req_ticker_id = TickerId_INVALID, req_order_id = OrderId_INVALID, req_side = Side_INVALID,
     req_price = Price_INVALID, req_qty = Qty_INVALID\<rparr>"

definition MEClientResponse_default :: MEClientResponse where
  "MEClientResponse_default = \<lparr>resp_type = Response_INVALID, resp_client_id = ClientId_INVALID,
     resp_ticker_id = TickerId_INVALID, resp_client_order_id = OrderId_INVALID,
     resp_market_order_id = OrderId_INVALID, resp_side = Side_INVALID, resp_price = Price_INVALID,
     resp_exec_qty = Qty_INVALID, resp_leaves_qty = Qty_INVALID\<rparr>"

definition MEMarketUpdate_default :: MEMarketUpdate where
  "MEMarketUpdate_default = \<lparr>upd_type = Update_INVALID, upd_order_id = OrderId_INVALID,
     upd_ticker_id = TickerId_INVALID, upd_side = Side_INVALID, upd_price = Price_INVALID,
     upd_qty = Qty_INVALID, upd_priority = Priority_INVALID\<rparr>"

definition MEClientRequest_toString :: "MEClientRequest \<Rightarrow> string" where
  "MEClientRequest_toString r =
     ''MEClientRequest '' @ '' [ ''
     @ '' Type: '' @ clientRequestTypeToString (req_type r)
     @ '' Client: '' @ clientIdToString (req_client_id r)
     @ '' Ticker: '' @ tickerIdToString (req_ticker_id r)
     @ '' Order id : '' @ orderIdToString (req_order_id r)
     @ '' Side: '' @ sideToString (req_side r)
     @ '' Qty: '' @ qtyToString (req_qty r)
     @ '' Price: '' @ priceToString (req_price r)
     @ '' ] ''"

definition OMClientRequest_toString :: "OMClientRequest \<Rightarrow> string" where
  "OMClientRequest_toString r =
     ''OMClientRequest: '' @ '' [ '' @ '' seq: '' @ to_string_unsigned (om_seq_num r)
     @ '' '' @ MEClientRequest_toString (om_me_client_request r) @ '' ] ''"

definition MEClientResponse_toString :: "MEClientResponse \<Rightarrow> string" where
  "MEClientResponse_toString r =
     ''MEClientResponse'' @ '' [ ''
     @ '' Type: '' @ clientResponseTypeToString (resp_type r)
     @ '' Client: '' @ clientIdToString (resp_client_id r)
     @ '' Ticker '' @ tickerIdToString (resp_ticker_id r)
     @ '' Client order id: '' @ orderIdToString (resp_client_order_id r)
     @ '' Market order id: '' @ orderIdToString (resp_market_order_id r)
     @ '' Side: '' @ sideToString (resp_side r)
     @ '' Executed qty: '' @ qtyToString (resp_exec_qty r)
     @ '' Leaves qty: '' @ qtyToString (resp_leaves_qty r)
     @ '' Price: '' @ priceToString (resp_price r)
     @ '' ] ''"

definition OMClientResponse_toString :: "OMClientResponse \<Rightarrow> string" where
  "OMClientResponse_toString r =
     ''OMClientResponse '' @ '' [ '' @ '' seq: '' @ to_string_unsigned (om_resp_seq_num r)
     @ '' '' @ MEClientResponse_toString (om_me_client_response r) @ '' ] ''"

definition MEMarketUpdate_toString :: "MEMarketUpdate \<Rightarrow> string" where
  "MEMarketUpdate_toString u =
     ''MEMarketUpdate: '' @ '' [ ''
     @ '' Type: '' @ marketUpdateTypeToString (upd_type u)
     @ '' Ticker: '' @ tickerIdToString (upd_ticker_id u)
     @ '' Order_id: '' @ orderIdToString (upd_order_id u)
     @ '' Side: '' @ sideToString (upd_side u)
     @ '' Qty: '' @ qtyToString (upd_qty u)
     @ '' Price: '' @ priceToString (upd_price u)
     @ '' Priority: '' @ priorityToString (upd_priority u)
     @ '' ] ''"

definition MDPMarketUpdate_toString :: "MDPMarketUpdate \<Rightarrow> string" where
  "MDPMarketUpdate_toString u =
     ''MDPMarketUpdate: '' @ '' [ '' @ '' seq: '' @ to_string_unsigned (mdp_seq_num u)
     @ '' '' @ MEMarketUpdate_toString (mdp_me_market_update u) @ '' ] ''"

section \<open>Orders and price levels\<close>

text \<open>
  A pointer is \<open>None\<close> for \<open>nullptr\<close>, else the index of the object's block in the memory pool it
  was allocated from; orders and levels live in two pools.
\<close>

type_synonym order_ptr = "nat option"
type_synonym level_ptr = "nat option"

record MEOrder =
  o_ticker_id :: TickerId
  o_client_id :: ClientId
  o_client_order_id :: OrderId
  o_market_order_id :: OrderId
  o_side :: Side
  o_price :: Price
  o_qty :: Qty
  o_priority :: Priority
  o_prev_order :: order_ptr
  o_next_order :: order_ptr

definition MEOrder_default :: MEOrder where
  "MEOrder_default = \<lparr>o_ticker_id = TickerId_INVALID, o_client_id = ClientId_INVALID,
     o_client_order_id = OrderId_INVALID, o_market_order_id = OrderId_INVALID,
     o_side = Side_INVALID, o_price = Price_INVALID, o_qty = Qty_INVALID,
     o_priority = Priority_INVALID, o_prev_order = None, o_next_order = None\<rparr>"

text \<open>The constructors that take a value for every member.\<close>

definition MEOrder_new ::
  "TickerId \<Rightarrow> ClientId \<Rightarrow> OrderId \<Rightarrow> OrderId \<Rightarrow> Side \<Rightarrow> Price \<Rightarrow> Qty \<Rightarrow> Priority \<Rightarrow> order_ptr \<Rightarrow> order_ptr \<Rightarrow> MEOrder"
where [simp]:
  "MEOrder_new ticker_id client_id client_order_id market_order_id side price qty priority prev_order next_order =
     \<lparr>o_ticker_id = ticker_id, o_client_id = client_id, o_client_order_id = client_order_id,
      o_market_order_id = market_order_id, o_side = side, o_price = price, o_qty = qty, o_priority = priority,
      o_prev_order = prev_order, o_next_order = next_order\<rparr>"

record MEOrdersAtPrice =
  l_side :: Side
  l_price :: Price
  l_first_me_order :: order_ptr
  l_prev_entry :: level_ptr
  l_next_entry :: level_ptr

definition MEOrdersAtPrice_default :: MEOrdersAtPrice where
  "MEOrdersAtPrice_default = \<lparr>l_side = Side_INVALID, l_price = Price_INVALID,
     l_first_me_order = None, l_prev_entry = None, l_next_entry = None\<rparr>"

definition MEOrdersAtPrice_new :: "Side \<Rightarrow> Price \<Rightarrow> order_ptr \<Rightarrow> level_ptr \<Rightarrow> level_ptr \<Rightarrow> MEOrdersAtPrice"
where [simp]:
  "MEOrdersAtPrice_new side price first_me_order prev_entry next_entry =
     \<lparr>l_side = side, l_price = price, l_first_me_order = first_me_order, l_prev_entry = prev_entry,
      l_next_entry = next_entry\<rparr>"

type_synonym OrderHashMap = "order_ptr carray"
type_synonym ClientOrderHashMap = "OrderHashMap carray"
type_synonym OrdersAtPriceHashMap = "level_ptr carray"

section \<open>The renderings tell identifiers apart\<close>

fun digit_val :: "char \<Rightarrow> nat" where
  "digit_val c = of_char c - 48"

definition decimal_val :: "string \<Rightarrow> nat" where
  "decimal_val = foldl (\<lambda>n c. n * 10 + digit_val c) 0"

lemma digit_val_char: "d < 10 \<Longrightarrow> digit_val (digit_char d) = d"
  by (simp add: digit_char_def)

lemma decimal_val_decimal: "decimal_val (decimal n) = n"
proof (induction n rule: decimal.induct)
  case (1 n)
  show ?case
  proof (cases "n < 10")
    case True
    then show ?thesis by (subst decimal.simps) (simp add: decimal_val_def digit_val_char del: digit_val.simps)
  next
    case False
    with 1 have "decimal_val (decimal (n div 10)) = n div 10" by simp
    with False show ?thesis
      by (subst decimal.simps) (simp add: decimal_val_def digit_val_char del: digit_val.simps)
  qed
qed

lemma decimal_inject: "decimal m = decimal n \<longleftrightarrow> m = n"
  by (metis decimal_val_decimal)

lemma decimal_first_digit: "\<exists>d s. decimal n = digit_char d # s \<and> d < 10"
proof (induction n rule: decimal.induct)
  case (1 n)
  show ?case
  proof (cases "n < 10")
    case True
    then show ?thesis by (subst decimal.simps) auto
  next
    case False
    with 1 show ?thesis by (subst decimal.simps) auto
  qed
qed

lemma digit_char_less: "d < 10 \<Longrightarrow> of_char (digit_char d) = 48 + d"
  by (simp add: digit_char_def)

lemma decimal_not_Cons: "48 + 9 < (of_char c :: nat) \<or> (of_char c :: nat) < 48 \<Longrightarrow> decimal n \<noteq> c # s"
  using decimal_first_digit [of n] digit_char_less by fastforce

lemma decimal_not_special: "decimal n \<noteq> ''INVALID''" "decimal n \<noteq> CHR ''-'' # s"
  by (rule decimal_not_Cons, simp)+

lemma to_string_int_inject: "to_string_int i = to_string_int j \<longleftrightarrow> i = j"
  by (auto simp: to_string_int_def decimal_inject decimal_not_special
      decimal_not_special [symmetric] split: if_splits)

lemma orderIdToString_inject: "orderIdToString x = orderIdToString y \<longleftrightarrow> x = y"
  by (auto simp: orderIdToString_def to_string_unsigned_def decimal_inject decimal_not_special
      decimal_not_special(1) [symmetric] dest: unsigned_word_eqI split: if_splits)

lemma priceToString_inject: "priceToString x = priceToString y \<longleftrightarrow> x = y"
proof -
  have "to_string_signed p \<noteq> ''INVALID''" for p :: Price
    by (auto simp: to_string_signed_def to_string_int_def decimal_not_special)
  from this this [symmetric] show ?thesis
    by (auto simp: priceToString_def to_string_signed_def to_string_int_inject
        dest: signed_word_eqI split: if_splits)
qed

end
