(* ===== verification/Mem_Pool.thy ===== *)
theory Mem_Pool
  imports Prelude
begin

text \<open>
  \<open>low-latency-components/mem_pool.h\<close>: a pool of \<open>num_elems\<close> pre-allocated blocks. The order book
  keeps its orders and its price levels in two such pools; a pointer into a pool is the index of
  the block. The locale \<open>object_pool\<close> is the interface the order book relies on, and its
  interpretation \<open>mp\<close> says that the pool of the source provides it.
\<close>

section \<open>The pool\<close>

record 'a ObjectBlock =
  blk_object :: 'a
  blk_is_free :: bool

record 'a MemPool =
  pool_store :: "'a ObjectBlock carray"
  pool_next_free_index :: nat

definition MemPool_new :: "nat \<Rightarrow> 'a \<Rightarrow> 'a MemPool" where
  "MemPool_new num_elems dflt =
     \<lparr>pool_store = arr_fill num_elems \<lparr>blk_object = dflt, blk_is_free = True\<rparr>,
      pool_next_free_index = 0\<rparr>"

text \<open>
  The loop of \<open>updateNextFreeIndex\<close>: the index moves on, wraps at the end of the store, and the
  assertion fires when it is back where it started. The bound on \<open>initial\<close> only serves the
  termination proof: the caller starts with \<open>initial = next\<close>.
\<close>

function updateNextFreeIndex_loop :: "'a ObjectBlock carray \<Rightarrow> nat \<Rightarrow> nat \<Rightarrow> fault + nat" where
  "updateNextFreeIndex_loop st initial next =
     (if \<not> (next < alen st \<and> initial < alen st) then Inl Out_of_bounds
      else if blk_is_free (aget st next) then Inr next
      else (let next' = (if next + 1 = alen st then 0 else next + 1) in
        if initial = next' then Inl (Fatal ''Memory Pool out of space.'')
        else updateNextFreeIndex_loop st initial next'))"
  by pat_completeness auto
termination
  by (relation "measure (\<lambda>(st, i, n). if n < i then i - n else alen st - n + i)")
    (auto simp: Let_def split: if_splits)

declare updateNextFreeIndex_loop.simps [simp del]

definition updateNextFreeIndex :: "('a MemPool, unit) prog" where
  "updateNextFreeIndex =
     bnd (rd pool_store) (\<lambda>st.
     bnd (rd pool_next_free_index) (\<lambda>initial_free_index.
     bnd (lift_res (updateNextFreeIndex_loop st initial_free_index initial_free_index)) (\<lambda>n.
     wr (\<lambda>p. p\<lparr>pool_next_free_index := n\<rparr>))))"

definition allocate :: "'a \<Rightarrow> ('a MemPool, nat option) prog" where
  "allocate new_object =
     bnd (rd pool_next_free_index) (\<lambda>n.
     bnd (rd pool_store) (\<lambda>st.
     bnd (lift_res (arr_idx st n)) (\<lambda>obj_block.
     sq (ASSERT (blk_is_free obj_block) ''Expected free ObjectBlock at index: '')
    (sq (wr (\<lambda>p. p\<lparr>pool_store :=
           arr_put n \<lparr>blk_object = new_object, blk_is_free = False\<rparr> (pool_store p)\<rparr>))
    (sq updateNextFreeIndex
    (ret (Some n)))))))"

definition deallocate :: "nat option \<Rightarrow> ('a MemPool, unit) prog" where
  "deallocate elem =
     bnd (rd pool_store) (\<lambda>st.
     (case elem of
        None \<Rightarrow> FATAL ''Element being deallocated does not belong to this Memory pool.''
      | Some elem_index \<Rightarrow>
          sq (ASSERT (elem_index < alen st)
                ''Element being deallocated does not belong to this Memory pool.'')
         (sq (ASSERT (\<not> blk_is_free (aget st elem_index)) ''Expected in-use ObjectBlock at index: '')
         (wr (\<lambda>p. p\<lparr>pool_store :=
            arr_put elem_index ((aget (pool_store p) elem_index)\<lparr>blk_is_free := True\<rparr>)
              (pool_store p)\<rparr>)))))"

text \<open>
  A member access through a pointer into the pool. A freed block keeps its bytes, so an access
  through a dangling pointer reads or writes the stale object.
\<close>

definition pool_load :: "'a MemPool \<Rightarrow> nat option \<Rightarrow> fault + 'a" where
  "pool_load p q = (case q of None \<Rightarrow> Inl Null_deref
     | Some i \<Rightarrow> map_sum id blk_object (arr_idx (pool_store p) i))"

definition pool_modify :: "nat option \<Rightarrow> ('a \<Rightarrow> 'a) \<Rightarrow> ('a MemPool, unit) prog" where
  "pool_modify q f =
     bnd (rd (\<lambda>p. p)) (\<lambda>p.
     bnd (lift_res (pool_load p q)) (\<lambda>ob.
     wr (\<lambda>p. p\<lparr>pool_store := arr_put (the q)
        \<lparr>blk_object = f ob, blk_is_free = blk_is_free (aget (pool_store p) (the q))\<rparr> (pool_store p)\<rparr>)))"

section \<open>The view of a pool\<close>

definition pool_obj :: "'a MemPool \<Rightarrow> nat \<Rightarrow> 'a" where
  "pool_obj p i = blk_object (aget (pool_store p) i)"

definition pool_live :: "'a MemPool \<Rightarrow> nat set" where
  "pool_live p = {i. i < alen (pool_store p) \<and> \<not> blk_is_free (aget (pool_store p) i)}"

definition pool_cap :: "'a MemPool \<Rightarrow> nat" where
  "pool_cap p = alen (pool_store p)"

definition pool_ok :: "'a MemPool \<Rightarrow> bool" where
  "pool_ok p \<longleftrightarrow> pool_next_free_index p < pool_cap p \<and> pool_next_free_index p \<notin> pool_live p"

definition pool_write :: "nat \<Rightarrow> 'a \<Rightarrow> 'a MemPool \<Rightarrow> 'a MemPool" where
  "pool_write i x p = p\<lparr>pool_store := arr_put i
     \<lparr>blk_object = x, blk_is_free = blk_is_free (aget (pool_store p) i)\<rparr> (pool_store p)\<rparr>"

lemmas pool_view_defs = pool_obj_def pool_live_def pool_cap_def pool_ok_def

lemma finite_pool_live [simp]: "finite (pool_live p)"
  by (rule finite_subset [of _ "{..<alen (pool_store p)}"]) (auto simp: pool_live_def)

lemma pool_live_bound: "i \<in> pool_live p \<Longrightarrow> i < pool_cap p"
  by (simp add: pool_live_def pool_cap_def)

lemma pool_load_None [simp]: "pool_load p None = Inl Null_deref"
  by (simp add: pool_load_def)

lemma pool_load_Some: "i < pool_cap p \<Longrightarrow> pool_load p (Some i) = Inr (pool_obj p i)"
  by (simp add: pool_load_def pool_view_defs)

lemma pool_load_out: "\<not> i < pool_cap p \<Longrightarrow> pool_load p (Some i) = Inl Out_of_bounds"
  by (simp add: pool_load_def pool_view_defs arr_idx_def)

lemma pool_modify_Some:
  "i < pool_cap p \<Longrightarrow> pool_modify (Some i) f p = Inr ((), pool_write i (f (pool_obj p i)) p)"
  by (simp add: pool_modify_def pool_load_Some bnd_def lift_res_def pool_write_def)

lemma pool_modify_None: "pool_modify None f p = Inl Null_deref"
  by (simp add: pool_modify_def bnd_def lift_res_def)

lemma pool_modify_eq_Inr:
  "pool_modify q f p = Inr (u, p') \<longleftrightarrow>
     (\<exists>i. q = Some i \<and> i < pool_cap p \<and> p' = pool_write i (f (pool_obj p i)) p)"
proof (cases q)
  case None
  then show ?thesis by (simp add: pool_modify_None)
next
  case (Some i)
  then show ?thesis
    by (cases "i < pool_cap p") (auto simp: pool_modify_Some, simp add: pool_modify_def pool_load_out)
qed

lemma pool_write_view [simp]:
  "pool_obj (pool_write i x p) = (pool_obj p)(i := x)"
  "pool_live (pool_write i x p) = pool_live p"
  "pool_cap (pool_write i x p) = pool_cap p"
  "pool_next_free_index (pool_write i x p) = pool_next_free_index p"
  by (auto simp: pool_write_def pool_view_defs fun_eq_iff)

lemma pool_ok_write [simp]: "pool_ok (pool_write i x p) = pool_ok p"
  by (simp add: pool_ok_def)

section \<open>The search for the next free block\<close>

text \<open>The indices the loop still has to look at, from \<open>next\<close> round to \<open>initial\<close>.\<close>

definition ahead :: "nat \<Rightarrow> nat \<Rightarrow> nat \<Rightarrow> nat set" where
  "ahead n initial next = (if next < initial then {next..<initial} else {next..<n} \<union> {..<initial})"

lemma updateNextFreeIndex_loop_spec:
  assumes "initial < alen st" "next < alen st"
  shows "case updateNextFreeIndex_loop st initial next of
      Inl e \<Rightarrow> e = Fatal ''Memory Pool out of space.'' \<and>
        (\<forall>j \<in> ahead (alen st) initial next. \<not> blk_is_free (aget st j))
    | Inr j \<Rightarrow> j \<in> ahead (alen st) initial next \<and> blk_is_free (aget st j)"
  using assms
proof (induction st initial "next" rule: updateNextFreeIndex_loop.induct)
  case (1 st initial "next")
  let ?n' = "if next + 1 = alen st then 0 else next + 1"
  have here: "next \<in> ahead (alen st) initial next"
    using 1 by (simp add: ahead_def)
  show ?case
  proof (cases "blk_is_free (aget st next)")
    case True
    with 1 here show ?thesis by (subst updateNextFreeIndex_loop.simps) simp
  next
    case busy: False
    show ?thesis
    proof (cases "initial = ?n'")
      case True
      then have "ahead (alen st) initial next = {next}"
        using 1 by (auto simp: ahead_def split: if_splits)
      with True busy 1 show ?thesis by (subst updateNextFreeIndex_loop.simps) simp
    next
      case False
      have "ahead (alen st) initial next = insert next (ahead (alen st) initial ?n')"
        using 1 False by (auto simp: ahead_def split: if_splits)
      moreover have "?n' < alen st" using 1 by auto
      ultimately show ?thesis
        using 1 False busy
        by (subst updateNextFreeIndex_loop.simps) (auto simp: Let_def split: sum.splits)
    qed
  qed
qed

lemma updateNextFreeIndex_loop_whole:
  assumes "i < alen st"
  shows "(\<exists>j. updateNextFreeIndex_loop st i i = Inr j \<and> j < alen st \<and> blk_is_free (aget st j)) \<or>
    updateNextFreeIndex_loop st i i = Inl (Fatal ''Memory Pool out of space.'') \<and>
      (\<forall>j < alen st. \<not> blk_is_free (aget st j))"
proof -
  have "ahead (alen st) i i = {..<alen st}" using assms by (auto simp: ahead_def)
  then show ?thesis
    using updateNextFreeIndex_loop_spec [OF assms assms]
    by (auto split: sum.splits)
qed

section \<open>What allocation and deallocation do\<close>

lemma allocate_cases:
  assumes "pool_ok p"
  defines "i \<equiv> pool_next_free_index p"
  shows "(\<exists>p'. allocate x p = Inr (Some i, p') \<and> pool_ok p' \<and> pool_live p' = insert i (pool_live p)
            \<and> pool_obj p' = (pool_obj p)(i := x) \<and> pool_cap p' = pool_cap p
            \<and> card (pool_live p) + 1 < pool_cap p)
       \<or> allocate x p = Inl (Fatal ''Memory Pool out of space.'') \<and> card (pool_live p) + 1 = pool_cap p"
proof -
  let ?st = "arr_put i \<lparr>blk_object = x, blk_is_free = False\<rparr> (pool_store p)"
  let ?q = "p\<lparr>pool_store := ?st\<rparr>"
  have i: "i < alen (pool_store p)" "blk_is_free (aget (pool_store p) i)" "i \<notin> pool_live p"
    using assms by (auto simp: pool_view_defs)
  have live: "pool_live ?q = insert i (pool_live p)"
    using i by (auto simp: pool_live_def)
  have run: "allocate x p = (case updateNextFreeIndex_loop ?st i i of
      Inl e \<Rightarrow> Inl e | Inr n \<Rightarrow> Inr (Some i, ?q\<lparr>pool_next_free_index := n\<rparr>))"
    using i unfolding i_def
    by (simp add: allocate_def updateNextFreeIndex_def bnd_def sq_def split: sum.splits)
  have card: "card (pool_live ?q) = card (pool_live p) + 1"
    using i live by simp
  from i have "i < alen ?st" by simp
  from updateNextFreeIndex_loop_whole [OF this] show ?thesis
  proof (elim disjE exE conjE)
    fix j assume j: "updateNextFreeIndex_loop ?st i i = Inr j" "j < alen ?st" "blk_is_free (aget ?st j)"
    have "pool_live ?q \<subset> {..<pool_cap p}"
    proof (rule psubsetI)
      show "pool_live ?q \<subseteq> {..<pool_cap p}" using i by (auto simp: pool_live_def pool_cap_def)
      have "j \<in> {..<pool_cap p} - pool_live ?q" using j by (simp add: pool_live_def pool_cap_def)
      then show "pool_live ?q \<noteq> {..<pool_cap p}" by blast
    qed
    from psubset_card_mono [OF _ this] have "card (pool_live p) + 1 < pool_cap p"
      unfolding card by simp
    note small = this
    let ?r = "?q\<lparr>pool_next_free_index := j\<rparr>"
    have "pool_live ?r = insert i (pool_live p)" using live by (simp add: pool_live_def)
    moreover have "pool_obj ?r = (pool_obj p)(i := x)" by (simp add: pool_obj_def fun_eq_iff)
    moreover have "pool_ok ?r" using j by (simp add: pool_view_defs)
    moreover have "pool_cap ?r = pool_cap p" by (simp add: pool_cap_def)
    moreover have "allocate x p = Inr (Some i, ?r)" using run j by simp
    ultimately show ?thesis using small by blast
  next
    assume j: "updateNextFreeIndex_loop ?st i i = Inl (Fatal ''Memory Pool out of space.'')"
      "\<forall>j<alen ?st. \<not> blk_is_free (aget ?st j)"
    then have "pool_live ?q = {..<pool_cap p}"
      by (auto simp: pool_live_def pool_cap_def)
    with card have "card (pool_live p) + 1 = pool_cap p" by simp
    with run j show ?thesis by simp
  qed
qed

lemma deallocate_live:
  assumes "i \<in> pool_live p"
  shows "\<exists>p'. deallocate (Some i) p = Inr ((), p') \<and> pool_live p' = pool_live p - {i} \<and>
    pool_obj p' = pool_obj p \<and> pool_cap p' = pool_cap p \<and> (pool_ok p \<longrightarrow> pool_ok p')"
proof -
  let ?p = "p\<lparr>pool_store := arr_put i ((aget (pool_store p) i)\<lparr>blk_is_free := True\<rparr>) (pool_store p)\<rparr>"
  have i: "i < alen (pool_store p)" "\<not> blk_is_free (aget (pool_store p) i)"
    using assms by (simp_all add: pool_live_def)
  then have "deallocate (Some i) p = Inr ((), ?p)"
    by (simp add: deallocate_def bnd_def sq_def)
  moreover have "pool_live ?p = pool_live p - {i}" by (auto simp: pool_live_def)
  moreover have "pool_obj ?p = pool_obj p" by (auto simp: pool_obj_def)
  ultimately show ?thesis by (auto simp: pool_ok_def pool_cap_def)
qed

lemma deallocate_None: "deallocate None p =
    Inl (Fatal ''Element being deallocated does not belong to this Memory pool.'')"
  by (simp add: deallocate_def bnd_def)

lemma deallocate_dead:
  assumes "i \<notin> pool_live p"
  shows "\<exists>m. deallocate (Some i) p = Inl (Fatal m)"
  using assms by (cases "i < alen (pool_store p)")
    (auto simp: deallocate_def pool_view_defs bnd_def sq_def ASSERT_def)

section \<open>The interface of a pool\<close>

locale object_pool =
  fixes alloc :: "'a \<Rightarrow> 'p \<Rightarrow> fault + nat option \<times> 'p"
    and release :: "nat option \<Rightarrow> 'p \<Rightarrow> fault + unit \<times> 'p"
    and object_at :: "'p \<Rightarrow> nat \<Rightarrow> 'a"
    and store_at :: "nat \<Rightarrow> 'a \<Rightarrow> 'p \<Rightarrow> 'p"
    and in_use :: "'p \<Rightarrow> nat set"
    and capacity :: "'p \<Rightarrow> nat"
    and ok :: "'p \<Rightarrow> bool"
  assumes finite_in_use: "finite (in_use p)"
    and in_use_bound: "i \<in> in_use p \<Longrightarrow> i < capacity p"
    and alloc_room: "ok p \<Longrightarrow> card (in_use p) + 1 < capacity p \<Longrightarrow>
      \<exists>i p'. alloc x p = Inr (Some i, p') \<and> ok p' \<and> i \<notin> in_use p \<and> i < capacity p \<and>
        in_use p' = insert i (in_use p) \<and> object_at p' = (object_at p)(i := x) \<and>
        capacity p' = capacity p"
    and alloc_full: "ok p \<Longrightarrow> capacity p \<le> card (in_use p) + 1 \<Longrightarrow> \<exists>m. alloc x p = Inl (Fatal m)"
    and release_used: "i \<in> in_use p \<Longrightarrow>
      \<exists>p'. release (Some i) p = Inr ((), p') \<and> in_use p' = in_use p - {i} \<and>
        object_at p' = object_at p \<and> capacity p' = capacity p \<and> (ok p \<longrightarrow> ok p')"
    and release_unused: "i \<notin> in_use p \<Longrightarrow> \<exists>m. release (Some i) p = Inl (Fatal m)"
    and release_null: "\<exists>m. release None p = Inl (Fatal m)"
    and object_at_store: "object_at (store_at i x p) = (object_at p)(i := x)"
    and in_use_store: "in_use (store_at i x p) = in_use p"
    and ok_store: "ok (store_at i x p) = ok p"
    and capacity_store: "capacity (store_at i x p) = capacity p"
begin

lemma alloc_Inr:
  assumes "ok p" "alloc x p = Inr (q, p')"
  obtains i where "q = Some i" "ok p'" "i \<notin> in_use p" "i < capacity p"
    "in_use p' = insert i (in_use p)" "object_at p' = (object_at p)(i := x)"
    "capacity p' = capacity p" "card (in_use p) + 1 < capacity p"
proof -
  have room: "card (in_use p) + 1 < capacity p"
    using alloc_full [OF assms(1), of x] assms(2) by force
  with alloc_room [OF assms(1) room, of x] assms(2) that show thesis by auto
qed

lemma release_Inr:
  assumes "release q p = Inr (u, p')"
  obtains i where "q = Some i" "i \<in> in_use p" "in_use p' = in_use p - {i}"
    "object_at p' = object_at p" "capacity p' = capacity p" "ok p \<Longrightarrow> ok p'"
proof (cases q)
  case None
  with release_null [of p] assms show thesis by auto
next
  case (Some i)
  then have "i \<in> in_use p" using release_unused [of i p] assms by auto
  with release_used [of i p] assms Some that show thesis by auto
qed

lemma double_release:
  assumes "release q p = Inr (u, p')"
  shows "\<exists>m. release q p' = Inl (Fatal m)"
  using assms by (rule release_Inr) (auto intro: release_unused)

lemma release_card:
  assumes "release q p = Inr (u, p')"
  shows "card (in_use p') < card (in_use p)"
  using assms by (rule release_Inr) (metis card_Diff1_less finite_in_use)

lemma alloc_release:
  assumes "ok p" "alloc x p = Inr (q, p')"
  shows "\<exists>p''. release q p' = Inr ((), p'') \<and> ok p'' \<and> in_use p'' = in_use p"
proof -
  from assms obtain i where i: "q = Some i" "ok p'" "i \<notin> in_use p" "in_use p' = insert i (in_use p)"
    by (rule alloc_Inr)
  with release_used [of i p'] show ?thesis by auto
qed

end

interpretation mp: object_pool allocate deallocate pool_obj pool_write pool_live pool_cap pool_ok
proof unfold_locales
  fix p :: "'a MemPool" and x :: 'a
  assume p: "pool_ok p"
  let ?i = "pool_next_free_index p"
  have i: "?i \<notin> pool_live p" "?i < pool_cap p" using p by (simp_all add: pool_ok_def)
  show "\<exists>i p'. allocate x p = Inr (Some i, p') \<and> pool_ok p' \<and> i \<notin> pool_live p \<and> i < pool_cap p \<and>
      pool_live p' = insert i (pool_live p) \<and> pool_obj p' = (pool_obj p)(i := x) \<and>
      pool_cap p' = pool_cap p" if "card (pool_live p) + 1 < pool_cap p"
    using allocate_cases [OF p, of x] that i by auto
  show "\<exists>m. allocate x p = Inl (Fatal m)" if "pool_cap p \<le> card (pool_live p) + 1"
    using allocate_cases [OF p, of x] that by auto
qed (simp_all add: pool_live_bound deallocate_None deallocate_live deallocate_dead)

section \<open>A new pool\<close>

lemma MemPool_new_view:
  "pool_live (MemPool_new n d) = {}" "pool_cap (MemPool_new n d) = n"
  "pool_ok (MemPool_new n d) \<longleftrightarrow> 0 < n"
  by (auto simp: MemPool_new_def pool_view_defs)

section \<open>Properties\<close>

text \<open>
  C35. Allocation either returns a block that was not in use and now holds the new object, leaving
  every other block as it was, or it stops the process; it stops exactly when it would have taken
  the last free block: a pool of \<open>n\<close> blocks serves \<open>n - 1\<close> live objects.
\<close>

theorem allocate_correct:
  assumes "pool_ok p"
  shows "(card (pool_live p) + 1 < pool_cap p \<and>
           (\<exists>i p'. allocate x p = Inr (Some i, p') \<and> i \<notin> pool_live p \<and> i < pool_cap p \<and>
              pool_live p' = insert i (pool_live p) \<and> pool_obj p' = (pool_obj p)(i := x) \<and>
              pool_ok p'))
       \<or> (card (pool_live p) + 1 = pool_cap p \<and>
           allocate x p = Inl (Fatal ''Memory Pool out of space.''))"
  using allocate_cases [OF assms, of x] assms by (auto simp: pool_ok_def)

theorem allocate_correct_witness:
  "(card (pool_live (MemPool_new 3 (0::nat))) + 1 < pool_cap (MemPool_new 3 (0::nat)) \<and>
     (\<exists>i p'. allocate 5 (MemPool_new 3 (0::nat)) = Inr (Some i, p') \<and>
        i \<notin> pool_live (MemPool_new 3 (0::nat)) \<and> i < pool_cap (MemPool_new 3 (0::nat)) \<and>
        pool_live p' = insert i (pool_live (MemPool_new 3 (0::nat))) \<and>
        pool_obj p' = (pool_obj (MemPool_new 3 (0::nat)))(i := 5) \<and> pool_ok p'))
   \<or> (card (pool_live (MemPool_new 3 (0::nat))) + 1 = pool_cap (MemPool_new 3 (0::nat)) \<and>
     allocate 5 (MemPool_new 3 (0::nat)) = Inl (Fatal ''Memory Pool out of space.''))"
  by (rule allocate_correct) (simp add: MemPool_new_view)

text \<open>
  Deallocation of a pointer succeeds exactly on a block in use, which becomes free while its
  bytes stay; on \<open>nullptr\<close>, on a foreign pointer and on a block already freed it stops the process.
  A second deallocation of the same pointer therefore always stops it.
\<close>

theorem deallocate_correct:
  "(case deallocate q p of
      Inr (u, p') \<Rightarrow> (\<exists>i. q = Some i \<and> i \<in> pool_live p \<and> pool_live p' = pool_live p - {i} \<and>
        pool_obj p' = pool_obj p \<and> (\<exists>m. deallocate q p' = Inl (Fatal m)))
    | Inl e \<Rightarrow> (\<exists>m. e = Fatal m) \<and> q \<notin> Some ` pool_live p)"
proof (cases "deallocate q p")
  case (Inl e)
  then show ?thesis
    using mp.release_null [of p] mp.release_unused [of _ p] mp.release_used [of _ p]
    by (cases q) (auto, (metis old.sum.exhaust sum.inject(1) Inr_not_Inl)+)
next
  case (Inr r)
  then obtain u p' where r: "deallocate q p = Inr (u, p')" by (cases r) auto
  from r obtain i where i: "q = Some i" "i \<in> pool_live p" "pool_live p' = pool_live p - {i}"
    "pool_obj p' = pool_obj p"
    by (rule mp.release_Inr)
  moreover from mp.double_release [OF r] have "\<exists>m. deallocate q p' = Inl (Fatal m)" .
  ultimately show ?thesis using r by auto
qed

end
