(* ===== verification/Lock_Free_Queue.thy ===== *)
theory Lock_Free_Queue
  imports Prelude
begin

text \<open>
  \<open>low-latency-components/lock_free_queue.h\<close>, one call at a time (the interleavings of the two
  threads are in \<open>Queue_Threads\<close>): a ring of slots, a read and a write index and a counter. The
  locale \<open>fifo\<close> is what the users of a queue rely on; the interpretation \<open>lfq\<close> shows that the ring
  provides it as long as fewer elements are pending than there are slots.
\<close>

section \<open>The queue\<close>

text \<open>The counter starts at 0; it would take \<open>2 ^ 64\<close> unread writes for it to wrap, so it is a \<open>nat\<close>.\<close>

record 'a LFQueue =
  q_store :: "'a carray"
  q_next_write_index :: nat
  q_next_read_index :: nat
  q_num_elements :: nat

definition LFQueue_new :: "nat \<Rightarrow> 'a \<Rightarrow> 'a LFQueue" where
  "LFQueue_new num_elems dflt =
     \<lparr>q_store = arr_fill num_elems dflt, q_next_write_index = 0, q_next_read_index = 0,
      q_num_elements = 0\<rparr>"

text \<open>\<open>getNextToWriteTo\<close> returns the address of a slot, here its index.\<close>

definition getNextToWriteTo :: "('a LFQueue, nat) prog" where
  "getNextToWriteTo = rd q_next_write_index"

text \<open>The assignment \<open>*next_write = x\<close> its callers make.\<close>

definition write_slot :: "nat \<Rightarrow> 'a \<Rightarrow> ('a LFQueue, unit) prog" where
  "write_slot i x =
     bnd (rd q_store) (\<lambda>st.
     sq (lift_res (map_sum id (\<lambda>_. ()) (arr_idx st i)))
    (wr (\<lambda>q. q\<lparr>q_store := arr_put i x (q_store q)\<rparr>)))"

definition next_index :: "nat \<Rightarrow> 'a LFQueue \<Rightarrow> fault + nat" where
  "next_index i q = (if alen (q_store q) = 0 then Inl Div_by_zero else Inr ((i + 1) mod alen (q_store q)))"

definition updateWriteIndex :: "('a LFQueue, unit) prog" where
  "updateWriteIndex =
     bnd (rd (\<lambda>q. next_index (q_next_write_index q) q)) (\<lambda>r.
     bnd (lift_res r) (\<lambda>i.
     sq (wr (\<lambda>q. q\<lparr>q_next_write_index := i\<rparr>))
    (wr (\<lambda>q. q\<lparr>q_num_elements := q_num_elements q + 1\<rparr>))))"

text \<open>\<open>getNextToRead\<close>: \<open>nullptr\<close> when the indices meet, else the address of the slot.\<close>

definition getNextToRead :: "('a LFQueue, nat option) prog" where
  "getNextToRead =
     rd (\<lambda>q. if q_next_read_index q = q_next_write_index q then None else Some (q_next_read_index q))"

definition read_slot :: "nat \<Rightarrow> ('a LFQueue, 'a) prog" where
  "read_slot i = bnd (rd q_store) (\<lambda>st. lift_res (arr_idx st i))"

definition updateReadIndex :: "('a LFQueue, unit) prog" where
  "updateReadIndex =
     bnd (rd (\<lambda>q. next_index (q_next_read_index q) q)) (\<lambda>r.
     bnd (lift_res r) (\<lambda>i.
     sq (wr (\<lambda>q. q\<lparr>q_next_read_index := i\<rparr>))
    (bnd (rd q_num_elements) (\<lambda>n.
     sq (ASSERT (n \<noteq> 0) ''Read an invalid element in: '')
    (wr (\<lambda>q. q\<lparr>q_num_elements := q_num_elements q - 1\<rparr>))))))"

definition LFQueue_size :: "('a LFQueue, nat) prog" where
  "LFQueue_size = rd q_num_elements"

text \<open>
  The idiom of all producers: take the next slot, assign to it, publish it
  (\<open>Logger::pushValue\<close>, \<open>sendClientResponse\<close>, \<open>sendMarketUpdate\<close>, \<open>sequenceAndPublish\<close>).
\<close>

definition push_elem :: "'a \<Rightarrow> ('a LFQueue, unit) prog" where
  "push_elem x = bnd getNextToWriteTo (\<lambda>next_write. sq (write_slot next_write x) updateWriteIndex)"

text \<open>The idiom of the consumers: look at the next slot, and, when there is one, read and release it.\<close>

definition peek :: "('a LFQueue, 'a option) prog" where
  "peek = bnd getNextToRead (\<lambda>r. case r of None \<Rightarrow> ret None
     | Some i \<Rightarrow> bnd (read_slot i) (\<lambda>x. ret (Some x)))"

section \<open>The view of a queue\<close>

definition q_cap :: "'a LFQueue \<Rightarrow> nat" where
  "q_cap q = alen (q_store q)"

definition q_wf :: "'a LFQueue \<Rightarrow> bool" where
  "q_wf q \<longleftrightarrow> q_next_write_index q < q_cap q \<and> q_next_read_index q < q_cap q"

text \<open>The elements pending, oldest first.\<close>

definition q_list :: "'a LFQueue \<Rightarrow> 'a list" where
  "q_list q = map (\<lambda>k. aget (q_store q) ((q_next_read_index q + k) mod q_cap q)) [0..<q_num_elements q]"

text \<open>Counter and indices agree, and one slot is left empty.\<close>

definition q_ok :: "'a LFQueue \<Rightarrow> bool" where
  "q_ok q \<longleftrightarrow> q_wf q \<and> q_num_elements q < q_cap q \<and>
     q_next_write_index q = (q_next_read_index q + q_num_elements q) mod q_cap q"

definition q_room :: "'a LFQueue \<Rightarrow> nat" where
  "q_room q = q_cap q - 1 - q_num_elements q"

text \<open>What a push does to a well-formed queue, whether or not there is room.\<close>

definition q_push :: "'a \<Rightarrow> 'a LFQueue \<Rightarrow> 'a LFQueue" where
  "q_push x q = q\<lparr>q_store := arr_put (q_next_write_index q) x (q_store q),
     q_next_write_index := (q_next_write_index q + 1) mod q_cap q,
     q_num_elements := q_num_elements q + 1\<rparr>"

lemma push_elem_run: "q_wf q \<Longrightarrow> push_elem x q = Inr ((), q_push x q)"
  by (auto simp: push_elem_def getNextToWriteTo_def write_slot_def updateWriteIndex_def next_index_def
      q_wf_def q_cap_def q_push_def bnd_def sq_def)

lemma q_push_sel [simp]:
  "q_cap (q_push x q) = q_cap q"
  "q_num_elements (q_push x q) = q_num_elements q + 1"
  "q_next_read_index (q_push x q) = q_next_read_index q"
  by (simp_all add: q_push_def q_cap_def)

lemma q_wf_push [simp]: "q_wf q \<Longrightarrow> q_wf (q_push x q)"
  by (auto simp: q_wf_def q_push_def q_cap_def)

lemma q_num_push_all [simp]: "q_num_elements (fold q_push xs q) = q_num_elements q + length xs"
  by (induction xs arbitrary: q) auto

lemma q_cap_push_all [simp]: "q_cap (fold q_push xs q) = q_cap q"
  by (induction xs arbitrary: q) auto

lemma q_wf_push_all [simp]: "q_wf q \<Longrightarrow> q_wf (fold q_push xs q)"
  by (induction xs arbitrary: q) auto

lemma q_ok_wf: "q_ok q \<Longrightarrow> q_wf q"
  by (simp add: q_ok_def)

lemma mod_add_ne: "k < n \<Longrightarrow> n < m \<Longrightarrow> (r + k) mod m \<noteq> (r + n) mod (m::nat)"
proof
  assume kn: "k < n" "n < m" and eq: "(r + k) mod m = (r + n) mod m"
  then have "m dvd (r + n) - (r + k)" by (metis mod_eq_dvd_iff_nat nat_add_left_cancel_le less_imp_le)
  with kn show False by (simp add: dvd_imp_le nat_dvd_not_less)
qed

lemma q_ok_push: "q_ok q \<Longrightarrow> 0 < q_room q \<Longrightarrow> q_ok (q_push x q)"
  by (auto simp: q_ok_def q_room_def q_push_def q_wf_def q_cap_def mod_Suc_eq)

lemma q_list_push:
  assumes "q_ok q"
  shows "q_list (q_push x q) = q_list q @ [x]"
proof -
  let ?n = "q_num_elements q" and ?r = "q_next_read_index q"
  have w: "q_next_write_index q = (?r + ?n) mod q_cap q" "?n < q_cap q"
    using assms by (simp_all add: q_ok_def)
  have "aget (q_store (q_push x q)) ((?r + k) mod q_cap q) = aget (q_store q) ((?r + k) mod q_cap q)"
    if "k < ?n" for k
    using mod_add_ne [OF that w(2), of ?r] w(1) by (simp add: q_push_def)
  then show ?thesis
    using w by (simp add: q_list_def) (simp add: q_push_def)
qed

lemma peek_run:
  "q_ok q \<Longrightarrow> peek q = Inr (case q_list q of [] \<Rightarrow> None | x # _ \<Rightarrow> Some x, q)"
proof -
  assume q: "q_ok q"
  show ?thesis
  proof (cases "q_num_elements q = 0")
    case True
    with q show ?thesis
      by (simp add: peek_def getNextToRead_def bnd_def q_ok_def q_wf_def q_list_def)
  next
    case False
    with q have "q_next_read_index q mod q_cap q \<noteq> q_next_write_index q"
      using mod_add_ne [of 0 "q_num_elements q" "q_cap q" "q_next_read_index q"] by (simp add: q_ok_def)
    with q False show ?thesis
      by (simp add: peek_def getNextToRead_def read_slot_def bnd_def q_ok_def q_wf_def q_list_def
          q_cap_def arr_idx_def upt_conv_Cons)
  qed
qed

definition q_pop :: "'a LFQueue \<Rightarrow> 'a LFQueue" where
  "q_pop q = q\<lparr>q_next_read_index := (q_next_read_index q + 1) mod q_cap q,
     q_num_elements := q_num_elements q - 1\<rparr>"

lemma updateReadIndex_run:
  "q_wf q \<Longrightarrow> q_num_elements q \<noteq> 0 \<Longrightarrow> updateReadIndex q = Inr ((), q_pop q)"
  by (auto simp: updateReadIndex_def next_index_def q_wf_def q_cap_def q_pop_def bnd_def sq_def)

lemma updateReadIndex_empty:
  "q_wf q \<Longrightarrow> q_num_elements q = 0 \<Longrightarrow>
    updateReadIndex q = Inl (Fatal ''Read an invalid element in: '')"
  by (auto simp: updateReadIndex_def next_index_def q_wf_def q_cap_def bnd_def sq_def)

lemma length_q_list [simp]: "length (q_list q) = q_num_elements q"
  by (simp add: q_list_def)

lemma q_ok_pop:
  assumes "q_ok q" "q_list q \<noteq> []"
  shows "q_ok (q_pop q)"
proof -
  obtain n where n: "q_num_elements q = Suc n"
    using assms(2) by (metis length_0_conv length_q_list not0_implies_Suc)
  have "(Suc (q_next_read_index q) mod q_cap q + n) mod q_cap q = (q_next_read_index q + Suc n) mod q_cap q"
    by (simp add: mod_add_left_eq)
  with assms(1) n show ?thesis
    by (auto simp: q_ok_def q_wf_def q_pop_def q_cap_def)
qed

lemma q_list_pop: "q_ok q \<Longrightarrow> q_list (q_pop q) = tl (q_list q)"
proof (cases "q_num_elements q")
  case 0
  then show ?thesis by (simp add: q_list_def q_pop_def)
next
  case (Suc n)
  then show ?thesis
    by (simp add: q_list_def q_pop_def q_cap_def upt_conv_Cons map_Suc_upt [symmetric] mod_add_left_eq
        del: upt_Suc)
qed

section \<open>The interface of a queue\<close>

locale fifo =
  fixes push :: "'a \<Rightarrow> 'q \<Rightarrow> fault + unit \<times> 'q"
    and front :: "'q \<Rightarrow> fault + 'a option \<times> 'q"
    and pop :: "'q \<Rightarrow> fault + unit \<times> 'q"
    and contents :: "'q \<Rightarrow> 'a list"
    and room :: "'q \<Rightarrow> nat"
    and ok :: "'q \<Rightarrow> bool"
  assumes push_room: "ok q \<Longrightarrow> 0 < room q \<Longrightarrow>
      \<exists>q'. push x q = Inr ((), q') \<and> ok q' \<and> contents q' = contents q @ [x] \<and> room q' = room q - 1"
    and front_ok: "ok q \<Longrightarrow> front q = Inr (case contents q of [] \<Rightarrow> None | x # _ \<Rightarrow> Some x, q)"
    and pop_ok: "ok q \<Longrightarrow> contents q \<noteq> [] \<Longrightarrow>
      \<exists>q'. pop q = Inr ((), q') \<and> ok q' \<and> contents q' = tl (contents q) \<and> room q' = room q + 1"
    and pop_empty: "ok q \<Longrightarrow> contents q = [] \<Longrightarrow> \<exists>m. pop q = Inl (Fatal m)"
begin

lemma push_Inr:
  assumes "ok q" "0 < room q" "push x q = Inr (u, q')"
  shows "ok q'" "contents q' = contents q @ [x]" "room q' = room q - 1"
  using push_room [OF assms(1,2), of x] assms(3) by auto

text \<open>A batch of pushes appends the batch, in order.\<close>

lemma push_batch:
  assumes "ok q" "length xs \<le> room q" and step: "\<And>x q. ok q \<Longrightarrow> push x q = Inr ((), upd x q)"
  shows "ok (fold upd xs q) \<and> contents (fold upd xs q) = contents q @ xs \<and>
    room (fold upd xs q) = room q - length xs"
  using assms(1,2)
proof (induction xs arbitrary: q)
  case Nil
  then show ?case by simp
next
  case (Cons x xs)
  then have "0 < room q" by simp
  note p = push_Inr [OF Cons.prems(1) this step [OF Cons.prems(1)]]
  with Cons show ?case by simp
qed

text \<open>What is pushed comes out in the order of pushing.\<close>

lemma push_front:
  assumes "ok q" "0 < room q" "contents q = []" "push x q = Inr (u, q')"
  shows "front q' = Inr (Some x, q')"
  using push_Inr [OF assms(1,2,4)] assms(3) by (simp add: front_ok)

lemma push_pop:
  assumes "ok q" "0 < room q" "push x q = Inr (u, q')"
  shows "\<exists>q''. pop q' = Inr ((), q'') \<and> ok q'' \<and> contents q'' = tl (contents q @ [x]) \<and> room q'' = room q"
  using push_Inr [OF assms] pop_ok [of q'] assms(2) by auto

end

interpretation lfq: fifo push_elem peek updateReadIndex q_list q_room q_ok
proof unfold_locales
  fix q :: "'a LFQueue" and x :: 'a
  assume q: "q_ok q"
  show "\<exists>q'. push_elem x q = Inr ((), q') \<and> q_ok q' \<and> q_list q' = q_list q @ [x] \<and>
      q_room q' = q_room q - 1" if "0 < q_room q"
    using q that by (simp add: push_elem_run q_ok_wf q_ok_push q_list_push) (simp add: q_room_def)
  show "peek q = Inr (case q_list q of [] \<Rightarrow> None | x # _ \<Rightarrow> Some x, q)"
    using q by (rule peek_run)
  have n: "q_list q = [] \<longleftrightarrow> q_num_elements q = 0" by (metis length_0_conv length_q_list)
  show "\<exists>q'. updateReadIndex q = Inr ((), q') \<and> q_ok q' \<and> q_list q' = tl (q_list q) \<and>
      q_room q' = q_room q + 1" if ne: "q_list q \<noteq> []"
  proof -
    have "updateReadIndex q = Inr ((), q_pop q)"
      using q ne n by (intro updateReadIndex_run) (auto simp: q_ok_wf)
    moreover have "q_room (q_pop q) = q_room q + 1"
      using q ne n by (auto simp: q_room_def q_pop_def q_cap_def q_ok_def)
    ultimately show ?thesis using q_ok_pop [OF q ne] q_list_pop [OF q] by blast
  qed
  show "\<exists>m. updateReadIndex q = Inl (Fatal m)" if "q_list q = []"
    using q that n by (auto simp: updateReadIndex_empty q_ok_wf)
qed

lemma q_push_batch:
  assumes "q_ok q" "length xs \<le> q_room q"
  shows "q_ok (fold q_push xs q)" "q_list (fold q_push xs q) = q_list q @ xs"
    "q_room (fold q_push xs q) = q_room q - length xs"
  using lfq.push_batch [OF assms, of q_push] by (simp_all add: push_elem_run q_ok_wf)

lemma LFQueue_new_ok: "0 < n \<Longrightarrow> q_ok (LFQueue_new n d)"
  by (simp add: LFQueue_new_def q_ok_def q_wf_def q_cap_def)

lemma LFQueue_new_view [simp]:
  "q_list (LFQueue_new n d) = []" "q_room (LFQueue_new n d) = n - 1" "q_cap (LFQueue_new n d) = n"
  by (simp_all add: LFQueue_new_def q_list_def q_room_def q_cap_def)

section \<open>Properties\<close>

text \<open>
  With one thread at a time the ring is a first-in first-out queue: while fewer than
  \<open>capacity - 1\<close> elements are pending a push appends; \<open>getNextToRead\<close> shows the oldest element
  without removing it; \<open>updateReadIndex\<close> drops it, and asserts when nothing is pending.
\<close>

theorem LFQueue_fifo:
  assumes "q_ok q"
  shows "(0 < q_room q \<longrightarrow>
      (\<exists>q'. push_elem x q = Inr ((), q') \<and> q_ok q' \<and> q_list q' = q_list q @ [x])) \<and>
    peek q = Inr (case q_list q of [] \<Rightarrow> None | y # _ \<Rightarrow> Some y, q) \<and>
    (case q_list q of [] \<Rightarrow> \<exists>m. updateReadIndex q = Inl (Fatal m)
      | y # ys \<Rightarrow> \<exists>q'. updateReadIndex q = Inr ((), q') \<and> q_ok q' \<and> q_list q' = ys)"
proof (intro conjI impI)
  show "0 < q_room q \<Longrightarrow> \<exists>q'. push_elem x q = Inr ((), q') \<and> q_ok q' \<and> q_list q' = q_list q @ [x]"
    using lfq.push_room [OF assms, of x] by blast
  show "peek q = Inr (case q_list q of [] \<Rightarrow> None | y # _ \<Rightarrow> Some y, q)"
    using assms by (rule lfq.front_ok)
  show "case q_list q of [] \<Rightarrow> \<exists>m. updateReadIndex q = Inl (Fatal m)
      | y # ys \<Rightarrow> \<exists>q'. updateReadIndex q = Inr ((), q') \<and> q_ok q' \<and> q_list q' = ys"
    using lfq.pop_ok [OF assms] lfq.pop_empty [OF assms] by (auto split: list.split)
qed

theorem LFQueue_fifo_witness:
  "\<exists>q'. push_elem (7::nat) (LFQueue_new 4 0) = Inr ((), q') \<and> q_ok q' \<and> q_list q' = [7]"
proof -
  have "q_ok (LFQueue_new 4 (0::nat))" by (rule LFQueue_new_ok) simp
  from LFQueue_fifo [OF this, of 7] show ?thesis by simp
qed

text \<open>
  Nothing checks for a full ring: pushing as many elements as there are slots onto an empty
  queue succeeds, the counter says all of them are pending, and yet the indices meet, so that the
  reader sees an empty queue.
\<close>

theorem LFQueue_overflow_looks_empty:
  assumes "q_ok q" "q_list q = []" "length xs = q_cap q"
  shows "q_wf (fold q_push xs q) \<and> q_num_elements (fold q_push xs q) = q_cap q \<and>
    peek (fold q_push xs q) = Inr (None, fold q_push xs q)"
proof -
  have n: "q_num_elements (fold q_push ys p) = q_num_elements p + length ys" for ys and p :: "'a LFQueue"
    by (induction ys arbitrary: p) auto
  have r: "q_next_read_index (fold q_push ys p) = q_next_read_index p" for ys and p :: "'a LFQueue"
    by (induction ys arbitrary: p) auto
  have w: "q_next_write_index (fold q_push ys p) = (q_next_write_index p + length ys) mod q_cap p"
    if "q_next_write_index p < q_cap p" for ys and p :: "'a LFQueue"
    using that
    by (induction ys arbitrary: p) (auto simp: q_push_def q_cap_def mod_add_left_eq)
  have e: "q_num_elements q = 0" using assms(2) by (metis length_0_conv length_q_list)
  have "q_next_write_index (fold q_push xs q) = q_next_read_index (fold q_push xs q)"
    using w [of q xs] r [of xs q] e assms(1,3) by (simp add: q_ok_def q_wf_def)
  then have "peek (fold q_push xs q) = Inr (None, fold q_push xs q)"
    by (simp add: peek_def getNextToRead_def bnd_def)
  then show ?thesis using n e assms by (simp add: q_ok_wf)
qed

theorem LFQueue_overflow_looks_empty_witness:
  "q_num_elements (fold q_push [1, 2, 3] (LFQueue_new 3 (0::nat))) = 3 \<and>
   peek (fold q_push [1, 2, 3] (LFQueue_new 3 (0::nat))) =
     Inr (None, fold q_push [1, 2, 3] (LFQueue_new 3 0))"
proof -
  have "q_ok (LFQueue_new 3 (0::nat))" by (rule LFQueue_new_ok) simp
  from LFQueue_overflow_looks_empty [OF this, of "[1, 2, 3]"] show ?thesis by simp
qed

end
