(* ===== verification/ME_Order_Book.thy ===== *)
theory ME_Order_Book
  imports Types Mem_Pool Lock_Free_Queue
begin

text \<open>
  \<open>exchange/matcher/me_order_book.h\<close> and \<open>me_order_book.cpp\<close>: the limit order book of one ticker,
  pointer by pointer. Orders and price levels live in two memory pools and are linked into
  circular lists through their \<open>prev\<close> and \<open>next\<close> fields; an array indexed by price modulo 256 and
  an array indexed by client and client order id hold pointers to them. Each member function is a
  computation on the book that may end in a fault; those that publish work on the book and the
  two outgoing queues of the matching engine. Logging is left out: it does not touch this state.
\<close>

section \<open>The book\<close>

record MEOrderBook =
  ob_ticker_id :: TickerId
  ob_cid_oid_to_order :: ClientOrderHashMap
  ob_orders_at_price_pool :: "MEOrdersAtPrice MemPool"
  ob_bids_at_price :: level_ptr
  ob_asks_at_price :: level_ptr
  ob_price_orders_at_price_hash_map :: OrdersAtPriceHashMap
  ob_order_pool :: "MEOrder MemPool"
  ob_client_response :: MEClientResponse
  ob_market_update :: MEMarketUpdate
  ob_next_market_order_id :: OrderId

definition MEOrderBook_new :: "TickerId \<Rightarrow> MEOrderBook" where
  "MEOrderBook_new ticker_id =
     \<lparr>ob_ticker_id = ticker_id,
      ob_cid_oid_to_order = arr_fill ME_MAX_NUM_CLIENTS (arr_fill ME_MAX_ORDER_IDS None),
      ob_orders_at_price_pool = MemPool_new ME_MAX_PRICE_LEVELS MEOrdersAtPrice_default,
      ob_bids_at_price = None,
      ob_asks_at_price = None,
      ob_price_orders_at_price_hash_map = arr_fill ME_MAX_PRICE_LEVELS None,
      ob_order_pool = MemPool_new ME_MAX_ORDER_IDS MEOrder_default,
      ob_client_response = MEClientResponse_default,
      ob_market_update = MEMarketUpdate_default,
      ob_next_market_order_id = 1\<rparr>"

section \<open>Member access\<close>

definition rd_lvl :: "level_ptr \<Rightarrow> (MEOrdersAtPrice \<Rightarrow> 'a) \<Rightarrow> (MEOrderBook, 'a) prog" where
  "rd_lvl p f = bnd (rd ob_orders_at_price_pool) (\<lambda>pl.
     bnd (lift_res (pool_load pl p)) (\<lambda>l. ret (f l)))"

definition rd_ord :: "order_ptr \<Rightarrow> (MEOrder \<Rightarrow> 'a) \<Rightarrow> (MEOrderBook, 'a) prog" where
  "rd_ord p f = bnd (rd ob_order_pool) (\<lambda>pl.
     bnd (lift_res (pool_load pl p)) (\<lambda>l. ret (f l)))"

definition on_lvl_pool :: "(MEOrdersAtPrice MemPool, 'a) prog \<Rightarrow> (MEOrderBook, 'a) prog" where
  "on_lvl_pool = zoom ob_orders_at_price_pool (\<lambda>pl b. b\<lparr>ob_orders_at_price_pool := pl\<rparr>)"

definition on_ord_pool :: "(MEOrder MemPool, 'a) prog \<Rightarrow> (MEOrderBook, 'a) prog" where
  "on_ord_pool = zoom ob_order_pool (\<lambda>pl b. b\<lparr>ob_order_pool := pl\<rparr>)"

definition wr_lvl :: "level_ptr \<Rightarrow> (MEOrdersAtPrice \<Rightarrow> MEOrdersAtPrice) \<Rightarrow> (MEOrderBook, unit) prog" where
  "wr_lvl p f = on_lvl_pool (pool_modify p f)"

definition wr_ord :: "order_ptr \<Rightarrow> (MEOrder \<Rightarrow> MEOrder) \<Rightarrow> (MEOrderBook, unit) prog" where
  "wr_ord p f = on_ord_pool (pool_modify p f)"

text \<open>\<open>cid_oid_to_order_.at(c).at(i)\<close>, read and assigned.\<close>

definition get_cid_oid :: "ClientId \<Rightarrow> OrderId \<Rightarrow> (MEOrderBook, order_ptr) prog" where
  "get_cid_oid c i =
     bnd (rd ob_cid_oid_to_order) (\<lambda>m.
     bnd (lift_res (arr_at m (unat c))) (\<lambda>co_itr.
     lift_res (arr_at co_itr (unat i))))"

definition put_cid_oid :: "ClientId \<Rightarrow> OrderId \<Rightarrow> order_ptr \<Rightarrow> (MEOrderBook, unit) prog" where
  "put_cid_oid c i v =
     bnd (rd ob_cid_oid_to_order) (\<lambda>m.
     bnd (lift_res (arr_at m (unat c))) (\<lambda>row.
     bnd (lift_res (arr_at row (unat i))) (\<lambda>_.
     wr (\<lambda>b. b\<lparr>ob_cid_oid_to_order := arr_put (unat c) (arr_put (unat i) v row) m\<rparr>))))"

section \<open>Price levels\<close>

text \<open>The signed price is converted to \<open>size_t\<close> before the \<open>%\<close>, so the index is never negative.\<close>

definition priceToIndex :: "Price \<Rightarrow> nat" where
  "priceToIndex price = unat price mod ME_MAX_PRICE_LEVELS"

definition getOrdersAtPrice :: "Price \<Rightarrow> (MEOrderBook, level_ptr) prog" where
  "getOrdersAtPrice price =
     bnd (rd ob_price_orders_at_price_hash_map) (\<lambda>h. lift_res (arr_at h (priceToIndex price)))"

definition put_price_slot :: "nat \<Rightarrow> level_ptr \<Rightarrow> (MEOrderBook, unit) prog" where
  "put_price_slot i v =
     bnd (rd ob_price_orders_at_price_hash_map) (\<lambda>h.
     bnd (lift_res (arr_at h i)) (\<lambda>_.
     wr (\<lambda>b. b\<lparr>ob_price_orders_at_price_hash_map := arr_put i v h\<rparr>)))"

definition best_at :: "Side \<Rightarrow> MEOrderBook \<Rightarrow> level_ptr" where
  "best_at side b = (if side = BUY then ob_bids_at_price b else ob_asks_at_price b)"

text \<open>
  \<open>side == Side::BUY ? bids_at_price_ : asks_at_price_ = v;\<close>
  In C++ the third operand of \<open>?:\<close> is an assignment-expression, so the statement reads
  \<open>side == BUY ? bids_at_price_ : (asks_at_price_ = v)\<close>: for a buy it assigns nothing.
\<close>

definition set_best :: "Side \<Rightarrow> level_ptr \<Rightarrow> (MEOrderBook, unit) prog" where
  "set_best side v = (if side = BUY then ret () else wr (\<lambda>b. b\<lparr>ob_asks_at_price := v\<rparr>))"

text \<open>The condition written out three times in \<open>addOrdersAtPrice\<close>, with its short circuits.\<close>

definition comes_after :: "level_ptr \<Rightarrow> level_ptr \<Rightarrow> (MEOrderBook, bool) prog" where
  "comes_after new_level target =
     bnd (rd_lvl new_level l_side) (\<lambda>side.
     bnd (rd_lvl new_level l_price) (\<lambda>price.
     if side = SELL then bnd (rd_lvl target l_price) (\<lambda>tp. ret (sint price > sint tp))
     else if side = BUY then bnd (rd_lvl target l_price) (\<lambda>tp. ret (sint price < sint tp))
     else ret False))"

definition comes_before :: "level_ptr \<Rightarrow> level_ptr \<Rightarrow> (MEOrderBook, bool) prog" where
  "comes_before new_level best =
     bnd (rd_lvl new_level l_side) (\<lambda>side.
     bnd (rd_lvl new_level l_price) (\<lambda>price.
     if side = BUY then bnd (rd_lvl best l_price) (\<lambda>bp. ret (sint price > sint bp))
     else if side = SELL then bnd (rd_lvl best l_price) (\<lambda>bp. ret (sint price < sint bp))
     else ret False))"

text \<open>
  The \<open>while\<close> loop of \<open>addOrdersAtPrice\<close>. It reads the book and does not change it; on a damaged
  ring it may run forever, which is the result \<open>None\<close>.
\<close>

partial_function (option) find_target_loop ::
  "level_ptr \<Rightarrow> level_ptr \<Rightarrow> MEOrderBook \<Rightarrow> bool \<Rightarrow> level_ptr \<Rightarrow> (fault + bool \<times> level_ptr) option"
where
  "find_target_loop new_level best b add_after target =
     (if add_after \<and> target \<noteq> best then
        (case comes_after new_level target b of
           Inl e \<Rightarrow> Some (Inl e)
         | Inr r \<Rightarrow>
             if fst r then
               (case rd_lvl target l_next_entry b of
                  Inl e \<Rightarrow> Some (Inl e)
                | Inr r' \<Rightarrow> find_target_loop new_level best b True (fst r'))
             else find_target_loop new_level best b False target)
      else Some (Inr (add_after, target)))"

definition find_target ::
  "level_ptr \<Rightarrow> level_ptr \<Rightarrow> bool \<Rightarrow> level_ptr \<Rightarrow> (MEOrderBook, bool \<times> level_ptr) prog" where
  "find_target new_level best add_after target b =
     (case find_target_loop new_level best b add_after target of
        None \<Rightarrow> Inl Diverge
      | Some (Inl e) \<Rightarrow> Inl e
      | Some (Inr r) \<Rightarrow> Inr (r, b))"

text \<open>The two ways a level is linked in. The first one does not set \<open>new_level->next_entry_\<close>.\<close>

definition link_after :: "level_ptr \<Rightarrow> level_ptr \<Rightarrow> level_ptr \<Rightarrow> (MEOrderBook, unit) prog" where
  "link_after new_level best t =
     bnd (if t = best then rd_lvl best l_prev_entry else ret t) (\<lambda>target.
     sq (wr_lvl new_level (\<lambda>l. l\<lparr>l_prev_entry := target\<rparr>))
    (sq (bnd (rd_lvl target l_next_entry) (\<lambda>n. wr_lvl n (\<lambda>l. l\<lparr>l_prev_entry := new_level\<rparr>)))
    (wr_lvl target (\<lambda>l. l\<lparr>l_next_entry := new_level\<rparr>))))"

definition move_best :: "level_ptr \<Rightarrow> level_ptr \<Rightarrow> level_ptr \<Rightarrow> (MEOrderBook, unit) prog" where
  "move_best new_level best target =
     bnd (comes_before new_level best) (\<lambda>is_best.
     when_do is_best
      (sq (bnd (rd_lvl target l_next_entry) (\<lambda>n.
             wr_lvl target (\<lambda>l. l\<lparr>l_next_entry := if n = best then new_level else n\<rparr>)))
      (bnd (rd_lvl new_level l_side) (\<lambda>side. set_best side new_level))))"

definition link_before :: "level_ptr \<Rightarrow> level_ptr \<Rightarrow> level_ptr \<Rightarrow> (MEOrderBook, unit) prog" where
  "link_before new_level best target =
     sq (bnd (rd_lvl target l_prev_entry) (\<lambda>p. wr_lvl new_level (\<lambda>l. l\<lparr>l_prev_entry := p\<rparr>)))
    (sq (wr_lvl new_level (\<lambda>l. l\<lparr>l_next_entry := target\<rparr>))
    (sq (bnd (rd_lvl target l_prev_entry) (\<lambda>p. wr_lvl p (\<lambda>l. l\<lparr>l_next_entry := new_level\<rparr>)))
    (sq (wr_lvl target (\<lambda>l. l\<lparr>l_prev_entry := new_level\<rparr>))
    (move_best new_level best target))))"

definition addOrdersAtPrice :: "level_ptr \<Rightarrow> (MEOrderBook, unit) prog" where
  "addOrdersAtPrice new_level =
     bnd (rd_lvl new_level l_price) (\<lambda>price.
     sq (put_price_slot (priceToIndex price) new_level)
    (bnd (rd_lvl new_level l_side) (\<lambda>side.
     bnd (rd (best_at side)) (\<lambda>best.
     if best = None then
       sq (set_best side new_level)
      (sq (wr_lvl new_level (\<lambda>l. l\<lparr>l_next_entry := new_level\<rparr>))
      (wr_lvl new_level (\<lambda>l. l\<lparr>l_prev_entry := new_level\<rparr>)))
     else
       bnd (comes_after new_level best) (\<lambda>after_best.
       bnd (if after_best
            then bnd (rd_lvl best l_next_entry) (\<lambda>t.
                 bnd (comes_after new_level t) (\<lambda>a. ret (a, t)))
            else ret (False, best)) (\<lambda>(after1, target1).
       bnd (find_target new_level best after1 target1) (\<lambda>(add_after, target).
       if add_after then link_after new_level best target
       else link_before new_level best target)))))))"

definition removeOrdersAtPrice :: "Side \<Rightarrow> Price \<Rightarrow> (MEOrderBook, unit) prog" where
  "removeOrdersAtPrice side price =
     bnd (rd (best_at side)) (\<lambda>best.
     bnd (getOrdersAtPrice price) (\<lambda>lv.
     bnd (rd_lvl lv l_next_entry) (\<lambda>nx.
     sq (if nx = lv then set_best side None
         else
           sq (bnd (rd_lvl lv l_next_entry) (\<lambda>n. bnd (rd_lvl lv l_prev_entry) (\<lambda>p.
                 wr_lvl p (\<lambda>l. l\<lparr>l_next_entry := n\<rparr>))))
          (sq (bnd (rd_lvl lv l_prev_entry) (\<lambda>p. bnd (rd_lvl lv l_next_entry) (\<lambda>n.
                 wr_lvl n (\<lambda>l. l\<lparr>l_prev_entry := p\<rparr>))))
          (sq (when_do (lv = best) (bnd (rd_lvl lv l_next_entry) (\<lambda>n. set_best side n)))
          (wr_lvl lv (\<lambda>l. l\<lparr>l_prev_entry := None, l_next_entry := None\<rparr>)))))
    (sq (put_price_slot (priceToIndex price) None)
    (on_lvl_pool (deallocate lv))))))"

section \<open>Orders\<close>

definition getNextPriority :: "Price \<Rightarrow> (MEOrderBook, Priority) prog" where
  "getNextPriority price =
     bnd (getOrdersAtPrice price) (\<lambda>lv.
     if lv = None then ret 1
     else
       bnd (rd_lvl lv l_first_me_order) (\<lambda>f.
       bnd (rd_ord f o_prev_order) (\<lambda>p.
       rd_ord p (\<lambda>x. o_priority x + 1))))"

definition addOrder :: "order_ptr \<Rightarrow> (MEOrderBook, unit) prog" where
  "addOrder order =
     bnd (rd_ord order o_price) (\<lambda>price.
     bnd (getOrdersAtPrice price) (\<lambda>lv.
     sq (if lv = None then
           sq (wr_ord order (\<lambda>x. x\<lparr>o_prev_order := order\<rparr>))
          (sq (wr_ord order (\<lambda>x. x\<lparr>o_next_order := order\<rparr>))
          (bnd (rd_ord order o_side) (\<lambda>side.
           bnd (on_lvl_pool (allocate (MEOrdersAtPrice_new side price order None None))) addOrdersAtPrice)))
         else
           bnd (rd_lvl lv l_first_me_order) (\<lambda>first_order.
           sq (bnd (rd_ord first_order o_prev_order) (\<lambda>p. wr_ord p (\<lambda>x. x\<lparr>o_next_order := order\<rparr>)))
          (sq (bnd (rd_ord first_order o_prev_order) (\<lambda>p. wr_ord order (\<lambda>x. x\<lparr>o_prev_order := p\<rparr>)))
          (sq (wr_ord order (\<lambda>x. x\<lparr>o_next_order := first_order\<rparr>))
          (wr_ord first_order (\<lambda>x. x\<lparr>o_prev_order := order\<rparr>))))))
    (bnd (rd_ord order o_client_id) (\<lambda>c.
     bnd (rd_ord order o_client_order_id) (\<lambda>i. put_cid_oid c i order)))))"

definition removeOrder :: "order_ptr \<Rightarrow> (MEOrderBook, unit) prog" where
  "removeOrder order =
     bnd (rd_ord order o_price) (\<lambda>price.
     bnd (getOrdersAtPrice price) (\<lambda>lv.
     bnd (rd_ord order o_prev_order) (\<lambda>prev.
     sq (if prev = order then
           bnd (rd_ord order o_side) (\<lambda>side. removeOrdersAtPrice side price)
         else
           bnd (rd_ord order o_prev_order) (\<lambda>order_before.
           bnd (rd_ord order o_next_order) (\<lambda>order_after.
           sq (wr_ord order_before (\<lambda>x. x\<lparr>o_next_order := order_after\<rparr>))
          (sq (wr_ord order_after (\<lambda>x. x\<lparr>o_prev_order := order_before\<rparr>))
          (bnd (rd_lvl lv l_first_me_order) (\<lambda>f.
           sq (when_do (f = order) (wr_lvl lv (\<lambda>l. l\<lparr>l_first_me_order := order_after\<rparr>)))
          (wr_ord order (\<lambda>x. x\<lparr>o_prev_order := None, o_next_order := None\<rparr>))))))))
    (sq (bnd (rd_ord order o_client_id) (\<lambda>c.
         bnd (rd_ord order o_client_order_id) (\<lambda>i. put_cid_oid c i None)))
    (on_ord_pool (deallocate order))))))"

definition generateNewMarketOrderId :: "(MEOrderBook, OrderId) prog" where
  "generateNewMarketOrderId =
     bnd (rd ob_next_market_order_id) (\<lambda>n.
     sq (wr (\<lambda>b. b\<lparr>ob_next_market_order_id := n + 1\<rparr>)) (ret n))"

section \<open>Publishing\<close>

text \<open>
  The book reaches the queues through its \<open>matching_engine_\<close> pointer; \<open>sendClientResponse\<close> and
  \<open>sendMarketUpdate\<close> are the engine's member functions.
\<close>

record ME_ctx =
  cx_book :: MEOrderBook
  cx_ogw :: "MEClientResponse LFQueue"
  cx_md :: "MEMarketUpdate LFQueue"

definition on_book :: "(MEOrderBook, 'a) prog \<Rightarrow> (ME_ctx, 'a) prog" where
  "on_book = zoom cx_book (\<lambda>b c. c\<lparr>cx_book := b\<rparr>)"

definition sendClientResponse :: "MEClientResponse \<Rightarrow> (ME_ctx, unit) prog" where
  "sendClientResponse client_response =
     zoom cx_ogw (\<lambda>q c. c\<lparr>cx_ogw := q\<rparr>) (push_elem client_response)"

definition sendMarketUpdate :: "MEMarketUpdate \<Rightarrow> (ME_ctx, unit) prog" where
  "sendMarketUpdate market_update =
     zoom cx_md (\<lambda>q c. c\<lparr>cx_md := q\<rparr>) (push_elem market_update)"

definition set_client_response :: "MEClientResponse \<Rightarrow> (ME_ctx, unit) prog" where
  "set_client_response r = on_book (wr (\<lambda>b. b\<lparr>ob_client_response := r\<rparr>))"

definition set_market_update :: "MEMarketUpdate \<Rightarrow> (ME_ctx, unit) prog" where
  "set_market_update u = on_book (wr (\<lambda>b. b\<lparr>ob_market_update := u\<rparr>))"

definition send_client_response :: "(ME_ctx, unit) prog" where
  "send_client_response = bnd (on_book (rd ob_client_response)) sendClientResponse"

definition send_market_update :: "(ME_ctx, unit) prog" where
  "send_market_update = bnd (on_book (rd ob_market_update)) sendMarketUpdate"

section \<open>Matching\<close>

definition match_order ::
  "TickerId \<Rightarrow> ClientId \<Rightarrow> Side \<Rightarrow> OrderId \<Rightarrow> OrderId \<Rightarrow> order_ptr \<Rightarrow> Qty \<Rightarrow> (ME_ctx, Qty) prog" where
  "match_order ticker_id client_id side client_order_id new_market_order_id itr leaves_qty0 =
     bnd (on_book (rd_ord itr o_qty)) (\<lambda>order_qty.
     let fill_qty = min leaves_qty0 order_qty; leaves_qty = leaves_qty0 - fill_qty in
     sq (on_book (wr_ord itr (\<lambda>x. x\<lparr>o_qty := o_qty x - fill_qty\<rparr>)))
    (bnd (on_book (rd_ord itr (\<lambda>x. x))) (\<lambda>order.
     sq (set_client_response \<lparr>resp_type = FILLED, resp_client_id = client_id,
           resp_ticker_id = ticker_id, resp_client_order_id = client_order_id,
           resp_market_order_id = new_market_order_id, resp_side = side,
           resp_price = o_price order, resp_exec_qty = fill_qty, resp_leaves_qty = leaves_qty\<rparr>)
    (sq send_client_response
    (sq (set_client_response \<lparr>resp_type = FILLED, resp_client_id = o_client_id order,
           resp_ticker_id = ticker_id, resp_client_order_id = o_client_order_id order,
           resp_market_order_id = o_market_order_id order, resp_side = o_side order,
           resp_price = o_price order, resp_exec_qty = fill_qty, resp_leaves_qty = o_qty order\<rparr>)
    (sq send_client_response
    (sq (set_market_update \<lparr>upd_type = TRADE, upd_order_id = OrderId_INVALID,
           upd_ticker_id = ticker_id, upd_side = side, upd_price = o_price order,
           upd_qty = fill_qty, upd_priority = Priority_INVALID\<rparr>)
    (sq send_market_update
    (sq (if o_qty order = 0 then
           sq (set_market_update \<lparr>upd_type = CANCEL, upd_order_id = o_market_order_id order,
                 upd_ticker_id = ticker_id, upd_side = o_side order, upd_price = o_price order,
                 upd_qty = order_qty, upd_priority = Priority_INVALID\<rparr>)
          (sq send_market_update
          (on_book (removeOrder itr)))
         else
           sq (set_market_update \<lparr>upd_type = MODIFY, upd_order_id = o_market_order_id order,
                 upd_ticker_id = ticker_id, upd_side = o_side order, upd_price = o_price order,
                 upd_qty = o_qty order, upd_priority = o_priority order\<rparr>)
          send_market_update)
    (ret leaves_qty))))))))))"

text \<open>One round of the two loops of \<open>checkForMatch\<close>; \<open>None\<close> is the \<open>break\<close>.\<close>

definition buy_round ::
  "ClientId \<Rightarrow> OrderId \<Rightarrow> TickerId \<Rightarrow> Price \<Rightarrow> OrderId \<Rightarrow> Qty \<Rightarrow> (ME_ctx, Qty option) prog" where
  "buy_round client_id client_order_id ticker_id price new_market_order_id leaves_qty =
     bnd (on_book (rd ob_asks_at_price)) (\<lambda>asks.
     bnd (on_book (rd_lvl asks l_first_me_order)) (\<lambda>ask_itr.
     bnd (on_book (rd_ord ask_itr o_price)) (\<lambda>ask_price.
     if sint price < sint ask_price then ret None
     else bnd (match_order ticker_id client_id BUY client_order_id new_market_order_id ask_itr leaves_qty)
       (\<lambda>l. ret (Some l)))))"

definition sell_round ::
  "ClientId \<Rightarrow> OrderId \<Rightarrow> TickerId \<Rightarrow> Price \<Rightarrow> OrderId \<Rightarrow> Qty \<Rightarrow> (ME_ctx, Qty option) prog" where
  "sell_round client_id client_order_id ticker_id price new_market_order_id leaves_qty =
     bnd (on_book (rd ob_bids_at_price)) (\<lambda>bids.
     bnd (on_book (rd_lvl bids l_first_me_order)) (\<lambda>bid_itr.
     bnd (on_book (rd_ord bid_itr o_price)) (\<lambda>bid_price.
     if sint price > sint bid_price then ret None
     else bnd (match_order ticker_id client_id SELL client_order_id new_market_order_id bid_itr leaves_qty)
       (\<lambda>l. ret (Some l)))))"

end
