(* ===== verification/ME_Matching.thy ===== *)
theory ME_Matching
  imports ME_Order_Book
begin

text \<open>
  The public operations of the order book: \<open>checkForMatch\<close>, \<open>add\<close> and \<open>cancel\<close> of
  \<open>me_order_book.cpp\<close>. The two matching loops are total functions: every round either lowers the
  quantity still to fill or gives a block back to the order pool, whatever state the book is in.
\<close>

section \<open>Access lemmas\<close>

abbreviation od :: "MEOrderBook \<Rightarrow> nat \<Rightarrow> MEOrder" where
  "od b \<equiv> pool_obj (ob_order_pool b)"

abbreviation lv :: "MEOrderBook \<Rightarrow> nat \<Rightarrow> MEOrdersAtPrice" where
  "lv b \<equiv> pool_obj (ob_orders_at_price_pool b)"

abbreviation ords :: "MEOrderBook \<Rightarrow> nat set" where
  "ords b \<equiv> pool_live (ob_order_pool b)"

abbreviation lvls :: "MEOrderBook \<Rightarrow> nat set" where
  "lvls b \<equiv> pool_live (ob_orders_at_price_pool b)"

abbreviation wlv :: "nat \<Rightarrow> MEOrdersAtPrice \<Rightarrow> MEOrderBook \<Rightarrow> MEOrderBook" where
  "wlv i l b \<equiv> b\<lparr>ob_orders_at_price_pool := pool_write i l (ob_orders_at_price_pool b)\<rparr>"

abbreviation wod :: "nat \<Rightarrow> MEOrder \<Rightarrow> MEOrderBook \<Rightarrow> MEOrderBook" where
  "wod i x b \<equiv> b\<lparr>ob_order_pool := pool_write i x (ob_order_pool b)\<rparr>"

lemma rd_lvl_run:
  "i < pool_cap (ob_orders_at_price_pool b) \<Longrightarrow> rd_lvl (Some i) f b = Inr (f (lv b i), b)"
  by (simp add: rd_lvl_def bnd_def pool_load_Some)

lemma rd_lvl_None [simp]: "rd_lvl None f b = Inl Null_deref"
  by (simp add: rd_lvl_def bnd_def)

lemma rd_ord_run: "i < pool_cap (ob_order_pool b) \<Longrightarrow> rd_ord (Some i) f b = Inr (f (od b i), b)"
  by (simp add: rd_ord_def bnd_def pool_load_Some)

lemma rd_ord_None [simp]: "rd_ord None f b = Inl Null_deref"
  by (simp add: rd_ord_def bnd_def)

lemma wr_lvl_run:
  "i < pool_cap (ob_orders_at_price_pool b) \<Longrightarrow> wr_lvl (Some i) f b = Inr ((), wlv i (f (lv b i)) b)"
  by (simp add: wr_lvl_def on_lvl_pool_def zoom_def pool_modify_Some)

lemma wr_lvl_None [simp]: "wr_lvl None f b = Inl Null_deref"
  by (simp add: wr_lvl_def on_lvl_pool_def zoom_def pool_modify_None)

lemma wr_ord_run:
  "i < pool_cap (ob_order_pool b) \<Longrightarrow> wr_ord (Some i) f b = Inr ((), wod i (f (od b i)) b)"
  by (simp add: wr_ord_def on_ord_pool_def zoom_def pool_modify_Some)

lemma rd_ord_eq_Inr:
  "rd_ord p f b = Inr (v, b') \<longleftrightarrow>
     (\<exists>i. p = Some i \<and> i < pool_cap (ob_order_pool b) \<and> v = f (od b i) \<and> b' = b)"
proof (cases p)
  case None
  then show ?thesis by simp
next
  case (Some i)
  then show ?thesis
    by (cases "i < pool_cap (ob_order_pool b)")
      (auto simp: rd_ord_run, simp add: rd_ord_def bnd_def pool_load_out)
qed

lemma wr_ord_eq_Inr:
  "wr_ord p f b = Inr (u, b') \<longleftrightarrow>
     (\<exists>i. p = Some i \<and> i < pool_cap (ob_order_pool b) \<and> b' = wod i (f (od b i)) b)"
  by (auto simp: wr_ord_def on_ord_pool_def pool_modify_eq_Inr)

section \<open>Preservation rules of the book\<close>

lemma keeps_rd_lvl [keeps_intro]: "keeps P (rd_lvl p f)"
  unfolding rd_lvl_def by (intro keeps_intro)

lemma keeps_rd_ord [keeps_intro]: "keeps P (rd_ord p f)"
  unfolding rd_ord_def by (intro keeps_intro)

lemma keeps_on_lvl_pool [keeps_intro]:
  "(\<And>b pl. P b \<Longrightarrow> P (b\<lparr>ob_orders_at_price_pool := pl\<rparr>)) \<Longrightarrow> keeps P (on_lvl_pool m)"
  by (simp add: on_lvl_pool_def keeps_zoom)

lemma keeps_wr_lvl [keeps_intro]:
  "(\<And>b pl. P b \<Longrightarrow> P (b\<lparr>ob_orders_at_price_pool := pl\<rparr>)) \<Longrightarrow> keeps P (wr_lvl p f)"
  by (simp add: wr_lvl_def keeps_on_lvl_pool)

lemma keeps_wr_ord [keeps_intro]:
  "(\<And>b i x. P b \<Longrightarrow> P (wod i x b)) \<Longrightarrow> keeps P (wr_ord p f)"
  by (auto simp: keeps_def wr_ord_eq_Inr)

lemma keeps_get_cid_oid [keeps_intro]: "keeps P (get_cid_oid c i)"
  unfolding get_cid_oid_def by (intro keeps_intro)

lemma keeps_put_cid_oid [keeps_intro]:
  "(\<And>b m. P b \<Longrightarrow> P (b\<lparr>ob_cid_oid_to_order := m\<rparr>)) \<Longrightarrow> keeps P (put_cid_oid c i v)"
  unfolding put_cid_oid_def by (intro keeps_intro keeps_wr)

lemma keeps_getOrdersAtPrice [keeps_intro]: "keeps P (getOrdersAtPrice price)"
  unfolding getOrdersAtPrice_def by (intro keeps_intro)

lemma keeps_put_price_slot [keeps_intro]:
  "(\<And>b m. P b \<Longrightarrow> P (b\<lparr>ob_price_orders_at_price_hash_map := m\<rparr>)) \<Longrightarrow> keeps P (put_price_slot i v)"
  unfolding put_price_slot_def by (intro keeps_intro keeps_wr)

lemma keeps_set_best [keeps_intro]:
  "(\<And>b v. P b \<Longrightarrow> P (b\<lparr>ob_asks_at_price := v\<rparr>)) \<Longrightarrow> keeps P (set_best side v)"
  unfolding set_best_def by (intro keeps_intro keeps_wr)

lemma keeps_comes_after [keeps_intro]: "keeps P (comes_after n t)"
  unfolding comes_after_def by (intro keeps_intro)

lemma keeps_comes_before [keeps_intro]: "keeps P (comes_before n t)"
  unfolding comes_before_def by (intro keeps_intro)

lemma keeps_find_target [keeps_intro]: "keeps P (find_target n best a t)"
  by (auto simp: keeps_def find_target_def split: option.splits sum.splits)

lemma keeps_on_book [keeps_intro]: "keeps (\<lambda>b. P b) m \<Longrightarrow> keeps (\<lambda>c. P (cx_book c)) (on_book m)"
  unfolding on_book_def by (rule keeps_zoom) (auto dest: keepsD)

lemma keeps_send [keeps_intro]:
  "keeps (\<lambda>c. P (cx_book c)) (sendClientResponse r)"
  "keeps (\<lambda>c. P (cx_book c)) (sendMarketUpdate u)"
  unfolding sendClientResponse_def sendMarketUpdate_def by (rule keeps_zoom, simp)+

lemma keeps_publish [keeps_intro]:
  assumes "\<And>b r. P b \<Longrightarrow> P (b\<lparr>ob_client_response := r\<rparr>)" "\<And>b u. P b \<Longrightarrow> P (b\<lparr>ob_market_update := u\<rparr>)"
  shows "keeps (\<lambda>c. P (cx_book c)) (set_client_response r)"
    "keeps (\<lambda>c. P (cx_book c)) (set_market_update u)"
    "keeps (\<lambda>c. P (cx_book c)) send_client_response"
    "keeps (\<lambda>c. P (cx_book c)) send_market_update"
  unfolding set_client_response_def set_market_update_def send_client_response_def send_market_update_def
  by (intro keeps_intro keeps_wr assms; assumption)+

section \<open>The matching loops terminate\<close>

definition live_orders :: "MEOrderBook \<Rightarrow> nat" where
  "live_orders b = card (ords b)"

lemma live_orders_upd [simp]:
  "live_orders (b\<lparr>ob_orders_at_price_pool := pl\<rparr>) = live_orders b"
  "live_orders (wod i x b) = live_orders b"
  "live_orders (b\<lparr>ob_cid_oid_to_order := m\<rparr>) = live_orders b"
  "live_orders (b\<lparr>ob_price_orders_at_price_hash_map := h\<rparr>) = live_orders b"
  "live_orders (b\<lparr>ob_asks_at_price := v\<rparr>) = live_orders b"
  "live_orders (b\<lparr>ob_client_response := r\<rparr>) = live_orders b"
  "live_orders (b\<lparr>ob_market_update := u\<rparr>) = live_orders b"
  by (simp_all add: live_orders_def)

lemma keeps_removeOrdersAtPrice_live:
  "keeps (\<lambda>b. live_orders b = n) (removeOrdersAtPrice side price)"
  unfolding removeOrdersAtPrice_def by (intro keeps_intro) simp_all

lemma lowers_deallocate: "lowers live_orders (on_ord_pool (deallocate p))"
  by (auto simp: lowers_def on_ord_pool_def live_orders_def dest: mp.release_card)

lemma lowers_removeOrder: "lowers live_orders (removeOrder p)"
  unfolding removeOrder_def
  by (intro lowers_bnd lowers_sq lowers_deallocate keeps_intro keeps_removeOrdersAtPrice_live) simp_all

lemma publish_live_orders:
  "set_client_response r x = Inr ((), x') \<Longrightarrow> live_orders (cx_book x') = live_orders (cx_book x)"
  "set_market_update m x = Inr ((), x') \<Longrightarrow> live_orders (cx_book x') = live_orders (cx_book x)"
  "send_client_response x = Inr ((), x') \<Longrightarrow> live_orders (cx_book x') = live_orders (cx_book x)"
  "send_market_update x = Inr ((), x') \<Longrightarrow> live_orders (cx_book x') = live_orders (cx_book x)"
proof -
  let ?P = "\<lambda>b. live_orders b = live_orders (cx_book x)"
  have P: "?P (b\<lparr>ob_client_response := r\<rparr>)" "?P (b\<lparr>ob_market_update := u\<rparr>)" if "?P b" for b r u
    using that by simp_all
  show "set_client_response r x = Inr ((), x') \<Longrightarrow> live_orders (cx_book x') = live_orders (cx_book x)"
    using keepsD [OF keeps_publish(1) [of ?P, OF P]] by blast
  show "set_market_update m x = Inr ((), x') \<Longrightarrow> live_orders (cx_book x') = live_orders (cx_book x)"
    using keepsD [OF keeps_publish(2) [of ?P, OF P]] by blast
  show "send_client_response x = Inr ((), x') \<Longrightarrow> live_orders (cx_book x') = live_orders (cx_book x)"
    using keepsD [OF keeps_publish(3) [of ?P, OF P]] by blast
  show "send_market_update x = Inr ((), x') \<Longrightarrow> live_orders (cx_book x') = live_orders (cx_book x)"
    using keepsD [OF keeps_publish(4) [of ?P, OF P]] by blast
qed

lemma match_order_lowers:
  assumes "match_order t c s co mo itr leaves x = Inr (l, x')" "leaves \<noteq> 0"
  shows "unat l < unat leaves \<or>
    l = leaves \<and> live_orders (cx_book x') < live_orders (cx_book x)"
proof -
  obtain i where i: "itr = Some i" "i < pool_cap (ob_order_pool (cx_book x))"
    and l: "l = leaves - min leaves (o_qty (od (cx_book x) i))"
    using assms(1) by (auto simp: match_order_def Let_def on_book_def rd_ord_eq_Inr)
  show ?thesis
  proof (cases "o_qty (od (cx_book x) i) = 0")
    case False
    then have "unat (o_qty (od (cx_book x) i)) \<noteq> 0" "unat leaves \<noteq> 0"
      using assms(2) by (simp_all add: unat_eq_zero)
    then show ?thesis unfolding l word_dec_min by linarith
  next
    case True
    have zero: "min leaves (0 :: 32 word) = 0" by (simp add: min_def)
    obtain b where "removeOrder itr b = Inr ((), cx_book x')" "live_orders b = live_orders (cx_book x)"
      using assms(1) i True
      by (auto simp: match_order_def Let_def on_book_def rd_ord_eq_Inr wr_ord_eq_Inr zero
          dest!: publish_live_orders)
    with lowersD [OF lowers_removeOrder] True l zero show ?thesis by fastforce
  qed
qed

text \<open>The rounds, as far as the termination of the loops needs them.\<close>

lemma buy_round_lowers:
  assumes "buy_round c co t p mo leaves x = Inr (Some l, x')" "leaves \<noteq> 0"
  shows "unat l < unat leaves \<or>
    l = leaves \<and> live_orders (cx_book x') < live_orders (cx_book x)"
proof -
  have rd: "on_book (rd f) x = Inr (v, y) \<Longrightarrow> y = x"
    "on_book (rd_lvl q g) x = Inr (w, y) \<Longrightarrow> y = x"
    "on_book (rd_ord q h) x = Inr (z, y) \<Longrightarrow> y = x" for f q g h v w z y
    by (auto simp: on_book_def rd_ord_eq_Inr rd_lvl_def)
  from assms(1) show ?thesis
    by (auto simp: buy_round_def split: if_splits dest!: rd dest: match_order_lowers [OF _ assms(2)])
qed

lemma sell_round_lowers:
  assumes "sell_round c co t p mo leaves x = Inr (Some l, x')" "leaves \<noteq> 0"
  shows "unat l < unat leaves \<or>
    l = leaves \<and> live_orders (cx_book x') < live_orders (cx_book x)"
proof -
  have rd: "on_book (rd f) x = Inr (v, y) \<Longrightarrow> y = x"
    "on_book (rd_lvl q g) x = Inr (w, y) \<Longrightarrow> y = x"
    "on_book (rd_ord q h) x = Inr (z, y) \<Longrightarrow> y = x" for f q g h v w z y
    by (auto simp: on_book_def rd_ord_eq_Inr rd_lvl_def)
  from assms(1) show ?thesis
    by (auto simp: sell_round_def split: if_splits dest!: rd dest: match_order_lowers [OF _ assms(2)])
qed

section \<open>checkForMatch\<close>

function buy_loop ::
  "ClientId \<Rightarrow> OrderId \<Rightarrow> TickerId \<Rightarrow> Price \<Rightarrow> OrderId \<Rightarrow> Qty \<Rightarrow> (ME_ctx, Qty) prog" where
  "buy_loop client_id client_order_id ticker_id price new_market_order_id leaves_qty x =
     (if leaves_qty \<noteq> 0 \<and> ob_asks_at_price (cx_book x) \<noteq> None then
        (case buy_round client_id client_order_id ticker_id price new_market_order_id leaves_qty x of
           Inl e \<Rightarrow> Inl e
         | Inr (None, x') \<Rightarrow> Inr (leaves_qty, x')
         | Inr (Some l, x') \<Rightarrow>
             buy_loop client_id client_order_id ticker_id price new_market_order_id l x')
      else Inr (leaves_qty, x))"
  by pat_completeness auto
termination
  by (relation "measures [\<lambda>(c, co, t, p, mo, l, x). unat l, \<lambda>(c, co, t, p, mo, l, x). live_orders (cx_book x)]")
    (auto dest: buy_round_lowers)

function sell_loop ::
  "ClientId \<Rightarrow> OrderId \<Rightarrow> TickerId \<Rightarrow> Price \<Rightarrow> OrderId \<Rightarrow> Qty \<Rightarrow> (ME_ctx, Qty) prog" where
  "sell_loop client_id client_order_id ticker_id price new_market_order_id leaves_qty x =
     (if leaves_qty \<noteq> 0 \<and> ob_bids_at_price (cx_book x) \<noteq> None then
        (case sell_round client_id client_order_id ticker_id price new_market_order_id leaves_qty x of
           Inl e \<Rightarrow> Inl e
         | Inr (None, x') \<Rightarrow> Inr (leaves_qty, x')
         | Inr (Some l, x') \<Rightarrow>
             sell_loop client_id client_order_id ticker_id price new_market_order_id l x')
      else Inr (leaves_qty, x))"
  by pat_completeness auto
termination
  by (relation "measures [\<lambda>(c, co, t, p, mo, l, x). unat l, \<lambda>(c, co, t, p, mo, l, x). live_orders (cx_book x)]")
    (auto dest: sell_round_lowers)

declare buy_loop.simps [simp del] sell_loop.simps [simp del]

text \<open>
  The last parameter of \<open>checkForMatch\<close> is declared \<open>const Qty new_market_order_id\<close>: the 64-bit
  order id is cut to 32 bits on the way in, and widened again when it is passed to \<open>match\<close>.
\<close>

definition checkForMatch ::
  "ClientId \<Rightarrow> OrderId \<Rightarrow> TickerId \<Rightarrow> Side \<Rightarrow> Price \<Rightarrow> Qty \<Rightarrow> Qty \<Rightarrow> (ME_ctx, Qty) prog" where
  "checkForMatch client_id client_order_id ticker_id side price qty new_market_order_id =
     bnd (if side = BUY
          then buy_loop client_id client_order_id ticker_id price (ucast new_market_order_id) qty
          else ret qty) (\<lambda>leaves_qty.
     if side = SELL
     then sell_loop client_id client_order_id ticker_id price (ucast new_market_order_id) leaves_qty
     else ret leaves_qty)"

section \<open>add and cancel\<close>

definition add ::
  "ClientId \<Rightarrow> OrderId \<Rightarrow> TickerId \<Rightarrow> Side \<Rightarrow> Price \<Rightarrow> Qty \<Rightarrow> (ME_ctx, unit) prog" where
  "add client_id client_order_id ticker_id side price qty =
     bnd (on_book generateNewMarketOrderId) (\<lambda>new_market_order_id.
     sq (set_client_response \<lparr>resp_type = ACCEPTED, resp_client_id = client_id,
           resp_ticker_id = ticker_id, resp_client_order_id = client_order_id,
           resp_market_order_id = new_market_order_id, resp_side = side, resp_price = price,
           resp_exec_qty = 0, resp_leaves_qty = qty\<rparr>)
    (sq send_client_response
    (bnd (checkForMatch client_id client_order_id ticker_id side price qty (ucast new_market_order_id))
     (\<lambda>leaves_qty.
     when_do (leaves_qty \<noteq> 0)
      (bnd (on_book (getNextPriority price)) (\<lambda>priority.
       bnd (on_book (on_ord_pool (allocate (MEOrder_new ticker_id client_id client_order_id
              new_market_order_id side price leaves_qty priority None None)))) (\<lambda>order.
       sq (on_book (addOrder order))
      (sq (set_market_update \<lparr>upd_type = ADD, upd_order_id = new_market_order_id,
             upd_ticker_id = ticker_id, upd_side = side, upd_price = price, upd_qty = leaves_qty,
             upd_priority = priority\<rparr>)
      send_market_update))))))))"

definition cancel :: "ClientId \<Rightarrow> OrderId \<Rightarrow> TickerId \<Rightarrow> (ME_ctx, unit) prog" where
  "cancel client_id order_id ticker_id =
     bnd (on_book (rd (\<lambda>b. unat client_id < alen (ob_cid_oid_to_order b)))) (\<lambda>is_cancelable.
     bnd (if is_cancelable then on_book (get_cid_oid client_id order_id) else ret None)
     (\<lambda>exchange_order.
     sq (if exchange_order = None then
           set_client_response \<lparr>resp_type = CANCEL_REJECTED, resp_client_id = client_id,
             resp_ticker_id = ticker_id, resp_client_order_id = order_id,
             resp_market_order_id = OrderId_INVALID, resp_side = Side_INVALID,
             resp_price = Price_INVALID, resp_exec_qty = Qty_INVALID, resp_leaves_qty = Qty_INVALID\<rparr>
         else
           bnd (on_book (rd_ord exchange_order (\<lambda>x. x))) (\<lambda>order.
           sq (set_client_response \<lparr>resp_type = CANCELED, resp_client_id = client_id,
                 resp_ticker_id = ticker_id, resp_client_order_id = order_id,
                 resp_market_order_id = o_market_order_id order, resp_side = o_side order,
                 resp_price = o_price order, resp_exec_qty = Qty_INVALID,
                 resp_leaves_qty = o_qty order\<rparr>)
          (sq (set_market_update \<lparr>upd_type = CANCEL, upd_order_id = o_market_order_id order,
                 upd_ticker_id = ticker_id, upd_side = o_side order, upd_price = o_price order,
                 upd_qty = 0, upd_priority = o_priority order\<rparr>)
          (sq (on_book (removeOrder exchange_order))
          send_market_update))))
    send_client_response))"

end
