(* ===== verification/Linked_Rings.thy ===== *)
theory Linked_Rings
  imports Prelude
begin

text \<open>
  Circular doubly linked lists, as the two functions \<open>nxt\<close> and \<open>prv\<close> that give the link fields of
  each node. A node is the index of its block. The end \<open>e\<close> of a ring is what the last node's
  \<open>next\<close> field holds: the first node in a closed ring, \<open>nullptr\<close> in one whose last node was
  appended without that link. The lemmas give the effect of the pointer assignments of the order
  book on the list of nodes.
\<close>

section \<open>Paths\<close>

primrec path :: "(nat \<Rightarrow> nat option) \<Rightarrow> nat option \<Rightarrow> nat list \<Rightarrow> nat option \<Rightarrow> bool" where
  "path h p [] q \<longleftrightarrow> p = q"
| "path h p (a # as) q \<longleftrightarrow> p = Some a \<and> path h (h a) as q"

lemma path_append [simp]: "path h p (as @ bs) q \<longleftrightarrow> (\<exists>r. path h p as r \<and> path h r bs q)"
  by (induction as arbitrary: p) auto

lemma path_upd [simp]: "a \<notin> set as \<Longrightarrow> path (h(a := v)) p as q \<longleftrightarrow> path h p as q"
  by (induction as arbitrary: p) auto

lemma path_cong: "(\<And>a. a \<in> set as \<Longrightarrow> h a = h' a) \<Longrightarrow> path h p as q \<longleftrightarrow> path h' p as q"
  by (induction as arbitrary: p) auto

section \<open>Rings\<close>

definition ring :: "(nat \<Rightarrow> nat option) \<Rightarrow> (nat \<Rightarrow> nat option) \<Rightarrow> nat list \<Rightarrow> nat option \<Rightarrow> bool" where
  "ring nxt prv xs e \<longleftrightarrow> xs \<noteq> [] \<and> distinct xs \<and>
     path nxt (Some (hd xs)) xs e \<and> path prv (Some (last xs)) (rev xs) (Some (last xs))"

lemma ring_nonempty: "ring nxt prv xs e \<Longrightarrow> xs \<noteq> []"
  by (simp add: ring_def)

lemma ring_distinct: "ring nxt prv xs e \<Longrightarrow> distinct xs"
  by (simp add: ring_def)

lemma ring_cong:
  assumes "\<And>a. a \<in> set xs \<Longrightarrow> nxt a = nxt' a" "\<And>a. a \<in> set xs \<Longrightarrow> prv a = prv' a"
  shows "ring nxt prv xs e \<longleftrightarrow> ring nxt' prv' xs e"
  using assms path_cong [of xs nxt nxt'] path_cong [of "rev xs" prv prv'] by (simp add: ring_def)

lemma ring_single: "ring nxt prv [k] e \<longleftrightarrow> nxt k = e \<and> prv k = Some k"
  by (auto simp: ring_def)

text \<open>The links of the node between \<open>as\<close> and \<open>bs\<close>.\<close>

lemma ring_next:
  "ring nxt prv (as @ k # bs) e \<Longrightarrow> nxt k = (case bs of [] \<Rightarrow> e | b # _ \<Rightarrow> Some b)"
  by (cases bs) (auto simp: ring_def)

lemma ring_prev:
  assumes "ring nxt prv (as @ k # bs) e"
  shows "prv k = Some (if as = [] then last (k # bs) else last as)"
  using assms by (cases as rule: rev_cases) (auto simp: ring_def)

lemma ring_prev_hd: "ring nxt prv (k # bs) e \<Longrightarrow> prv k = Some (last (k # bs))"
  using ring_prev [of nxt prv "[]"] by simp

lemma ring_last_next: "ring nxt prv xs e \<Longrightarrow> nxt (last xs) = e"
  using ring_next [of nxt prv "butlast xs" "last xs" "[]" e] by (simp add: ring_def)

text \<open>A closed ring may start anywhere.\<close>

lemma ring_rotate1:
  assumes "ring nxt prv (k # xs) (Some k)" "xs \<noteq> []"
  shows "ring nxt prv (xs @ [k]) (Some (hd xs))"
proof -
  obtain b bs where xs: "xs = b # bs" using assms(2) by (cases xs) auto
  from assms(1) have "prv k = Some (last xs)"
    using ring_prev_hd [OF assms(1)] assms(2) by simp
  moreover have "path prv (Some k) [k] (prv k)" by simp
  moreover have "prv b = Some k"
    using ring_prev [of nxt prv "[k]" b bs] assms(1) xs by simp
  ultimately show ?thesis
    using assms unfolding ring_def xs
    by (cases bs rule: rev_cases) auto
qed

section \<open>Insertion and removal\<close>

text \<open>
  The four assignments that put \<open>n\<close> before \<open>k\<close>:
  \<open>n.prev = k.prev; n.next = k; k.prev.next = n; k.prev = n\<close>.
  Before the first node they also close an open ring.
\<close>

lemma ring_insert_before:
  assumes "ring nxt prv (as @ k # bs) e" "n \<notin> set (as @ k # bs)" "prv k = Some p"
  shows "ring (nxt(n := Some k, p := Some n)) (prv(n := Some p, k := Some n)) (as @ n # k # bs)
    (if as = [] then Some n else e)"
proof (cases as rule: rev_cases)
  case Nil
  show ?thesis
  proof (cases bs rule: rev_cases)
    case Nil
    with assms \<open>as = []\<close> show ?thesis by (auto simp: ring_def)
  next
    case (snoc cs z)
    with assms \<open>as = []\<close> have "p = z" using ring_prev [OF assms(1)] by simp
    with assms \<open>as = []\<close> snoc show ?thesis by (auto simp: ring_def)
  qed
next
  case (snoc cs z)
  with assms have "p = z" using ring_prev [OF assms(1)] by simp
  with assms snoc show ?thesis by (cases cs; cases bs rule: rev_cases) (auto simp: ring_def)
qed

lemma ring_append:
  assumes "ring nxt prv (f # xs) (Some f)" "n \<notin> set (f # xs)" "prv f = Some p"
  shows "ring (nxt(n := Some f, p := Some n)) (prv(n := Some p, f := Some n)) (f # xs @ [n]) (Some f)"
  using ring_rotate1 [OF ring_insert_before [of nxt prv "[]" f xs "Some f" n p, simplified]] assms by simp

text \<open>
  The three assignments that put \<open>n\<close> after the last node of a closed ring:
  \<open>n.prev = last; last.next.prev = n; last.next = n\<close>. The field \<open>n.next\<close> is left as it was.
\<close>

lemma ring_append_open:
  assumes "ring nxt prv xs (Some (hd xs))" "n \<notin> set xs" "nxt n = e"
  shows "ring (nxt(last xs := Some n)) (prv(n := Some (last xs), hd xs := Some n)) (xs @ [n]) e"
proof -
  obtain k bs where xs: "xs = k # bs" using assms(1) by (cases xs) (auto simp: ring_def)
  show ?thesis
  proof (cases bs rule: rev_cases)
    case Nil
    with assms xs show ?thesis by (auto simp: ring_def)
  next
    case (snoc cs z)
    with assms xs show ?thesis by (auto simp: ring_def)
  qed
qed

text \<open>
  Unlinking \<open>k\<close>: \<open>k.prev.next = k.next; k.next.prev = k.prev\<close>. Unlinking the first node of an open
  ring closes it, because the last node then points to the second one.
\<close>

lemma ring_remove:
  assumes "ring nxt prv (as @ k # bs) e" "as \<noteq> [] \<or> bs \<noteq> []"
    and "prv k = Some p" "nxt k = Some n" and e: "bs = [] \<Longrightarrow> e = Some (hd as)"
  shows "ring (nxt(p := nxt k)) (prv(n := prv k)) (as @ bs)
    (if as = [] then Some (hd bs) else e)"
proof (cases bs)
  case Nil
  with assms have n: "n = hd as" using ring_next [OF assms(1)] by simp
  from Nil assms obtain cs z where as: "as = cs @ [z]" by (cases as rule: rev_cases) auto
  with assms have "p = z" using ring_prev [OF assms(1)] by simp
  with assms as n Nil show ?thesis by (cases cs) (auto simp: ring_def)
next
  case (Cons b bs')
  with assms have n: "n = b" using ring_next [OF assms(1)] by simp
  show ?thesis
  proof (cases as rule: rev_cases)
    case Nil
    with assms Cons have "p = last bs" using ring_prev [OF assms(1)] by simp
    with assms Cons Nil n show ?thesis
      by (cases bs' rule: rev_cases) (auto simp: ring_def)
  next
    case (snoc cs z)
    with assms have "p = z" using ring_prev [OF assms(1)] by simp
    with assms Cons snoc n show ?thesis
      by (cases bs' rule: rev_cases; cases cs) (auto simp: ring_def)
  qed
qed

end
