(* ===== verification/Book_Levels.thy ===== *)
theory Book_Levels
  imports ME_Matching Linked_Rings
begin

text \<open>
  The price levels of a book: what the links of the level blocks, the best pointers and the price
  array look like, and what \<open>addOrdersAtPrice\<close> and \<open>removeOrdersAtPrice\<close> do to them. The asks are
  one ring in ascending price order. Its last level may have no \<open>next\<close> pointer (the ring is
  open), since \<open>addOrdersAtPrice\<close> leaves it out when it appends behind the last level. The buy
  levels are rings of one, since no buy level ever becomes \<open>bids_at_price_\<close>.
\<close>

section \<open>The shape of the levels\<close>

abbreviation lnext :: "MEOrderBook \<Rightarrow> nat \<Rightarrow> level_ptr" where
  "lnext b \<equiv> \<lambda>i. l_next_entry (lv b i)"

abbreviation lprev :: "MEOrderBook \<Rightarrow> nat \<Rightarrow> level_ptr" where
  "lprev b \<equiv> \<lambda>i. l_prev_entry (lv b i)"

abbreviation lprice :: "MEOrderBook \<Rightarrow> nat \<Rightarrow> Price" where
  "lprice b i \<equiv> l_price (lv b i)"

abbreviation lside :: "MEOrderBook \<Rightarrow> nat \<Rightarrow> Side" where
  "lside b i \<equiv> l_side (lv b i)"

abbreviation lcap :: "MEOrderBook \<Rightarrow> nat" where
  "lcap b \<equiv> pool_cap (ob_orders_at_price_pool b)"

abbreviation slots :: "MEOrderBook \<Rightarrow> level_ptr carray" where
  "slots b \<equiv> ob_price_orders_at_price_hash_map b"

definition below :: "MEOrderBook \<Rightarrow> nat \<Rightarrow> nat \<Rightarrow> bool" where
  "below b i j \<longleftrightarrow> sint (lprice b i) < sint (lprice b j)"

definition ask_end :: "nat list \<Rightarrow> bool \<Rightarrow> level_ptr" where
  "ask_end L op = (if op then None else Some (hd L))"

definition links_ok :: "MEOrderBook \<Rightarrow> nat list \<Rightarrow> nat list \<Rightarrow> bool \<Rightarrow> bool" where
  "links_ok b L B op \<longleftrightarrow>
     ob_bids_at_price b = None \<and>
     ob_asks_at_price b = (if L = [] then None else Some (hd L)) \<and>
     (L \<noteq> [] \<longrightarrow> ring (lnext b) (lprev b) L (ask_end L op)) \<and>
     (op \<longrightarrow> 2 \<le> length L) \<and>
     (\<forall>i \<in> set B. lnext b i = Some i \<and> lprev b i = Some i) \<and>
     distinct (L @ B) \<and>
     (\<forall>i \<in> set L. lside b i = SELL) \<and> (\<forall>i \<in> set B. lside b i = BUY) \<and>
     sorted_wrt (below b) L \<and>
     (\<forall>i \<in> set (L @ B). i < lcap b)"

definition slots_ok :: "MEOrderBook \<Rightarrow> nat list \<Rightarrow> bool" where
  "slots_ok b xs \<longleftrightarrow> alen (slots b) = ME_MAX_PRICE_LEVELS \<and>
     (\<forall>x < ME_MAX_PRICE_LEVELS. \<forall>i. aget (slots b) x = Some i \<longleftrightarrow>
        i \<in> set xs \<and> priceToIndex (lprice b i) = x)"

lemma priceToIndex_less [simp]: "priceToIndex p < ME_MAX_PRICE_LEVELS"
  by (simp add: priceToIndex_def ME_MAX_PRICE_LEVELS_def)

lemma slots_ok_here: "slots_ok b xs \<Longrightarrow> i \<in> set xs \<Longrightarrow> aget (slots b) (priceToIndex (lprice b i)) = Some i"
  by (simp add: slots_ok_def)

lemma slots_ok_inj:
  assumes "slots_ok b xs" "i \<in> set xs" "j \<in> set xs"
    "priceToIndex (lprice b i) = priceToIndex (lprice b j)"
  shows "i = j"
  using slots_ok_here [OF assms(1,2)] slots_ok_here [OF assms(1,3)] assms(4) by (metis option.inject)

lemma getOrdersAtPrice_run:
  "slots_ok b xs \<Longrightarrow> getOrdersAtPrice p b = Inr (aget (slots b) (priceToIndex p), b)"
  by (simp add: getOrdersAtPrice_def bnd_def slots_ok_def arr_at_def)

lemma put_price_slot_run:
  "x < alen (slots b) \<Longrightarrow>
    put_price_slot x v b = Inr ((), b\<lparr>ob_price_orders_at_price_hash_map := arr_put x v (slots b)\<rparr>)"
  by (simp add: put_price_slot_def bnd_def arr_at_def)

lemma sel_upd [simp]:
  "(\<lambda>j. l_next_entry ((f(i := l)) j)) = (\<lambda>j. l_next_entry (f j))(i := l_next_entry l)"
  "(\<lambda>j. l_prev_entry ((f(i := l)) j)) = (\<lambda>j. l_prev_entry (f j))(i := l_prev_entry l)"
  by (auto simp: fun_eq_iff)

lemma links_upd_self [simp]:
  "(\<lambda>j. l_next_entry (f j))(i := l_next_entry (f i)) = (\<lambda>j. l_next_entry (f j))"
  "(\<lambda>j. l_prev_entry (f j))(i := l_prev_entry (f i)) = (\<lambda>j. l_prev_entry (f j))"
  by auto

section \<open>Facts about one level of the ring\<close>

lemma links_mid:
  assumes "links_ok b (as @ i # bs) B op"
  shows "lprev b i = Some (if as = [] then last (i # bs) else last as)"
    and "lnext b i = (case bs of [] \<Rightarrow> ask_end (as @ [i]) op | k # _ \<Rightarrow> Some k)"
    and "i < lcap b" "lside b i = SELL" "i \<notin> set as" "i \<notin> set bs" "i \<notin> set B"
proof -
  have r: "ring (lnext b) (lprev b) (as @ i # bs) (ask_end (as @ i # bs) op)"
    using assms by (simp add: links_ok_def)
  show "lprev b i = Some (if as = [] then last (i # bs) else last as)"
    using ring_prev [OF r] .
  show "lnext b i = (case bs of [] \<Rightarrow> ask_end (as @ [i]) op | k # _ \<Rightarrow> Some k)"
    using ring_next [OF r] by (auto simp: ask_end_def hd_append split: list.splits)
qed (use assms in \<open>auto simp: links_ok_def\<close>)

lemma below_cong:
  "(\<And>i. i \<in> set L \<Longrightarrow> lprice b' i = lprice b i) \<Longrightarrow> sorted_wrt (below b') L = sorted_wrt (below b) L"
  unfolding sorted_wrt_iff_nth_less by (simp add: below_def)

text \<open>Writing only links leaves prices, sides and first orders alone.\<close>

definition same_data :: "MEOrderBook \<Rightarrow> MEOrderBook \<Rightarrow> nat \<Rightarrow> bool" where
  "same_data b b' i \<longleftrightarrow> l_price (lv b' i) = l_price (lv b i) \<and> l_side (lv b' i) = l_side (lv b i) \<and>
     l_first_me_order (lv b' i) = l_first_me_order (lv b i)"

text \<open>The fields of the book that the level operations do not touch.\<close>

definition same_rest :: "MEOrderBook \<Rightarrow> MEOrderBook \<Rightarrow> bool" where
  "same_rest b b' \<longleftrightarrow> ob_ticker_id b' = ob_ticker_id b \<and>
     ob_cid_oid_to_order b' = ob_cid_oid_to_order b \<and> ob_order_pool b' = ob_order_pool b \<and>
     ob_client_response b' = ob_client_response b \<and> ob_market_update b' = ob_market_update b \<and>
     ob_next_market_order_id b' = ob_next_market_order_id b"

lemma links_ok_cong:
  assumes "links_ok b L B op" "\<And>i. i \<in> set (L @ B) \<Longrightarrow> lv b' i = lv b i"
    "ob_bids_at_price b' = ob_bids_at_price b" "ob_asks_at_price b' = ob_asks_at_price b"
    "lcap b' = lcap b"
  shows "links_ok b' L B op"
proof -
  have "ring (lnext b') (lprev b') L e = ring (lnext b) (lprev b) L e" for e
    using assms(2) by (intro ring_cong) auto
  moreover have "sorted_wrt (below b') L = sorted_wrt (below b) L"
    using assms(2) by (intro below_cong) auto
  ultimately show ?thesis using assms by (auto simp: links_ok_def)
qed

section \<open>removeOrdersAtPrice\<close>

lemma drop_level:
  assumes "slots_ok b xs" "i \<in> set xs" "i \<in> lvls b" "set ys = set xs - {i}"
  shows "\<exists>b'. sq (put_price_slot (priceToIndex (lprice b i)) None) (on_lvl_pool (deallocate (Some i))) b
      = Inr ((), b') \<and> slots_ok b' ys \<and> lv b' = lv b \<and> lcap b' = lcap b \<and>
    ob_bids_at_price b' = ob_bids_at_price b \<and> ob_asks_at_price b' = ob_asks_at_price b \<and>
    lvls b' = lvls b - {i} \<and> same_rest b b' \<and>
    (pool_ok (ob_orders_at_price_pool b) \<longrightarrow> pool_ok (ob_orders_at_price_pool b'))"
proof -
  let ?x = "priceToIndex (lprice b i)"
  let ?b = "b\<lparr>ob_price_orders_at_price_hash_map := arr_put ?x None (slots b)\<rparr>"
  obtain pl where pl: "deallocate (Some i) (ob_orders_at_price_pool b) = Inr ((), pl)"
    "pool_live pl = lvls b - {i}" "pool_obj pl = lv b" "pool_cap pl = lcap b"
    "pool_ok (ob_orders_at_price_pool b) \<longrightarrow> pool_ok pl"
    using mp.release_used [OF assms(3)] by blast
  let ?b' = "?b\<lparr>ob_orders_at_price_pool := pl\<rparr>"
  have "sq (put_price_slot ?x None) (on_lvl_pool (deallocate (Some i))) b = Inr ((), ?b')"
    using assms(1) pl(1) by (simp add: sq_Inr put_price_slot_run slots_ok_def on_lvl_pool_def)
  moreover have "slots_ok ?b' ys"
    unfolding slots_ok_def
  proof (intro conjI allI impI)
    show "alen (slots ?b') = ME_MAX_PRICE_LEVELS" using assms(1) by (simp add: slots_ok_def)
  next
    fix y j assume y: "y < ME_MAX_PRICE_LEVELS"
    have old: "aget (slots b) y = Some j \<longleftrightarrow> j \<in> set xs \<and> priceToIndex (lprice b j) = y"
      using assms(1) y by (simp add: slots_ok_def)
    show "aget (slots ?b') y = Some j \<longleftrightarrow> j \<in> set ys \<and> priceToIndex (lprice ?b' j) = y"
    proof (cases "y = ?x")
      case True
      have "priceToIndex (lprice b j) = ?x \<Longrightarrow> j \<in> set xs \<Longrightarrow> j = i"
        using slots_ok_inj [OF assms(1) _ assms(2)] by blast
      with True pl(3) assms(4) show ?thesis by auto
    next
      case False
      with old pl(3) assms(4) show ?thesis by auto
    qed
  qed
  ultimately show ?thesis using pl by (auto simp: same_rest_def)
qed

lemma removeOrdersAtPrice_bid:
  assumes "links_ok b L B op" "slots_ok b (L @ B)" "i \<in> set B" "i \<in> lvls b"
  shows "\<exists>b'. removeOrdersAtPrice BUY (lprice b i) b = Inr ((), b') \<and>
    links_ok b' L (removeAll i B) op \<and> slots_ok b' (L @ removeAll i B) \<and> lvls b' = lvls b - {i} \<and>
    same_rest b b' \<and> lv b' = lv b \<and> lcap b' = lcap b \<and>
    (pool_ok (ob_orders_at_price_pool b) \<longrightarrow> pool_ok (ob_orders_at_price_pool b'))"
proof -
  have i: "i < lcap b" "lnext b i = Some i" "i \<notin> set L"
    using assms(1,3) by (auto simp: links_ok_def)
  have "set (L @ removeAll i B) = set (L @ B) - {i}" using i(3) by auto
  then obtain b' where b': "sq (put_price_slot (priceToIndex (lprice b i)) None)
      (on_lvl_pool (deallocate (Some i))) b = Inr ((), b')"
    and post: "slots_ok b' (L @ removeAll i B)" "lv b' = lv b" "lcap b' = lcap b"
      "ob_bids_at_price b' = ob_bids_at_price b" "ob_asks_at_price b' = ob_asks_at_price b"
      "lvls b' = lvls b - {i}" "same_rest b b'"
      "pool_ok (ob_orders_at_price_pool b) \<longrightarrow> pool_ok (ob_orders_at_price_pool b')"
    using drop_level [OF assms(2) _ assms(4), of "L @ removeAll i B"] assms(3) by auto
  have "links_ok b' L B op"
    using assms(1) post by (intro links_ok_cong [OF assms(1)]) auto
  then have "links_ok b' L (removeAll i B) op"
    by (auto simp: links_ok_def distinct_removeAll)
  moreover have "removeOrdersAtPrice BUY (lprice b i) b = Inr ((), b')"
    using b' i slots_ok_here [OF assms(2), of i] assms(3)
    by (simp add: removeOrdersAtPrice_def bnd_def [of "rd _"] bnd_def [of "rd_lvl _ _"]
        bnd_def [of "getOrdersAtPrice _"] getOrdersAtPrice_run [OF assms(2)] rd_lvl_run set_best_def
        sq_Inr [of "ret ()"])
  ultimately show ?thesis using post by blast
qed

text \<open>The three parts of the other branch: unlink the level, move the best pointer, clear its links.\<close>

lemma unlink_run:
  assumes "i < lcap b" "p < lcap b" "n < lcap b" "lprev b i = Some p" "lnext b i = Some n" "n \<noteq> i"
    "p \<noteq> i" "aget (slots b) (priceToIndex (lprice b i)) = Some i" "slots_ok b xs"
    "ob_bids_at_price b = None"
  shows "\<exists>b1. removeOrdersAtPrice SELL (lprice b i) b =
      sq (put_price_slot (priceToIndex (lprice b i)) None) (on_lvl_pool (deallocate (Some i))) b1 \<and>
    lnext b1 = (lnext b)(p := Some n, i := None) \<and> lprev b1 = (lprev b)(n := Some p, i := None) \<and>
    (\<forall>j. same_data b b1 j) \<and> same_rest b b1 \<and> lvls b1 = lvls b \<and> lcap b1 = lcap b \<and> slots b1 = slots b \<and>
    (pool_ok (ob_orders_at_price_pool b1) = pool_ok (ob_orders_at_price_pool b)) \<and>
    ob_bids_at_price b1 = ob_bids_at_price b \<and>
    ob_asks_at_price b1 = (if ob_asks_at_price b = Some i then Some n else ob_asks_at_price b)"
proof -
  let ?w1 = "wlv p ((lv b p)\<lparr>l_next_entry := Some n\<rparr>) b"
  let ?w2 = "wlv n ((lv ?w1 n)\<lparr>l_prev_entry := Some p\<rparr>) ?w1"
  let ?w3 = "if ob_asks_at_price b = Some i then ?w2\<lparr>ob_asks_at_price := Some n\<rparr> else ?w2"
  let ?b1 = "wlv i ((lv ?w3 i)\<lparr>l_prev_entry := None, l_next_entry := None\<rparr>) ?w3"
  have run: "removeOrdersAtPrice SELL (lprice b i) b =
      sq (put_price_slot (priceToIndex (lprice b i)) None) (on_lvl_pool (deallocate (Some i))) ?b1"
    using assms
    by (simp add: removeOrdersAtPrice_def bnd_def [of "rd _"] bnd_def [of "rd_lvl _ _"]
        bnd_def [of "getOrdersAtPrice _"] getOrdersAtPrice_run [OF assms(9)] rd_lvl_run wr_lvl_run
        set_best_def sq_Inr best_at_def when_do_def eq_commute [of "Some i"])
  moreover have "lnext ?b1 = (lnext b)(p := Some n, i := None)"
    using assms(6,7) by (auto simp: fun_eq_iff)
  moreover have "lprev ?b1 = (lprev b)(n := Some p, i := None)"
    using assms(6,7) by (auto simp: fun_eq_iff)
  moreover have "\<forall>j. same_data b ?b1 j"
    by (auto simp: same_data_def)
  ultimately show ?thesis
    by (intro exI [of _ ?b1]) (simp add: same_rest_def)
qed

text \<open>Removing the only ask, a level of the ring, and the last level of an open ring.\<close>

definition ask_removal_faults :: "nat list \<Rightarrow> bool \<Rightarrow> bool" where
  "ask_removal_faults bs op \<longleftrightarrow> op \<and> bs = []"

lemma removeOrdersAtPrice_last_open:
  assumes "links_ok b (as @ [i]) B True" "slots_ok b (as @ [i] @ B)"
  shows "removeOrdersAtPrice SELL (lprice b i) b = Inl Null_deref"
proof -
  note m = links_mid [OF assms(1)]
  have ne: "as \<noteq> []" using assms(1) by (auto simp: links_ok_def)
  then have "last as < lcap b" using assms(1) by (auto simp: links_ok_def)
  moreover have "last as \<noteq> i" using m(5) ne by auto
  ultimately show ?thesis
    using m ne slots_ok_here [OF assms(2), of i]
    by (simp add: removeOrdersAtPrice_def bnd_def getOrdersAtPrice_run [OF assms(2)] rd_lvl_run
        wr_lvl_run sq_def ask_end_def best_at_def)
qed

lemma removeOrdersAtPrice_only_ask:
  assumes "links_ok b [i] B op" "slots_ok b (i # B)" "i \<in> lvls b"
  shows "\<exists>b'. removeOrdersAtPrice SELL (lprice b i) b = Inr ((), b') \<and>
    links_ok b' [] B False \<and> slots_ok b' B \<and> lvls b' = lvls b - {i} \<and>
    same_rest b b' \<and> (\<forall>j. same_data b b' j) \<and> lcap b' = lcap b \<and>
    (pool_ok (ob_orders_at_price_pool b) \<longrightarrow> pool_ok (ob_orders_at_price_pool b'))"
proof -
  have op: "op = False" using assms(1) by (auto simp: links_ok_def)
  have i: "i < lcap b" "lnext b i = Some i" "i \<notin> set B"
    using assms(1) op by (auto simp: links_ok_def ring_single ask_end_def)
  let ?b = "b\<lparr>ob_asks_at_price := None\<rparr>"
  have slots: "slots_ok ?b (i # B)" using assms(2) by (simp add: slots_ok_def)
  have "set B = set (i # B) - {i}" using i(3) by auto
  from drop_level [OF slots _ _ this] assms(3) obtain b' where b': "sq (put_price_slot (priceToIndex (lprice b i)) None)
      (on_lvl_pool (deallocate (Some i))) ?b = Inr ((), b')"
    and post: "slots_ok b' B" "lv b' = lv b" "lcap b' = lcap b"
      "ob_bids_at_price b' = ob_bids_at_price b" "ob_asks_at_price b' = None"
      "lvls b' = lvls b - {i}" "same_rest ?b b'"
      "pool_ok (ob_orders_at_price_pool b) \<longrightarrow> pool_ok (ob_orders_at_price_pool b')"
    by auto
  have "links_ok b' [] B False"
    using assms(1) post(2-5) by (simp add: links_ok_def)
  moreover have "removeOrdersAtPrice SELL (lprice b i) b = Inr ((), b')"
    using b' i slots_ok_here [OF assms(2), of i]
    by (simp add: removeOrdersAtPrice_def bnd_def [of "rd _"] bnd_def [of "rd_lvl _ _"]
        bnd_def [of "getOrdersAtPrice _"] getOrdersAtPrice_run [OF assms(2)] rd_lvl_run set_best_def
        sq_Inr [of "wr _"])
  moreover have "same_rest b b'" using post(7) by (simp add: same_rest_def)
  moreover have "\<forall>j. same_data b b' j" using post(2) by (simp add: same_data_def)
  ultimately show ?thesis using post by blast
qed

lemma links_ok_data:
  assumes "links_ok b L B op" "\<And>j. j \<in> set (L' @ B) \<Longrightarrow> same_data b b' j" "lcap b' = lcap b"
    "ob_bids_at_price b' = None" "L' \<noteq> []" "ob_asks_at_price b' = Some (hd L')"
    "ring (lnext b') (lprev b') L' (ask_end L' op')" "op' \<Longrightarrow> 2 \<le> length L'"
    "\<And>j. j \<in> set B \<Longrightarrow> lnext b' j = lnext b j \<and> lprev b' j = lprev b j"
    "set L' \<subseteq> set L" "sorted_wrt (below b) L'"
  shows "links_ok b' L' B op'"
proof -
  have "sorted_wrt (below b') L'"
    using assms(2,11) below_cong [of L' b' b] by (auto simp: same_data_def)
  moreover have "distinct (L' @ B)"
    using assms(1,10) ring_distinct [OF assms(7)] by (auto simp: links_ok_def)
  ultimately show ?thesis
    using assms by (auto simp: links_ok_def same_data_def)
qed

lemma removeOrdersAtPrice_ask:
  assumes "links_ok b (as @ i # bs) B op" "slots_ok b (as @ i # bs @ B)" "i \<in> lvls b"
    "as \<noteq> [] \<or> bs \<noteq> []" "\<not> ask_removal_faults bs op"
  shows "\<exists>b'. removeOrdersAtPrice SELL (lprice b i) b = Inr ((), b') \<and>
    links_ok b' (as @ bs) B (op \<and> as \<noteq> []) \<and> slots_ok b' (as @ bs @ B) \<and> lvls b' = lvls b - {i} \<and>
    same_rest b b' \<and> (\<forall>j. same_data b b' j) \<and> lcap b' = lcap b \<and>
    (pool_ok (ob_orders_at_price_pool b) \<longrightarrow> pool_ok (ob_orders_at_price_pool b'))"
proof -
  note m = links_mid [OF assms(1)]
  let ?L = "as @ i # bs"
  define p where "p = (if as = [] then last (i # bs) else last as)"
  define n where "n = (if bs = [] then hd as else hd bs)"
  have p: "lprev b i = Some p" and n: "lnext b i = Some n"
    using m(1,2) assms(4,5) by (auto simp: p_def n_def ask_end_def ask_removal_faults_def hd_append
        split: list.splits)
  have pn: "p \<in> set (as @ bs)" "n \<in> set (as @ bs)"
    using assms(4) by (auto simp: p_def n_def)
  then have ne: "p \<noteq> i" "n \<noteq> i" using m(5,6) by auto
  have caps: "p < lcap b" "n < lcap b" using pn assms(1) by (auto simp: links_ok_def)
  have ring: "ring (lnext b) (lprev b) ?L (ask_end ?L op)" and bids: "ob_bids_at_price b = None"
    and asks: "ob_asks_at_price b = Some (hd ?L)" and dist: "distinct (?L @ B)"
    using assms(1) by (auto simp: links_ok_def)
  obtain b1 where b1: "removeOrdersAtPrice SELL (lprice b i) b =
      sq (put_price_slot (priceToIndex (lprice b i)) None) (on_lvl_pool (deallocate (Some i))) b1"
    and post1: "lnext b1 = (lnext b)(p := Some n, i := None)" "lprev b1 = (lprev b)(n := Some p, i := None)"
      "\<forall>j. same_data b b1 j" "same_rest b b1" "lvls b1 = lvls b" "lcap b1 = lcap b" "slots b1 = slots b"
      "pool_ok (ob_orders_at_price_pool b1) = pool_ok (ob_orders_at_price_pool b)"
      "ob_bids_at_price b1 = ob_bids_at_price b"
      "ob_asks_at_price b1 = (if ob_asks_at_price b = Some i then Some n else ob_asks_at_price b)"
    using unlink_run [OF m(3) caps p n ne(2,1) _ assms(2) bids] slots_ok_here [OF assms(2), of i] by auto
  have price1: "lprice b1 j = lprice b j" for j using post1(3) by (simp add: same_data_def)
  have slots1: "slots_ok b1 (as @ i # bs @ B)"
    using assms(2) post1(7) price1 by (simp add: slots_ok_def)
  have "set (as @ bs @ B) = set (as @ i # bs @ B) - {i}" using dist by auto
  from drop_level [OF slots1 _ _ this] assms(3) post1(5) price1
  obtain b' where b': "sq (put_price_slot (priceToIndex (lprice b i)) None)
      (on_lvl_pool (deallocate (Some i))) b1 = Inr ((), b')"
    and post: "slots_ok b' (as @ bs @ B)" "lv b' = lv b1" "lcap b' = lcap b"
      "ob_bids_at_price b' = ob_bids_at_price b" "ob_asks_at_price b' = ob_asks_at_price b1"
      "lvls b' = lvls b - {i}" "same_rest b1 b'"
      "pool_ok (ob_orders_at_price_pool b) \<longrightarrow> pool_ok (ob_orders_at_price_pool b')"
    using post1(6,8,9) by auto
  have e: "bs = [] \<Longrightarrow> ask_end ?L op = Some (hd as)"
    using assms(4,5) by (auto simp: ask_end_def ask_removal_faults_def)
  have "ring ((lnext b)(p := lnext b i)) ((lprev b)(n := lprev b i)) (as @ bs)
      (if as = [] then Some (hd bs) else ask_end ?L op)"
    using ring_remove [OF ring assms(4) p n] e by simp
  moreover have "(if as = [] then Some (hd bs) else ask_end ?L op) = ask_end (as @ bs) (op \<and> as \<noteq> [])"
    by (auto simp: ask_end_def)
  moreover have "ring (lnext b') (lprev b') (as @ bs) z =
      ring ((lnext b)(p := lnext b i)) ((lprev b)(n := lprev b i)) (as @ bs) z" for z
    using m(5,6) p n fun_cong [OF post1(1)] fun_cong [OF post1(2)]
    by (intro ring_cong) (auto simp: post(2))
  ultimately have ring': "ring (lnext b') (lprev b') (as @ bs) (ask_end (as @ bs) (op \<and> as \<noteq> []))"
    by simp
  have "links_ok b' (as @ bs) B (op \<and> as \<noteq> [])"
  proof (rule links_ok_data [OF assms(1)])
    show "\<And>j. same_data b b' j" using post1(3) post(2) by (simp add: same_data_def)
    show "ob_asks_at_price b' = Some (hd (as @ bs))"
      using post(5) post1(10) asks ne assms(4) m(5) by (cases as) (auto simp: n_def)
    show "2 \<le> length (as @ bs)" if "op \<and> as \<noteq> []"
      using that assms(5) by (cases as; cases bs) (auto simp: ask_removal_faults_def)
    show "lnext b' j = lnext b j \<and> lprev b' j = lprev b j" if "j \<in> set B" for j
      using that pn dist fun_cong [OF post1(1), of j] fun_cong [OF post1(2), of j] by (auto simp: post(2))
    show "sorted_wrt (below b) (as @ bs)" using assms(1) by (auto simp: links_ok_def sorted_wrt_append)
  qed (use assms(4) post bids ring' in auto)
  moreover have "same_rest b b'" using post1(4) post(7) by (simp add: same_rest_def)
  moreover have "\<forall>j. same_data b b' j" using post1(3) post(2) by (simp add: same_data_def)
  ultimately show ?thesis using b1 b' post by auto
qed
end
