(* ===== verification/Level_Insert.thy ===== *)
theory Level_Insert
  imports Book_Levels
begin

text \<open>
  \<open>addOrdersAtPrice\<close> on a well-shaped book: a new buy level becomes a ring of its own; a new ask is
  put into the ask ring at the place of its price, except that the walk runs into a null pointer
  when the ring is open and the new price is above all asks.
\<close>

section \<open>addOrdersAtPrice\<close>

text \<open>A fresh level block \<open>n\<close>: allocated and filled in, not yet linked, its price slot empty.\<close>

definition fresh_level :: "MEOrderBook \<Rightarrow> nat list \<Rightarrow> nat \<Rightarrow> bool" where
  "fresh_level b xs n \<longleftrightarrow> n \<notin> set xs \<and> n < lcap b \<and> lnext b n = None \<and> lprev b n = None \<and>
     aget (slots b) (priceToIndex (lprice b n)) = None"

lemma fresh_price_differs:
  assumes "slots_ok b xs" "fresh_level b xs n" "k \<in> set xs"
  shows "lprice b k \<noteq> lprice b n"
  using slots_ok_here [OF assms(1,3)] assms(2) by (auto simp: fresh_level_def)

definition with_slot :: "nat \<Rightarrow> MEOrderBook \<Rightarrow> MEOrderBook" where
  "with_slot n b = b\<lparr>ob_price_orders_at_price_hash_map := arr_put (priceToIndex (lprice b n)) (Some n) (slots b)\<rparr>"

lemma with_slot_sel [simp]:
  "ob_orders_at_price_pool (with_slot n b) = ob_orders_at_price_pool b"
  "ob_bids_at_price (with_slot n b) = ob_bids_at_price b"
  "ob_asks_at_price (with_slot n b) = ob_asks_at_price b"
  "same_rest (with_slot n b) b' = same_rest b b'"
  by (simp_all add: with_slot_def same_rest_def)

lemma with_slot_run:
  assumes "slots_ok b xs"
  shows "put_price_slot (priceToIndex (lprice b n)) (Some n) b = Inr ((), with_slot n b)"
  using assms by (simp add: put_price_slot_run slots_ok_def with_slot_def)

lemma slots_ok_with_slot:
  assumes "slots_ok b xs" "fresh_level b xs n" "set ys = insert n (set xs)"
    and "slots b' = slots (with_slot n b)" "\<And>j. lprice b' j = lprice b j"
  shows "slots_ok b' ys"
  unfolding slots_ok_def
proof (intro conjI allI impI)
  show "alen (slots b') = ME_MAX_PRICE_LEVELS"
    using assms(1,4) by (simp add: slots_ok_def with_slot_def)
  fix x j assume x: "x < ME_MAX_PRICE_LEVELS"
  have old: "aget (slots b) x = Some j \<longleftrightarrow> j \<in> set xs \<and> priceToIndex (lprice b j) = x"
    using assms(1) x by (simp add: slots_ok_def)
  show "aget (slots b') x = Some j \<longleftrightarrow> j \<in> set ys \<and> priceToIndex (lprice b' j) = x"
  proof (cases "x = priceToIndex (lprice b n)")
    case True
    moreover have "j \<notin> set xs \<or> priceToIndex (lprice b j) \<noteq> x"
      using old assms(2) True by (auto simp: fresh_level_def)
    ultimately show ?thesis using assms(3,4,5) by (auto simp: with_slot_def)
  next
    case False
    with old assms(3,4,5) show ?thesis by (auto simp: with_slot_def)
  qed
qed

subsection \<open>A new buy level\<close>

lemma addOrdersAtPrice_bid:
  assumes "links_ok b L B op" "slots_ok b (L @ B)" "fresh_level b (L @ B) n" "lside b n = BUY"
  shows "\<exists>b'. addOrdersAtPrice (Some n) b = Inr ((), b') \<and> links_ok b' L (n # B) op \<and>
    slots_ok b' (L @ n # B) \<and> lvls b' = lvls b \<and> same_rest b b' \<and> (\<forall>j. same_data b b' j) \<and>
    lcap b' = lcap b \<and>
    pool_ok (ob_orders_at_price_pool b') = pool_ok (ob_orders_at_price_pool b)"
proof -
  let ?b = "with_slot n b"
  let ?w = "wlv n ((lv b n)\<lparr>l_next_entry := Some n\<rparr>) ?b"
  let ?b' = "wlv n ((lv ?w n)\<lparr>l_prev_entry := Some n\<rparr>) ?w"
  have n: "n < lcap b" "n \<notin> set (L @ B)" using assms(3) by (auto simp: fresh_level_def)
  have "best_at BUY ?b = None" using assms(1) by (simp add: best_at_def links_ok_def)
  then have "addOrdersAtPrice (Some n) b = Inr ((), ?b')"
    using n assms(4)
    by (simp add: addOrdersAtPrice_def bnd_def sq_def rd_lvl_run with_slot_run [OF assms(2)]
        wr_lvl_run set_best_def)
  moreover have "slots_ok ?b' (L @ n # B)"
    by (rule slots_ok_with_slot [OF assms(2,3)]) auto
  moreover have "links_ok ?b' L B op"
    using n by (intro links_ok_cong [OF assms(1)]) auto
  then have "links_ok ?b' L (n # B) op"
    using n assms(4) by (auto simp: links_ok_def)
  ultimately show ?thesis
    by (intro exI [of _ ?b']) (simp add: same_rest_def with_slot_def same_data_def)
qed

subsection \<open>The walk to the insertion point\<close>

lemma comes_after_sell:
  "n < lcap b \<Longrightarrow> k < lcap b \<Longrightarrow> lside b n = SELL \<Longrightarrow>
    comes_after (Some n) (Some k) b = Inr (below b k n, b)"
  by (simp add: comes_after_def bnd_def rd_lvl_run below_def)

lemma comes_after_null:
  "n < lcap b \<Longrightarrow> lside b n = SELL \<Longrightarrow> comes_after (Some n) None b = Inl Null_deref"
  by (simp add: comes_after_def bnd_def rd_lvl_run)

lemma find_target_loop_walk:
  assumes "ring (lnext b) (lprev b) (cs @ ks) (ask_end L op)" "cs \<noteq> []" "hd cs = hd L"
    "\<forall>k \<in> set (cs @ ks). k < lcap b" "n < lcap b" "lside b n = SELL" "ks \<noteq> []"
  shows "find_target_loop (Some n) (Some (hd L)) b True (Some (hd ks)) =
    (case dropWhile (\<lambda>k. below b k n) ks of
       [] \<Rightarrow> if op then Some (Inl Null_deref) else Some (Inr (True, Some (hd L)))
     | m # _ \<Rightarrow> Some (Inr (False, Some m)))"
  using assms(1,2,3,4,7)
proof (induction ks arbitrary: cs)
  case Nil
  then show ?case by simp
next
  case (Cons k ks)
  have k: "k \<noteq> hd L" "k < lcap b"
    using Cons.prems ring_distinct [OF Cons.prems(1)] by (cases cs; auto)+
  have nx: "lnext b k = (case ks of [] \<Rightarrow> ask_end L op | m # _ \<Rightarrow> Some m)"
    using ring_next [OF Cons.prems(1)] .
  show ?case
  proof (cases "below b k n")
    case False
    then show ?thesis
      using k assms(5,6)
      by (simp add: find_target_loop.simps [of _ _ _ True] find_target_loop.simps [of _ _ _ False]
          comes_after_sell)
  next
    case True
    have step: "find_target_loop (Some n) (Some (hd L)) b True (Some k) =
        find_target_loop (Some n) (Some (hd L)) b True (lnext b k)"
      using k assms(5,6) True
      by (subst find_target_loop.simps) (simp add: comes_after_sell rd_lvl_run)
    show ?thesis
    proof (cases ks)
      case Nil
      then show ?thesis
        using step nx True assms(5,6)
        by (simp add: find_target_loop.simps [of _ _ _ True] ask_end_def comes_after_null)
    next
      case (Cons m ms)
      have "find_target_loop (Some n) (Some (hd L)) b True (Some (hd ks)) =
        (case dropWhile (\<lambda>k. below b k n) ks of
           [] \<Rightarrow> if op then Some (Inl Null_deref) else Some (Inr (True, Some (hd L)))
         | m # _ \<Rightarrow> Some (Inr (False, Some m)))"
        using Cons.prems Cons by (intro Cons.IH [of "cs @ [k]"]) (auto simp: hd_append)
      then show ?thesis using step nx Cons True by simp
    qed
  qed
qed

lemma search_run:
  assumes "links_ok b L B op" "L \<noteq> []" "n < lcap b" "lside b n = SELL"
  shows "bnd (comes_after (Some n) (Some (hd L))) (\<lambda>after_best.
       bnd (if after_best
            then bnd (rd_lvl (Some (hd L)) l_next_entry) (\<lambda>t.
                 bnd (comes_after (Some n) t) (\<lambda>a. ret (a, t)))
            else ret (False, Some (hd L))) (\<lambda>(after1, target1).
       bnd (find_target (Some n) (Some (hd L)) after1 target1) (\<lambda>(add_after, target).
       K add_after target))) b =
    (case dropWhile (\<lambda>k. below b k n) L of
       [] \<Rightarrow> if op then Inl Null_deref else K True (Some (hd L)) b
     | m # _ \<Rightarrow> K False (Some m) b)"
proof -
  obtain h ks where L: "L = h # ks" using assms(2) by (cases L) auto
  have r: "ring (lnext b) (lprev b) ([h] @ ks) (ask_end L op)" and caps: "\<forall>k \<in> set L. k < lcap b"
    and two: "op \<Longrightarrow> ks \<noteq> []"
    using assms(1) L by (auto simp: links_ok_def)
  have h: "h < lcap b" using caps L by simp
  have nx: "lnext b h = (case ks of [] \<Rightarrow> ask_end L op | m # _ \<Rightarrow> Some m)"
    using ring_next [of _ _ "[]" h ks] r by simp
  note stop = find_target_loop.simps [of _ _ _ False]
  show ?thesis
  proof (cases "below b h n")
    case False
    then show ?thesis
      using L h assms(3,4)
      by (simp add: bnd_def comes_after_sell find_target_def stop)
  next
    case True
    show ?thesis
    proof (cases ks)
      case Nil
      then have "op = False" using two by auto
      then show ?thesis
        using L h nx Nil True assms(3,4)
        by (simp add: bnd_def comes_after_sell rd_lvl_run ask_end_def find_target_def
            find_target_loop.simps [of _ _ _ True])
    next
      case (Cons m ms)
      have m: "m < lcap b" "Some m \<noteq> Some h" using caps L Cons ring_distinct [OF r] by auto
      have hd: "hd L = h" "hd ks = m" using L Cons by simp_all
      have walk: "find_target_loop (Some n) (Some h) b True (Some m) =
        (case dropWhile (\<lambda>k. below b k n) ks of
           [] \<Rightarrow> if op then Some (Inl Null_deref) else Some (Inr (True, Some h))
         | m # _ \<Rightarrow> Some (Inr (False, Some m)))"
        by (rule find_target_loop_walk [OF r, unfolded hd]) (use caps L Cons assms(3,4) in auto)
      show ?thesis
      proof (cases "below b m n")
        case mn: False
        then show ?thesis
          using L h m nx Cons True assms(3,4)
          by (simp add: bnd_def comes_after_sell rd_lvl_run find_target_def stop)
      next
        case mn: True
        have step: "find_target (Some n) (Some h) True (Some m) b =
          (case dropWhile (\<lambda>k. below b k n) ks of
             [] \<Rightarrow> if op then Inl Null_deref else Inr ((True, Some h), b)
           | m # _ \<Rightarrow> Inr ((False, Some m), b))"
          using walk by (simp add: find_target_def del: dropWhile_eq_Nil_conv split: list.split)
        show ?thesis
          using L h m nx Cons True mn assms(3,4) step
          by (simp add: bnd_def comes_after_sell rd_lvl_run del: dropWhile_eq_Nil_conv split: list.split)
      qed
    qed
  qed
qed

subsection \<open>A new ask level\<close>

lemma links_ok_insert:
  assumes "links_ok b (as @ bs) B op" "n \<notin> set (as @ bs @ B)" "n < lcap b" "lside b n = SELL"
    "\<And>j. same_data b b' j" "lcap b' = lcap b" "ob_bids_at_price b' = None"
    "ob_asks_at_price b' = Some (hd (as @ n # bs))"
    "ring (lnext b') (lprev b') (as @ n # bs) (ask_end (as @ n # bs) op')"
    "op' \<Longrightarrow> as \<noteq> [] \<or> bs \<noteq> []"
    "\<And>j. j \<in> set B \<Longrightarrow> lnext b' j = lnext b j \<and> lprev b' j = lprev b j"
    "\<And>k. k \<in> set as \<Longrightarrow> below b k n" "\<And>k. k \<in> set bs \<Longrightarrow> below b n k"
  shows "links_ok b' (as @ n # bs) B op'"
proof -
  have "sorted_wrt (below b') (as @ n # bs) = sorted_wrt (below b) (as @ n # bs)"
    using assms(5) by (intro below_cong) (simp add: same_data_def)
  moreover have "sorted_wrt (below b) (as @ n # bs)"
    using assms(1,12,13) by (auto simp: links_ok_def sorted_wrt_append)
  moreover have "distinct ((as @ n # bs) @ B)"
    using assms(1,2) by (auto simp: links_ok_def)
  moreover have "2 \<le> length (as @ n # bs)" if op'
    using assms(10) [OF that] by (cases as; cases bs) auto
  ultimately show ?thesis
    using assms by (auto simp: links_ok_def same_data_def)
qed

lemma addOrdersAtPrice_first_ask:
  assumes "links_ok b [] B op" "slots_ok b B" "fresh_level b B n" "lside b n = SELL"
  shows "\<exists>b'. addOrdersAtPrice (Some n) b = Inr ((), b') \<and> links_ok b' [n] B False \<and>
    slots_ok b' (n # B) \<and> lvls b' = lvls b \<and> same_rest b b' \<and> (\<forall>j. same_data b b' j) \<and>
    lcap b' = lcap b \<and>
    pool_ok (ob_orders_at_price_pool b') = pool_ok (ob_orders_at_price_pool b)"
proof -
  let ?b = "(with_slot n b)\<lparr>ob_asks_at_price := Some n\<rparr>"
  let ?w = "wlv n ((lv b n)\<lparr>l_next_entry := Some n\<rparr>) ?b"
  let ?b' = "wlv n ((lv ?w n)\<lparr>l_prev_entry := Some n\<rparr>) ?w"
  have n: "n < lcap b" "n \<notin> set B" using assms(3) by (auto simp: fresh_level_def)
  have "best_at SELL (with_slot n b) = None" using assms(1) by (simp add: best_at_def links_ok_def)
  then have "addOrdersAtPrice (Some n) b = Inr ((), ?b')"
    using n assms(4)
    by (simp add: addOrdersAtPrice_def bnd_def sq_def rd_lvl_run with_slot_run [OF assms(2)]
        wr_lvl_run set_best_def)
  moreover have "slots_ok ?b' (n # B)"
    by (rule slots_ok_with_slot [OF assms(2,3)]) auto
  moreover have "links_ok ?b' ([] @ n # []) B False"
    using n assms(1,4)
    by (intro links_ok_insert [of b "[]" "[]" B op])
      (auto simp: same_data_def links_ok_def ring_single ask_end_def)
  ultimately show ?thesis
    by (intro exI [of _ ?b']) (simp add: same_rest_def with_slot_def same_data_def)
qed

lemma comes_before_sell:
  "n < lcap b \<Longrightarrow> k < lcap b \<Longrightarrow> lside b n = SELL \<Longrightarrow>
    comes_before (Some n) (Some k) b = Inr (below b n k, b)"
  by (simp add: comes_before_def bnd_def rd_lvl_run below_def)

lemma link_after_run:
  assumes "n < lcap b" "h < lcap b" "p < lcap b" "lprev b h = Some p" "lnext b p = Some h"
    "n \<noteq> h" "n \<noteq> p"
  shows "\<exists>b'. link_after (Some n) (Some h) (Some h) b = Inr ((), b') \<and>
    lnext b' = (lnext b)(p := Some n) \<and> lprev b' = (lprev b)(n := Some p, h := Some n) \<and>
    slots b' = slots b \<and> lvls b' = lvls b \<and> same_rest b b' \<and> (\<forall>j. same_data b b' j) \<and>
    lcap b' = lcap b \<and> pool_ok (ob_orders_at_price_pool b') = pool_ok (ob_orders_at_price_pool b) \<and>
    ob_bids_at_price b' = ob_bids_at_price b \<and> ob_asks_at_price b' = ob_asks_at_price b"
proof -
  let ?w1 = "wlv n ((lv b n)\<lparr>l_prev_entry := Some p\<rparr>) b"
  let ?w2 = "wlv h ((lv ?w1 h)\<lparr>l_prev_entry := Some n\<rparr>) ?w1"
  let ?b' = "wlv p ((lv ?w2 p)\<lparr>l_next_entry := Some n\<rparr>) ?w2"
  have "link_after (Some n) (Some h) (Some h) b = Inr ((), ?b')"
    using assms by (simp add: link_after_def bnd_def sq_def rd_lvl_run wr_lvl_run)
  moreover have "lnext ?b' = (lnext b)(p := Some n)"
    using assms(6,7) by (auto simp: fun_eq_iff)
  moreover have "lprev ?b' = (lprev b)(n := Some p, h := Some n)"
    using assms(6,7) by (auto simp: fun_eq_iff)
  moreover have "\<forall>j. same_data b ?b' j" by (auto simp: same_data_def)
  ultimately show ?thesis
    by (intro exI [of _ ?b']) (simp add: same_rest_def)
qed

lemma move_best_run:
  assumes "n < lcap b" "h < lcap b" "k < lcap b" "lside b n = SELL" "below b n h \<longrightarrow> lnext b k \<noteq> Some h"
  shows "\<exists>b'. move_best (Some n) (Some h) (Some k) b = Inr ((), b') \<and>
    lv b' = lv b \<and> slots b' = slots b \<and> lvls b' = lvls b \<and> same_rest b b' \<and> lcap b' = lcap b \<and>
    pool_ok (ob_orders_at_price_pool b') = pool_ok (ob_orders_at_price_pool b) \<and>
    ob_bids_at_price b' = ob_bids_at_price b \<and>
    ob_asks_at_price b' = (if below b n h then Some n else ob_asks_at_price b)"
proof (cases "below b n h")
  case True
  let ?b' = "(wlv k (lv b k) b)\<lparr>ob_asks_at_price := Some n\<rparr>"
  have "lv (wlv k (lv b k) b) n = lv b n" by simp
  then have "move_best (Some n) (Some h) (Some k) b = Inr ((), ?b')"
    using assms True
    by (simp add: move_best_def bnd_def sq_def comes_before_sell rd_lvl_run wr_lvl_run set_best_def)
  with True show ?thesis by (intro exI [of _ ?b']) (simp add: same_rest_def)
next
  case False
  then show ?thesis
    using assms by (simp add: move_best_def bnd_def comes_before_sell same_rest_def)
qed

lemma link_before_writes:
  assumes "n < lcap b" "p < lcap b" "k < lcap b" "lprev b k = Some p" "n \<noteq> p" "n \<noteq> k"
  shows "\<exists>b'. link_before (Some n) best (Some k) b = move_best (Some n) best (Some k) b' \<and>
    lnext b' = (lnext b)(n := Some k, p := Some n) \<and> lprev b' = (lprev b)(n := Some p, k := Some n) \<and>
    slots b' = slots b \<and> lvls b' = lvls b \<and> same_rest b b' \<and> (\<forall>j. same_data b b' j) \<and>
    lcap b' = lcap b \<and> pool_ok (ob_orders_at_price_pool b') = pool_ok (ob_orders_at_price_pool b) \<and>
    ob_bids_at_price b' = ob_bids_at_price b \<and> ob_asks_at_price b' = ob_asks_at_price b"
proof -
  let ?w1 = "wlv n ((lv b n)\<lparr>l_prev_entry := Some p\<rparr>) b"
  let ?w2 = "wlv n ((lv ?w1 n)\<lparr>l_next_entry := Some k\<rparr>) ?w1"
  let ?w3 = "wlv p ((lv ?w2 p)\<lparr>l_next_entry := Some n\<rparr>) ?w2"
  let ?b' = "wlv k ((lv ?w3 k)\<lparr>l_prev_entry := Some n\<rparr>) ?w3"
  have "link_before (Some n) best (Some k) b = move_best (Some n) best (Some k) ?b'"
    using assms by (simp add: link_before_def bnd_def sq_def rd_lvl_run wr_lvl_run)
  moreover have "lnext ?b' = (lnext b)(n := Some k, p := Some n)"
    using assms(5,6) by (auto simp: fun_eq_iff)
  moreover have "lprev ?b' = (lprev b)(n := Some p, k := Some n)"
    using assms(5,6) by (auto simp: fun_eq_iff)
  moreover have "\<forall>j. same_data b ?b' j" by (auto simp: same_data_def)
  ultimately show ?thesis
    by (intro exI [of _ ?b']) (simp add: same_rest_def)
qed

lemma link_before_run:
  assumes "n < lcap b" "h < lcap b" "p < lcap b" "k < lcap b" "lprev b k = Some p"
    "n \<noteq> h" "n \<noteq> p" "n \<noteq> k" "lside b n = SELL" "below b n h \<longrightarrow> lnext b k \<noteq> Some h \<or> p = k"
  shows "\<exists>b'. link_before (Some n) (Some h) (Some k) b = Inr ((), b') \<and>
    lnext b' = (lnext b)(n := Some k, p := Some n) \<and> lprev b' = (lprev b)(n := Some p, k := Some n) \<and>
    slots b' = slots b \<and> lvls b' = lvls b \<and> same_rest b b' \<and> (\<forall>j. same_data b b' j) \<and>
    lcap b' = lcap b \<and> pool_ok (ob_orders_at_price_pool b') = pool_ok (ob_orders_at_price_pool b) \<and>
    ob_bids_at_price b' = ob_bids_at_price b \<and>
    ob_asks_at_price b' = (if below b n h then Some n else ob_asks_at_price b)"
proof -
  obtain w where w: "link_before (Some n) (Some h) (Some k) b = move_best (Some n) (Some h) (Some k) w"
    and pw: "lnext w = (lnext b)(n := Some k, p := Some n)" "lprev w = (lprev b)(n := Some p, k := Some n)"
      "slots w = slots b" "lvls w = lvls b" "same_rest b w" "\<forall>j. same_data b w j" "lcap w = lcap b"
      "pool_ok (ob_orders_at_price_pool w) = pool_ok (ob_orders_at_price_pool b)"
      "ob_bids_at_price w = ob_bids_at_price b" "ob_asks_at_price w = ob_asks_at_price b"
    using link_before_writes [OF assms(1,3,4,5,7,8)] by blast
  have cmp: "below w n h = below b n h" using pw(6) by (simp add: below_def same_data_def)
  have "below w n h \<longrightarrow> lnext w k \<noteq> Some h"
    using assms(6,8,10) fun_cong [OF pw(1), of k] cmp by auto
  moreover have "lside w n = SELL" using pw(6) assms(9) by (simp add: same_data_def)
  ultimately show ?thesis
    using move_best_run [of n w h k] assms(1,2,4) w pw cmp by (auto simp: same_rest_def same_data_def)
qed

lemma addOrdersAtPrice_ask_run:
  assumes "links_ok b L B op" "L \<noteq> []" "slots_ok b (L @ B)" "fresh_level b (L @ B) n" "lside b n = SELL"
  shows "addOrdersAtPrice (Some n) b =
    (case dropWhile (\<lambda>k. below b k n) L of
       [] \<Rightarrow> if op then Inl Null_deref
             else link_after (Some n) (Some (hd L)) (Some (hd L)) (with_slot n b)
     | m # _ \<Rightarrow> link_before (Some n) (Some (hd L)) (Some m) (with_slot n b))"
proof -
  let ?b = "with_slot n b"
  have n: "n < lcap b" using assms(4) by (simp add: fresh_level_def)
  have "links_ok ?b L B op" by (rule links_ok_cong [OF assms(1)]) simp_all
  note run = search_run [OF this assms(2), of n
      "\<lambda>a t. if a then link_after (Some n) (Some (hd L)) t else link_before (Some n) (Some (hd L)) t"]
  have cmp: "below ?b k n = below b k n" for k by (simp add: below_def)
  have asks: "ob_asks_at_price b = Some (hd L)" using assms(1,2) by (simp add: links_ok_def)
  show ?thesis
    using run n assms(5) asks with_slot_run [OF assms(3), of n]
    by (simp add: addOrdersAtPrice_def bnd_def [of "rd_lvl _ _"] bnd_def [of "rd _"] sq_Inr
        rd_lvl_run best_at_def cmp del: dropWhile_eq_Nil_conv split: list.split)
qed


text \<open>
  The insertion splits the asks at the new price. It faults when the ring is open and the new
  price is above all of them; else the new ring is open exactly when the level was put behind the
  last one, or was put inside an open ring.
\<close>

definition open_after_insert :: "nat list \<Rightarrow> nat list \<Rightarrow> bool \<Rightarrow> bool" where
  "open_after_insert as bs op \<longleftrightarrow> as \<noteq> [] \<and> (bs = [] \<or> op)"

lemma addOrdersAtPrice_open_fault:
  assumes "links_ok b L B True" "slots_ok b (L @ B)" "fresh_level b (L @ B) n" "lside b n = SELL"
    "\<And>k. k \<in> set L \<Longrightarrow> below b k n"
  shows "addOrdersAtPrice (Some n) b = Inl Null_deref"
proof -
  have "L \<noteq> []" using assms(1) by (auto simp: links_ok_def)
  moreover have "dropWhile (\<lambda>k. below b k n) L = []" using assms(5) by simp
  ultimately show ?thesis
    using addOrdersAtPrice_ask_run [OF assms(1) _ assms(2-4)] by (simp del: dropWhile_eq_Nil_conv)
qed

lemma addOrdersAtPrice_ask:
  assumes "links_ok b (as @ bs) B op" "slots_ok b (as @ bs @ B)" "fresh_level b (as @ bs @ B) n"
    "lside b n = SELL" "as @ bs \<noteq> []" "\<And>k. k \<in> set as \<Longrightarrow> below b k n" "\<And>k. k \<in> set bs \<Longrightarrow> below b n k"
    "\<not> (op \<and> bs = [])"
  shows "\<exists>b'. addOrdersAtPrice (Some n) b = Inr ((), b') \<and>
    links_ok b' (as @ n # bs) B (open_after_insert as bs op) \<and> slots_ok b' (as @ n # bs @ B) \<and>
    lvls b' = lvls b \<and> same_rest b b' \<and> (\<forall>j. same_data b b' j) \<and> lcap b' = lcap b \<and>
    pool_ok (ob_orders_at_price_pool b') = pool_ok (ob_orders_at_price_pool b)"
proof -
  let ?L = "as @ bs" and ?b = "with_slot n b"
  have drop: "dropWhile (\<lambda>k. below b k n) ?L = bs"
    using assms(6,7) by (cases bs) (force simp: below_def dropWhile_append)+
  have n: "n \<notin> set ?L" "n \<notin> set B" "n < lcap b" "lnext b n = None"
    using assms(3) by (auto simp: fresh_level_def)
  have ring: "ring (lnext b) (lprev b) ?L (ask_end ?L op)" and caps: "\<forall>k \<in> set ?L. k < lcap b"
    and bids: "ob_bids_at_price b = None" and asks: "ob_asks_at_price b = Some (hd ?L)"
    and distinct: "distinct (?L @ B)"
    using assms(1,5) by (auto simp: links_ok_def)
  let ?h = "hd ?L"
  have h: "?h \<in> set ?L" using assms(5) by (rule hd_in_set)
  note run = addOrdersAtPrice_ask_run [OF assms(1,5) _ _ assms(4)]
  have slots: "slots_ok b' (as @ n # bs @ B)"
    if "slots b' = slots ?b" "\<forall>j. same_data ?b b' j" for b'
    by (rule slots_ok_with_slot [OF assms(2,3)]) (use that in \<open>auto simp: same_data_def\<close>)
  note insert = links_ok_insert [OF assms(1) _ n(3) assms(4) _ _ _ _ _ _ _ assms(6,7)]
  show ?thesis
  proof (cases bs)
    case Nil
    then have op: "op = False" "?L = as" using assms(8) by auto
    obtain cs z where as: "as = cs @ [z]" using assms(5) Nil by (cases as rule: rev_cases) auto
    have hz: "lprev b ?h = Some z" "lnext b z = Some ?h" "z \<in> set ?L"
      using ring_prev_hd [of "lnext b" "lprev b" ?h "tl ?L"] ring_last_next [OF ring] ring assms(5) as Nil op
      by (auto simp: ask_end_def)
    obtain b' where b': "link_after (Some n) (Some ?h) (Some ?h) ?b = Inr ((), b')"
      "lnext b' = (lnext b)(z := Some n)" "lprev b' = (lprev b)(n := Some z, ?h := Some n)"
      "slots b' = slots ?b" "lvls b' = lvls b" "same_rest b b'" "\<forall>j. same_data ?b b' j" "lcap b' = lcap b"
      "pool_ok (ob_orders_at_price_pool b') = pool_ok (ob_orders_at_price_pool b)"
      "ob_bids_at_price b' = None" "ob_asks_at_price b' = Some ?h"
      using link_after_run [of n ?b ?h z] n h hz caps bids asks by (auto simp: same_data_def)
    have "ring (lnext b') (lprev b') (?L @ [n]) None"
      using ring_append_open [of "lnext b" "lprev b" ?L n None] ring n op as Nil b'(2,3)
      by (simp add: ask_end_def)
    moreover have "lnext b' j = lnext b j \<and> lprev b' j = lprev b j" if "j \<in> set B" for j
    proof -
      have "j \<noteq> z" "j \<noteq> n" "j \<noteq> ?h" using that n(2) hz(3) h distinct by auto
      then show ?thesis using fun_cong [OF b'(2), of j] fun_cong [OF b'(3), of j] by simp
    qed
    moreover have "same_data b b' j" for j using b'(7) by (simp add: same_data_def)
    moreover have "ob_asks_at_price b' = Some (hd (as @ [n]))" using b'(11) as Nil by (simp add: hd_append)
    ultimately have "links_ok b' (as @ n # bs) B True"
      using b'(8,10) n(1,2) as Nil by (intro insert) (simp_all add: ask_end_def)
    then show ?thesis
      using run [of ] b' drop op slots [of b'] assms(2,3) Nil as
      by (auto simp: open_after_insert_def same_data_def)
  next
    case (Cons m ms)
    let ?p = "if as = [] then last bs else last as"
    have m: "m \<in> set ?L" "lprev b m = Some ?p" "?p \<in> set ?L"
      using ring_prev [of _ _ as m ms] ring Cons by auto
    have hm: "below b n ?h \<longleftrightarrow> as = []"
      using assms(6,7) Cons by (cases as) (force simp: below_def)+
    have nx: "below ?b n ?h \<longrightarrow> lnext b m \<noteq> Some ?h \<or> ?p = m"
    proof
      assume "below ?b n ?h"
      then have "as = []" using hm by (simp add: below_def)
      then show "lnext b m \<noteq> Some ?h \<or> ?p = m"
        using ring_next [of "lnext b" "lprev b" as m ms "ask_end ?L op"] ring Cons distinct
        by (cases ms) auto
    qed
    have caps': "n < lcap ?b" "?h < lcap ?b" "?p < lcap ?b" "m < lcap ?b"
      using n h m caps by simp_all
    have ne: "n \<noteq> ?h" "n \<noteq> ?p" "n \<noteq> m" using n(1) h m(1,3) by metis+
    have bm: "below ?b n ?h = (as = [])" using hm by (simp add: below_def)
    have pre: "lprev ?b m = Some ?p" "lside ?b n = SELL" using m(2) assms(4) by simp_all
    have nx': "below ?b n ?h \<longrightarrow> lnext ?b m \<noteq> Some ?h \<or> ?p = m" using nx by simp
    obtain b' where b'': "link_before (Some n) (Some ?h) (Some m) ?b = Inr ((), b')"
      "lnext b' = (lnext ?b)(n := Some m, ?p := Some n)" "lprev b' = (lprev ?b)(n := Some ?p, m := Some n)"
      "slots b' = slots ?b" "lvls b' = lvls ?b" "same_rest ?b b'" "\<forall>j. same_data ?b b' j" "lcap b' = lcap ?b"
      "pool_ok (ob_orders_at_price_pool b') = pool_ok (ob_orders_at_price_pool ?b)"
      "ob_bids_at_price b' = ob_bids_at_price ?b"
      "ob_asks_at_price b' = (if below ?b n ?h then Some n else ob_asks_at_price ?b)"
      using link_before_run [OF caps' pre(1) ne pre(2) nx'] by blast
    note b' = b''[unfolded bm with_slot_sel bids asks]
    have "ring (lnext b') (lprev b') (as @ n # m # ms) (if as = [] then Some n else ask_end ?L op)"
      using ring_insert_before [of _ _ as m ms _ n ?p] ring n m(2) Cons b'(2,3) by auto
    moreover have "(if as = [] then Some n else ask_end ?L op) = ask_end (as @ n # bs) (as \<noteq> [] \<and> op)"
      by (auto simp: ask_end_def hd_append)
    moreover have "lnext b' j = lnext b j \<and> lprev b' j = lprev b j" if "j \<in> set B" for j
    proof -
      have "j \<noteq> m" "j \<noteq> n" "j \<noteq> ?p" using that n(2) m(1,3) distinct by auto
      then show ?thesis using fun_cong [OF b'(2), of j] fun_cong [OF b'(3), of j] by simp
    qed
    moreover have "same_data b b' j" for j using b'(7) by (simp add: same_data_def)
    moreover have "ob_asks_at_price b' = Some (hd (as @ n # bs))" using b'(11) by (simp add: hd_append)
    ultimately have "links_ok b' (as @ n # bs) B (as \<noteq> [] \<and> op)"
      using b'(8,10) n(1,2) Cons by (intro insert) simp_all
    then show ?thesis
      using run b' drop slots [of b'] assms(2,3) Cons
      by (auto simp: open_after_insert_def same_data_def)
  qed
qed
end
