(* ===== verification/Book_Orders.thy ===== *)
theory Book_Orders
  imports Level_Insert
begin

text \<open>
  The orders of the book. \<open>book_inv b L B Q op\<close> says that the book \<open>b\<close> is well shaped: \<open>L\<close> lists its
  ask levels from the lowest price up, \<open>B\<close> its buy levels, \<open>Q i\<close> the orders of level \<open>i\<close> in time
  order, and \<open>op\<close> tells whether the ask ring is open, that is, whether the last ask level has a null
  \<open>next_entry_\<close>. \<open>removeOrder\<close> keeps the invariant, except that it faults when it empties the last
  level of an open ring.
\<close>


section \<open>Orders of the levels\<close>

abbreviation onext :: "MEOrderBook \<Rightarrow> nat \<Rightarrow> order_ptr" where
  "onext b \<equiv> \<lambda>x. o_next_order (od b x)"

abbreviation oprev :: "MEOrderBook \<Rightarrow> nat \<Rightarrow> order_ptr" where
  "oprev b \<equiv> \<lambda>x. o_prev_order (od b x)"

abbreviation ocap :: "MEOrderBook \<Rightarrow> nat" where
  "ocap b \<equiv> pool_cap (ob_order_pool b)"

definition level_orders_ok :: "MEOrderBook \<Rightarrow> nat \<Rightarrow> nat list \<Rightarrow> bool" where
  "level_orders_ok b i xs \<longleftrightarrow> xs \<noteq> [] \<and> l_first_me_order (lv b i) = Some (hd xs) \<and>
     ring (onext b) (oprev b) xs (Some (hd xs)) \<and>
     (\<forall>x \<in> set xs. o_price (od b x) = lprice b i \<and> o_side (od b x) = lside b i)"

definition orders_ok :: "MEOrderBook \<Rightarrow> nat list \<Rightarrow> (nat \<Rightarrow> nat list) \<Rightarrow> bool" where
  "orders_ok b is Q \<longleftrightarrow>
     (\<forall>i \<in> set is. level_orders_ok b i (Q i)) \<and>
     distinct (concat (map Q is)) \<and> set (concat (map Q is)) = ords b"

definition in_range :: "MEOrder \<Rightarrow> bool" where
  "in_range x \<longleftrightarrow> unat (o_client_id x) < ME_MAX_NUM_CLIENTS \<and> unat (o_client_order_id x) < ME_MAX_ORDER_IDS"

definition cell :: "MEOrderBook \<Rightarrow> ClientId \<Rightarrow> OrderId \<Rightarrow> order_ptr" where
  "cell b c i = aget (aget (ob_cid_oid_to_order b) (unat c)) (unat i)"

definition index_ok :: "MEOrderBook \<Rightarrow> bool" where
  "index_ok b \<longleftrightarrow>
     alen (ob_cid_oid_to_order b) = ME_MAX_NUM_CLIENTS \<and>
     (\<forall>c < ME_MAX_NUM_CLIENTS. alen (aget (ob_cid_oid_to_order b) c) = ME_MAX_ORDER_IDS) \<and>
     (\<forall>c i x. unat c < ME_MAX_NUM_CLIENTS \<longrightarrow> unat i < ME_MAX_ORDER_IDS \<longrightarrow> cell b c i = Some x \<longrightarrow>
        x \<in> ords b \<and> o_client_id (od b x) = c \<and> o_client_order_id (od b x) = i) \<and>
     (\<forall>x \<in> ords b. in_range (od b x))"

text \<open>Everything of an order but its links.\<close>

definition payload :: "MEOrder \<Rightarrow> MEOrder" where
  "payload x = x\<lparr>o_prev_order := None, o_next_order := None\<rparr>"

lemma payload_eqD:
  assumes "payload x = payload y"
  shows "o_ticker_id x = o_ticker_id y" "o_client_id x = o_client_id y"
    "o_client_order_id x = o_client_order_id y" "o_market_order_id x = o_market_order_id y"
    "o_side x = o_side y" "o_price x = o_price y" "o_qty x = o_qty y" "o_priority x = o_priority y"
  using assms by (cases x; cases y; simp add: payload_def)+

lemma payload_links [simp]:
  "payload (x\<lparr>o_prev_order := p\<rparr>) = payload x" "payload (x\<lparr>o_next_order := p\<rparr>) = payload x"
  by (simp_all add: payload_def)

definition same_payloads :: "MEOrderBook \<Rightarrow> MEOrderBook \<Rightarrow> bool" where
  "same_payloads b b' \<longleftrightarrow> (\<forall>x. payload (od b' x) = payload (od b x))"

lemma same_payloadsD: "same_payloads b b' \<Longrightarrow> payload (od b' x) = payload (od b x)"
  by (simp add: same_payloads_def)

lemma osel_upd [simp]:
  "(\<lambda>j. o_next_order ((f(i := l)) j)) = (\<lambda>j. o_next_order (f j))(i := o_next_order l)"
  "(\<lambda>j. o_prev_order ((f(i := l)) j)) = (\<lambda>j. o_prev_order (f j))(i := o_prev_order l)"
  by (auto simp: fun_eq_iff)

lemma orders_okD:
  assumes "orders_ok b is Q"
  shows "i \<in> set is \<Longrightarrow> level_orders_ok b i (Q i)"
    "distinct (concat (map Q is))" "set (concat (map Q is)) = ords b"
  using assms by (simp_all only: orders_ok_def)

lemma links_distinct: "links_ok b L B op \<Longrightarrow> distinct (L @ B)"
  by (simp add: links_ok_def)

lemma orders_live:
  assumes "orders_ok b is Q" "i \<in> set is" "x \<in> set (Q i)"
  shows "x \<in> ords b" "x < ocap b"
proof -
  show "x \<in> ords b" using assms by (auto simp: orders_ok_def)
  then show "x < ocap b" by (rule mp.in_use_bound)
qed

lemma orders_disjoint:
  assumes "orders_ok b is Q" "distinct is" "i \<in> set is" "j \<in> set is" "i \<noteq> j"
  shows "set (Q i) \<inter> set (Q j) = {}"
proof -
  have "\<lbrakk>distinct (concat (map Q ks)); distinct ks; i \<in> set ks; j \<in> set ks\<rbrakk> \<Longrightarrow> set (Q i) \<inter> set (Q j) = {}" for ks
    using assms(5) by (induction ks) auto
  then show ?thesis using assms by (auto simp: orders_ok_def)
qed

text \<open>Taking or adding one order of level \<open>i\<close> in the concatenation.\<close>

lemma concat_update:
  assumes "i \<in> set is" "distinct is" "distinct (concat (map Q is))"
  shows "set ys \<subseteq> set (Q i) \<Longrightarrow> distinct ys \<Longrightarrow> distinct (concat (map (Q(i := ys)) is))"
    and "set (concat (map (Q(i := ys)) is)) = set (concat (map Q is)) - set (Q i) \<union> set ys"
proof -
  obtain us vs where us: "is = us @ i # vs" using assms(1) by (meson split_list)
  have i: "i \<notin> set us" "i \<notin> set vs" using assms(2) us by auto
  have map: "map (Q(i := ys)) is = map Q us @ ys # map Q vs" using us i by simp
  show "set ys \<subseteq> set (Q i) \<Longrightarrow> distinct ys \<Longrightarrow> distinct (concat (map (Q(i := ys)) is))"
    unfolding map using assms(3) us by auto
  show "set (concat (map (Q(i := ys)) is)) = set (concat (map Q is)) - set (Q i) \<union> set ys"
    unfolding map using assms(3) us by auto
qed

lemma concat_removeAll:
  assumes "distinct (concat (map Q is))"
  shows "distinct (concat (map Q (removeAll i is)))"
    and "distinct is \<Longrightarrow> i \<in> set is \<Longrightarrow> set (concat (map Q (removeAll i is))) = set (concat (map Q is)) - set (Q i)"
proof -
  show "distinct (concat (map Q (removeAll i is)))"
    using assms by (induction "is") auto
  assume d: "distinct is" and i: "i \<in> set is"
  obtain us vs where us: "is = us @ i # vs" using i by (meson split_list)
  have "i \<notin> set us" "i \<notin> set vs" using d us by auto
  then have "removeAll i is = us @ vs" using us by simp
  then show "set (concat (map Q (removeAll i is))) = set (concat (map Q is)) - set (Q i)"
    using assms us by auto
qed

section \<open>Dropping an order\<close>

definition clear_cell :: "nat \<Rightarrow> MEOrderBook \<Rightarrow> ClientOrderHashMap" where
  "clear_cell x b = arr_put (unat (o_client_id (od b x)))
     (arr_put (unat (o_client_order_id (od b x))) None
       (aget (ob_cid_oid_to_order b) (unat (o_client_id (od b x))))) (ob_cid_oid_to_order b)"

lemma put_cid_oid_run:
  assumes "index_ok b" "unat c < ME_MAX_NUM_CLIENTS" "unat i < ME_MAX_ORDER_IDS"
  shows "put_cid_oid c i v b = Inr ((), b\<lparr>ob_cid_oid_to_order :=
    arr_put (unat c) (arr_put (unat i) v (aget (ob_cid_oid_to_order b) (unat c))) (ob_cid_oid_to_order b)\<rparr>)"
  using assms by (simp add: put_cid_oid_def bnd_def index_ok_def)

lemma drop_order:
  assumes "index_ok b" "x \<in> ords b"
  shows "\<exists>pl. sq (bnd (rd_ord (Some x) o_client_id) (\<lambda>c. bnd (rd_ord (Some x) o_client_order_id)
           (\<lambda>i. put_cid_oid c i None))) (on_ord_pool (deallocate (Some x))) b
      = Inr ((), b\<lparr>ob_cid_oid_to_order := clear_cell x b, ob_order_pool := pl\<rparr>) \<and>
    pool_live pl = ords b - {x} \<and> pool_obj pl = od b \<and> pool_cap pl = ocap b \<and>
    (pool_ok (ob_order_pool b) \<longrightarrow> pool_ok pl)"
proof -
  have x: "x < ocap b" using assms(2) by (rule mp.in_use_bound)
  have r: "unat (o_client_id (od b x)) < ME_MAX_NUM_CLIENTS"
    "unat (o_client_order_id (od b x)) < ME_MAX_ORDER_IDS"
    using assms by (auto simp: index_ok_def in_range_def)
  obtain pl where "deallocate (Some x) (ob_order_pool b) = Inr ((), pl)"
    "pool_live pl = ords b - {x}" "pool_obj pl = od b" "pool_cap pl = ocap b"
    "pool_ok (ob_order_pool b) \<longrightarrow> pool_ok pl"
    using mp.release_used [OF assms(2)] by blast
  then show ?thesis
    using x put_cid_oid_run [OF assms(1) r]
    by (intro exI [of _ pl]) (simp add: sq_def bnd_def rd_ord_run on_ord_pool_def zoom_def clear_cell_def)
qed

lemma cell_clear:
  "cell (b\<lparr>ob_cid_oid_to_order := clear_cell x b, ob_order_pool := pl\<rparr>) c i =
    (if c = o_client_id (od b x) \<and> i = o_client_order_id (od b x) then None else cell b c i)"
  by (auto simp: cell_def clear_cell_def dest: unsigned_word_eqI)

lemma index_ok_clear:
  assumes "index_ok b" "x \<in> ords b" "pool_live pl = ords b - {x}" "pool_obj pl = od b"
  shows "index_ok (b\<lparr>ob_cid_oid_to_order := clear_cell x b, ob_order_pool := pl\<rparr>)"
proof -
  let ?b = "b\<lparr>ob_cid_oid_to_order := clear_cell x b, ob_order_pool := pl\<rparr>"
  have len: "alen (ob_cid_oid_to_order ?b) = ME_MAX_NUM_CLIENTS"
    using assms(1) by (simp add: clear_cell_def index_ok_def)
  have rows: "alen (aget (ob_cid_oid_to_order ?b) c) = ME_MAX_ORDER_IDS" if "c < ME_MAX_NUM_CLIENTS" for c
    using assms(1) that by (simp add: clear_cell_def index_ok_def)
  have cells: "y \<in> ords ?b \<and> o_client_id (od ?b y) = c \<and> o_client_order_id (od ?b y) = i"
    if c: "unat c < ME_MAX_NUM_CLIENTS" "unat i < ME_MAX_ORDER_IDS" and y: "cell ?b c i = Some y" for c i y
  proof -
    have ne: "\<not> (c = o_client_id (od b x) \<and> i = o_client_order_id (od b x))" and "cell b c i = Some y"
      using y unfolding cell_clear by (auto split: if_splits)
    then have "y \<in> ords b" "o_client_id (od b y) = c" "o_client_order_id (od b y) = i"
      using assms(1) c by (simp_all add: index_ok_def)
    with ne assms(3,4) show ?thesis by auto
  qed
  have "\<forall>y \<in> ords ?b. in_range (od ?b y)"
    using assms by (simp add: index_ok_def)
  with len rows cells show ?thesis unfolding index_ok_def by blast
qed

lemma index_ok_cong:
  assumes "index_ok b" "ob_cid_oid_to_order b' = ob_cid_oid_to_order b" "ords b' = ords b" "same_payloads b b'"
  shows "index_ok b'"
  using assms payload_eqD [OF same_payloadsD [OF assms(4)]]
  by (simp add: index_ok_def cell_def in_range_def)


section \<open>The invariant of a book\<close>

definition book_inv :: "MEOrderBook \<Rightarrow> nat list \<Rightarrow> nat list \<Rightarrow> (nat \<Rightarrow> nat list) \<Rightarrow> bool \<Rightarrow> bool" where
  "book_inv b L B Q op \<longleftrightarrow>
     links_ok b L B op \<and> slots_ok b (L @ B) \<and> lvls b = set (L @ B) \<and>
     pool_ok (ob_orders_at_price_pool b) \<and> lcap b = ME_MAX_PRICE_LEVELS \<and>
     orders_ok b (L @ B) Q \<and> pool_ok (ob_order_pool b) \<and> ocap b = ME_MAX_ORDER_IDS \<and> index_ok b"

text \<open>The fields no list operation touches.\<close>

definition same_ids :: "MEOrderBook \<Rightarrow> MEOrderBook \<Rightarrow> bool" where
  "same_ids b b' \<longleftrightarrow> ob_ticker_id b' = ob_ticker_id b \<and> ob_client_response b' = ob_client_response b \<and>
     ob_market_update b' = ob_market_update b \<and> ob_next_market_order_id b' = ob_next_market_order_id b"

lemma same_rest_ids: "same_rest b b' \<Longrightarrow> same_ids b b'"
  by (simp add: same_rest_def same_ids_def)

definition same_prices :: "MEOrderBook \<Rightarrow> MEOrderBook \<Rightarrow> bool" where
  "same_prices b b' \<longleftrightarrow> (\<forall>j. lprice b' j = lprice b j)"

lemma book_inv_level:
  assumes "book_inv b L B Q op" "i \<in> set (L @ B)"
  shows "i < lcap b" "i \<in> lvls b" "level_orders_ok b i (Q i)"
    "aget (slots b) (priceToIndex (lprice b i)) = Some i"
  using assms slots_ok_here [of b "L @ B" i] by (auto simp: book_inv_def links_ok_def orders_ok_def)

lemma book_inv_order:
  assumes "book_inv b L B Q op" "i \<in> set (L @ B)" "x \<in> set (Q i)"
  shows "x \<in> ords b" "x < ocap b" "o_price (od b x) = lprice b i" "o_side (od b x) = lside b i"
    "getOrdersAtPrice (o_price (od b x)) b = Inr (Some i, b)" "in_range (od b x)"
proof -
  have o: "orders_ok b (L @ B) Q" and s: "slots_ok b (L @ B)" and ix: "index_ok b"
    using assms(1) by (simp_all add: book_inv_def)
  show "x \<in> ords b" "x < ocap b" using orders_live [OF o assms(2,3)] by simp_all
  then show "in_range (od b x)" using ix by (simp add: index_ok_def)
  show p: "o_price (od b x) = lprice b i" "o_side (od b x) = lside b i"
    using book_inv_level(3) [OF assms(1,2)] assms(3) by (simp_all add: level_orders_ok_def)
  show "getOrdersAtPrice (o_price (od b x)) b = Inr (Some i, b)"
    using getOrdersAtPrice_run [OF s] p(1) slots_ok_here [OF s assms(2)] by simp
qed

section \<open>removeOrder, another order stays at the price\<close>

lemma unlink_order_run:
  assumes "x < ocap b" "p < ocap b" "n < ocap b" "oprev b x = Some p" "onext b x = Some n" "p \<noteq> x" "n \<noteq> x"
    "getOrdersAtPrice (o_price (od b x)) b = Inr (Some i, b)" "i < lcap b"
  shows "\<exists>b1. removeOrder (Some x) b = sq (bnd (rd_ord (Some x) o_client_id) (\<lambda>c.
        bnd (rd_ord (Some x) o_client_order_id) (\<lambda>i. put_cid_oid c i None))) (on_ord_pool (deallocate (Some x))) b1 \<and>
    onext b1 = (onext b)(p := Some n, x := None) \<and> oprev b1 = (oprev b)(n := Some p, x := None) \<and>
    same_payloads b b1 \<and> ords b1 = ords b \<and> ocap b1 = ocap b \<and>
    pool_ok (ob_order_pool b1) = pool_ok (ob_order_pool b) \<and>
    lv b1 = (lv b)(i := (lv b i)\<lparr>l_first_me_order :=
       if l_first_me_order (lv b i) = Some x then Some n else l_first_me_order (lv b i)\<rparr>) \<and>
    lvls b1 = lvls b \<and> lcap b1 = lcap b \<and>
    pool_ok (ob_orders_at_price_pool b1) = pool_ok (ob_orders_at_price_pool b) \<and>
    ob_bids_at_price b1 = ob_bids_at_price b \<and> ob_asks_at_price b1 = ob_asks_at_price b \<and>
    slots b1 = slots b \<and> ob_cid_oid_to_order b1 = ob_cid_oid_to_order b \<and> same_ids b b1"
proof -
  let ?w1 = "wod p ((od b p)\<lparr>o_next_order := Some n\<rparr>) b"
  let ?w2 = "wod n ((od ?w1 n)\<lparr>o_prev_order := Some p\<rparr>) ?w1"
  let ?w3 = "if l_first_me_order (lv b i) = Some x
    then wlv i ((lv b i)\<lparr>l_first_me_order := Some n\<rparr>) ?w2 else ?w2"
  let ?b1 = "wod x ((od ?w3 x)\<lparr>o_prev_order := None, o_next_order := None\<rparr>) ?w3"
  have run: "removeOrder (Some x) b = sq (bnd (rd_ord (Some x) o_client_id) (\<lambda>c.
        bnd (rd_ord (Some x) o_client_order_id) (\<lambda>i. put_cid_oid c i None))) (on_ord_pool (deallocate (Some x))) ?b1"
    unfolding removeOrder_def
    using assms
    by (simp add: bnd_def [of "rd_ord _ o_price"] bnd_def [of "getOrdersAtPrice _"]
        bnd_def [of "rd_ord _ o_prev_order"] bnd_def [of "rd_ord _ o_next_order"]
        bnd_def [of "rd_lvl _ l_first_me_order"]
        rd_ord_run wr_ord_run rd_lvl_run wr_lvl_run sq_Inr when_do_def)
  have n: "onext ?b1 = (onext b)(p := Some n, x := None)"
    using assms(6,7) by (auto simp: fun_eq_iff)
  have p: "oprev ?b1 = (oprev b)(n := Some p, x := None)"
    using assms(6,7) by (auto simp: fun_eq_iff)
  have "same_payloads b ?b1" by (auto simp: same_payloads_def payload_def)
  moreover have "lv ?b1 = (lv b)(i := (lv b i)\<lparr>l_first_me_order :=
       if l_first_me_order (lv b i) = Some x then Some n else l_first_me_order (lv b i)\<rparr>)"
    by auto
  ultimately show ?thesis
    using run n p by (intro exI [of _ ?b1]) (simp add: same_ids_def)
qed

lemma links_ok_cong_links:
  assumes "links_ok b L B op" "\<And>i. l_price (lv b' i) = l_price (lv b i) \<and> l_side (lv b' i) = l_side (lv b i) \<and>
      l_next_entry (lv b' i) = l_next_entry (lv b i) \<and> l_prev_entry (lv b' i) = l_prev_entry (lv b i)"
    "ob_bids_at_price b' = ob_bids_at_price b" "ob_asks_at_price b' = ob_asks_at_price b"
    "lcap b' = lcap b"
  shows "links_ok b' L B op"
proof -
  have "lnext b' = lnext b" "lprev b' = lprev b" using assms(2) by (simp_all add: fun_eq_iff)
  moreover have "sorted_wrt (below b') L = sorted_wrt (below b) L"
    using assms(2) by (intro below_cong) auto
  ultimately show ?thesis using assms by (simp add: links_ok_def)
qed

lemma slots_ok_cong:
  "slots_ok b xs \<Longrightarrow> slots b' = slots b \<Longrightarrow> (\<And>j. lprice b' j = lprice b j) \<Longrightarrow> slots_ok b' xs"
  by (simp add: slots_ok_def)

text \<open>A level whose orders were not touched.\<close>

lemma level_orders_ok_cong:
  assumes "level_orders_ok b i xs" "lv b' i = lv b i" "\<And>x. x \<in> set xs \<Longrightarrow> onext b' x = onext b x \<and> oprev b' x = oprev b x"
    "same_payloads b b'"
  shows "level_orders_ok b' i xs"
proof -
  have "ring (onext b') (oprev b') xs e = ring (onext b) (oprev b) xs e" for e
    using assms(3) by (intro ring_cong) auto
  then show ?thesis
    using assms payload_eqD [OF same_payloadsD [OF assms(4)]] by (simp add: level_orders_ok_def)
qed

text \<open>What every removal leaves alone, and what it does to the index of client orders.\<close>

definition removed :: "MEOrderBook \<Rightarrow> nat \<Rightarrow> MEOrderBook \<Rightarrow> bool" where
  "removed b x b' \<longleftrightarrow> same_payloads b b' \<and> same_prices b b' \<and> same_ids b b' \<and> ords b' = ords b - {x} \<and>
     (\<forall>c i. cell b' c i =
       (if c = o_client_id (od b x) \<and> i = o_client_order_id (od b x) then None else cell b c i))"

lemma removeOrder_more:
  assumes inv: "book_inv b L B Q op" and i: "i \<in> set (L @ B)" and Q: "Q i = as @ x # bs"
    and more: "as @ bs \<noteq> []"
  shows "\<exists>b'. removeOrder (Some x) b = Inr ((), b') \<and> book_inv b' L B (Q(i := as @ bs)) op \<and>
    removed b x b'"
proof -
  have x: "x \<in> set (Q i)" using Q by simp
  note lev = book_inv_level [OF inv i] and ord = book_inv_order [OF inv i x]
  have ok: "orders_ok b (L @ B) Q" "index_ok b" "links_ok b L B op" "slots_ok b (L @ B)"
    using inv by (simp_all add: book_inv_def)
  note dist = links_distinct [OF ok(3)]
  have ring: "ring (onext b) (oprev b) (as @ x # bs) (Some (hd (as @ x # bs)))"
    and first: "l_first_me_order (lv b i) = Some (hd (as @ x # bs))"
    using lev(3) Q by (simp_all add: level_orders_ok_def)
  define p where "p = (if as = [] then last (x # bs) else last as)"
  define n where "n = (if bs = [] then hd as else hd bs)"
  have p: "oprev b x = Some p" using ring_prev [OF ring] by (simp add: p_def)
  have n: "onext b x = Some n"
    using ring_next [OF ring] more by (auto simp: n_def split: list.splits)
  have pn: "p \<in> set (as @ bs)" "n \<in> set (as @ bs)" using more by (auto simp: p_def n_def)
  have xni: "x \<notin> set (as @ bs)" using ring_distinct [OF ring] by auto
  have ne: "p \<noteq> x" "n \<noteq> x" using pn xni by auto
  have pnQ: "p \<in> set (Q i)" "n \<in> set (Q i)" using pn Q by auto
  have caps: "p < ocap b" "n < ocap b" using orders_live [OF ok(1) i] pnQ by auto
  obtain b1 where run1: "removeOrder (Some x) b = sq (bnd (rd_ord (Some x) o_client_id) (\<lambda>c.
        bnd (rd_ord (Some x) o_client_order_id) (\<lambda>i. put_cid_oid c i None))) (on_ord_pool (deallocate (Some x))) b1"
    and b1: "onext b1 = (onext b)(p := Some n, x := None)" "oprev b1 = (oprev b)(n := Some p, x := None)"
      "same_payloads b b1" "ords b1 = ords b" "ocap b1 = ocap b"
      "pool_ok (ob_order_pool b1) = pool_ok (ob_order_pool b)"
      "lv b1 = (lv b)(i := (lv b i)\<lparr>l_first_me_order :=
         if l_first_me_order (lv b i) = Some x then Some n else l_first_me_order (lv b i)\<rparr>)"
      "lvls b1 = lvls b" "lcap b1 = lcap b"
      "pool_ok (ob_orders_at_price_pool b1) = pool_ok (ob_orders_at_price_pool b)"
      "ob_bids_at_price b1 = ob_bids_at_price b" "ob_asks_at_price b1 = ob_asks_at_price b"
      "slots b1 = slots b" "ob_cid_oid_to_order b1 = ob_cid_oid_to_order b" "same_ids b b1"
    using unlink_order_run [OF ord(2) caps p n ne ord(5) lev(1)] by blast
  have ix1: "index_ok b1" using index_ok_cong [OF ok(2) b1(14,4,3)] .
  have x1: "x \<in> ords b1" using ord(1) b1(4) by simp
  obtain pl where run2: "sq (bnd (rd_ord (Some x) o_client_id) (\<lambda>c.
        bnd (rd_ord (Some x) o_client_order_id) (\<lambda>i. put_cid_oid c i None))) (on_ord_pool (deallocate (Some x))) b1
      = Inr ((), b1\<lparr>ob_cid_oid_to_order := clear_cell x b1, ob_order_pool := pl\<rparr>)"
    and pl: "pool_live pl = ords b1 - {x}" "pool_obj pl = od b1" "pool_cap pl = ocap b1"
      "pool_ok (ob_order_pool b1) \<longrightarrow> pool_ok pl"
    using drop_order [OF ix1 x1] by blast
  let ?b' = "b1\<lparr>ob_cid_oid_to_order := clear_cell x b1, ob_order_pool := pl\<rparr>"
  have lv': "lv ?b' = lv b1" by simp
  have lv'i: "l_price (lv ?b' j) = l_price (lv b j) \<and> l_side (lv ?b' j) = l_side (lv b j) \<and>
      l_next_entry (lv ?b' j) = l_next_entry (lv b j) \<and> l_prev_entry (lv ?b' j) = l_prev_entry (lv b j)" for j
    by (simp add: b1(7))
  have pay: "same_payloads b ?b'" using b1(3) pl(2) by (simp add: same_payloads_def)
  note pd = payload_eqD [OF same_payloadsD [OF pay]]
  have links: "links_ok ?b' L B op"
    using lv'i b1(9,11,12) by (intro links_ok_cong_links [OF ok(3)]) simp_all
  have slots: "slots_ok ?b' (L @ B)"
    using lv'i b1(13) by (intro slots_ok_cong [OF ok(4)]) simp_all
  have ring': "ring (onext ?b') (oprev ?b') (as @ bs) (Some (hd (as @ bs)))"
  proof -
    have "ring ((onext b)(p := onext b x)) ((oprev b)(n := oprev b x)) (as @ bs)
        (if as = [] then Some (hd bs) else Some (hd (as @ x # bs)))"
      using more by (intro ring_remove [OF ring _ p n]) auto
    moreover have "(if as = [] then Some (hd bs) else Some (hd (as @ x # bs))) = Some (hd (as @ bs))"
      by simp
    moreover have "ring (onext ?b') (oprev ?b') (as @ bs) e =
        ring ((onext b)(p := onext b x)) ((oprev b)(n := oprev b x)) (as @ bs) e" for e
    proof (rule ring_cong)
      fix a assume "a \<in> set (as @ bs)"
      then have "a \<noteq> x" using xni by auto
      then show "onext ?b' a = ((onext b)(p := onext b x)) a" "oprev ?b' a = ((oprev b)(n := oprev b x)) a"
        using fun_cong [OF b1(1), of a] fun_cong [OF b1(2), of a] p n by (simp_all add: pl(2))
    qed
    ultimately show ?thesis by simp
  qed
  have lev_i: "level_orders_ok ?b' i (as @ bs)"
  proof -
    have "l_first_me_order (lv ?b' i) = Some (hd (as @ bs))"
      using first xni by (cases as) (auto simp: b1(7) n_def)
    then show ?thesis
      using more ring' lev(3) Q pd lv'i by (auto simp: level_orders_ok_def)
  qed
  have "level_orders_ok ?b' j ((Q(i := as @ bs)) j)" if j: "j \<in> set (L @ B)" for j
  proof (cases "j = i")
    case True
    with lev_i show ?thesis by simp
  next
    case False
    have disj: "set (Q i) \<inter> set (Q j) = {}" using orders_disjoint [OF ok(1) dist i j] False by blast
    have "level_orders_ok ?b' j (Q j)"
    proof (rule level_orders_ok_cong [OF book_inv_level(3) [OF inv j] _ _ pay])
      show "lv ?b' j = lv b j" using False by (simp add: b1(7))
      fix y assume "y \<in> set (Q j)"
      then have "y \<noteq> p" "y \<noteq> n" "y \<noteq> x" using disj pnQ x by auto
      then show "onext ?b' y = onext b y \<and> oprev ?b' y = oprev b y"
        using fun_cong [OF b1(1), of y] fun_cong [OF b1(2), of y] by (simp add: pl(2))
    qed
    then show ?thesis using False by simp
  qed
  moreover have "distinct (concat (map (Q(i := as @ bs)) (L @ B)))"
    by (rule concat_update(1) [OF i dist orders_okD(2) [OF ok(1)]]) (use Q ring_distinct [OF ring] in auto)
  moreover have "set (concat (map (Q(i := as @ bs)) (L @ B))) = ords ?b'"
    unfolding concat_update(2) [OF i dist orders_okD(2) [OF ok(1)]] orders_okD(3) [OF ok(1)]
    using orders_live(1) [OF ok(1) i] Q xni pl(1) b1(4) by auto
  ultimately have orders: "orders_ok ?b' (L @ B) (Q(i := as @ bs))"
    unfolding orders_ok_def by blast
  have index: "index_ok ?b'" by (rule index_ok_clear [OF ix1 x1 pl(1,2)])
  have "book_inv ?b' L B (Q(i := as @ bs)) op"
    using inv links slots orders index b1 pl by (simp add: book_inv_def)
  moreover have "removed b x ?b'"
    unfolding removed_def cell_clear
    using pay lv'i b1(4,15) pl(1) payload_eqD [OF same_payloadsD [OF b1(3)]] b1(14)
    by (simp add: same_prices_def same_ids_def cell_def)
  ultimately show ?thesis using run1 run2 by auto
qed

section \<open>removeOrder, the level empties\<close>

text \<open>All cases of the removal of a level. An open ring cannot lose its last level.\<close>

lemma removeOrdersAtPrice_level:
  assumes "links_ok b L B op" "slots_ok b (L @ B)" "lvls b = set (L @ B)" "i \<in> set (L @ B)"
  shows "op \<and> i = last L \<Longrightarrow> removeOrdersAtPrice (lside b i) (lprice b i) b = Inl Null_deref"
    and "\<not> (op \<and> i = last L) \<Longrightarrow> \<exists>b'. removeOrdersAtPrice (lside b i) (lprice b i) b = Inr ((), b') \<and>
      links_ok b' (removeAll i L) (removeAll i B) (op \<and> i \<noteq> hd L) \<and>
      slots_ok b' (removeAll i L @ removeAll i B) \<and> lvls b' = lvls b - {i} \<and> same_rest b b' \<and>
      (\<forall>j. same_data b b' j) \<and> lcap b' = lcap b \<and>
      (pool_ok (ob_orders_at_price_pool b) \<longrightarrow> pool_ok (ob_orders_at_price_pool b'))"
proof -
  have live: "i \<in> lvls b" using assms(3,4) by simp
  have sides: "i \<in> set L \<Longrightarrow> lside b i = SELL" "i \<in> set B \<Longrightarrow> lside b i = BUY" and dist: "distinct (L @ B)"
    and len: "op \<Longrightarrow> 2 \<le> length L"
    using assms(1) by (auto simp: links_ok_def)
  show "removeOrdersAtPrice (lside b i) (lprice b i) b = Inl Null_deref" if at: "op \<and> i = last L"
  proof -
    have "L \<noteq> []" using at len by auto
    then obtain as where L: "L = as @ [i]" using at by (cases L rule: rev_cases) auto
    have "lside b i = SELL" using sides(1) L by simp
    then show ?thesis
      using removeOrdersAtPrice_last_open [of b as i B] assms(1,2) conjunct1 [OF at] L by simp
  qed
  show "\<exists>b'. removeOrdersAtPrice (lside b i) (lprice b i) b = Inr ((), b') \<and>
      links_ok b' (removeAll i L) (removeAll i B) (op \<and> i \<noteq> hd L) \<and>
      slots_ok b' (removeAll i L @ removeAll i B) \<and> lvls b' = lvls b - {i} \<and> same_rest b b' \<and>
      (\<forall>j. same_data b b' j) \<and> lcap b' = lcap b \<and>
      (pool_ok (ob_orders_at_price_pool b) \<longrightarrow> pool_ok (ob_orders_at_price_pool b'))"
    if ok: "\<not> (op \<and> i = last L)"
  proof (cases "i \<in> set B")
    case True
    then have notL: "i \<notin> set L" using dist by auto
    then have "op \<longrightarrow> i \<noteq> hd L" using len by (cases L) auto
    then have same: "removeAll i L = L" "(op \<and> i \<noteq> hd L) = op" using notL by auto
    obtain b' where "removeOrdersAtPrice BUY (lprice b i) b = Inr ((), b')" "links_ok b' L (removeAll i B) op"
      "slots_ok b' (L @ removeAll i B)" "lvls b' = lvls b - {i}" "same_rest b b'" "lv b' = lv b"
      "lcap b' = lcap b" "pool_ok (ob_orders_at_price_pool b) \<longrightarrow> pool_ok (ob_orders_at_price_pool b')"
      using removeOrdersAtPrice_bid [OF assms(1,2) True live] by blast
    moreover from this(6) have "\<forall>j. same_data b b' j" by (simp add: same_data_def)
    ultimately show ?thesis
      unfolding same sides(2) [OF True] by blast
  next
    case False
    then have iL: "i \<in> set L" using assms(4) by auto
    then obtain as bs where L: "L = as @ i # bs" by (meson split_list)
    have notin: "i \<notin> set as" "i \<notin> set bs" using dist L by auto
    have side: "lside b i = SELL" using sides(1) iL .
    have hd: "i \<noteq> hd L \<longleftrightarrow> as \<noteq> []" using notin L by (cases as) auto
    show ?thesis
    proof (cases "as = [] \<and> bs = []")
      case True
      then have "\<not> op" using len L by auto
      then show ?thesis
        using removeOrdersAtPrice_only_ask [of b i B op] assms(1,2) live L True side False by auto
    next
      case nonempty: False
      have nf: "\<not> ask_removal_faults bs op" using ok L by (auto simp: ask_removal_faults_def)
      show ?thesis
        using removeOrdersAtPrice_ask [of b as i bs B op] assms(1,2) live L nonempty nf side False notin hd
        by simp
    qed
  qed
qed

lemma level_orders_ok_same:
  assumes "level_orders_ok b i xs" "same_data b b' i" "ob_order_pool b' = ob_order_pool b"
  shows "level_orders_ok b' i xs"
  using assms by (simp add: level_orders_ok_def same_data_def)

lemma removeOrder_single_run:
  assumes "x < ocap b" "oprev b x = Some x" "getOrdersAtPrice (o_price (od b x)) b = Inr (Some i, b)"
  shows "removeOrder (Some x) b = (case removeOrdersAtPrice (o_side (od b x)) (o_price (od b x)) b of
      Inl e \<Rightarrow> Inl e
    | Inr (u, b1) \<Rightarrow> sq (bnd (rd_ord (Some x) o_client_id) (\<lambda>c.
        bnd (rd_ord (Some x) o_client_order_id) (\<lambda>i. put_cid_oid c i None))) (on_ord_pool (deallocate (Some x))) b1)"
  using assms unfolding removeOrder_def
  by (simp add: bnd_def [of "rd_ord _ o_price"] bnd_def [of "getOrdersAtPrice _"]
      bnd_def [of "rd_ord _ o_prev_order"] rd_ord_run)
    (simp add: sq_def bnd_def [of "bnd (rd_ord _ o_side) _"] bnd_def [of "rd_ord _ o_side"] rd_ord_run
      split: sum.split)

lemma removeOrder_single:
  assumes inv: "book_inv b L B Q op" and i: "i \<in> set (L @ B)" and Q: "Q i = [x]"
  shows "op \<and> i = last L \<Longrightarrow> removeOrder (Some x) b = Inl Null_deref"
    and "\<not> (op \<and> i = last L) \<Longrightarrow> \<exists>b'. removeOrder (Some x) b = Inr ((), b') \<and>
      book_inv b' (removeAll i L) (removeAll i B) Q (op \<and> i \<noteq> hd L) \<and> removed b x b'"
proof -
  have x: "x \<in> set (Q i)" using Q by simp
  note lev = book_inv_level [OF inv i] and ord = book_inv_order [OF inv i x]
  have ok: "orders_ok b (L @ B) Q" "index_ok b" "links_ok b L B op" "slots_ok b (L @ B)" "lvls b = set (L @ B)"
    using inv by (simp_all add: book_inv_def)
  note dist = links_distinct [OF ok(3)]
  have "oprev b x = Some x" using lev(3) Q by (simp add: level_orders_ok_def ring_single)
  note run = removeOrder_single_run [OF ord(2) this ord(5), unfolded ord(3,4)]
  show "removeOrder (Some x) b = Inl Null_deref" if "op \<and> i = last L"
    using run removeOrdersAtPrice_level(1) [OF ok(3,4,5) i that] by simp
  show "\<exists>b'. removeOrder (Some x) b = Inr ((), b') \<and>
      book_inv b' (removeAll i L) (removeAll i B) Q (op \<and> i \<noteq> hd L) \<and> removed b x b'"
    if nf: "\<not> (op \<and> i = last L)"
  proof -
    obtain b1 where run1: "removeOrdersAtPrice (lside b i) (lprice b i) b = Inr ((), b1)"
      and b1: "links_ok b1 (removeAll i L) (removeAll i B) (op \<and> i \<noteq> hd L)"
        "slots_ok b1 (removeAll i L @ removeAll i B)" "lvls b1 = lvls b - {i}" "same_rest b b1"
        "\<forall>j. same_data b b1 j" "lcap b1 = lcap b"
        "pool_ok (ob_orders_at_price_pool b) \<longrightarrow> pool_ok (ob_orders_at_price_pool b1)"
      using removeOrdersAtPrice_level(2) [OF ok(3,4,5) i nf] by blast
    have pool: "ob_order_pool b1 = ob_order_pool b" and idx: "ob_cid_oid_to_order b1 = ob_cid_oid_to_order b"
      using b1(4) by (simp_all add: same_rest_def)
    have pay1: "same_payloads b b1" using pool by (simp add: same_payloads_def)
    have ix1: "index_ok b1" using index_ok_cong [OF ok(2) idx _ pay1] pool by simp
    have x1: "x \<in> ords b1" using ord(1) pool by simp
    obtain pl where run2: "sq (bnd (rd_ord (Some x) o_client_id) (\<lambda>c.
          bnd (rd_ord (Some x) o_client_order_id) (\<lambda>i. put_cid_oid c i None))) (on_ord_pool (deallocate (Some x))) b1
        = Inr ((), b1\<lparr>ob_cid_oid_to_order := clear_cell x b1, ob_order_pool := pl\<rparr>)"
      and pl: "pool_live pl = ords b1 - {x}" "pool_obj pl = od b1" "pool_cap pl = ocap b1"
        "pool_ok (ob_order_pool b1) \<longrightarrow> pool_ok pl"
      using drop_order [OF ix1 x1] by blast
    let ?b' = "b1\<lparr>ob_cid_oid_to_order := clear_cell x b1, ob_order_pool := pl\<rparr>"
    let ?is = "removeAll i L @ removeAll i B"
    have js: "?is = removeAll i (L @ B)" by simp
    have links: "links_ok ?b' (removeAll i L) (removeAll i B) (op \<and> i \<noteq> hd L)"
      by (rule links_ok_cong_links [OF b1(1)]) simp_all
    have slots: "slots_ok ?b' ?is" by (rule slots_ok_cong [OF b1(2)]) simp_all
    have "level_orders_ok ?b' j (Q j)" if j: "j \<in> set ?is" for j
    proof -
      have "level_orders_ok b1 j (Q j)"
        using level_orders_ok_same [OF orders_okD(1) [OF ok(1), of j] _ pool] b1(5) j by auto
      then show ?thesis using pl(2) by (simp add: level_orders_ok_def)
    qed
    moreover have "distinct (concat (map Q ?is))"
      unfolding js using concat_removeAll(1) [OF orders_okD(2) [OF ok(1)]] by blast
    moreover have "set (concat (map Q ?is)) = ords ?b'"
      unfolding js using concat_removeAll(2) [OF orders_okD(2) [OF ok(1)] dist i] Q pool pl(1)
        orders_okD(3) [OF ok(1)] by auto
    ultimately have orders: "orders_ok ?b' ?is Q" unfolding orders_ok_def by blast
    have index: "index_ok ?b'" by (rule index_ok_clear [OF ix1 x1 pl(1,2)])
    have "lvls ?b' = set ?is" using b1(3) ok(5) by auto
    then have "book_inv ?b' (removeAll i L) (removeAll i B) Q (op \<and> i \<noteq> hd L)"
      unfolding book_inv_def using links slots orders index b1(6,7) pl(3,4) inv pool
      by (simp add: book_inv_def)
    moreover have "removed b x ?b'"
      unfolding removed_def cell_clear
      using b1(4,5) pl(1,2) pool idx
      by (simp add: same_payloads_def same_prices_def same_data_def same_ids_def same_rest_def cell_def)
    ultimately show ?thesis using run run1 run2 by auto
  qed
qed

end
