(* ===== verification/Order_Insert.thy ===== *)
theory Order_Insert
  imports Book_Orders
begin

text \<open>
  \<open>addOrder\<close> on a well-shaped book. A new order whose price has a level of its own side goes to the
  end of that level; otherwise a level is allocated and put in its place, where an open ask ring
  makes the walk fault, and a level pool with one free block stops the process. The entry of the
  index is written last, and throws when the client or the order id is out of range.
\<close>


section \<open>A new order and its entry in the index\<close>

text \<open>The invariant without the index of client orders.\<close>

definition book_shape :: "MEOrderBook \<Rightarrow> nat list \<Rightarrow> nat list \<Rightarrow> (nat \<Rightarrow> nat list) \<Rightarrow> bool \<Rightarrow> bool" where
  "book_shape b L B Q op \<longleftrightarrow>
     links_ok b L B op \<and> slots_ok b (L @ B) \<and> lvls b = set (L @ B) \<and>
     pool_ok (ob_orders_at_price_pool b) \<and> lcap b = ME_MAX_PRICE_LEVELS \<and>
     orders_ok b (L @ B) Q \<and> pool_ok (ob_order_pool b) \<and> ocap b = ME_MAX_ORDER_IDS"

lemma book_inv_shape: "book_inv b L B Q op \<longleftrightarrow> book_shape b L B Q op \<and> index_ok b"
  by (auto simp: book_inv_def book_shape_def)

text \<open>\<open>b0\<close> is \<open>b\<close> after the allocation of block \<open>x\<close> for the new order \<open>y\<close>.\<close>

definition placed :: "MEOrderBook \<Rightarrow> nat \<Rightarrow> MEOrder \<Rightarrow> MEOrderBook \<Rightarrow> bool" where
  "placed b x y b0 \<longleftrightarrow> x \<notin> ords b \<and> x < ocap b \<and>
     (\<exists>pl. b0 = b\<lparr>ob_order_pool := pl\<rparr> \<and> pool_ok pl \<and> pool_live pl = insert x (ords b) \<and>
       pool_obj pl = (od b)(x := y) \<and> pool_cap pl = ocap b)"

lemma placed_sel:
  assumes "placed b x y b0"
  shows "x \<notin> ords b" "x < ocap b0" "ords b0 = insert x (ords b)" "od b0 = (od b)(x := y)"
    "ocap b0 = ocap b" "pool_ok (ob_order_pool b0)"
    "ob_orders_at_price_pool b0 = ob_orders_at_price_pool b" "slots b0 = slots b"
    "ob_bids_at_price b0 = ob_bids_at_price b" "ob_asks_at_price b0 = ob_asks_at_price b"
    "ob_cid_oid_to_order b0 = ob_cid_oid_to_order b" "same_ids b b0"
proof -
  obtain pl where "b0 = b\<lparr>ob_order_pool := pl\<rparr>" "pool_ok pl" "pool_live pl = insert x (ords b)"
    "pool_obj pl = (od b)(x := y)" "pool_cap pl = ocap b" "x \<notin> ords b" "x < ocap b"
    using assms unfolding placed_def by blast
  then show "x \<notin> ords b" "x < ocap b0" "ords b0 = insert x (ords b)" "od b0 = (od b)(x := y)"
    "ocap b0 = ocap b" "pool_ok (ob_order_pool b0)"
    "ob_orders_at_price_pool b0 = ob_orders_at_price_pool b" "slots b0 = slots b"
    "ob_bids_at_price b0 = ob_bids_at_price b" "ob_asks_at_price b0 = ob_asks_at_price b"
    "ob_cid_oid_to_order b0 = ob_cid_oid_to_order b" "same_ids b b0"
    by (simp_all add: same_ids_def)
qed

text \<open>\<open>linked\<close>: what \<open>addOrder\<close> has done before it writes the index.\<close>

definition linked :: "MEOrderBook \<Rightarrow> nat \<Rightarrow> MEOrder \<Rightarrow> MEOrderBook \<Rightarrow> bool" where
  "linked b x y b1 \<longleftrightarrow> x \<notin> ords b \<and> x < ocap b1 \<and> ords b1 = insert x (ords b) \<and>
     payload (od b1 x) = payload y \<and> (\<forall>z \<in> ords b. payload (od b1 z) = payload (od b z)) \<and>
     ob_cid_oid_to_order b1 = ob_cid_oid_to_order b \<and> same_ids b b1 \<and>
     (\<forall>j \<in> lvls b. lprice b1 j = lprice b j)"

definition added :: "MEOrderBook \<Rightarrow> nat \<Rightarrow> MEOrder \<Rightarrow> MEOrderBook \<Rightarrow> bool" where
  "added b x y b' \<longleftrightarrow> x \<notin> ords b \<and> ords b' = insert x (ords b) \<and> payload (od b' x) = payload y \<and>
     (\<forall>z \<in> ords b. payload (od b' z) = payload (od b z)) \<and> same_ids b b' \<and>
     (\<forall>j \<in> lvls b. lprice b' j = lprice b j) \<and>
     (\<forall>c i. cell b' c i = (if c = o_client_id y \<and> i = o_client_order_id y then Some x else cell b c i))"

definition set_cell :: "nat \<Rightarrow> MEOrder \<Rightarrow> MEOrderBook \<Rightarrow> MEOrderBook" where
  "set_cell x y b = b\<lparr>ob_cid_oid_to_order := arr_put (unat (o_client_id y))
     (arr_put (unat (o_client_order_id y)) (Some x)
       (aget (ob_cid_oid_to_order b) (unat (o_client_id y)))) (ob_cid_oid_to_order b)\<rparr>"

lemma set_cell_sel [simp]:
  "ob_order_pool (set_cell x y b) = ob_order_pool b"
  "ob_orders_at_price_pool (set_cell x y b) = ob_orders_at_price_pool b"
  "ob_bids_at_price (set_cell x y b) = ob_bids_at_price b"
  "ob_asks_at_price (set_cell x y b) = ob_asks_at_price b"
  "slots (set_cell x y b) = slots b" "same_ids b' (set_cell x y b) = same_ids b' b"
  by (simp_all add: set_cell_def same_ids_def)

lemma cell_set_cell:
  "cell (set_cell x y b) c i =
    (if c = o_client_id y \<and> i = o_client_order_id y then Some x else cell b c i)"
  by (auto simp: cell_def set_cell_def dest: unsigned_word_eqI)

lemma book_shape_set_cell: "book_shape (set_cell x y b) L B Q op = book_shape b L B Q op"
proof -
  have "links_ok (set_cell x y b) L B op = links_ok b L B op"
    using links_ok_cong [of b L B op "set_cell x y b"] links_ok_cong [of "set_cell x y b" L B op b] by auto
  moreover have "orders_ok (set_cell x y b) (L @ B) Q = orders_ok b (L @ B) Q"
    by (simp add: orders_ok_def level_orders_ok_def)
  ultimately show ?thesis by (simp add: book_shape_def slots_ok_def)
qed

lemma index_step:
  assumes "index_ok b" "linked b x y b1"
  shows "bnd (rd_ord (Some x) o_client_id) (\<lambda>c. bnd (rd_ord (Some x) o_client_order_id)
      (\<lambda>i. put_cid_oid c i (Some x))) b1 =
      (if in_range y then Inr ((), set_cell x y b1) else Inl Terminate)"
    and "in_range y \<Longrightarrow> index_ok (set_cell x y b1)"
    and "added b x y (set_cell x y b1)"
proof -
  have lk: "x < ocap b1" "ords b1 = insert x (ords b)" "x \<notin> ords b"
      "ob_cid_oid_to_order b1 = ob_cid_oid_to_order b"
    and py: "payload (od b1 x) = payload y" "\<And>z. z \<in> ords b \<Longrightarrow> payload (od b1 z) = payload (od b z)"
    using assms(2) by (simp_all add: linked_def)
  note pd = payload_eqD [OF py(1)]
  have len: "alen (ob_cid_oid_to_order b) = ME_MAX_NUM_CLIENTS"
    "\<And>c. c < ME_MAX_NUM_CLIENTS \<Longrightarrow> alen (aget (ob_cid_oid_to_order b) c) = ME_MAX_ORDER_IDS"
    using assms(1) by (simp_all add: index_ok_def)
  show "bnd (rd_ord (Some x) o_client_id) (\<lambda>c. bnd (rd_ord (Some x) o_client_order_id)
      (\<lambda>i. put_cid_oid c i (Some x))) b1 =
      (if in_range y then Inr ((), set_cell x y b1) else Inl Terminate)"
    using lk(1,4) len pd(2,3)
    by (simp add: bnd_def rd_ord_run put_cid_oid_def in_range_def arr_at_def set_cell_def)
  show "added b x y (set_cell x y b1)"
    using assms(2) unfolding added_def cell_set_cell by (simp add: linked_def cell_def)
  assume y: "in_range y"
  have old: "\<And>c i z. unat c < ME_MAX_NUM_CLIENTS \<Longrightarrow> unat i < ME_MAX_ORDER_IDS \<Longrightarrow> cell b c i = Some z \<Longrightarrow>
      z \<in> ords b \<and> o_client_id (od b z) = c \<and> o_client_order_id (od b z) = i"
    and rng: "\<And>z. z \<in> ords b \<Longrightarrow> in_range (od b z)"
    using assms(1) by (simp_all add: index_ok_def)
  have same: "o_client_id (od b1 z) = o_client_id (od b z) \<and> o_client_order_id (od b1 z) = o_client_order_id (od b z)"
    if "z \<in> ords b" for z
    using payload_eqD [OF py(2) [OF that]] by simp
  have "alen (ob_cid_oid_to_order (set_cell x y b1)) = ME_MAX_NUM_CLIENTS"
    "\<forall>c < ME_MAX_NUM_CLIENTS. alen (aget (ob_cid_oid_to_order (set_cell x y b1)) c) = ME_MAX_ORDER_IDS"
    using lk(4) len y by (simp_all add: set_cell_def in_range_def)
  moreover have "z \<in> ords (set_cell x y b1) \<and> o_client_id (od (set_cell x y b1) z) = c \<and>
      o_client_order_id (od (set_cell x y b1) z) = i"
    if "unat c < ME_MAX_NUM_CLIENTS" "unat i < ME_MAX_ORDER_IDS" "cell (set_cell x y b1) c i = Some z" for c i z
  proof (cases "c = o_client_id y \<and> i = o_client_order_id y")
    case True
    then have "z = x" using that(3) by (simp add: cell_set_cell)
    then show ?thesis using True lk(2) pd by simp
  next
    case False
    moreover have "cell b1 c i = cell b c i" using lk(4) by (simp add: cell_def)
    ultimately have "cell b c i = Some z" using that(3) unfolding cell_set_cell by metis
    from old [OF that(1,2) this] same show ?thesis using lk(2) by simp
  qed
  moreover have "\<forall>z \<in> ords (set_cell x y b1). in_range (od (set_cell x y b1) z)"
    using y rng same pd lk(2) by (auto simp: in_range_def)
  ultimately show "index_ok (set_cell x y b1)" unfolding index_ok_def by blast
qed

lemma concat_append:
  assumes "i \<in> set is" "distinct is" "distinct (concat (map Q is))"
  shows "x \<notin> set (concat (map Q is)) \<Longrightarrow> distinct (concat (map (Q(i := Q i @ [x])) is))"
proof -
  obtain us vs where us: "is = us @ i # vs" using assms(1) by (meson split_list)
  have i: "i \<notin> set us" "i \<notin> set vs" using assms(2) us by auto
  have map: "map (Q(i := Q i @ [x])) is = map Q us @ (Q i @ [x]) # map Q vs" using us i by simp
  show "x \<notin> set (concat (map Q is)) \<Longrightarrow> distinct (concat (map (Q(i := Q i @ [x])) is))"
    unfolding map using assms(3) us by auto
qed

section \<open>addOrder, the price has a level\<close>

definition append_links :: "nat \<Rightarrow> nat \<Rightarrow> nat \<Rightarrow> MEOrderBook \<Rightarrow> MEOrderBook" where
  "append_links x f p b =
     (let b1 = wod p ((od b p)\<lparr>o_next_order := Some x\<rparr>) b;
          b2 = wod x ((od b1 x)\<lparr>o_prev_order := Some p\<rparr>) b1;
          b3 = wod x ((od b2 x)\<lparr>o_next_order := Some f\<rparr>) b2
      in wod f ((od b3 f)\<lparr>o_prev_order := Some x\<rparr>) b3)"

lemma append_links_sel:
  assumes "x \<noteq> f" "x \<noteq> p"
  shows "onext (append_links x f p b) = (onext b)(x := Some f, p := Some x)"
    "oprev (append_links x f p b) = (oprev b)(x := Some p, f := Some x)"
    "same_payloads b (append_links x f p b)"
    "ords (append_links x f p b) = ords b" "ocap (append_links x f p b) = ocap b"
    "pool_ok (ob_order_pool (append_links x f p b)) = pool_ok (ob_order_pool b)"
    "ob_orders_at_price_pool (append_links x f p b) = ob_orders_at_price_pool b"
    "ob_bids_at_price (append_links x f p b) = ob_bids_at_price b"
    "ob_asks_at_price (append_links x f p b) = ob_asks_at_price b"
    "slots (append_links x f p b) = slots b"
    "ob_cid_oid_to_order (append_links x f p b) = ob_cid_oid_to_order b"
    "same_ids b' (append_links x f p b) = same_ids b' b"
  using assms
  by (auto simp: append_links_def Let_def fun_eq_iff same_payloads_def payload_def same_ids_def)

lemma addOrder_existing_run:
  assumes "x < ocap b" "f < ocap b" "p < ocap b" "i < lcap b" "x \<noteq> f" "x \<noteq> p"
    "getOrdersAtPrice (o_price (od b x)) b = Inr (Some i, b)"
    "l_first_me_order (lv b i) = Some f" "oprev b f = Some p"
  shows "addOrder (Some x) b = bnd (rd_ord (Some x) o_client_id) (\<lambda>c.
      bnd (rd_ord (Some x) o_client_order_id) (\<lambda>i. put_cid_oid c i (Some x))) (append_links x f p b)"
  using assms
  by (cases "f = p") (simp_all add: addOrder_def bnd_def [of "rd_ord _ o_price"] bnd_def [of "getOrdersAtPrice _"]
      bnd_def [of "rd_lvl _ _"] bnd_def [of "rd_ord _ o_prev_order"] rd_ord_run rd_lvl_run wr_ord_run
      sq_Inr append_links_def Let_def)

lemma addOrder_existing:
  assumes inv: "book_inv b L B Q op" and new: "placed b x y b0" and i: "i \<in> set (L @ B)"
    and price: "lprice b i = o_price y" "lside b i = o_side y"
  shows "\<exists>b1. addOrder (Some x) b0 = bnd (rd_ord (Some x) o_client_id) (\<lambda>c.
      bnd (rd_ord (Some x) o_client_order_id) (\<lambda>i. put_cid_oid c i (Some x))) b1 \<and>
    book_shape b1 L B (Q(i := Q i @ [x])) op \<and> linked b x y b1"
proof -
  note lev = book_inv_level [OF inv i] and pl = placed_sel [OF new]
  have ok: "orders_ok b (L @ B) Q" "links_ok b L B op" "slots_ok b (L @ B)"
    using inv by (simp_all add: book_inv_def)
  note dist = links_distinct [OF ok(2)]
  obtain f xs where Q: "Q i = f # xs"
    using lev(3) by (cases "Q i") (auto simp: level_orders_ok_def)
  have ring: "ring (onext b) (oprev b) (f # xs) (Some f)" and first: "l_first_me_order (lv b i) = Some f"
    and same: "\<forall>z \<in> set (f # xs). o_price (od b z) = lprice b i \<and> o_side (od b z) = lside b i"
    using lev(3) Q by (simp_all add: level_orders_ok_def)
  define p where "p = last (f # xs)"
  have p: "oprev b f = Some p" "p \<in> set (Q i)" "f \<in> set (Q i)"
    using ring_prev_hd [OF ring] Q by (simp_all add: p_def)
  have caps: "f < ocap b0" "p < ocap b0" using orders_live(2) [OF ok(1) i] p pl(5) by auto
  have "f \<in> ords b" "p \<in> ords b" using orders_live(1) [OF ok(1) i] p by auto
  then have ne: "x \<noteq> f" "x \<noteq> p" using pl(1) by auto
  have xni: "x \<notin> set (Q j)" if "j \<in> set (L @ B)" for j
    using orders_live(1) [OF ok(1) that] pl(1) by auto
  let ?b1 = "append_links x f p b0"
  note ap = append_links_sel [OF ne, of b0]
  have get: "getOrdersAtPrice (o_price (od b0 x)) b0 = Inr (Some i, b0)"
    using getOrdersAtPrice_run [of b0 "L @ B"] ok(3) lev(4) pl(4,7,8) price by (simp add: slots_ok_def)
  have run: "addOrder (Some x) b0 = bnd (rd_ord (Some x) o_client_id) (\<lambda>c.
      bnd (rd_ord (Some x) o_client_order_id) (\<lambda>i. put_cid_oid c i (Some x))) ?b1"
    using addOrder_existing_run [OF pl(2) caps _ ne get] lev(1) pl(4,7) first p(1) ne by simp
  have pay: "payload (od ?b1 z) = payload (if z = x then y else od b z)" for z
    using same_payloadsD [OF ap(3), of z] pl(4) by simp
  have lvs: "lv ?b1 = lv b" using ap(7) pl(7) by simp
  have links: "links_ok ?b1 L B op"
    by (rule links_ok_cong [OF ok(2)]) (simp_all add: ap pl)
  have slots: "slots_ok ?b1 (L @ B)" using ok(3) by (simp add: slots_ok_def ap pl)
  have ring': "ring (onext ?b1) (oprev ?b1) (Q i @ [x]) (Some f)"
  proof -
    have "ring ((onext b)(x := Some f, p := Some x)) ((oprev b)(x := Some p, f := Some x)) (f # xs @ [x]) (Some f)"
      by (rule ring_append [OF ring _ p(1)]) (use xni [OF i] Q in simp)
    moreover have "ring (onext ?b1) (oprev ?b1) (f # xs @ [x]) (Some f) =
        ring ((onext b)(x := Some f, p := Some x)) ((oprev b)(x := Some p, f := Some x)) (f # xs @ [x]) (Some f)"
    proof (rule ring_cong)
      fix a
      show "onext ?b1 a = ((onext b)(x := Some f, p := Some x)) a"
        "oprev ?b1 a = ((oprev b)(x := Some p, f := Some x)) a"
        using fun_cong [OF ap(1), of a] fun_cong [OF ap(2), of a] pl(4) by simp_all
    qed
    ultimately show ?thesis using Q by simp
  qed
  have payD: "o_price (od ?b1 z) = o_price (if z = x then y else od b z)"
    "o_side (od ?b1 z) = o_side (if z = x then y else od b z)" for z
    using payload_eqD [OF pay [of z]] by simp_all
  have "level_orders_ok ?b1 j ((Q(i := Q i @ [x])) j)" if j: "j \<in> set (L @ B)" for j
  proof (cases "j = i")
    case True
    with ring' Q first same price show ?thesis
      by (simp add: level_orders_ok_def lvs payD)
  next
    case False
    have disj: "set (Q i) \<inter> set (Q j) = {}" using orders_disjoint [OF ok(1) dist i j] False by blast
    have other: "onext ?b1 z = onext b z \<and> oprev ?b1 z = oprev b z" "payload (od ?b1 z) = payload (od b z)"
      if "z \<in> set (Q j)" for z
    proof -
      have "z \<noteq> x" "z \<noteq> p" "z \<noteq> f" using that disj p(2,3) xni [OF j] by auto
      then show "onext ?b1 z = onext b z \<and> oprev ?b1 z = oprev b z" "payload (od ?b1 z) = payload (od b z)"
        using fun_cong [OF ap(1), of z] fun_cong [OF ap(2), of z] pl(4) pay by simp_all
    qed
    have "ring (onext ?b1) (oprev ?b1) (Q j) e = ring (onext b) (oprev b) (Q j) e" for e
      using other(1) by (intro ring_cong) auto
    moreover have "o_price (od ?b1 z) = o_price (od b z) \<and> o_side (od ?b1 z) = o_side (od b z)"
      if "z \<in> set (Q j)" for z
      using payload_eqD [OF other(2) [OF that]] by simp
    ultimately show ?thesis
      using orders_okD(1) [OF ok(1) j] False by (simp add: level_orders_ok_def lvs)
  qed
  moreover have "distinct (concat (map (Q(i := Q i @ [x])) (L @ B)))"
    by (rule concat_append(1) [OF i dist orders_okD(2) [OF ok(1)]]) (use orders_okD(3) [OF ok(1)] pl(1) in simp)
  moreover have "set (concat (map (Q(i := Q i @ [x])) (L @ B))) = ords ?b1"
    unfolding concat_update(2) [OF i dist orders_okD(2) [OF ok(1)]] orders_okD(3) [OF ok(1)] ap(4) pl(3)
    using orders_live(1) [OF ok(1) i] by auto
  ultimately have "orders_ok ?b1 (L @ B) (Q(i := Q i @ [x]))" unfolding orders_ok_def by blast
  then have "book_shape ?b1 L B (Q(i := Q i @ [x])) op"
    using links slots inv pl(5,6,7) ap(5,6,7) by (simp add: book_shape_def book_inv_def)
  moreover have "linked b x y ?b1"
    unfolding linked_def using pl ap(4,5,7,11) append_links_sel(12) [OF ne, of b b0] pay by (auto simp: lvs)
  ultimately show ?thesis using run by blast
qed

section \<open>addOrder, a new level\<close>

text \<open>Where a new level of price \<open>pr\<close> goes, and whether the ask ring is open afterwards.\<close>

definition cheaper :: "MEOrderBook \<Rightarrow> Price \<Rightarrow> nat \<Rightarrow> bool" where
  "cheaper b pr k \<longleftrightarrow> sint (lprice b k) < sint pr"

definition asks_with :: "MEOrderBook \<Rightarrow> Side \<Rightarrow> Price \<Rightarrow> nat \<Rightarrow> nat list \<Rightarrow> nat list" where
  "asks_with b side pr n L =
     (if side = SELL then takeWhile (cheaper b pr) L @ n # dropWhile (cheaper b pr) L else L)"

definition bids_with :: "Side \<Rightarrow> nat \<Rightarrow> nat list \<Rightarrow> nat list" where
  "bids_with side n B = (if side = BUY then n # B else B)"

definition open_with :: "MEOrderBook \<Rightarrow> Side \<Rightarrow> Price \<Rightarrow> nat list \<Rightarrow> bool \<Rightarrow> bool" where
  "open_with b side pr L op =
     (if side = SELL then open_after_insert (takeWhile (cheaper b pr) L) (dropWhile (cheaper b pr) L) op else op)"

definition insert_faults :: "MEOrderBook \<Rightarrow> Side \<Rightarrow> Price \<Rightarrow> nat list \<Rightarrow> bool \<Rightarrow> bool" where
  "insert_faults b side pr L op \<longleftrightarrow> side = SELL \<and> op \<and> (\<forall>k \<in> set L. cheaper b pr k)"

lemma sorted_split:
  assumes "sorted_wrt (below b) L"
  shows "k \<in> set (takeWhile (cheaper b pr) L) \<Longrightarrow> cheaper b pr k"
    and "k \<in> set (dropWhile (cheaper b pr) L) \<Longrightarrow> \<not> cheaper b pr k"
proof -
  show "k \<in> set (takeWhile (cheaper b pr) L) \<Longrightarrow> cheaper b pr k" by (rule set_takeWhileD [THEN conjunct2])
  assume "k \<in> set (dropWhile (cheaper b pr) L)"
  then show "\<not> cheaper b pr k"
    using assms by (induction L) (force simp: below_def cheaper_def split: if_splits)+
qed

lemma addOrdersAtPrice_level:
  assumes links: "links_ok b L B op" and slots: "slots_ok b (L @ B)" and fresh: "fresh_level b (L @ B) n"
    and side: "lside b n = side" "side \<in> {BUY, SELL}" and pr: "lprice b n = pr"
  shows "insert_faults b side pr L op \<Longrightarrow> addOrdersAtPrice (Some n) b = Inl Null_deref"
    and "\<not> insert_faults b side pr L op \<Longrightarrow> \<exists>b'. addOrdersAtPrice (Some n) b = Inr ((), b') \<and>
      links_ok b' (asks_with b side pr n L) (bids_with side n B) (open_with b side pr L op) \<and>
      slots_ok b' (asks_with b side pr n L @ bids_with side n B) \<and>
      lvls b' = lvls b \<and> same_rest b b' \<and> (\<forall>j. same_data b b' j) \<and> lcap b' = lcap b \<and>
      pool_ok (ob_orders_at_price_pool b') = pool_ok (ob_orders_at_price_pool b)"
proof -
  have below: "below b k n = cheaper b pr k" for k by (simp add: below_def cheaper_def pr)
  have sorted: "sorted_wrt (below b) L" using links by (simp add: links_ok_def)
  show "addOrdersAtPrice (Some n) b = Inl Null_deref" if "insert_faults b side pr L op"
    using addOrdersAtPrice_open_fault [of b L B n] that links slots fresh side
    by (simp add: insert_faults_def below)
  show "\<exists>b'. addOrdersAtPrice (Some n) b = Inr ((), b') \<and>
      links_ok b' (asks_with b side pr n L) (bids_with side n B) (open_with b side pr L op) \<and>
      slots_ok b' (asks_with b side pr n L @ bids_with side n B) \<and>
      lvls b' = lvls b \<and> same_rest b b' \<and> (\<forall>j. same_data b b' j) \<and> lcap b' = lcap b \<and>
      pool_ok (ob_orders_at_price_pool b') = pool_ok (ob_orders_at_price_pool b)"
    if ok: "\<not> insert_faults b side pr L op"
  proof (cases "side = BUY")
    case True
    then show ?thesis
      using addOrdersAtPrice_bid [OF links slots fresh] side
      by (simp add: asks_with_def bids_with_def open_with_def)
  next
    case False
    then have S: "side = SELL" using side(2) by simp
    show ?thesis
    proof (cases "L = []")
      case True
      then show ?thesis
        using addOrdersAtPrice_first_ask [of b B op n] links slots fresh side S
        by (simp add: asks_with_def bids_with_def open_with_def open_after_insert_def)
    next
      case False
      let ?as = "takeWhile (cheaper b pr) L" and ?bs = "dropWhile (cheaper b pr) L"
      have L: "?as @ ?bs = L" by simp
      have above: "below b n k" if k: "k \<in> set ?bs" for k
      proof -
        have "k \<in> set L" using k by (rule set_dropWhileD)
        then have "lprice b k \<noteq> pr" using fresh_price_differs [OF slots fresh] pr by auto
        moreover have "\<not> sint (lprice b k) < sint pr"
          using sorted_split(2) [OF sorted k] by (simp add: cheaper_def)
        ultimately have "sint (lprice b k) \<noteq> sint pr" "\<not> sint (lprice b k) < sint pr"
          by (auto intro: signed_word_eqI [of "lprice b k" pr, where 'a = int])
        then show ?thesis unfolding below_def pr by linarith
      qed
      have "\<not> (op \<and> ?bs = [])" using ok S by (simp add: insert_faults_def)
      from addOrdersAtPrice_ask [of b ?as ?bs B op n, unfolded L append_assoc [symmetric], OF links slots fresh _ False _ above this]
      show ?thesis
        using side S sorted_split(1) [OF sorted]
        by (simp add: asks_with_def bids_with_def open_with_def below)
    qed
  qed
qed

definition self_links :: "nat \<Rightarrow> MEOrderBook \<Rightarrow> MEOrderBook" where
  "self_links x b =
     (let b1 = wod x ((od b x)\<lparr>o_prev_order := Some x\<rparr>) b
      in wod x ((od b1 x)\<lparr>o_next_order := Some x\<rparr>) b1)"

lemma self_links_sel:
  "od (self_links x b) = (od b)(x := (od b x)\<lparr>o_prev_order := Some x, o_next_order := Some x\<rparr>)"
  "ords (self_links x b) = ords b" "ocap (self_links x b) = ocap b"
  "pool_ok (ob_order_pool (self_links x b)) = pool_ok (ob_order_pool b)"
  "ob_orders_at_price_pool (self_links x b) = ob_orders_at_price_pool b"
  "ob_bids_at_price (self_links x b) = ob_bids_at_price b"
  "ob_asks_at_price (self_links x b) = ob_asks_at_price b"
  "slots (self_links x b) = slots b"
  "ob_cid_oid_to_order (self_links x b) = ob_cid_oid_to_order b"
  "same_ids b' (self_links x b) = same_ids b' b"
  by (auto simp: self_links_def Let_def fun_eq_iff same_ids_def)

lemma addOrder_new_run:
  assumes "x < ocap b" "getOrdersAtPrice (o_price (od b x)) b = Inr (None, b)"
  shows "addOrder (Some x) b =
    (case allocate \<lparr>l_side = o_side (od b x), l_price = o_price (od b x), l_first_me_order = Some x,
         l_prev_entry = None, l_next_entry = None\<rparr> (ob_orders_at_price_pool b) of
       Inl e \<Rightarrow> Inl e
     | Inr (n, pl) \<Rightarrow> sq (addOrdersAtPrice n) (bnd (rd_ord (Some x) o_client_id) (\<lambda>c.
         bnd (rd_ord (Some x) o_client_order_id) (\<lambda>i. put_cid_oid c i (Some x))))
         ((self_links x b)\<lparr>ob_orders_at_price_pool := pl\<rparr>))"
  using assms unfolding addOrder_def
  by (simp add: bnd_def [of "rd_ord _ o_price"] bnd_def [of "getOrdersAtPrice _"] rd_ord_run block_simps
      sq_Inr wr_ord_run bnd_def [of "rd_ord _ o_side"] bnd_def [of "zoom _ _ _"] on_lvl_pool_def zoom_def
      self_links_def Let_def split: sum.split)

lemma with_split:
  assumes "side \<in> {BUY, SELL}"
  shows "\<exists>us vs. L @ B = us @ vs \<and> asks_with b side pr n L @ bids_with side n B = us @ n # vs"
proof (cases "side = BUY")
  case True
  then show ?thesis by (auto simp: asks_with_def bids_with_def)
next
  case False
  then have "side = SELL" using assms by simp
  then show ?thesis
    by (intro exI [of _ "takeWhile (cheaper b pr) L"] exI [of _ "dropWhile (cheaper b pr) L @ B"])
      (simp add: asks_with_def bids_with_def)
qed

lemma concat_insert:
  assumes "distinct (concat (map Q (us @ vs)))" "n \<notin> set (us @ vs)" "x \<notin> set (concat (map Q (us @ vs)))"
  shows "distinct (concat (map (Q(n := [x])) (us @ n # vs)))"
    "set (concat (map (Q(n := [x])) (us @ n # vs))) = insert x (set (concat (map Q (us @ vs))))"
proof -
  have "concat (map (Q(n := [x])) (us @ n # vs)) = concat (map Q us) @ x # concat (map Q vs)"
    using assms(2) by simp
  then show "distinct (concat (map (Q(n := [x])) (us @ n # vs)))"
    "set (concat (map (Q(n := [x])) (us @ n # vs))) = insert x (set (concat (map Q (us @ vs))))"
    using assms(1,3) by auto
qed

lemma with_cong:
  assumes "\<And>k. k \<in> set L \<Longrightarrow> lprice b' k = lprice b k"
  shows "asks_with b' side pr n L = asks_with b side pr n L" "open_with b' side pr L op = open_with b side pr L op"
    "insert_faults b' side pr L op = insert_faults b side pr L op"
proof -
  have c: "cheaper b' pr k = cheaper b pr k" if "k \<in> set L" for k
    using assms that by (simp add: cheaper_def)
  have "takeWhile (cheaper b' pr) L = takeWhile (cheaper b pr) L"
    "dropWhile (cheaper b' pr) L = dropWhile (cheaper b pr) L"
    using c by (auto intro: takeWhile_cong dropWhile_cong)
  then show "asks_with b' side pr n L = asks_with b side pr n L" "open_with b' side pr L op = open_with b side pr L op"
    "insert_faults b' side pr L op = insert_faults b side pr L op"
    using c by (simp_all add: asks_with_def open_with_def insert_faults_def)
qed

text \<open>The book after the allocation of level \<open>n\<close>, before it is linked.\<close>

lemma new_level_fresh:
  assumes inv: "book_inv b L B Q op" and new: "placed b x y b0" and slot: "aget (slots b) (priceToIndex (o_price y)) = None"
    and pl: "pool_ok pl" "n \<notin> lvls b" "n < lcap b" "pool_live pl = insert n (lvls b)"
      "pool_obj pl = (lv b)(n := \<lparr>l_side = o_side y, l_price = o_price y, l_first_me_order = Some x,
         l_prev_entry = None, l_next_entry = None\<rparr>)" "pool_cap pl = lcap b"
  defines "b2 \<equiv> (self_links x b0)\<lparr>ob_orders_at_price_pool := pl\<rparr>"
  shows "links_ok b2 L B op" "slots_ok b2 (L @ B)" "fresh_level b2 (L @ B) n" "lside b2 n = o_side y"
    "lprice b2 n = o_price y" "n \<notin> set (L @ B)" "\<And>k. k \<noteq> n \<Longrightarrow> lv b2 k = lv b k"
proof -
  note p0 = placed_sel [OF new] and sl = self_links_sel [where x = x and b = b0]
  show n: "n \<notin> set (L @ B)" using inv pl(2) by (simp add: book_inv_def)
  show lv2: "\<And>k. k \<noteq> n \<Longrightarrow> lv b2 k = lv b k" by (simp add: b2_def pl(5))
  have slots2: "slots b2 = slots b" using p0(8) sl(8) by (simp add: b2_def)
  have ok: "links_ok b L B op" "slots_ok b (L @ B)" using inv by (simp_all add: book_inv_def)
  show "links_ok b2 L B op"
  proof (rule links_ok_cong [OF ok(1)])
    show "lv b2 i = lv b i" if "i \<in> set (L @ B)" for i using that n lv2 by metis
  qed (use p0 sl pl(6) in \<open>simp_all add: b2_def\<close>)
  have "lprice b2 j = lprice b j" if "j \<in> set (L @ B)" for j using that n lv2 by metis
  then show "slots_ok b2 (L @ B)" using ok(2) unfolding slots_ok_def slots2 by metis
  show "lside b2 n = o_side y" "lprice b2 n = o_price y" by (simp_all add: b2_def pl(5))
  then show "fresh_level b2 (L @ B) n"
    using n pl(3,6) slot slots2 by (simp add: fresh_level_def) (simp add: b2_def pl(5,6))
qed

lemma addOrder_new:
  assumes inv: "book_inv b L B Q op" and new: "placed b x y b0"
    and slot: "aget (slots b) (priceToIndex (o_price y)) = None" and side: "o_side y \<in> {BUY, SELL}"
  shows "card (lvls b) + 1 = ME_MAX_PRICE_LEVELS \<Longrightarrow> addOrder (Some x) b0 = Inl (Fatal ''Memory Pool out of space.'')"
    and "card (lvls b) + 1 < ME_MAX_PRICE_LEVELS \<Longrightarrow> insert_faults b (o_side y) (o_price y) L op \<Longrightarrow>
      addOrder (Some x) b0 = Inl Null_deref"
    and "card (lvls b) + 1 < ME_MAX_PRICE_LEVELS \<Longrightarrow> \<not> insert_faults b (o_side y) (o_price y) L op \<Longrightarrow>
      \<exists>n b1. addOrder (Some x) b0 = bnd (rd_ord (Some x) o_client_id) (\<lambda>c.
        bnd (rd_ord (Some x) o_client_order_id) (\<lambda>i. put_cid_oid c i (Some x))) b1 \<and>
      n \<notin> set (L @ B) \<and> lprice b1 n = o_price y \<and>
      book_shape b1 (asks_with b (o_side y) (o_price y) n L) (bids_with (o_side y) n B) (Q(n := [x]))
        (open_with b (o_side y) (o_price y) L op) \<and> linked b x y b1"
proof -
  note p0 = placed_sel [OF new] and sl = self_links_sel [where x = x and b = b0]
  let ?l = "\<lparr>l_side = o_side y, l_price = o_price y, l_first_me_order = Some x,
         l_prev_entry = None, l_next_entry = None\<rparr>"
  have ok: "orders_ok b (L @ B) Q" "slots_ok b (L @ B)" "pool_ok (ob_orders_at_price_pool b)"
    "lcap b = ME_MAX_PRICE_LEVELS" "lvls b = set (L @ B)" "ocap b = ME_MAX_ORDER_IDS"
    using inv by (simp_all add: book_inv_def)
  have "getOrdersAtPrice (o_price (od b0 x)) b0 = Inr (None, b0)"
    using getOrdersAtPrice_run [of b0 "L @ B"] ok(2) slot p0(4,7,8) by (simp add: slots_ok_def)
  note run = addOrder_new_run [OF p0(2) this, unfolded p0(4,7) fun_upd_same]
  note alloc = allocate_cases [OF ok(3), of ?l]
  show "addOrder (Some x) b0 = Inl (Fatal ''Memory Pool out of space.'')" if "card (lvls b) + 1 = ME_MAX_PRICE_LEVELS"
    using run alloc that ok(4) by (auto simp: pool_ok_def)
  assume room: "card (lvls b) + 1 < ME_MAX_PRICE_LEVELS"
  then obtain n pl where al: "allocate ?l (ob_orders_at_price_pool b) = Inr (Some n, pl)" and
    pl: "pool_ok pl" "n \<notin> lvls b" "n < lcap b" "pool_live pl = insert n (lvls b)"
      "pool_obj pl = (lv b)(n := ?l)" "pool_cap pl = lcap b"
    using mp.alloc_room [OF ok(3), of ?l] ok(4) by auto
  let ?b2 = "(self_links x b0)\<lparr>ob_orders_at_price_pool := pl\<rparr>"
  note fresh = new_level_fresh [OF inv new slot pl]
  have prices: "lprice ?b2 k = lprice b k" if "k \<in> set (L @ B)" for k using that fresh(6,7) by metis
  have pricesL: "lprice ?b2 k = lprice b k" if "k \<in> set L" for k using that prices by simp
  have same: "asks_with ?b2 (o_side y) (o_price y) n L = asks_with b (o_side y) (o_price y) n L"
    "open_with ?b2 (o_side y) (o_price y) L op = open_with b (o_side y) (o_price y) L op"
    "insert_faults ?b2 (o_side y) (o_price y) L op = insert_faults b (o_side y) (o_price y) L op"
    by (rule with_cong, erule pricesL)+
  show "addOrder (Some x) b0 = Inl Null_deref" if "insert_faults b (o_side y) (o_price y) L op"
    using run al addOrdersAtPrice_level(1) [OF fresh(1-4) side fresh(5)] that same(3)
    by (simp add: sq_Inl)
  assume nf: "\<not> insert_faults b (o_side y) (o_price y) L op"
  let ?L = "asks_with b (o_side y) (o_price y) n L" and ?B = "bids_with (o_side y) n B"
  let ?op = "open_with b (o_side y) (o_price y) L op" and ?Q = "Q(n := [x])"
  obtain b1 where b1: "addOrdersAtPrice (Some n) ?b2 = Inr ((), b1)" "links_ok b1 ?L ?B ?op" "slots_ok b1 (?L @ ?B)"
    "lvls b1 = lvls ?b2" "same_rest ?b2 b1" "\<forall>j. same_data ?b2 b1 j" "lcap b1 = lcap ?b2"
    "pool_ok (ob_orders_at_price_pool b1) = pool_ok (ob_orders_at_price_pool ?b2)"
    using addOrdersAtPrice_level(2) [OF fresh(1-4) side fresh(5), unfolded same, OF nf] by blast
  have run1: "addOrder (Some x) b0 = bnd (rd_ord (Some x) o_client_id) (\<lambda>c.
        bnd (rd_ord (Some x) o_client_order_id) (\<lambda>i. put_cid_oid c i (Some x))) b1"
    using run al b1(1) by (simp add: sq_Inr)
  have od1: "od b1 = (od b)(x := y\<lparr>o_prev_order := Some x, o_next_order := Some x\<rparr>)"
    and pool1: "ords b1 = insert x (ords b)" "ocap b1 = ocap b" "pool_ok (ob_order_pool b1)"
      "ob_cid_oid_to_order b1 = ob_cid_oid_to_order b" "same_ids b b1"
    using b1(5) p0 sl by (simp_all add: same_rest_def same_ids_def)
  obtain us vs where us: "L @ B = us @ vs" "?L @ ?B = us @ n # vs"
    using with_split [OF side] by blast
  have lset: "set (?L @ ?B) = insert n (set (L @ B))" unfolding us by auto
  have data1: "l_price (lv b1 j) = l_price (lv b j)" "l_side (lv b1 j) = l_side (lv b j)"
      "l_first_me_order (lv b1 j) = l_first_me_order (lv b j)" if "j \<noteq> n" for j
    using b1(6) fresh(7) [OF that] by (simp_all add: same_data_def)
  have datan: "lprice b1 n = o_price y" "lside b1 n = o_side y" "l_first_me_order (lv b1 n) = Some x"
    using b1(6) by (simp_all add: same_data_def pl(5))
  have "level_orders_ok b1 j (?Q j)" if j: "j \<in> set (?L @ ?B)" for j
  proof (cases "j = n")
    case True
    then show ?thesis using datan by (simp add: level_orders_ok_def od1 ring_single)
  next
    case False
    then have j': "j \<in> set (L @ B)" using j lset by auto
    then have "x \<notin> set (Q j)" using orders_live(1) [OF ok(1) j'] p0(1) by auto
    then have same: "od b1 z = od b z" if "z \<in> set (Q j)" for z using that od1 by auto
    have "ring (onext b1) (oprev b1) (Q j) e = ring (onext b) (oprev b) (Q j) e" for e
      using same by (intro ring_cong) auto
    then show ?thesis
      using orders_okD(1) [OF ok(1) j'] False data1 [OF False] same by (simp add: level_orders_ok_def)
  qed
  moreover
  have "distinct (concat (map Q (us @ vs)))" "n \<notin> set (us @ vs)" "set (concat (map Q (us @ vs))) = ords b"
    using orders_okD(2,3) [OF ok(1)] fresh(6) unfolding us by simp_all
  with concat_insert [of Q us vs n x] p0(1) pool1(1)
  have "distinct (concat (map ?Q (?L @ ?B)))" "set (concat (map ?Q (?L @ ?B))) = ords b1"
    unfolding us by metis+
  ultimately have orders: "orders_ok b1 (?L @ ?B) ?Q" unfolding orders_ok_def by blast
  have "book_shape b1 ?L ?B ?Q ?op"
    unfolding book_shape_def using b1 orders pool1(2,3) pl(1,4,6) ok(4,5,6) lset by simp
  moreover have "linked b x y b1"
    unfolding linked_def
  proof (intro conjI ballI)
    show "lprice b1 j = lprice b j" if "j \<in> lvls b" for j using that data1(1) pl(2) by metis
  qed (use p0(1,2,5) pool1 od1 in \<open>auto simp: payload_def\<close>)
  ultimately show "\<exists>n b1. addOrder (Some x) b0 = bnd (rd_ord (Some x) o_client_id) (\<lambda>c.
        bnd (rd_ord (Some x) o_client_order_id) (\<lambda>i. put_cid_oid c i (Some x))) b1 \<and>
      n \<notin> set (L @ B) \<and> lprice b1 n = o_price y \<and>
      book_shape b1 (asks_with b (o_side y) (o_price y) n L) (bids_with (o_side y) n B) (Q(n := [x]))
        (open_with b (o_side y) (o_price y) L op) \<and> linked b x y b1"
    using run1 fresh(6) datan(1) by blast
qed

end
