(* ===== verification/Order_Book_Spec.thy ===== *)
theory Order_Book_Spec
  imports Types
begin

text \<open>
  What the order book promises, without pointers: the resting orders of each price level in time
  order, and \<open>add\<close> and \<open>cancel\<close> as functions on these lists. Matching is by price, then by time:
  an incoming buy order trades with the cheapest asks first and, within a level, with the oldest
  order first. \<open>ab_open\<close> is a trace of the representation that the abstract book cannot hide:
  while it is set, \<open>add\<close> and \<open>cancel\<close> crash where they reach the end of the ask list.
\<close>

section \<open>The abstract book\<close>

record resting =
  r_client :: ClientId
  r_oid :: OrderId
  r_moid :: OrderId
  r_qty :: Qty
  r_prio :: Priority

type_synonym level = "Price \<times> resting list"

record abook =
  ab_asks :: "level list"
  ab_bids :: "level list"
  ab_open :: bool
  ab_index :: "ClientId \<times> OrderId \<Rightarrow> OrderId option"
  ab_next :: OrderId

definition empty_book :: abook where
  "empty_book = \<lparr>ab_asks = [], ab_bids = [], ab_open = False, ab_index = (\<lambda>_. None), ab_next = 1\<rparr>"

definition orders_of :: "level list \<Rightarrow> resting list" where
  "orders_of ls = concat (map snd ls)"

definition book_orders :: "abook \<Rightarrow> resting list" where
  "book_orders A = orders_of (ab_asks A) @ orders_of (ab_bids A)"

section \<open>Matching\<close>

text \<open>
  One trade: the resting order as it was, its price, the quantity, and what the incoming order has
  left afterwards.
\<close>

record fill =
  f_maker :: resting
  f_price :: Price
  f_qty :: Qty
  f_leaves :: Qty

fun match_level :: "Price \<Rightarrow> Qty \<Rightarrow> resting list \<Rightarrow> Qty \<times> resting list \<times> fill list" where
  "match_level p l [] = (l, [], [])"
| "match_level p l (r # rs) =
     (if l = 0 then (l, r # rs, [])
      else if r_qty r \<le> l then
        (case match_level p (l - r_qty r) rs of (l', rs', fs) \<Rightarrow>
          (l', rs', \<lparr>f_maker = r, f_price = p, f_qty = r_qty r, f_leaves = l - r_qty r\<rparr> # fs))
      else (0, r\<lparr>r_qty := r_qty r - l\<rparr> # rs, [\<lparr>f_maker = r, f_price = p, f_qty = l, f_leaves = 0\<rparr>]))"

fun match_asks :: "Price \<Rightarrow> Qty \<Rightarrow> level list \<Rightarrow> Qty \<times> level list \<times> fill list" where
  "match_asks price l [] = (l, [], [])"
| "match_asks price l ((p, rs) # ls) =
     (if l = 0 \<or> sint price < sint p then (l, (p, rs) # ls, [])
      else (case match_level p l rs of (l', rs', fs) \<Rightarrow>
        if rs' = [] then (case match_asks price l' ls of (l'', ls', fs') \<Rightarrow> (l'', ls', fs @ fs'))
        else (l', (p, rs') # ls, fs)))"

text \<open>The messages of a trade, in the order in which they are sent.\<close>

definition fill_responses ::
  "ClientId \<Rightarrow> OrderId \<Rightarrow> TickerId \<Rightarrow> OrderId \<Rightarrow> fill \<Rightarrow> MEClientResponse list" where
  "fill_responses c oid t mo f =
     [\<lparr>resp_type = FILLED, resp_client_id = c, resp_ticker_id = t, resp_client_order_id = oid,
       resp_market_order_id = mo, resp_side = BUY, resp_price = f_price f, resp_exec_qty = f_qty f,
       resp_leaves_qty = f_leaves f\<rparr>,
      \<lparr>resp_type = FILLED, resp_client_id = r_client (f_maker f), resp_ticker_id = t,
       resp_client_order_id = r_oid (f_maker f), resp_market_order_id = r_moid (f_maker f),
       resp_side = SELL, resp_price = f_price f, resp_exec_qty = f_qty f,
       resp_leaves_qty = r_qty (f_maker f) - f_qty f\<rparr>]"

definition fill_updates :: "TickerId \<Rightarrow> fill \<Rightarrow> MEMarketUpdate list" where
  "fill_updates t f =
     [\<lparr>upd_type = TRADE, upd_order_id = OrderId_INVALID, upd_ticker_id = t, upd_side = BUY,
       upd_price = f_price f, upd_qty = f_qty f, upd_priority = Priority_INVALID\<rparr>,
      if f_qty f = r_qty (f_maker f) then
        \<lparr>upd_type = CANCEL, upd_order_id = r_moid (f_maker f), upd_ticker_id = t, upd_side = SELL,
         upd_price = f_price f, upd_qty = r_qty (f_maker f), upd_priority = Priority_INVALID\<rparr>
      else
        \<lparr>upd_type = MODIFY, upd_order_id = r_moid (f_maker f), upd_ticker_id = t, upd_side = SELL,
         upd_price = f_price f, upd_qty = r_qty (f_maker f) - f_qty f,
         upd_priority = r_prio (f_maker f)\<rparr>]"

definition full_makers :: "fill list \<Rightarrow> resting list" where
  "full_makers fs = map f_maker (filter (\<lambda>f. f_qty f = r_qty (f_maker f)) fs)"

definition forget :: "resting \<Rightarrow> (ClientId \<times> OrderId \<Rightarrow> OrderId option) \<Rightarrow> ClientId \<times> OrderId \<Rightarrow> OrderId option" where
  "forget r ix = ix((r_client r, r_oid r) := None)"

text \<open>The book after matching. The ring of asks is closed once its first level is used up.\<close>

definition same_head :: "level list \<Rightarrow> level list \<Rightarrow> bool" where
  "same_head ls ls' \<longleftrightarrow> ls \<noteq> [] \<and> ls' \<noteq> [] \<and> fst (hd ls) = fst (hd ls')"

definition after_match :: "abook \<Rightarrow> level list \<Rightarrow> fill list \<Rightarrow> abook" where
  "after_match A ls fs = A\<lparr>ab_asks := ls, ab_open := (ab_open A \<and> same_head (ab_asks A) ls),
     ab_index := fold forget (full_makers fs) (ab_index A)\<rparr>"

section \<open>Placing an order\<close>

fun level_at :: "Price \<Rightarrow> level list \<Rightarrow> resting list option" where
  "level_at p [] = None"
| "level_at p ((q, rs) # ls) = (if q = p then Some rs else level_at p ls)"

fun append_at :: "Price \<Rightarrow> resting \<Rightarrow> level list \<Rightarrow> level list" where
  "append_at p r [] = []"
| "append_at p r ((q, rs) # ls) = (if q = p then (q, rs @ [r]) # ls else (q, rs) # append_at p r ls)"

definition side_levels :: "Side \<Rightarrow> abook \<Rightarrow> level list" where
  "side_levels side A = (if side = BUY then ab_bids A else ab_asks A)"

definition spec_priority :: "Side \<Rightarrow> Price \<Rightarrow> abook \<Rightarrow> Priority" where
  "spec_priority side p A = (case level_at p (side_levels side A) of None \<Rightarrow> 1 | Some rs \<Rightarrow> r_prio (last rs) + 1)"

definition cheaper_level :: "Price \<Rightarrow> level \<Rightarrow> bool" where
  "cheaper_level p l \<longleftrightarrow> sint (fst l) < sint p"

text \<open>
  A new level. An ask level goes behind all cheaper ones; a ring that gets a new last level is
  open, and putting a level behind the last one of an open ring dereferences \<open>nullptr\<close>.
\<close>

definition new_level :: "Side \<Rightarrow> Price \<Rightarrow> resting \<Rightarrow> abook \<Rightarrow> fault + abook" where
  "new_level side p r A =
     (if length (ab_asks A) + length (ab_bids A) + 1 = ME_MAX_PRICE_LEVELS
      then Inl (Fatal ''Memory Pool out of space.'')
      else if side = BUY then Inr (A\<lparr>ab_bids := (p, [r]) # ab_bids A\<rparr>)
      else
        (let low = takeWhile (cheaper_level p) (ab_asks A);
             high = dropWhile (cheaper_level p) (ab_asks A)
         in if ab_open A \<and> high = [] then Inl Null_deref
            else Inr (A\<lparr>ab_asks := low @ (p, [r]) # high,
                        ab_open := (low \<noteq> [] \<and> (high = [] \<or> ab_open A))\<rparr>)))"

definition append_level :: "Side \<Rightarrow> Price \<Rightarrow> resting \<Rightarrow> abook \<Rightarrow> abook" where
  "append_level side p r A =
     (if side = BUY then A\<lparr>ab_bids := append_at p r (ab_bids A)\<rparr>
      else A\<lparr>ab_asks := append_at p r (ab_asks A)\<rparr>)"

definition place :: "Side \<Rightarrow> Price \<Rightarrow> resting \<Rightarrow> abook \<Rightarrow> fault + abook" where
  "place side p r A =
     (if length (book_orders A) + 1 = ME_MAX_ORDER_IDS then Inl (Fatal ''Memory Pool out of space.'')
      else
        (case (if level_at p (side_levels side A) = None then new_level side p r A
               else Inr (append_level side p r A)) of
           Inl e \<Rightarrow> Inl e
         | Inr A' \<Rightarrow>
             if unat (r_client r) < ME_MAX_NUM_CLIENTS \<and> unat (r_oid r) < ME_MAX_ORDER_IDS
             then Inr (A'\<lparr>ab_index := (ab_index A')((r_client r, r_oid r) := Some (r_moid r))\<rparr>)
             else Inl Terminate))"

section \<open>add and cancel\<close>

type_synonym outcome = "fault + abook \<times> MEClientResponse list \<times> MEMarketUpdate list"

text \<open>
  The response to the taker of a trade carries its market order id cut to 32 bits; the market data
  and the acceptance carry the whole id.
\<close>

definition spec_match :: "Side \<Rightarrow> Price \<Rightarrow> Qty \<Rightarrow> abook \<Rightarrow> Qty \<times> abook \<times> fill list" where
  "spec_match side price qty A =
     (if side = BUY then
        (case match_asks price qty (ab_asks A) of (l, ls, fs) \<Rightarrow> (l, after_match A ls fs, fs))
      else (qty, A, []))"

definition short_id :: "OrderId \<Rightarrow> OrderId" where
  "short_id mo = ucast (ucast mo :: Qty)"

definition spec_add ::
  "ClientId \<Rightarrow> OrderId \<Rightarrow> TickerId \<Rightarrow> Side \<Rightarrow> Price \<Rightarrow> Qty \<Rightarrow> abook \<Rightarrow> outcome" where
  "spec_add c oid t side price qty A =
     (let mo = ab_next A;
          accepted = \<lparr>resp_type = ACCEPTED, resp_client_id = c, resp_ticker_id = t,
            resp_client_order_id = oid, resp_market_order_id = mo, resp_side = side,
            resp_price = price, resp_exec_qty = 0, resp_leaves_qty = qty\<rparr>;
          (l, A', fs) = spec_match side price qty (A\<lparr>ab_next := mo + 1\<rparr>);
          rs = accepted # concat (map (fill_responses c oid t (short_id mo)) fs);
          us = concat (map (fill_updates t) fs)
      in if l = 0 then Inr (A', rs, us)
         else
           (let prio = spec_priority side price A' in
            case place side price
                \<lparr>r_client = c, r_oid = oid, r_moid = mo, r_qty = l, r_prio = prio\<rparr> A' of
              Inl e \<Rightarrow> Inl e
            | Inr A'' \<Rightarrow> Inr (A'', rs, us @
                [\<lparr>upd_type = ADD, upd_order_id = mo, upd_ticker_id = t, upd_side = side,
                  upd_price = price, upd_qty = l, upd_priority = prio\<rparr>])))"

definition without :: "OrderId \<Rightarrow> level list \<Rightarrow> level list" where
  "without mo ls = filter (\<lambda>(p, rs). rs \<noteq> []) (map (\<lambda>(p, rs). (p, filter (\<lambda>r. r_moid r \<noteq> mo) rs)) ls)"

definition only :: "OrderId \<Rightarrow> level \<Rightarrow> bool" where
  "only mo l \<longleftrightarrow> (\<forall>r \<in> set (snd l). r_moid r = mo)"

text \<open>Where an order rests: its side, its price, and the order.\<close>

definition find_in :: "Side \<Rightarrow> OrderId \<Rightarrow> level list \<Rightarrow> (Side \<times> Price \<times> resting) option" where
  "find_in side mo ls = List.find (\<lambda>(s, p, r). r_moid r = mo)
     (concat (map (\<lambda>(p, rs). map (\<lambda>r. (side, p, r)) rs) ls))"

definition find_order :: "OrderId \<Rightarrow> abook \<Rightarrow> (Side \<times> Price \<times> resting) option" where
  "find_order mo A = (case find_in SELL mo (ab_asks A) of Some x \<Rightarrow> Some x | None \<Rightarrow> find_in BUY mo (ab_bids A))"

definition remove_order :: "OrderId \<Rightarrow> resting \<Rightarrow> abook \<Rightarrow> fault + abook" where
  "remove_order mo r A =
     (if ab_open A \<and> only mo (last (ab_asks A)) then Inl Null_deref
      else Inr (A\<lparr>ab_asks := without mo (ab_asks A), ab_bids := without mo (ab_bids A),
        ab_open := (ab_open A \<and> \<not> only mo (hd (ab_asks A))), ab_index := forget r (ab_index A)\<rparr>))"

definition cancel_rejected :: "ClientId \<Rightarrow> OrderId \<Rightarrow> TickerId \<Rightarrow> MEClientResponse" where
  "cancel_rejected c oid t = \<lparr>resp_type = CANCEL_REJECTED, resp_client_id = c, resp_ticker_id = t,
     resp_client_order_id = oid, resp_market_order_id = OrderId_INVALID, resp_side = Side_INVALID,
     resp_price = Price_INVALID, resp_exec_qty = Qty_INVALID, resp_leaves_qty = Qty_INVALID\<rparr>"

definition spec_cancel :: "ClientId \<Rightarrow> OrderId \<Rightarrow> TickerId \<Rightarrow> abook \<Rightarrow> outcome" where
  "spec_cancel c oid t A =
     (if \<not> unat c < ME_MAX_NUM_CLIENTS then Inr (A, [cancel_rejected c oid t], [])
      else if \<not> unat oid < ME_MAX_ORDER_IDS then Inl Terminate
      else
        (case ab_index A (c, oid) of
           None \<Rightarrow> Inr (A, [cancel_rejected c oid t], [])
         | Some mo \<Rightarrow>
             (case find_order mo A of
                None \<Rightarrow> Inr (A, [cancel_rejected c oid t], [])
              | Some (side, p, r) \<Rightarrow>
                  (case remove_order mo r A of
                     Inl e \<Rightarrow> Inl e
                   | Inr A' \<Rightarrow> Inr (A',
                       [\<lparr>resp_type = CANCELED, resp_client_id = c, resp_ticker_id = t,
                         resp_client_order_id = oid, resp_market_order_id = mo, resp_side = side,
                         resp_price = p, resp_exec_qty = Qty_INVALID, resp_leaves_qty = r_qty r\<rparr>],
                       [\<lparr>upd_type = CANCEL, upd_order_id = mo, upd_ticker_id = t, upd_side = side,
                         upd_price = p, upd_qty = 0, upd_priority = r_prio r\<rparr>])))))"

end
