(* ===== verification/Book_Abstraction.thy ===== *)
theory Book_Abstraction
  imports Order_Insert Order_Book_Spec
begin

text \<open>
  The relation between a book in memory and the abstract book of \<open>Order_Book_Spec\<close>: \<open>book_rep b A L
  B Q\<close> names the ring orders that \<open>A\<close> abstracts from, \<open>book_rel\<close> hides them. The lemmas give the
  effect of the primitive updates of the book on \<open>A\<close>.
\<close>


section \<open>The abstraction\<close>

definition rest_of :: "MEOrder \<Rightarrow> resting" where
  "rest_of x = \<lparr>r_client = o_client_id x, r_oid = o_client_order_id x, r_moid = o_market_order_id x,
     r_qty = o_qty x, r_prio = o_priority x\<rparr>"

definition view :: "MEOrderBook \<Rightarrow> (nat \<Rightarrow> nat list) \<Rightarrow> nat list \<Rightarrow> level list" where
  "view b Q L = map (\<lambda>i. (lprice b i, map (\<lambda>x. rest_of (od b x)) (Q i))) L"

definition moid :: "MEOrderBook \<Rightarrow> nat \<Rightarrow> OrderId" where
  "moid b x = o_market_order_id (od b x)"

definition index_rel :: "MEOrderBook \<Rightarrow> (ClientId \<times> OrderId \<Rightarrow> OrderId option) \<Rightarrow> bool" where
  "index_rel b ix \<longleftrightarrow> (\<forall>c i. ix (c, i) =
     (if unat c < ME_MAX_NUM_CLIENTS \<and> unat i < ME_MAX_ORDER_IDS then map_option (moid b) (cell b c i) else None))"

definition ids_ok :: "MEOrderBook \<Rightarrow> bool" where
  "ids_ok b \<longleftrightarrow> inj_on (moid b) (ords b) \<and> (\<forall>x \<in> ords b. moid b x < ob_next_market_order_id b)"

definition book_rep :: "MEOrderBook \<Rightarrow> abook \<Rightarrow> nat list \<Rightarrow> nat list \<Rightarrow> (nat \<Rightarrow> nat list) \<Rightarrow> bool" where
  "book_rep b A L B Q \<longleftrightarrow> book_inv b L B Q (ab_open A) \<and> ab_asks A = view b Q L \<and> ab_bids A = view b Q B \<and>
     index_rel b (ab_index A) \<and> ab_next A = ob_next_market_order_id b \<and> ids_ok b"

definition book_rel :: "MEOrderBook \<Rightarrow> abook \<Rightarrow> bool" where
  "book_rel b A \<longleftrightarrow> (\<exists>L B Q. book_rep b A L B Q)"

lemma rest_of_sel [simp]:
  "r_client (rest_of x) = o_client_id x" "r_oid (rest_of x) = o_client_order_id x"
  "r_moid (rest_of x) = o_market_order_id x" "r_qty (rest_of x) = o_qty x" "r_prio (rest_of x) = o_priority x"
  by (simp_all add: rest_of_def)

lemma view_Nil [simp]: "view b Q [] = [] " "view b Q L = [] \<longleftrightarrow> L = []"
  by (simp_all add: view_def)

lemma view_cong:
  assumes "\<And>i. i \<in> set L \<Longrightarrow> lprice b' i = lprice b i \<and> Q' i = Q i"
    "\<And>i x. i \<in> set L \<Longrightarrow> x \<in> set (Q i) \<Longrightarrow> rest_of (od b' x) = rest_of (od b x)"
  shows "view b' Q' L = view b Q L"
  unfolding view_def using assms by (intro map_cong refl) auto

lemma orders_of_view: "orders_of (view b Q L) = map (\<lambda>x. rest_of (od b x)) (concat (map Q L))"
  by (induction L) (simp_all add: orders_of_def view_def)

lemma payload_rest: "payload x = payload y \<Longrightarrow> rest_of x = rest_of y"
  by (auto dest: payload_eqD simp: rest_of_def)

lemma book_inv_cong:
  assumes "book_inv b L B Q op" "\<And>i. i \<in> set (L @ B) \<Longrightarrow> Q' i = Q i"
  shows "book_inv b L B Q' op"
proof -
  have m: "map Q' (L @ B) = map Q (L @ B)" using assms(2) by (intro map_cong) auto
  have "orders_ok b (L @ B) Q' = orders_ok b (L @ B) Q"
    using assms(2) unfolding orders_ok_def m by auto
  with assms(1) show ?thesis by (simp add: book_inv_def)
qed

section \<open>Removing an order\<close>

lemma removeOrder_inv:
  assumes inv: "book_inv b L B Q op" and i: "i \<in> set (L @ B)" and x: "x \<in> set (Q i)"
  defines "Q' \<equiv> \<lambda>j. removeAll x (Q j)"
  shows "op \<and> Q' (last L) = [] \<Longrightarrow> removeOrder (Some x) b = Inl Null_deref"
    and "\<not> (op \<and> Q' (last L) = []) \<Longrightarrow> \<exists>b'. removeOrder (Some x) b = Inr ((), b') \<and>
      book_inv b' (filter (\<lambda>j. Q' j \<noteq> []) L) (filter (\<lambda>j. Q' j \<noteq> []) B) Q' (op \<and> Q' (hd L) \<noteq> []) \<and>
      removed b x b'"
proof -
  have ok: "orders_ok b (L @ B) Q" "links_ok b L B op" using inv by (simp_all add: book_inv_def)
  note dist = links_distinct [OF ok(2)]
  have ne: "Q j \<noteq> []" "distinct (Q j)" if "j \<in> set (L @ B)" for j
    using orders_okD(1) [OF ok(1) that] ring_distinct by (auto simp: level_orders_ok_def)
  have other: "Q' j = Q j" if "j \<in> set (L @ B)" "j \<noteq> i" for j
    using orders_disjoint [OF ok(1) dist i that(1)] that(2) x by (auto simp: Q'_def intro!: removeAll_id)
  have Lne: "op \<Longrightarrow> hd L \<in> set (L @ B) \<and> last L \<in> set (L @ B)"
    using ok(2) by (cases L) (auto simp: links_ok_def)
  obtain as bs where Q: "Q i = as @ x # bs" using x by (meson split_list)
  have Q'i: "Q' i = as @ bs" using ne(2) [OF i] unfolding Q'_def Q by simp
  show "removeOrder (Some x) b = Inl Null_deref" if "op \<and> Q' (last L) = []"
  proof -
    have last: "i = last L" using other [of "last L"] Lne that ne(1) by metis
    have "Q' i = []" using that unfolding last [symmetric] by simp
    then have "Q i = [x]" using Q'i Q by simp
    from removeOrder_single(1) [OF inv i this] last that show ?thesis by blast
  qed
  show "\<exists>b'. removeOrder (Some x) b = Inr ((), b') \<and>
      book_inv b' (filter (\<lambda>j. Q' j \<noteq> []) L) (filter (\<lambda>j. Q' j \<noteq> []) B) Q' (op \<and> Q' (hd L) \<noteq> []) \<and>
      removed b x b'" if nf: "\<not> (op \<and> Q' (last L) = [])"
  proof (cases "as @ bs = []")
    case False
    then obtain b' where b': "removeOrder (Some x) b = Inr ((), b')" "book_inv b' L B (Q(i := as @ bs)) op" "removed b x b'"
      using removeOrder_more [OF inv i Q] by blast
    have keep: "Q' j \<noteq> []" if "j \<in> set (L @ B)" for j
      using other [OF that] ne(1) [OF that] Q'i False by (cases "j = i") auto
    then have "filter (\<lambda>j. Q' j \<noteq> []) L = L" "filter (\<lambda>j. Q' j \<noteq> []) B = B"
      by (auto simp: filter_id_conv)
    moreover have "op \<and> Q' (hd L) \<noteq> [] \<longleftrightarrow> op" using keep Lne by blast
    moreover have "book_inv b' L B Q' op"
    proof (rule book_inv_cong [OF b'(2)])
      show "Q' j = (Q(i := as @ bs)) j" if "j \<in> set (L @ B)" for j
        using other [OF that] Q'i by simp
    qed
    ultimately show ?thesis using b'(1,3) by auto
  next
    case True
    then have single: "Q i = [x]" using Q by simp
    have keep: "Q' j \<noteq> [] \<longleftrightarrow> j \<noteq> i" if "j \<in> set (L @ B)" for j
      using other [OF that] ne(1) [OF that] Q'i True by (cases "j = i") auto
    have "filter (\<lambda>j. Q' j \<noteq> []) L = removeAll i L" "filter (\<lambda>j. Q' j \<noteq> []) B = removeAll i B"
      using keep by (auto simp: removeAll_filter_not_eq intro!: filter_cong)
    moreover have "op \<and> Q' (hd L) \<noteq> [] \<longleftrightarrow> op \<and> i \<noteq> hd L" using keep Lne by blast
    moreover have "\<not> (op \<and> i = last L)" using nf keep Lne by blast
    then obtain b' where b': "removeOrder (Some x) b = Inr ((), b')"
      "book_inv b' (removeAll i L) (removeAll i B) Q (op \<and> i \<noteq> hd L)" "removed b x b'"
      using removeOrder_single(2) [OF inv i single] by blast
    moreover have "book_inv b' (removeAll i L) (removeAll i B) Q' (op \<and> i \<noteq> hd L)"
    proof (rule book_inv_cong [OF b'(2)])
      show "Q' j = Q j" if "j \<in> set (removeAll i L @ removeAll i B)" for j
        using other [of j] that by auto
    qed
    ultimately show ?thesis by auto
  qed
qed

lemma moid_removeAll:
  assumes "inj_on (moid b) S" "set xs \<subseteq> S" "x \<in> S"
  shows "filter (\<lambda>r. r_moid r \<noteq> moid b x) (map (\<lambda>x. rest_of (od b x)) xs) =
    map (\<lambda>x. rest_of (od b x)) (removeAll x xs)"
  using assms(2) by (induction xs) (use assms(1,3) in \<open>auto simp: moid_def inj_on_def\<close>)

lemma view_without:
  assumes "inj_on (moid b) S" "x \<in> S" "\<And>i. i \<in> set L \<Longrightarrow> set (Q i) \<subseteq> S"
  shows "without (moid b x) (view b Q L) =
    view b (\<lambda>j. removeAll x (Q j)) (filter (\<lambda>j. removeAll x (Q j) \<noteq> []) L)"
  using assms(3)
proof (induction L)
  case Nil
  then show ?case by (simp add: without_def)
next
  case (Cons i L)
  have "filter (\<lambda>r. r_moid r \<noteq> moid b x) (map (\<lambda>x. rest_of (od b x)) (Q i)) =
    map (\<lambda>x. rest_of (od b x)) (removeAll x (Q i))"
    using Cons.prems assms(1,2) by (intro moid_removeAll [of b S]) auto
  with Cons show ?case by (simp add: without_def view_def)
qed

lemma view_only:
  assumes "inj_on (moid b) S" "x \<in> S" "set (Q i) \<subseteq> S"
  shows "only (moid b x) (lprice b i, map (\<lambda>x. rest_of (od b x)) (Q i)) \<longleftrightarrow> removeAll x (Q i) = []"
proof -
  have "only (moid b x) (lprice b i, map (\<lambda>x. rest_of (od b x)) (Q i)) \<longleftrightarrow>
    filter (\<lambda>r. r_moid r \<noteq> moid b x) (map (\<lambda>x. rest_of (od b x)) (Q i)) = []"
    by (simp add: only_def filter_empty_conv)
  then show ?thesis using moid_removeAll [OF assms(1,3,2)] by simp
qed

lemma book_rep_live:
  assumes "book_rep b A L B Q" "i \<in> set (L @ B)"
  shows "set (Q i) \<subseteq> ords b"
  using assms orders_live(1) [of b "L @ B" Q i] by (auto simp: book_rep_def book_inv_def)

lemma same_payloads_rest: "same_payloads b b' \<Longrightarrow> rest_of (od b' x) = rest_of (od b x)"
  by (intro payload_rest same_payloadsD)

lemma same_payloads_moid: "same_payloads b b' \<Longrightarrow> moid b' x = moid b x"
  unfolding moid_def by (metis payload_eqD(4) same_payloadsD)

lemma removeOrder_refines:
  assumes rep: "book_rep b A L B Q" and i: "i \<in> set (L @ B)" and x: "x \<in> set (Q i)"
  shows "case remove_order (moid b x) (rest_of (od b x)) A of
      Inl e \<Rightarrow> removeOrder (Some x) b = Inl e
    | Inr A' \<Rightarrow> \<exists>b' L' B' Q'. removeOrder (Some x) b = Inr ((), b') \<and> book_rep b' A' L' B' Q' \<and> same_ids b b'"
proof -
  have inv: "book_inv b L B Q (ab_open A)" and inj: "inj_on (moid b) (ords b)"
    and asks: "ab_asks A = view b Q L" and bids: "ab_bids A = view b Q B"
    using rep by (simp_all add: book_rep_def ids_ok_def)
  have xl: "x \<in> ords b" using book_rep_live [OF rep i] x by auto
  define Q' where "Q' = (\<lambda>j. removeAll x (Q j))"
  have only: "only (moid b x) (lprice b j, map (\<lambda>x. rest_of (od b x)) (Q j)) \<longleftrightarrow> Q' j = []"
    if "j \<in> set (L @ B)" for j
    unfolding Q'_def by (rule view_only [of b "ords b" x Q j, OF inj xl book_rep_live [OF rep that]])
  have Lne: "hd L \<in> set (L @ B)" "last L \<in> set (L @ B)" "L \<noteq> []" if "ab_open A"
    using inv that by (cases L; auto simp: book_inv_def links_ok_def)+
  have ends: "only (moid b x) (hd (ab_asks A)) \<longleftrightarrow> Q' (hd L) = []"
      "only (moid b x) (last (ab_asks A)) \<longleftrightarrow> Q' (last L) = []" if "ab_open A"
    using Lne [OF that] only by (simp_all add: asks view_def hd_map last_map)
  show ?thesis
  proof (cases "ab_open A \<and> Q' (last L) = []")
    case True
    then have "removeOrder (Some x) b = Inl Null_deref"
      using removeOrder_inv(1) [OF inv i x] by (simp add: Q'_def)
    then show ?thesis using True ends by (simp add: remove_order_def)
  next
    case False
    then obtain b' where run: "removeOrder (Some x) b = Inr ((), b')"
      and inv': "book_inv b' (filter (\<lambda>j. Q' j \<noteq> []) L) (filter (\<lambda>j. Q' j \<noteq> []) B) Q' (ab_open A \<and> Q' (hd L) \<noteq> [])"
      and rem: "removed b x b'"
      using removeOrder_inv(2) [OF inv i x] unfolding Q'_def by blast
    let ?A = "A\<lparr>ab_asks := without (moid b x) (ab_asks A), ab_bids := without (moid b x) (ab_bids A),
        ab_open := (ab_open A \<and> \<not> only (moid b x) (hd (ab_asks A))), ab_index := forget (rest_of (od b x)) (ab_index A)\<rparr>"
    have A': "remove_order (moid b x) (rest_of (od b x)) A = Inr ?A"
      using False ends by (auto simp: remove_order_def)
    have pay: "same_payloads b b'" and prices: "same_prices b b'" and ids: "same_ids b b'"
      and ords': "ords b' = ords b - {x}"
      and cells: "\<And>c i. cell b' c i = (if c = o_client_id (od b x) \<and> i = o_client_order_id (od b x) then None else cell b c i)"
      using rem by (simp_all add: removed_def)
    have view': "view b' Q' M = view b Q' M" for M
      using prices same_payloads_rest [OF pay] by (intro view_cong) (auto simp: same_prices_def)
    have w: "without (moid b x) (view b Q M) = view b' Q' (filter (\<lambda>j. Q' j \<noteq> []) M)" if "set M \<subseteq> set (L @ B)" for M
      unfolding view' unfolding Q'_def
      by (rule view_without [of b "ords b", OF inj xl]) (use that book_rep_live [OF rep] in blast)
    have "book_rep b' ?A (filter (\<lambda>j. Q' j \<noteq> []) L) (filter (\<lambda>j. Q' j \<noteq> []) B) Q'"
      unfolding book_rep_def
    proof (intro conjI)
      have "(ab_open A \<and> \<not> only (moid b x) (hd (ab_asks A))) = (ab_open A \<and> Q' (hd L) \<noteq> [])" using ends by auto
      then show "book_inv b' (filter (\<lambda>j. Q' j \<noteq> []) L) (filter (\<lambda>j. Q' j \<noteq> []) B) Q' (ab_open ?A)"
        using inv' by simp
      show "ab_asks ?A = view b' Q' (filter (\<lambda>j. Q' j \<noteq> []) L)" "ab_bids ?A = view b' Q' (filter (\<lambda>j. Q' j \<noteq> []) B)"
        using w [of L] w [of B] asks bids by simp_all
      show "index_rel b' (ab_index ?A)"
        using rep same_payloads_moid [OF pay]
        by (auto simp: book_rep_def index_rel_def cells forget_def fun_eq_iff option.map_ident_strong
            intro!: option.map_cong)
      show "ab_next ?A = ob_next_market_order_id b'" using rep ids by (simp add: book_rep_def same_ids_def)
      show "ids_ok b'"
        using rep ids ords' same_payloads_moid [OF pay]
        by (auto simp: book_rep_def ids_ok_def same_ids_def inj_on_def)
    qed
    then show ?thesis using A' run ids by auto
  qed
qed

end
