(* ===== verification/Book_Matching.thy ===== *)
theory Book_Matching
  imports Book_Abstraction
begin

text \<open>
  The matching loop of \<open>checkForMatch\<close> refines \<open>match_asks\<close>: on a book related to \<open>A\<close> it returns,
  fills exactly the resting orders \<open>match_asks\<close> names, and sends their messages in that order.
\<close>


section \<open>What the abstract book always satisfies\<close>

definition ab_wf :: "abook \<Rightarrow> bool" where
  "ab_wf A \<longleftrightarrow> distinct (map r_moid (book_orders A)) \<and>
     (\<forall>l \<in> set (ab_asks A @ ab_bids A). snd l \<noteq> []) \<and>
     sorted_wrt (\<lambda>l m. sint (fst l) < sint (fst m)) (ab_asks A) \<and>
     (ab_open A \<longrightarrow> 2 \<le> length (ab_asks A)) \<and>
     (\<forall>r \<in> set (book_orders A). r_moid r < ab_next A)"

lemma book_orders_rep:
  assumes "book_rep b A L B Q"
  shows "book_orders A = map (\<lambda>x. rest_of (od b x)) (concat (map Q (L @ B)))"
  using assms by (simp add: book_rep_def book_orders_def orders_of_view)

lemma book_rep_wf:
  assumes rep: "book_rep b A L B Q"
  shows "ab_wf A"
proof -
  have inv: "book_inv b L B Q (ab_open A)" and ids: "ids_ok b" and nx: "ab_next A = ob_next_market_order_id b"
    and asks: "ab_asks A = view b Q L" and bids: "ab_bids A = view b Q B"
    using rep by (simp_all add: book_rep_def)
  have orders: "orders_ok b (L @ B) Q" and links: "links_ok b L B (ab_open A)"
    using inv by (simp_all add: book_inv_def)
  let ?xs = "concat (map Q (L @ B))"
  have xs: "distinct ?xs" "set ?xs = ords b" using orders_okD(2,3) [OF orders] .
  have m: "map r_moid (book_orders A) = map (moid b) ?xs"
    unfolding book_orders_rep [OF rep] by (simp add: moid_def)
  have "distinct (map r_moid (book_orders A))"
    unfolding m distinct_map using xs ids by (simp add: ids_ok_def)
  moreover have "\<forall>r \<in> set (book_orders A). r_moid r < ab_next A"
    unfolding book_orders_rep [OF rep] set_map nx xs(2) using ids by (simp add: ids_ok_def moid_def)
  moreover have "\<forall>l \<in> set (ab_asks A @ ab_bids A). snd l \<noteq> []"
    using orders_okD(1) [OF orders] by (auto simp: asks bids view_def level_orders_ok_def)
  moreover have "sorted_wrt (\<lambda>l m. sint (fst l) < sint (fst m)) (ab_asks A)"
  proof -
    have "below b = (\<lambda>i j. sint (lprice b i) < sint (lprice b j))" by (simp add: below_def fun_eq_iff)
    then show ?thesis using links by (simp add: asks view_def sorted_wrt_map links_ok_def)
  qed
  moreover have "ab_open A \<longrightarrow> 2 \<le> length (ab_asks A)"
    using links by (simp add: asks view_def links_ok_def)
  ultimately show ?thesis by (simp add: ab_wf_def)
qed

lemma without_other:
  assumes "\<forall>l \<in> set ls. snd l \<noteq> [] \<and> (\<forall>r \<in> set (snd l). r_moid r \<noteq> m)"
  shows "without m ls = ls"
proof -
  have "map (\<lambda>(p, rs). (p, filter (\<lambda>r. r_moid r \<noteq> m) rs)) ls = ls"
    using assms by (intro map_idI) (auto simp: filter_id_conv)
  then show ?thesis using assms by (auto simp: without_def filter_id_conv)
qed

lemma no_moid:
  assumes "m \<notin> r_moid ` set (orders_of ls)" "l \<in> set ls" "r \<in> set (snd l)"
  shows "r_moid r \<noteq> m"
proof
  assume "r_moid r = m"
  moreover have "r \<in> set (orders_of ls)" using assms(2,3) by (auto simp: orders_of_def)
  ultimately show False using assms(1) by (metis image_eqI)
qed

lemma remove_head:
  assumes wf: "ab_wf A" and asks: "ab_asks A = (p, r # rs) # ls"
  shows "remove_order (r_moid r) r' A = Inr (A\<lparr>ab_asks := if rs = [] then ls else (p, rs) # ls,
    ab_open := (ab_open A \<and> rs \<noteq> []), ab_index := forget r' (ab_index A)\<rparr>)"
proof -
  let ?m = "r_moid r"
  have ne: "\<forall>l \<in> set (ab_asks A @ ab_bids A). snd l \<noteq> []" and dist: "distinct (map r_moid (book_orders A))"
    and len: "ab_open A \<Longrightarrow> 2 \<le> length (ab_asks A)"
    using wf by (simp_all add: ab_wf_def)
  have rest: "?m \<notin> r_moid ` set rs" "?m \<notin> r_moid ` set (orders_of ls)" "?m \<notin> r_moid ` set (orders_of (ab_bids A))"
    using dist by (auto simp: book_orders_def asks orders_of_def)
  have ls: "\<forall>l \<in> set ls. snd l \<noteq> [] \<and> (\<forall>r \<in> set (snd l). r_moid r \<noteq> ?m)"
    using ne no_moid [OF rest(2)] by (simp add: asks)
  have "\<forall>l \<in> set (ab_bids A). snd l \<noteq> [] \<and> (\<forall>r \<in> set (snd l). r_moid r \<noteq> ?m)"
    using ne no_moid [OF rest(3)] by simp
  then have bids: "without ?m (ab_bids A) = ab_bids A" by (rule without_other)
  have "filter (\<lambda>r. r_moid r \<noteq> ?m) rs = rs" using rest(1) by (metis (mono_tags, lifting) filter_True imageI)
  then have w: "without ?m (ab_asks A) = (if rs = [] then ls else (p, rs) # ls)"
    using without_other [OF ls] by (simp add: asks without_def)
  have first: "only ?m (hd (ab_asks A)) \<longleftrightarrow> rs = []"
    using rest(1) by (cases rs) (auto simp: only_def asks)
  have "\<not> only ?m (last (ab_asks A))" if "ab_open A"
  proof -
    have "last ls \<in> set ls" "last (ab_asks A) = last ls"
      using len [OF that] by (cases ls; simp add: asks)+
    moreover have "snd l \<noteq> [] \<Longrightarrow> \<forall>r \<in> set (snd l). r_moid r \<noteq> ?m \<Longrightarrow> \<not> only ?m l" for l
      by (cases "snd l") (auto simp: only_def)
    ultimately show ?thesis using ls by metis
  qed
  then show ?thesis unfolding remove_order_def first w bids by (auto simp: asks)
qed

section \<open>Trading with the first ask\<close>

definition set_qty :: "nat \<Rightarrow> Qty \<Rightarrow> MEOrderBook \<Rightarrow> MEOrderBook" where
  "set_qty x q b = wod x ((od b x)\<lparr>o_qty := q\<rparr>) b"

lemma set_qty_sel:
  "od (set_qty x q b) = (od b)(x := (od b x)\<lparr>o_qty := q\<rparr>)"
  "ords (set_qty x q b) = ords b" "ocap (set_qty x q b) = ocap b"
  "pool_ok (ob_order_pool (set_qty x q b)) = pool_ok (ob_order_pool b)"
  "ob_orders_at_price_pool (set_qty x q b) = ob_orders_at_price_pool b"
  "ob_bids_at_price (set_qty x q b) = ob_bids_at_price b"
  "ob_asks_at_price (set_qty x q b) = ob_asks_at_price b"
  "slots (set_qty x q b) = slots b" "cell (set_qty x q b) = cell b"
  "ob_cid_oid_to_order (set_qty x q b) = ob_cid_oid_to_order b"
  "ob_next_market_order_id (set_qty x q b) = ob_next_market_order_id b"
  by (simp_all add: set_qty_def cell_def fun_eq_iff)

text \<open>\<open>book_inv\<close> reads the pools, the two lists and the two maps only.\<close>

lemma book_inv_fields:
  assumes inv: "book_inv b L B Q op"
    and pool: "ob_orders_at_price_pool b' = ob_orders_at_price_pool b" "ob_bids_at_price b' = ob_bids_at_price b"
      "ob_asks_at_price b' = ob_asks_at_price b" "slots b' = slots b"
      "ob_cid_oid_to_order b' = ob_cid_oid_to_order b" "ords b' = ords b" "ocap b' = ocap b"
      "pool_ok (ob_order_pool b') = pool_ok (ob_order_pool b)"
    and same: "\<And>z. \<exists>q. od b' z = (od b z)\<lparr>o_qty := q\<rparr>"
  shows "book_inv b' L B Q op"
proof -
  have od': "o_next_order (od b' z) = o_next_order (od b z)" "o_prev_order (od b' z) = o_prev_order (od b z)"
    "o_price (od b' z) = o_price (od b z)" "o_side (od b' z) = o_side (od b z)"
    "o_client_id (od b' z) = o_client_id (od b z)" "o_client_order_id (od b' z) = o_client_order_id (od b z)" for z
    using same [of z] by auto
  have links: "links_ok b' L B op"
    using inv unfolding book_inv_def by (elim conjE links_ok_cong) (simp_all add: pool)
  have "level_orders_ok b' i xs = level_orders_ok b i xs" for i xs
    by (simp add: level_orders_ok_def pool od')
  then have orders: "orders_ok b' (L @ B) Q" using inv pool by (simp add: book_inv_def orders_ok_def)
  have index: "index_ok b'" using inv pool by (simp add: book_inv_def index_ok_def cell_def in_range_def od')
  show ?thesis using inv links orders index pool by (simp add: book_inv_def slots_ok_def)
qed

text \<open>The two message fields of the book are invisible.\<close>

definition same_core :: "MEOrderBook \<Rightarrow> MEOrderBook \<Rightarrow> bool" where
  "same_core b b' \<longleftrightarrow> (\<exists>r u. b' = b\<lparr>ob_client_response := r, ob_market_update := u\<rparr>)"

lemma same_core_rep:
  assumes "same_core b b'" "book_rep b A L B Q"
  shows "book_rep b' A L B Q"
proof -
  obtain r u where b': "b' = b\<lparr>ob_client_response := r, ob_market_update := u\<rparr>"
    using assms(1) by (auto simp: same_core_def)
  have "book_inv b' L B Q (ab_open A)"
  proof (rule book_inv_fields)
    show "book_inv b L B Q (ab_open A)" using assms(2) by (simp add: book_rep_def)
    show "\<exists>q. od b' z = (od b z)\<lparr>o_qty := q\<rparr>" for z by (rule exI [of _ "o_qty (od b z)"]) (simp add: b')
  qed (simp_all add: b')
  moreover have "moid b' = moid b" "view b' Q M = view b Q M" "cell b' = cell b" for M
    by (simp_all add: b' moid_def view_def cell_def fun_eq_iff)
  ultimately show ?thesis
    using assms(2) by (simp add: book_rep_def index_rel_def ids_ok_def) (simp add: b')
qed

lemma set_qty_rep:
  assumes rep: "book_rep b A L B Q" and L: "L = i # Ls" "Q i = x # xs" "ab_asks A = (p, r # rs) # ls"
  shows "book_rep (set_qty x q b) (A\<lparr>ab_asks := (p, r\<lparr>r_qty := q\<rparr> # rs) # ls\<rparr>) L B Q"
proof -
  note sel = set_qty_sel [of x q b]
  have inv: "book_inv b L B Q (ab_open A)" using rep by (simp add: book_rep_def)
  have orders: "orders_ok b (L @ B) Q" and links: "links_ok b L B (ab_open A)"
    using inv by (simp_all add: book_inv_def)
  note dist = links_distinct [OF links]
  have x: "x \<notin> set xs" "\<And>j. j \<in> set (Ls @ B) \<Longrightarrow> x \<notin> set (Q j)"
  proof -
    show "x \<notin> set xs" using orders_okD(1) [OF orders, of i] L ring_distinct by (fastforce simp: level_orders_ok_def)
    show "x \<notin> set (Q j)" if "j \<in> set (Ls @ B)" for j
      using orders_disjoint [OF orders dist, of i j] that L dist by auto
  qed
  have moid: "moid (set_qty x q b) = moid b" by (auto simp: moid_def sel fun_eq_iff)
  have "book_inv (set_qty x q b) L B Q (ab_open A)"
  proof (rule book_inv_fields [OF inv])
    show "\<exists>qq. od (set_qty x q b) z = (od b z)\<lparr>o_qty := qq\<rparr>" for z
      by (rule exI [of _ "if z = x then q else o_qty (od b z)"]) (simp add: sel)
  qed (simp_all add: sel)
  moreover have other: "view (set_qty x q b) Q M = view b Q M" if "set M \<subseteq> set (Ls @ B)" for M
    using x(2) that by (intro view_cong) (auto simp: sel)
  have head: "p = lprice b i" "r = rest_of (od b x)" "rs = map (\<lambda>x. rest_of (od b x)) xs" "ls = view b Q Ls"
    using rep L by (simp_all add: book_rep_def view_def)
  have "map (\<lambda>z. rest_of (od (set_qty x q b) z)) xs = rs"
    unfolding head(3) using x(1) by (intro map_cong refl) (auto simp: sel)
  then have "view (set_qty x q b) Q L = (p, r\<lparr>r_qty := q\<rparr> # rs) # ls"
    using other [of Ls] head L by (simp add: view_def sel rest_of_def)
  ultimately show ?thesis
    using rep other [of B] by (simp add: book_rep_def index_rel_def ids_ok_def moid sel)
qed

section \<open>Publishing\<close>

definition wf_queues :: "ME_ctx \<Rightarrow> bool" where
  "wf_queues c \<longleftrightarrow> q_wf (cx_ogw c) \<and> q_wf (cx_md c)"

text \<open>\<open>sent c rs us c'\<close>: between \<open>c\<close> and \<open>c'\<close> the responses \<open>rs\<close> and the updates \<open>us\<close> were pushed.\<close>

definition sent :: "ME_ctx \<Rightarrow> MEClientResponse list \<Rightarrow> MEMarketUpdate list \<Rightarrow> ME_ctx \<Rightarrow> bool" where
  "sent c rs us c' \<longleftrightarrow> cx_ogw c' = fold q_push rs (cx_ogw c) \<and> cx_md c' = fold q_push us (cx_md c)"

lemma sent_trans: "sent c rs us c' \<Longrightarrow> sent c' rs' us' c'' \<Longrightarrow> sent c (rs @ rs') (us @ us') c''"
  by (simp add: sent_def)

lemma sent_refl [simp]: "sent c [] [] c" "sent c [] [] (c\<lparr>cx_book := b\<rparr>)"
  by (simp_all add: sent_def)

lemma sent_wf: "sent c rs us c' \<Longrightarrow> wf_queues c \<Longrightarrow> wf_queues c'"
  by (simp add: sent_def wf_queues_def)

definition put_resp :: "MEClientResponse \<Rightarrow> ME_ctx \<Rightarrow> ME_ctx" where
  "put_resp r c = c\<lparr>cx_book := (cx_book c)\<lparr>ob_client_response := r\<rparr>, cx_ogw := q_push r (cx_ogw c)\<rparr>"

definition put_upd :: "MEMarketUpdate \<Rightarrow> ME_ctx \<Rightarrow> ME_ctx" where
  "put_upd u c = c\<lparr>cx_book := (cx_book c)\<lparr>ob_market_update := u\<rparr>, cx_md := q_push u (cx_md c)\<rparr>"

lemma put_sel [simp]:
  "cx_book (put_resp r c) = (cx_book c)\<lparr>ob_client_response := r\<rparr>"
  "cx_book (put_upd u c) = (cx_book c)\<lparr>ob_market_update := u\<rparr>"
  "wf_queues c \<Longrightarrow> wf_queues (put_resp r c)" "wf_queues c \<Longrightarrow> wf_queues (put_upd u c)"
  "wf_queues (c\<lparr>cx_book := b\<rparr>) = wf_queues c"
  by (simp_all add: put_resp_def put_upd_def wf_queues_def)

lemma sent_put:
  "sent c rs us c' \<Longrightarrow> sent c (rs @ [r]) us (put_resp r c')"
  "sent c rs us c' \<Longrightarrow> sent c rs (us @ [u]) (put_upd u c')"
  "sent c rs us (c'\<lparr>cx_book := b\<rparr>) = sent c rs us c'"
  "sent (c\<lparr>cx_book := b\<rparr>) rs us c' = sent c rs us c'"
  by (simp_all add: sent_def put_resp_def put_upd_def)

lemma publish_run:
  assumes "wf_queues c"
  shows "sq (set_client_response r) (sq send_client_response k) c = k (put_resp r c)"
    "sq (set_market_update u) (sq send_market_update k') c = k' (put_upd u c)"
    "sq (set_market_update u) send_market_update c = Inr ((), put_upd u c)"
    "sq (set_client_response r) send_client_response c = Inr ((), put_resp r c)"
  using assms
  by (simp_all add: sq_def bnd_def set_client_response_def set_market_update_def send_client_response_def
      send_market_update_def sendClientResponse_def sendMarketUpdate_def on_book_def zoom_def wf_queues_def
      push_elem_run put_resp_def put_upd_def)

lemma on_book_run: "m (cx_book c) = Inr (v, b) \<Longrightarrow> on_book m c = Inr (v, c\<lparr>cx_book := b\<rparr>)"
  "m (cx_book c) = Inl e \<Longrightarrow> on_book m c = Inl e"
  by (simp_all add: on_book_def zoom_def)

section \<open>One trade\<close>

lemma match_order_run:
  fixes l :: Qty and t :: TickerId and s :: Side and cl :: ClientId and coid mo :: OrderId
  assumes x: "x < ocap (cx_book c)" and wf: "wf_queues c"
  defines "y \<equiv> od (cx_book c) x"
  defines "f \<equiv> min l (o_qty y)"
  defines "c3 \<equiv> put_upd \<lparr>upd_type = TRADE, upd_order_id = OrderId_INVALID, upd_ticker_id = t, upd_side = s,
        upd_price = o_price y, upd_qty = f, upd_priority = Priority_INVALID\<rparr>
      (put_resp \<lparr>resp_type = FILLED, resp_client_id = o_client_id y, resp_ticker_id = t,
        resp_client_order_id = o_client_order_id y, resp_market_order_id = o_market_order_id y,
        resp_side = o_side y, resp_price = o_price y, resp_exec_qty = f, resp_leaves_qty = o_qty y - f\<rparr>
      (put_resp \<lparr>resp_type = FILLED, resp_client_id = cl, resp_ticker_id = t,
        resp_client_order_id = coid, resp_market_order_id = mo, resp_side = s,
        resp_price = o_price y, resp_exec_qty = f, resp_leaves_qty = l - f\<rparr>
      (c\<lparr>cx_book := set_qty x (o_qty y - f) (cx_book c)\<rparr>)))"
  shows "match_order t cl s coid mo (Some x) l c =
    (if o_qty y - f = 0 then
       (let c4 = put_upd \<lparr>upd_type = CANCEL, upd_order_id = o_market_order_id y, upd_ticker_id = t,
          upd_side = o_side y, upd_price = o_price y, upd_qty = o_qty y, upd_priority = Priority_INVALID\<rparr> c3
        in case removeOrder (Some x) (cx_book c4) of
             Inl e \<Rightarrow> Inl e
           | Inr (u, b') \<Rightarrow> Inr (l - f, c4\<lparr>cx_book := b'\<rparr>))
     else Inr (l - f, put_upd \<lparr>upd_type = MODIFY, upd_order_id = o_market_order_id y, upd_ticker_id = t,
          upd_side = o_side y, upd_price = o_price y, upd_qty = o_qty y - f, upd_priority = o_priority y\<rparr> c3))"
proof -
  let ?c0 = "c\<lparr>cx_book := set_qty x (o_qty y - f) (cx_book c)\<rparr>"
  have w: "wf_queues c3" "wf_queues ?c0" using wf by (simp_all add: c3_def)
  have "on_book (rd_ord (Some x) o_qty) c = Inr (o_qty y, c)"
    using x by (simp add: on_book_run rd_ord_run y_def)
  moreover have "on_book (wr_ord (Some x) (\<lambda>z. z\<lparr>o_qty := o_qty z - f\<rparr>)) c = Inr ((), ?c0)"
    using x by (simp add: on_book_run wr_ord_run y_def set_qty_def)
  moreover have "on_book (rd_ord (Some x) (\<lambda>z. z)) ?c0 = Inr (y\<lparr>o_qty := o_qty y - f\<rparr>, ?c0)"
    using x by (simp add: on_book_run rd_ord_run set_qty_sel y_def)
  ultimately have "match_order t cl s coid mo (Some x) l c =
    sq (if o_qty y - f = 0 then
          sq (set_market_update \<lparr>upd_type = CANCEL, upd_order_id = o_market_order_id y, upd_ticker_id = t,
            upd_side = o_side y, upd_price = o_price y, upd_qty = o_qty y, upd_priority = Priority_INVALID\<rparr>)
         (sq send_market_update (on_book (removeOrder (Some x))))
        else sq (set_market_update \<lparr>upd_type = MODIFY, upd_order_id = o_market_order_id y, upd_ticker_id = t,
            upd_side = o_side y, upd_price = o_price y, upd_qty = o_qty y - f, upd_priority = o_priority y\<rparr>)
          send_market_update) (ret (l - f)) c3"
    using w by (simp add: match_order_def f_def [symmetric] Let_def bnd_Inr sq_Inr publish_run c3_def)
  note run = this
  show ?thesis
  proof (cases "o_qty y - f = 0")
    case True
    have "sq (on_book (removeOrder p)) (ret v) c4 = (case removeOrder p (cx_book c4) of Inl e \<Rightarrow> Inl e
        | Inr (u, b') \<Rightarrow> Inr (v, c4\<lparr>cx_book := b'\<rparr>))" for p v c4
      by (simp add: sq_def bnd_def on_book_def zoom_def split: sum.split)
    then show ?thesis
      unfolding run using True by (simp only: simp_thms if_True sq_sq publish_run [OF w(1)] Let_def)
  next
    case False
    have "sq (sq (set_market_update u) send_market_update) (ret v) c3 = Inr (v, put_upd u c3)" for u v
      by (simp only: sq_def [of "sq (set_market_update u) send_market_update"] bnd_def
          publish_run(3) [OF w(1)] sum.case prod.case ret_run)
    with False show ?thesis
      unfolding run by (simp only: simp_thms if_False)
  qed
qed

text \<open>What the trade is on the abstract side.\<close>

definition first_fill :: "Price \<Rightarrow> Qty \<Rightarrow> resting \<Rightarrow> fill" where
  "first_fill p l r = (if r_qty r \<le> l then \<lparr>f_maker = r, f_price = p, f_qty = r_qty r, f_leaves = l - r_qty r\<rparr>
     else \<lparr>f_maker = r, f_price = p, f_qty = l, f_leaves = 0\<rparr>)"

definition after_fill :: "abook \<Rightarrow> Price \<Rightarrow> Qty \<Rightarrow> resting \<Rightarrow> resting list \<Rightarrow> level list \<Rightarrow> abook" where
  "after_fill A p l r rs ls =
     (if r_qty r \<le> l then A\<lparr>ab_asks := (if rs = [] then ls else (p, rs) # ls),
        ab_open := (ab_open A \<and> rs \<noteq> []), ab_index := forget r (ab_index A)\<rparr>
      else A\<lparr>ab_asks := (p, r\<lparr>r_qty := r_qty r - l\<rparr> # rs) # ls\<rparr>)"

lemma first_fill_sel [simp]:
  "f_maker (first_fill p l r) = r" "f_price (first_fill p l r) = p"
  "f_qty (first_fill p l r) = min l (r_qty r)" "f_leaves (first_fill p l r) = l - min l (r_qty r)"
  by (auto simp: first_fill_def min_def)

lemma head_order:
  assumes rep: "book_rep b A L B Q" and asks: "ab_asks A = (p, r # rs) # ls"
  obtains i Ls x xs where "L = i # Ls" "Q i = x # xs" "i \<in> set (L @ B)" "x \<in> set (Q i)" "x < ocap b"
    "r = rest_of (od b x)" "p = o_price (od b x)" "o_side (od b x) = SELL"
    "ob_asks_at_price b = Some i" "i < lcap b" "l_first_me_order (lv b i) = Some x"
proof -
  have inv: "book_inv b L B Q (ab_open A)" and v: "ab_asks A = view b Q L"
    using rep by (simp_all add: book_rep_def)
  obtain i Ls where L: "L = i # Ls" using asks v by (cases L) auto
  then obtain x xs where Q: "Q i = x # xs" and r: "r = rest_of (od b x)" "p = lprice b i"
    using asks v by (cases "Q i") (auto simp: view_def)
  have i: "i \<in> set (L @ B)" and x: "x \<in> set (Q i)" using L Q by simp_all
  note ord = book_inv_order [OF inv i x] and lev = book_inv_level [OF inv i]
  have "links_ok b L B (ab_open A)" using inv by (simp add: book_inv_def)
  then have "lside b i = SELL" "ob_asks_at_price b = Some i" using L by (simp_all add: links_ok_def)
  moreover have "l_first_me_order (lv b i) = Some x" using lev(3) Q by (simp add: level_orders_ok_def)
  ultimately show thesis using that L Q i x ord r lev by metis
qed

lemma match_refines:
  assumes rep: "book_rep (cx_book c) A L B Q" and wf: "wf_queues c" and asks: "ab_asks A = (p, r # rs) # ls"
    and x: "l_first_me_order (lv (cx_book c) (hd L)) = Some x"
  shows "\<exists>c'. match_order t cl BUY coid mo (Some x) l c = Inr (f_leaves (first_fill p l r), c') \<and>
    sent c (fill_responses cl coid t mo (first_fill p l r)) (fill_updates t (first_fill p l r)) c' \<and>
    book_rel (cx_book c') (after_fill A p l r rs ls)"
proof -
  let ?b = "cx_book c" and ?f = "min l (r_qty r)"
  obtain i Ls x' xs where h: "L = i # Ls" "Q i = x' # xs" "i \<in> set (L @ B)" "x' \<in> set (Q i)" "x' < ocap ?b"
    "r = rest_of (od ?b x')" "p = o_price (od ?b x')" "o_side (od ?b x') = SELL" "l_first_me_order (lv ?b i) = Some x'"
    using head_order [OF rep asks] by metis
  have x': "x' = x" using x h(1,9) by simp
  note h = h[unfolded x']
  let ?q = "r_qty r - ?f"
  let ?A1 = "A\<lparr>ab_asks := (p, r\<lparr>r_qty := ?q\<rparr> # rs) # ls\<rparr>"
  have rep1: "book_rep (set_qty x ?q ?b) ?A1 L B Q" by (rule set_qty_rep [OF rep h(1,2) asks])
  have q: "r_qty r = o_qty (od ?b x)" using h(6) by simp
  let ?c3 = "put_upd \<lparr>upd_type = TRADE, upd_order_id = OrderId_INVALID, upd_ticker_id = t, upd_side = BUY,
        upd_price = p, upd_qty = ?f, upd_priority = Priority_INVALID\<rparr>
      (put_resp \<lparr>resp_type = FILLED, resp_client_id = r_client r, resp_ticker_id = t,
        resp_client_order_id = r_oid r, resp_market_order_id = r_moid r,
        resp_side = SELL, resp_price = p, resp_exec_qty = ?f, resp_leaves_qty = ?q\<rparr>
      (put_resp \<lparr>resp_type = FILLED, resp_client_id = cl, resp_ticker_id = t,
        resp_client_order_id = coid, resp_market_order_id = mo, resp_side = BUY,
        resp_price = p, resp_exec_qty = ?f, resp_leaves_qty = l - ?f\<rparr>
      (c\<lparr>cx_book := set_qty x ?q ?b\<rparr>)))"
  have run: "match_order t cl BUY coid mo (Some x) l c =
    (if ?q = 0 then
       (let c4 = put_upd \<lparr>upd_type = CANCEL, upd_order_id = r_moid r, upd_ticker_id = t,
          upd_side = SELL, upd_price = p, upd_qty = r_qty r, upd_priority = Priority_INVALID\<rparr> ?c3
        in case removeOrder (Some x) (cx_book c4) of
             Inl e \<Rightarrow> Inl e
           | Inr (u, b') \<Rightarrow> Inr (l - ?f, c4\<lparr>cx_book := b'\<rparr>))
     else Inr (l - ?f, put_upd \<lparr>upd_type = MODIFY, upd_order_id = r_moid r, upd_ticker_id = t,
          upd_side = SELL, upd_price = p, upd_qty = ?q, upd_priority = r_prio r\<rparr> ?c3))"
    using match_order_run [OF h(5) wf, where l = l and t = t and cl = cl and s = BUY and coid = coid and mo = mo]
    unfolding h(6,7,8) rest_of_sel by simp
  have sent3: "sent c (fill_responses cl coid t mo (first_fill p l r)) [hd (fill_updates t (first_fill p l r))] ?c3"
    by (simp add: sent_def put_resp_def put_upd_def fill_responses_def fill_updates_def)
  have core3: "same_core (set_qty x ?q ?b) (cx_book (put_upd u ?c3))" for u
    by (auto simp: same_core_def)
  show ?thesis
  proof (cases "?q = 0")
    case False
    then have big: "\<not> r_qty r \<le> l" "?f = l" by (auto simp: min_def not_le split: if_splits)
    let ?u = "\<lparr>upd_type = MODIFY, upd_order_id = r_moid r, upd_ticker_id = t,
          upd_side = SELL, upd_price = p, upd_qty = ?q, upd_priority = r_prio r\<rparr>"
    have "book_rep (cx_book (put_upd ?u ?c3)) (after_fill A p l r rs ls) L B Q"
      using same_core_rep [OF core3 rep1] big by (simp add: after_fill_def)
    moreover have "sent c (fill_responses cl coid t mo (first_fill p l r)) (fill_updates t (first_fill p l r))
        (put_upd ?u ?c3)"
      using sent_put(2) [OF sent3, of ?u] False by (simp add: fill_updates_def)
    moreover have "match_order t cl BUY coid mo (Some x) l c = Inr (l - ?f, put_upd ?u ?c3)"
      unfolding run using False by (simp only: if_False)
    ultimately show ?thesis by (auto simp: book_rel_def)
  next
    case True
    then have small: "r_qty r \<le> l" "?f = r_qty r" by (auto simp: min_def not_le split: if_splits)
    let ?u = "\<lparr>upd_type = CANCEL, upd_order_id = r_moid r, upd_ticker_id = t,
          upd_side = SELL, upd_price = p, upd_qty = r_qty r, upd_priority = Priority_INVALID\<rparr>"
    let ?c4 = "put_upd ?u ?c3"
    have rep4: "book_rep (cx_book ?c4) ?A1 L B Q" by (rule same_core_rep [OF core3 rep1])
    have od4: "od (cx_book ?c4) x = (od ?b x)\<lparr>o_qty := ?q\<rparr>" by (simp add: set_qty_sel)
    have A2: "remove_order (moid (cx_book ?c4) x) (rest_of (od (cx_book ?c4) x)) ?A1 = Inr (after_fill A p l r rs ls)"
      using remove_head [OF book_rep_wf [OF rep4], where p = p and r = "r\<lparr>r_qty := ?q\<rparr>" and rs = rs and ls = ls] small(1)
      unfolding moid_def od4 by (simp add: h(6) after_fill_def forget_def)
    obtain b' where b': "removeOrder (Some x) (cx_book ?c4) = Inr ((), b')" "book_rel b' (after_fill A p l r rs ls)"
      using removeOrder_refines [OF rep4 h(3,4)] unfolding A2 by (auto simp: book_rel_def)
    have "sent c (fill_responses cl coid t mo (first_fill p l r)) (fill_updates t (first_fill p l r))
        (?c4\<lparr>cx_book := b'\<rparr>)"
      using sent_put(2) [OF sent3, of ?u] small by (simp add: fill_updates_def sent_put)
    moreover have "match_order t cl BUY coid mo (Some x) l c = Inr (l - ?f, ?c4\<lparr>cx_book := b'\<rparr>)"
      unfolding run using True b'(1) by (simp only: simp_thms if_True Let_def sum.case prod.case)
    ultimately show ?thesis using b'(2) by (auto simp: book_rel_def)
  qed
qed

section \<open>The matching loop\<close>

lemma match_asks_step:
  assumes "l \<noteq> 0" "\<not> sint price < sint p"
  shows "match_asks price l ((p, r # rs) # ls) =
    (if r_qty r \<le> l then
       (case match_asks price (l - r_qty r) (if rs = [] then ls else (p, rs) # ls) of
          (l', ls', fs) \<Rightarrow> (l', ls', first_fill p l r # fs))
     else (0, (p, r\<lparr>r_qty := r_qty r - l\<rparr> # rs) # ls, [first_fill p l r]))"
proof (cases "rs = [] \<or> l - r_qty r = 0")
  case True
  then show ?thesis
    using assms by (cases rs) (auto simp: first_fill_def split: prod.splits)
next
  case False
  then show ?thesis
    using assms by (auto simp: first_fill_def split: prod.splits)
qed

lemma match_asks_prices:
  "match_asks price l ls = (l', ls', fs) \<Longrightarrow> fst ` set ls' \<subseteq> fst ` set ls"
proof (induction price l ls arbitrary: l' ls' fs rule: match_asks.induct)
  case (1 price l)
  then show ?case by simp
next
  case (2 price l p rs ls)
  obtain l1 rs1 fs1 where m: "match_level p l rs = (l1, rs1, fs1)" by (cases "match_level p l rs")
  obtain l2 ls2 fs2 where n: "match_asks price l1 ls = (l2, ls2, fs2)" by (cases "match_asks price l1 ls")
  show ?case
    using 2(2) 2(1) [OF _ m [symmetric] refl _ n] m n by (auto split: if_splits)
qed

lemma after_match_nil: "after_match A (ab_asks A) [] = A" if "ab_wf A"
proof -
  have "ab_open A \<Longrightarrow> ab_asks A \<noteq> []" using that by (auto simp: ab_wf_def)
  then show ?thesis by (cases A) (auto simp: after_match_def same_head_def full_makers_def)
qed

lemma after_match_fill:
  assumes wf: "ab_wf A" and asks: "ab_asks A = (p, r # rs) # ls" and q: "r_qty r \<le> l"
    and rest: "match_asks price l' (if rs = [] then ls else (p, rs) # ls) = (l'', ls', fs)"
  shows "after_match (after_fill A p l r rs ls) ls' fs = after_match A ls' (first_fill p l r # fs)"
proof -
  have full: "full_makers (first_fill p l r # fs) = r # full_makers fs"
    using q by (simp add: full_makers_def min_def)
  have "p \<notin> fst ` set ls" using wf asks by (force simp: ab_wf_def)
  then have "same_head ((p, r # rs) # ls) ls' \<longleftrightarrow>
      rs \<noteq> [] \<and> same_head (if rs = [] then ls else (p, rs) # ls) ls'"
    using match_asks_prices [OF rest] by (cases ls') (auto simp: same_head_def)
  then show ?thesis
    using q by (simp add: after_match_def after_fill_def asks full)
qed

lemma buy_round_run:
  assumes rep: "book_rep (cx_book c) A L B Q" and asks: "ab_asks A = (p, r # rs) # ls"
  obtains x where "l_first_me_order (lv (cx_book c) (hd L)) = Some x" "ob_asks_at_price (cx_book c) \<noteq> None"
    "buy_round cl coid t price mo l c = (if sint price < sint p then Inr (None, c)
     else case match_order t cl BUY coid mo (Some x) l c of
         Inl e \<Rightarrow> Inl e | Inr (l', c') \<Rightarrow> Inr (Some l', c'))"
proof -
  let ?b = "cx_book c"
  obtain i Ls x xs where h: "L = i # Ls" "x < ocap ?b" "p = o_price (od ?b x)" "ob_asks_at_price ?b = Some i"
    "i < lcap ?b" "l_first_me_order (lv ?b i) = Some x"
    using head_order [OF rep asks] by metis
  have "on_book (rd ob_asks_at_price) c = Inr (Some i, c)" "on_book (rd_lvl (Some i) l_first_me_order) c = Inr (Some x, c)"
    "on_book (rd_ord (Some x) o_price) c = Inr (p, c)"
    using h by (simp_all add: on_book_run rd_lvl_run rd_ord_run)
  then have "buy_round cl coid t price mo l c = (if sint price < sint p then Inr (None, c)
     else case match_order t cl BUY coid mo (Some x) l c of
         Inl e \<Rightarrow> Inl e | Inr (l', c') \<Rightarrow> Inr (Some l', c'))"
    by (simp add: buy_round_def bnd_Inr) (simp add: bnd_def split: sum.split)
  then show thesis using that h(1,4,6) by simp
qed

lemma buy_loop_refines:
  assumes "book_rel (cx_book c) A" "wf_queues c" "match_asks price l (ab_asks A) = (l', ls', fs)"
  shows "\<exists>c'. buy_loop cl coid t price mo l c = Inr (l', c') \<and>
    sent c (concat (map (fill_responses cl coid t mo) fs)) (concat (map (fill_updates t) fs)) c' \<and>
    book_rel (cx_book c') (after_match A ls' fs)"
  using assms
proof (induction "length (orders_of (ab_asks A))" arbitrary: c A l l' ls' fs rule: less_induct)
  case less
  obtain L B Q where rep: "book_rep (cx_book c) A L B Q" using less.prems(1) by (auto simp: book_rel_def)
  note wf = book_rep_wf [OF rep]
  show ?case
  proof (cases "l = 0 \<or> ab_asks A = []")
    case True
    have "L = []" if "ab_asks A = []" using rep that view_Nil(2) [of "cx_book c" Q L] by (simp add: book_rep_def)
    then have "ob_asks_at_price (cx_book c) = None" if "ab_asks A = []"
      using rep that by (simp add: book_rep_def book_inv_def links_ok_def)
    then have "buy_loop cl coid t price mo l c = Inr (l, c)"
      using True by (auto simp: buy_loop.simps [of _ _ _ _ _ l])
    moreover have "(l', ls', fs) = (l, ab_asks A, [])"
      using True less.prems(3) by (cases "ab_asks A") auto
    ultimately show ?thesis using less.prems(1) after_match_nil [OF wf] by auto
  next
    case False
    then obtain p r rs ls where asks: "ab_asks A = (p, r # rs) # ls"
      using wf by (cases "ab_asks A") (auto simp: ab_wf_def neq_Nil_conv)
    obtain x where x: "l_first_me_order (lv (cx_book c) (hd L)) = Some x" "ob_asks_at_price (cx_book c) \<noteq> None"
      and round: "buy_round cl coid t price mo l c = (if sint price < sint p then Inr (None, c)
        else case match_order t cl BUY coid mo (Some x) l c of
            Inl e \<Rightarrow> Inl e | Inr (l', c') \<Rightarrow> Inr (Some l', c'))"
      using buy_round_run [OF rep asks] by blast
    show ?thesis
    proof (cases "sint price < sint p")
      case True
      then have "buy_loop cl coid t price mo l c = Inr (l, c)"
        using False x(2) round by (simp add: buy_loop.simps [of _ _ _ _ _ l])
      moreover have "(l', ls', fs) = (l, ab_asks A, [])"
        using True less.prems(3) asks by auto
      ultimately show ?thesis using less.prems(1) after_match_nil [OF wf] by auto
    next
      case go: False
      let ?f = "first_fill p l r" and ?A = "after_fill A p l r rs ls"
      obtain c1 where c1: "match_order t cl BUY coid mo (Some x) l c = Inr (f_leaves ?f, c1)"
        "sent c (fill_responses cl coid t mo ?f) (fill_updates t ?f) c1" "book_rel (cx_book c1) ?A"
        using match_refines [OF rep less.prems(2) asks x(1)] by blast
      have loop: "buy_loop cl coid t price mo l c = buy_loop cl coid t price mo (f_leaves ?f) c1"
        using False x(2) round go c1(1) by (subst buy_loop.simps) simp
      note wf1 = sent_wf [OF c1(2) less.prems(2)]
      have l0: "l \<noteq> 0" using False by simp
      note step = match_asks_step [OF l0 go, of r rs ls, folded asks]
      show ?thesis
      proof (cases "r_qty r \<le> l")
        case True
        let ?asks = "if rs = [] then ls else (p, rs) # ls"
        obtain fs1 where rest: "match_asks price (l - r_qty r) ?asks = (l', ls', fs1)" and fs: "fs = ?f # fs1"
          using step less.prems(3) True by (auto split: prod.splits)
        have asks1: "ab_asks ?A = ?asks" using True by (simp add: after_fill_def)
        have "length (orders_of (ab_asks ?A)) < length (orders_of (ab_asks A))"
          unfolding asks1 asks by (simp add: orders_of_def)
        moreover have "match_asks price (f_leaves ?f) (ab_asks ?A) = (l', ls', fs1)"
          unfolding asks1 rest [symmetric] using True by (simp del: match_asks.simps add: min_def)
        ultimately obtain c' where c': "buy_loop cl coid t price mo (f_leaves ?f) c1 = Inr (l', c')"
          "sent c1 (concat (map (fill_responses cl coid t mo) fs1)) (concat (map (fill_updates t) fs1)) c'"
          "book_rel (cx_book c') (after_match ?A ls' fs1)"
          using less.hyps [OF _ c1(3) wf1] by blast
        show ?thesis
          using loop c' sent_trans [OF c1(2) c'(2)] after_match_fill [OF wf asks True rest] fs by auto
      next
        case False
        then have out: "l' = 0" "ls' = (p, r\<lparr>r_qty := r_qty r - l\<rparr> # rs) # ls" "fs = [?f]"
          using step less.prems(3) by auto
        have "min l (r_qty r) = l" by (rule min.absorb1) (use False in \<open>simp add: not_le less_imp_le\<close>)
        then have "f_leaves ?f = 0" by simp
        then have "buy_loop cl coid t price mo l c = Inr (0, c1)"
          unfolding loop by (simp add: buy_loop.simps [of _ _ _ _ _ 0])
        moreover have "after_match A ls' fs = ?A"
        proof -
          have "full_makers [?f] = []" using False by (auto simp: full_makers_def min_def)
          moreover have "same_head (ab_asks A) ls'" by (simp add: same_head_def asks out)
          ultimately show ?thesis using False by (simp add: after_match_def after_fill_def out)
        qed
        ultimately show ?thesis using c1 out by auto
      qed
    qed
  qed
qed

end
