(* ===== verification/Order_Placement.thy ===== *)
theory Order_Placement
  imports Book_Matching
begin

text \<open>
  The second half of \<open>add\<close>: \<open>getNextPriority\<close>, the allocation of the order and \<open>addOrder\<close> refine
  \<open>spec_priority\<close> and \<open>place\<close>, faults included, when no other level uses the slot of the price.
\<close>


section \<open>Looking up the level of a price\<close>

text \<open>
  The price array has one slot for all prices that agree modulo 256. \<open>slot_ok side p A\<close> says that
  the slot of \<open>p\<close> is free or holds the level of \<open>p\<close> on the side \<open>side\<close>.
\<close>

definition slot_ok :: "Side \<Rightarrow> Price \<Rightarrow> abook \<Rightarrow> bool" where
  "slot_ok side p A \<longleftrightarrow>
     (\<forall>l \<in> set (ab_asks A). priceToIndex (fst l) = priceToIndex p \<longrightarrow> side = SELL \<and> fst l = p) \<and>
     (\<forall>l \<in> set (ab_bids A). priceToIndex (fst l) = priceToIndex p \<longrightarrow> side = BUY \<and> fst l = p)"

lemma level_at_view:
  "level_at p (view b Q L) = None \<Longrightarrow> i \<in> set L \<Longrightarrow> lprice b i \<noteq> p"
  "level_at p (view b Q L) = Some rs \<Longrightarrow> \<exists>i \<in> set L. lprice b i = p \<and> rs = map (\<lambda>x. rest_of (od b x)) (Q i)"
  by (induction L) (auto simp: view_def split: if_splits)

lemma slot_lookup:
  assumes rep: "book_rep b A L B Q" and slot: "slot_ok side p A" and side: "side \<in> {BUY, SELL}"
  shows "level_at p (side_levels side A) = None \<Longrightarrow> aget (slots b) (priceToIndex p) = None"
    and "level_at p (side_levels side A) = Some rs \<Longrightarrow> \<exists>i. i \<in> set (if side = BUY then B else L) \<and>
      aget (slots b) (priceToIndex p) = Some i \<and> lprice b i = p \<and> lside b i = side \<and>
      rs = map (\<lambda>x. rest_of (od b x)) (Q i)"
proof -
  have inv: "book_inv b L B Q (ab_open A)" and asks: "ab_asks A = view b Q L" and bids: "ab_bids A = view b Q B"
    using rep by (simp_all add: book_rep_def)
  have slots: "slots_ok b (L @ B)" and links: "links_ok b L B (ab_open A)"
    using inv by (simp_all add: book_inv_def)
  have lv: "side_levels side A = view b Q (if side = BUY then B else L)"
    using side by (auto simp: side_levels_def asks bids)
  have sides: "\<And>i. i \<in> set L \<Longrightarrow> lside b i = SELL" "\<And>i. i \<in> set B \<Longrightarrow> lside b i = BUY"
    using links by (simp_all add: links_ok_def)
  have askp: "\<And>i. i \<in> set L \<Longrightarrow> priceToIndex (lprice b i) = priceToIndex p \<Longrightarrow> side = SELL \<and> lprice b i = p"
    and bidp: "\<And>i. i \<in> set B \<Longrightarrow> priceToIndex (lprice b i) = priceToIndex p \<Longrightarrow> side = BUY \<and> lprice b i = p"
    using slot by (auto simp: slot_ok_def asks bids view_def)
  show "aget (slots b) (priceToIndex p) = None" if none: "level_at p (side_levels side A) = None"
  proof (rule ccontr)
    assume "aget (slots b) (priceToIndex p) \<noteq> None"
    then obtain i where i: "i \<in> set (L @ B)" "priceToIndex (lprice b i) = priceToIndex p"
      using slots by (auto simp: slots_ok_def)
    then have "i \<in> set (if side = BUY then B else L)" "lprice b i = p"
      using askp [of i] bidp [of i] by auto
    then show False using level_at_view(1) [OF none [unfolded lv]] by blast
  qed
  show "\<exists>i. i \<in> set (if side = BUY then B else L) \<and>
      aget (slots b) (priceToIndex p) = Some i \<and> lprice b i = p \<and> lside b i = side \<and>
      rs = map (\<lambda>x. rest_of (od b x)) (Q i)" if some: "level_at p (side_levels side A) = Some rs"
  proof -
    obtain i where i: "i \<in> set (if side = BUY then B else L)" "lprice b i = p" "rs = map (\<lambda>x. rest_of (od b x)) (Q i)"
      using level_at_view(2) [OF some [unfolded lv]] by blast
    moreover have "aget (slots b) (priceToIndex p) = Some i"
      using slots_ok_here [OF slots, of i] i(1,2) by (auto split: if_splits)
    moreover have "lside b i = side" using i(1) sides side by (auto split: if_splits)
    ultimately show ?thesis by blast
  qed
qed

lemma getNextPriority_refines:
  assumes rep: "book_rep b A L B Q" and slot: "slot_ok side p A" and side: "side \<in> {BUY, SELL}"
  shows "getNextPriority p b = Inr (spec_priority side p A, b)"
proof -
  have inv: "book_inv b L B Q (ab_open A)" using rep by (simp add: book_rep_def)
  have slots: "slots_ok b (L @ B)" and orders: "orders_ok b (L @ B) Q" using inv by (simp_all add: book_inv_def)
  note get = getOrdersAtPrice_run [OF slots, of p]
  show ?thesis
  proof (cases "level_at p (side_levels side A)")
    case None
    then show ?thesis
      using slot_lookup(1) [OF rep slot side] get
      by (simp add: getNextPriority_def bnd_def spec_priority_def)
  next
    case (Some rs)
    then obtain i where i: "i \<in> set (L @ B)" "aget (slots b) (priceToIndex p) = Some i"
      "rs = map (\<lambda>x. rest_of (od b x)) (Q i)"
      using slot_lookup(2) [OF rep slot side Some] by (auto split: if_splits)
    note lev = book_inv_level [OF inv i(1)]
    obtain x xs where Q: "Q i = x # xs" using lev(3) by (cases "Q i") (auto simp: level_orders_ok_def)
    have ring: "ring (onext b) (oprev b) (x # xs) (Some x)" and first: "l_first_me_order (lv b i) = Some x"
      using lev(3) Q by (simp_all add: level_orders_ok_def)
    have caps: "x < ocap b" "last (x # xs) < ocap b"
      using orders_live(2) [OF orders i(1)] Q by simp_all
    show ?thesis
      using get i(2,3) lev(1) first caps ring_prev_hd [OF ring] Some Q
      by (simp add: getNextPriority_def bnd_def rd_lvl_run rd_ord_run spec_priority_def last_map)
  qed
qed

section \<open>The abstract effect of a new order\<close>

lemma sizes:
  assumes rep: "book_rep b A L B Q"
  shows "length (book_orders A) = card (ords b)" "length (ab_asks A) + length (ab_bids A) = card (lvls b)"
proof -
  have inv: "book_inv b L B Q (ab_open A)" using rep by (simp add: book_rep_def)
  have "orders_ok b (L @ B) Q" "links_ok b L B (ab_open A)" "lvls b = set (L @ B)"
    using inv by (simp_all add: book_inv_def)
  note o = this
  show "length (book_orders A) = card (ords b)"
    unfolding book_orders_rep [OF rep] orders_okD(3) [OF o(1), symmetric]
    using distinct_card [OF orders_okD(2) [OF o(1)]] by simp
  have "length (ab_asks A) + length (ab_bids A) = length (L @ B)"
    using rep by (simp add: book_rep_def view_def)
  then show "length (ab_asks A) + length (ab_bids A) = card (lvls b)"
    unfolding o(3) using distinct_card [OF links_distinct [OF o(2)]] by simp
qed

lemma view_append:
  assumes "i \<in> set M" "distinct M" "\<And>j. j \<in> set M \<Longrightarrow> lprice b j = p \<Longrightarrow> j = i" "lprice b i = p"
    and "\<And>j. j \<in> set M \<Longrightarrow> lprice b' j = lprice b j"
    and "\<And>j z. j \<in> set M \<Longrightarrow> z \<in> set (Q j) \<Longrightarrow> rest_of (od b' z) = rest_of (od b z)"
    and "rest_of (od b' x) = r"
  shows "view b' (Q(i := Q i @ [x])) M = append_at p r (view b Q M)"
  using assms(1-3,5,6)
proof (induction M)
  case Nil
  then show ?case by simp
next
  case (Cons k M)
  have k: "lprice b' k = lprice b k" "map (\<lambda>z. rest_of (od b' z)) (Q k) = map (\<lambda>z. rest_of (od b z)) (Q k)"
    using Cons.prems(4,5) by auto
  show ?case
  proof (cases "k = i")
    case True
    then have "i \<notin> set M" using Cons.prems(2) by auto
    then have "view b' (Q(i := Q i @ [x])) M = view b Q M"
      using Cons.prems(4,5) by (intro view_cong) auto
    then show ?thesis using True k assms(4,7) by (simp add: view_def)
  next
    case False
    then have "lprice b k \<noteq> p" using Cons.prems(3) by auto
    moreover have "view b' (Q(i := Q i @ [x])) M = append_at p r (view b Q M)"
      using Cons.prems False by (intro Cons.IH) auto
    ultimately show ?thesis using False k by (simp add: view_def)
  qed
qed

lemma added_rep:
  assumes rep: "book_rep b A L B Q" and add: "added b x y b'" and inv: "book_inv b' L' B' Q' (ab_open A')"
    and asks: "ab_asks A' = view b' Q' L'" and bids: "ab_bids A' = view b' Q' B'"
    and index: "ab_index A' = (ab_index A)((o_client_id y, o_client_order_id y) := Some (o_market_order_id y))"
    and nx: "ab_next A' = ab_next A" and y: "in_range y" "o_market_order_id y < ab_next A"
      "o_market_order_id y \<notin> r_moid ` set (book_orders A)"
  shows "book_rep b' A' L' B' Q'"
proof -
  have ords': "ords b' = insert x (ords b)" "x \<notin> ords b" and ids: "same_ids b b'"
    and cells: "\<And>c i. cell b' c i = (if c = o_client_id y \<and> i = o_client_order_id y then Some x else cell b c i)"
    and py: "payload (od b' x) = payload y" "\<And>z. z \<in> ords b \<Longrightarrow> payload (od b' z) = payload (od b z)"
    using add by (simp_all add: added_def)
  have old: "book_inv b L B Q (ab_open A)" "index_rel b (ab_index A)" "ids_ok b" "ab_next A = ob_next_market_order_id b"
    using rep by (simp_all add: book_rep_def)
  have mx: "moid b' x = o_market_order_id y" using payload_eqD(4) [OF py(1)] by (simp add: moid_def)
  have mz: "moid b' z = moid b z" if "z \<in> ords b" for z
    using payload_eqD(4) [OF py(2) [OF that]] by (simp add: moid_def)
  have cell_live: "z \<in> ords b" if "unat c < ME_MAX_NUM_CLIENTS" "unat i < ME_MAX_ORDER_IDS" "cell b c i = Some z" for c i z
    using old(1) that by (auto simp: book_inv_def index_ok_def)
  have "index_rel b' (ab_index A')"
    unfolding index_rel_def
  proof (intro allI)
    fix c i
    show "ab_index A' (c, i) = (if unat c < ME_MAX_NUM_CLIENTS \<and> unat i < ME_MAX_ORDER_IDS
        then map_option (moid b') (cell b' c i) else None)"
    proof (cases "c = o_client_id y \<and> i = o_client_order_id y")
      case True
      then show ?thesis using y(1) by (simp add: index cells mx in_range_def)
    next
      case False
      have "map_option (moid b') (cell b c i) = map_option (moid b) (cell b c i)"
        if "unat c < ME_MAX_NUM_CLIENTS" "unat i < ME_MAX_ORDER_IDS"
        using cell_live [OF that] mz by (cases "cell b c i") auto
      then show ?thesis using False old(2) by (auto simp: index cells index_rel_def)
    qed
  qed
  moreover have "ids_ok b'"
  proof -
    have "o_market_order_id y \<notin> moid b ` ords b"
    proof -
      have "orders_ok b (L @ B) Q" using old(1) by (simp add: book_inv_def)
      then have "r_moid ` set (book_orders A) = moid b ` ords b"
        unfolding book_orders_rep [OF rep] set_map image_image
        by (simp only: orders_okD(3) rest_of_sel moid_def [abs_def])
      then show ?thesis using y(3) by simp
    qed
    moreover have "inj_on (moid b') (ords b) = inj_on (moid b) (ords b)" "moid b' ` ords b = moid b ` ords b"
      by (rule inj_on_cong, erule mz) (rule image_cong [OF refl], erule mz)
    moreover have "ords b - {x} = ords b" using ords'(2) by simp
    ultimately have "inj_on (moid b') (ords b')"
      using old(3) unfolding ords'(1) inj_on_insert mx by (simp add: ids_ok_def)
    moreover have "moid b' z < ob_next_market_order_id b'" if "z \<in> ords b'" for z
    proof (cases "z = x")
      case True
      then show ?thesis using mx y(2) old(4) ids by (simp add: same_ids_def)
    next
      case False
      then have z: "z \<in> ords b" using that ords'(1) by simp
      then show ?thesis using mz [OF z] old(3) ids by (simp add: same_ids_def ids_ok_def)
    qed
    ultimately show ?thesis by (simp add: ids_ok_def)
  qed
  ultimately show ?thesis
    using inv asks bids nx old(4) ids by (simp add: book_rep_def same_ids_def)
qed

section \<open>Placing an order\<close>

definition order_of :: "Side \<Rightarrow> Price \<Rightarrow> TickerId \<Rightarrow> resting \<Rightarrow> MEOrder" where
  "order_of side p t r = \<lparr>o_ticker_id = t, o_client_id = r_client r, o_client_order_id = r_oid r,
     o_market_order_id = r_moid r, o_side = side, o_price = p, o_qty = r_qty r, o_priority = r_prio r,
     o_prev_order = None, o_next_order = None\<rparr>"

lemma order_of_sel [simp]:
  "o_client_id (order_of side p t r) = r_client r" "o_client_order_id (order_of side p t r) = r_oid r"
  "o_market_order_id (order_of side p t r) = r_moid r" "o_side (order_of side p t r) = side"
  "o_price (order_of side p t r) = p" "rest_of (order_of side p t r) = r"
  by (cases r; simp add: order_of_def rest_of_def)+

lemma book_inv_distinct_price:
  assumes inv: "book_inv b L B Q op" and i: "i \<in> set (L @ B)" and j: "j \<in> set (L @ B)" and p: "lprice b i = lprice b j"
  shows "i = j"
  using inv slots_ok_inj [of b "L @ B" i j] i j p by (simp add: book_inv_def)

text \<open>The level exists.\<close>

lemma place_append:
  assumes rep: "book_rep b A L B Q" and new: "placed b x y b0" and y: "y = order_of side p t r"
    and slot: "slot_ok side p A" and side: "side \<in> {BUY, SELL}"
    and some: "level_at p (side_levels side A) = Some rs"
    and id: "r_moid r < ab_next A" "r_moid r \<notin> r_moid ` set (book_orders A)"
  shows "\<not> in_range y \<Longrightarrow> addOrder (Some x) b0 = Inl Terminate"
    and "in_range y \<Longrightarrow> \<exists>b'. addOrder (Some x) b0 = Inr ((), b') \<and> book_rel b' ((append_level side p r A)
      \<lparr>ab_index := (ab_index A)((r_client r, r_oid r) := Some (r_moid r))\<rparr>)"
proof -
  have inv: "book_inv b L B Q (ab_open A)" and asks: "ab_asks A = view b Q L" and bids: "ab_bids A = view b Q B"
    using rep by (simp_all add: book_rep_def)
  have index: "index_ok b" and links: "links_ok b L B (ab_open A)" using inv by (simp_all add: book_inv_def)
  obtain i where i: "i \<in> set (if side = BUY then B else L)" "lprice b i = p" "lside b i = side"
    using slot_lookup(2) [OF rep slot side some] by blast
  then have iLB: "i \<in> set (L @ B)" by (auto split: if_splits)
  obtain b1 where run: "addOrder (Some x) b0 = bnd (rd_ord (Some x) o_client_id) (\<lambda>c.
      bnd (rd_ord (Some x) o_client_order_id) (\<lambda>i. put_cid_oid c i (Some x))) b1"
    and shape: "book_shape b1 L B (Q(i := Q i @ [x])) (ab_open A)" and linked: "linked b x y b1"
    using addOrder_existing [OF inv new iLB] i(2,3) y by auto
  note ix = index_step [OF index linked]
  show "addOrder (Some x) b0 = Inl Terminate" if "\<not> in_range y" using run ix(1) that by simp
  assume y_in: "in_range y"
  let ?b' = "set_cell x y b1" and ?Q = "Q(i := Q i @ [x])"
  have inv': "book_inv ?b' L B ?Q (ab_open A)"
    using shape ix(2) [OF y_in] by (simp add: book_inv_shape book_shape_set_cell)
  have add: "added b x y ?b'" by (rule ix(3))
  have live: "set (Q j) \<subseteq> ords b" if "j \<in> set (L @ B)" for j by (rule book_rep_live [OF rep that])
  have pr: "lprice ?b' j = lprice b j" if "j \<in> set (L @ B)" for j
    using add that inv by (simp add: added_def book_inv_def)
  have ro: "rest_of (od ?b' z) = rest_of (od b z)" if "z \<in> ords b" for z
    using add that by (auto simp: added_def intro: payload_rest)
  have rx: "rest_of (od ?b' x) = r" using add payload_rest [of "od ?b' x" y] by (simp add: added_def y)
  have same: "view ?b' ?Q M = view b Q M" if "set M \<subseteq> set (L @ B)" "i \<notin> set M" for M
    using pr ro live that by (intro view_cong) auto
  have app: "view ?b' ?Q M = append_at p r (view b Q M)" if "set M \<subseteq> set (L @ B)" "i \<in> set M" "distinct M" for M
  proof (rule view_append [OF that(2,3) _ i(2) _ _ rx])
    show "j = i" if "j \<in> set M" "lprice b j = p" for j
      using book_inv_distinct_price [OF inv _ iLB, of j] that i(2) \<open>set M \<subseteq> set (L @ B)\<close> by auto
    show "lprice ?b' j = lprice b j" if "j \<in> set M" for j using pr that \<open>set M \<subseteq> set (L @ B)\<close> by blast
    show "rest_of (od ?b' z) = rest_of (od b z)" if "j \<in> set M" "z \<in> set (Q j)" for j z
      using ro live that \<open>set M \<subseteq> set (L @ B)\<close> by blast
  qed
  have dist: "distinct L" "distinct B" "i \<in> set L \<longleftrightarrow> side \<noteq> BUY" "i \<in> set B \<longleftrightarrow> side = BUY"
    using links_distinct [OF links] i(1) by (auto split: if_splits)
  let ?A = "(append_level side p r A)\<lparr>ab_index := (ab_index A)((r_client r, r_oid r) := Some (r_moid r))\<rparr>"
  have "book_rep ?b' ?A L B ?Q"
  proof (rule added_rep [OF rep add])
    show "book_inv ?b' L B ?Q (ab_open ?A)" using inv' by (simp add: append_level_def)
    show "ab_asks ?A = view ?b' ?Q L" "ab_bids ?A = view ?b' ?Q B"
      using i(1) dist same [of L] same [of B] app [of L] app [of B] asks bids
      by (auto simp: append_level_def split: if_splits)
    show "in_range y" by (rule y_in)
  qed (use id in \<open>simp_all add: y append_level_def\<close>)
  moreover have "addOrder (Some x) b0 = Inr ((), ?b')" using run ix(1) y_in by simp
  ultimately show "\<exists>b'. addOrder (Some x) b0 = Inr ((), b') \<and> book_rel b' ?A" by (auto simp: book_rel_def)
qed

text \<open>The level is new.\<close>

lemma takeWhile_view:
  "takeWhile (cheaper_level p) (view b Q L) = view b Q (takeWhile (cheaper b p) L)"
  "dropWhile (cheaper_level p) (view b Q L) = view b Q (dropWhile (cheaper b p) L)"
  by (induction L) (auto simp: view_def cheaper_level_def cheaper_def)

lemma insert_faults_view:
  "insert_faults b side p L op \<longleftrightarrow> side = SELL \<and> op \<and> dropWhile (cheaper_level p) (view b Q L) = []"
proof -
  have "dropWhile (cheaper_level p) (view b Q L) = [] \<longleftrightarrow> dropWhile (cheaper b p) L = []"
    unfolding takeWhile_view view_Nil ..
  then show ?thesis by (simp add: insert_faults_def)
qed

lemma place_new:
  assumes rep: "book_rep b A L B Q" and new: "placed b x y b0" and y: "y = order_of side p t r"
    and slot: "slot_ok side p A" and side: "side \<in> {BUY, SELL}"
    and none: "level_at p (side_levels side A) = None"
    and id: "r_moid r < ab_next A" "r_moid r \<notin> r_moid ` set (book_orders A)"
  shows "new_level side p r A = Inl e \<Longrightarrow> addOrder (Some x) b0 = Inl e"
    and "new_level side p r A = Inr A1 \<Longrightarrow> \<not> in_range y \<Longrightarrow> addOrder (Some x) b0 = Inl Terminate"
    and "new_level side p r A = Inr A1 \<Longrightarrow> in_range y \<Longrightarrow> \<exists>b'. addOrder (Some x) b0 = Inr ((), b') \<and>
      book_rel b' (A1\<lparr>ab_index := (ab_index A1)((r_client r, r_oid r) := Some (r_moid r))\<rparr>)"
proof -
  have inv: "book_inv b L B Q (ab_open A)" and asks: "ab_asks A = view b Q L" and bids: "ab_bids A = view b Q B"
    using rep by (simp_all add: book_rep_def)
  have index: "index_ok b" and links: "links_ok b L B (ab_open A)" and lset: "lvls b = set (L @ B)"
    and cap: "pool_ok (ob_orders_at_price_pool b)" "lcap b = ME_MAX_PRICE_LEVELS"
    using inv by (simp_all add: book_inv_def)
  have size: "length (ab_asks A) + length (ab_bids A) = card (lvls b)" by (rule sizes(2) [OF rep])
  have room: "card (lvls b) + 1 < ME_MAX_PRICE_LEVELS" if "card (lvls b) + 1 \<noteq> ME_MAX_PRICE_LEVELS"
  proof -
    have "pool_next_free_index (ob_orders_at_price_pool b) \<notin> lvls b"
      "insert (pool_next_free_index (ob_orders_at_price_pool b)) (lvls b) \<subseteq> {..<lcap b}"
      using cap(1) by (auto simp: pool_ok_def dest: pool_live_bound)
    from card_mono [OF _ this(2)] this(1) have "card (lvls b) + 1 \<le> lcap b" by simp
    then show ?thesis using that cap(2) by simp
  qed
  have sl: "aget (slots b) (priceToIndex (o_price y)) = None"
    using slot_lookup(1) [OF rep slot side none] by (simp add: y)
  have side': "o_side y \<in> {BUY, SELL}" using side by (simp add: y)
  note new_run = addOrder_new [OF inv new sl side']
  have faults: "insert_faults b side p L (ab_open A) \<longleftrightarrow>
      side = SELL \<and> ab_open A \<and> dropWhile (cheaper_level p) (ab_asks A) = []"
    unfolding asks by (rule insert_faults_view)
  show "addOrder (Some x) b0 = Inl e" if "new_level side p r A = Inl e"
  proof (cases "card (lvls b) + 1 = ME_MAX_PRICE_LEVELS")
    case True
    then show ?thesis using new_run(1) that size by (simp add: new_level_def)
  next
    case False
    then have "insert_faults b side p L (ab_open A)" "e = Null_deref"
      using that size side faults by (auto simp: new_level_def Let_def split: if_splits)
    then show ?thesis using new_run(2) room [OF False] by (simp add: y)
  qed
  assume A1: "new_level side p r A = Inr A1"
  then have small: "card (lvls b) + 1 < ME_MAX_PRICE_LEVELS" and nf: "\<not> insert_faults b side p L (ab_open A)"
    using room size side faults by (auto simp: new_level_def Let_def split: if_splits)
  let ?as = "takeWhile (cheaper b p) L" and ?bs = "dropWhile (cheaper b p) L"
  obtain n b1 where run: "addOrder (Some x) b0 = bnd (rd_ord (Some x) o_client_id) (\<lambda>c.
        bnd (rd_ord (Some x) o_client_order_id) (\<lambda>i. put_cid_oid c i (Some x))) b1"
    and n: "n \<notin> set (L @ B)" "lprice b1 n = p"
    and shape: "book_shape b1 (asks_with b side p n L) (bids_with side n B) (Q(n := [x])) (open_with b side p L (ab_open A))"
    and linked: "linked b x y b1"
    using new_run(3) small nf by (auto simp: y)
  note ix = index_step [OF index linked]
  show "addOrder (Some x) b0 = Inl Terminate" if "\<not> in_range y" using run ix(1) that by simp
  assume y_in: "in_range y"
  let ?b' = "set_cell x y b1" and ?Q = "Q(n := [x])"
  let ?L = "asks_with b side p n L" and ?B = "bids_with side n B" and ?op = "open_with b side p L (ab_open A)"
  have inv': "book_inv ?b' ?L ?B ?Q ?op"
    using shape ix(2) [OF y_in] by (simp add: book_inv_shape book_shape_set_cell)
  have add: "added b x y ?b'" by (rule ix(3))
  have live: "set (Q j) \<subseteq> ords b" if "j \<in> set (L @ B)" for j by (rule book_rep_live [OF rep that])
  have pr: "lprice ?b' j = lprice b j" if "j \<in> set (L @ B)" for j
    using add that lset by (simp add: added_def)
  have ro: "rest_of (od ?b' z) = rest_of (od b z)" if "z \<in> ords b" for z
    using add that by (auto simp: added_def intro: payload_rest)
  have rx: "rest_of (od ?b' x) = r" using add payload_rest [of "od ?b' x" y] by (simp add: added_def y)
  have same: "view ?b' ?Q M = view b Q M" if "set M \<subseteq> set (L @ B)" for M
    using pr ro live that n(1) by (intro view_cong) auto
  have sub: "set ?as \<subseteq> set (L @ B)" "set ?bs \<subseteq> set (L @ B)"
    by (auto dest: set_takeWhileD set_dropWhileD)
  have view_n: "view ?b' ?Q (us @ n # vs) = view ?b' ?Q us @ (p, [r]) # view ?b' ?Q vs" for us vs
    using n(2) rx by (simp add: view_def)
  let ?A = "A1\<lparr>ab_index := (ab_index A1)((r_client r, r_oid r) := Some (r_moid r))\<rparr>"
  have A1': "ab_asks A1 = view ?b' ?Q ?L" "ab_bids A1 = view ?b' ?Q ?B" "ab_open A1 = ?op"
    "ab_index A1 = ab_index A" "ab_next A1 = ab_next A"
    using A1 side same [OF sub(1)] same [OF sub(2)] same [of L] same [of B] view_n [of "[]" B] view_n [of ?as ?bs]
      view_Nil(2)
    by (auto simp: new_level_def Let_def asks bids takeWhile_view asks_with_def bids_with_def open_with_def
        open_after_insert_def split: if_splits)
  have "book_rep ?b' ?A ?L ?B ?Q"
    by (rule added_rep [OF rep add]) (use inv' A1' id y_in in \<open>simp_all add: y\<close>)
  moreover have "addOrder (Some x) b0 = Inr ((), ?b')" using run ix(1) y_in by simp
  ultimately show "\<exists>b'. addOrder (Some x) b0 = Inr ((), b') \<and> book_rel b' ?A" by (auto simp: book_rel_def)
qed

lemma place_refines:
  assumes rep: "book_rep b A L B Q" and slot: "slot_ok side p A" and side: "side \<in> {BUY, SELL}"
    and id: "r_moid r < ab_next A" "r_moid r \<notin> r_moid ` set (book_orders A)"
  shows "case place side p r A of
      Inl e \<Rightarrow> bnd (on_ord_pool (allocate (order_of side p t r))) addOrder b = Inl e
    | Inr A' \<Rightarrow> \<exists>b'. bnd (on_ord_pool (allocate (order_of side p t r))) addOrder b = Inr ((), b') \<and> book_rel b' A'"
proof -
  let ?y = "order_of side p t r"
  have inv: "book_inv b L B Q (ab_open A)" using rep by (simp add: book_rep_def)
  have pool: "pool_ok (ob_order_pool b)" "ocap b = ME_MAX_ORDER_IDS" using inv by (simp_all add: book_inv_def)
  have size: "length (book_orders A) = card (ords b)" by (rule sizes(1) [OF rep])
  note alloc = allocate_cases [OF pool(1), of ?y]
  show ?thesis
  proof (cases "card (ords b) + 1 = ME_MAX_ORDER_IDS")
    case True
    then have "allocate ?y (ob_order_pool b) = Inl (Fatal ''Memory Pool out of space.'')"
      using alloc pool(2) by auto
    then show ?thesis using True size by (simp add: place_def bnd_def on_ord_pool_def zoom_def)
  next
    case False
    then obtain x pl where al: "allocate ?y (ob_order_pool b) = Inr (Some x, pl)" and
      pl: "pool_ok pl" "pool_live pl = insert x (ords b)" "pool_obj pl = (od b)(x := ?y)" "pool_cap pl = ocap b"
        "x = pool_next_free_index (ob_order_pool b)"
      using alloc pool(2) by auto
    have x: "x \<notin> ords b" "x < ocap b" using pool(1) pl(5) by (auto simp: pool_ok_def)
    let ?b0 = "b\<lparr>ob_order_pool := pl\<rparr>"
    have new: "placed b x ?y ?b0" using x pl by (auto simp: placed_def)
    have run: "bnd (on_ord_pool (allocate ?y)) addOrder b = addOrder (Some x) ?b0"
      using al by (simp add: bnd_def on_ord_pool_def zoom_def)
    have rng: "in_range ?y \<longleftrightarrow> unat (r_client r) < ME_MAX_NUM_CLIENTS \<and> unat (r_oid r) < ME_MAX_ORDER_IDS"
      by (simp add: in_range_def)
    have big: "length (book_orders A) + 1 \<noteq> ME_MAX_ORDER_IDS" using False size by simp
    show ?thesis
    proof (cases "level_at p (side_levels side A)")
      case (Some rs)
      note pa = place_append [OF rep new refl slot side Some id]
      have "ab_index (append_level side p r A) = ab_index A" by (simp add: append_level_def)
      then show ?thesis
        unfolding run using pa big Some rng by (simp add: place_def)
    next
      case None
      note pn = place_new [OF rep new refl slot side None id]
      show ?thesis
        unfolding run using pn big None rng by (cases "new_level side p r A") (simp_all add: place_def)
    qed
  qed
qed

end
