(* ===== verification/Book_Refinement.thy ===== *)
theory Book_Refinement
  imports Order_Placement
begin

text \<open>
  \<open>checkForMatch\<close>, \<open>add\<close> and \<open>cancel\<close> refine \<open>spec_match\<close>, \<open>spec_add\<close> and \<open>spec_cancel\<close>: on a book
  related to \<open>A\<close> they return what the abstract operation returns, send the same responses and
  market updates in the same order and leave a related book, or they end in the same fault.
\<close>

section \<open>checkForMatch\<close>

lemma match_level_moids:
  "match_level p l rs = (l', rs', fs) \<Longrightarrow> r_moid ` set rs' \<subseteq> r_moid ` set rs"
proof (induction p l rs arbitrary: l' rs' fs rule: match_level.induct)
  case (1 p l)
  then show ?case by simp
next
  case (2 p l r rs)
  obtain l1 rs1 fs1 where m: "match_level p (l - r_qty r) rs = (l1, rs1, fs1)"
    by (cases "match_level p (l - r_qty r) rs")
  show ?case using 2(2) 2(1) [OF _ _ m] m by (auto split: if_splits)
qed

lemma orders_of_simps [simp]: "orders_of [] = []" "orders_of ((p, rs) # ls) = rs @ orders_of ls"
  by (simp_all add: orders_of_def)

lemma match_asks_moids:
  "match_asks price l ls = (l', ls', fs) \<Longrightarrow> r_moid ` set (orders_of ls') \<subseteq> r_moid ` set (orders_of ls)"
proof (induction price l ls arbitrary: l' ls' fs rule: match_asks.induct)
  case (1 price l)
  then show ?case by simp
next
  case (2 price l p rs ls)
  obtain l1 rs1 fs1 where m: "match_level p l rs = (l1, rs1, fs1)" by (cases "match_level p l rs")
  obtain l2 ls2 fs2 where n: "match_asks price l1 ls = (l2, ls2, fs2)" by (cases "match_asks price l1 ls")
  have "r_moid x \<in> r_moid ` set rs" if "x \<in> set rs1" for x using match_level_moids [OF m] that by blast
  then show ?case
    using 2(2) 2(1) [OF _ m [symmetric] refl _ n] m n
    by (auto simp: image_Un split: if_splits)
qed

lemma checkForMatch_refines:
  assumes rel: "book_rel (cx_book c) A" and wf: "wf_queues c" and spec: "spec_match side price qty A = (l, A', fs)"
  shows "\<exists>c'. checkForMatch cl coid t side price qty mo c = Inr (l, c') \<and>
    sent c (concat (map (fill_responses cl coid t (ucast mo)) fs)) (concat (map (fill_updates t) fs)) c' \<and>
    book_rel (cx_book c') A'"
proof (cases "side = BUY")
  case True
  obtain ls where m: "match_asks price qty (ab_asks A) = (l, ls, fs)" "A' = after_match A ls fs"
    using spec True by (auto simp: spec_match_def split: prod.splits)
  then show ?thesis
    using buy_loop_refines [OF rel wf m(1), of cl coid t "ucast mo"] True
    by (auto simp: checkForMatch_def bnd_def)
next
  case False
  have none: "ob_bids_at_price (cx_book c) = None"
    using rel by (auto simp: book_rel_def book_rep_def book_inv_def links_ok_def)
  have "checkForMatch cl coid t side price qty mo c = Inr (qty, c)"
    using False none by (simp add: checkForMatch_def bnd_def sell_loop.simps [of _ _ _ _ _ qty])
  then show ?thesis using spec False rel by (auto simp: spec_match_def)
qed

section \<open>add\<close>

lemma word_less_succ:
  fixes a :: "'w::len word"
  assumes "a \<noteq> - 1"
  shows "a < a + 1"
proof -
  have "1 + a \<noteq> 0" using assms by (metis add.commute add_eq_0_iff)
  from unatSuc [OF this] show ?thesis by (simp add: word_less_nat_alt add.commute)
qed

lemma next_rep:
  assumes rep: "book_rep b A L B Q" and m: "ab_next A \<noteq> - 1"
  shows "book_rep (b\<lparr>ob_next_market_order_id := ab_next A + 1\<rparr>) (A\<lparr>ab_next := ab_next A + 1\<rparr>) L B Q"
proof -
  let ?b = "b\<lparr>ob_next_market_order_id := ab_next A + 1\<rparr>"
  have "book_inv ?b L B Q (ab_open A)"
  proof (rule book_inv_fields)
    show "book_inv b L B Q (ab_open A)" using rep by (simp add: book_rep_def)
    show "\<exists>q. od ?b z = (od b z)\<lparr>o_qty := q\<rparr>" for z by (rule exI [of _ "o_qty (od b z)"]) simp
  qed simp_all
  moreover have "moid ?b = moid b" "view ?b Q M = view b Q M" "cell ?b = cell b" for M
    by (simp_all add: moid_def view_def cell_def fun_eq_iff)
  moreover have "n < ab_next A + 1" if "n < ab_next A" for n
    using that m less_trans [OF that] word_less_succ [of "ab_next A"] by simp
  ultimately show ?thesis
    using rep by (auto simp: book_rep_def index_rel_def ids_ok_def)
qed

definition add_ok :: "Side \<Rightarrow> Price \<Rightarrow> Qty \<Rightarrow> abook \<Rightarrow> bool" where
  "add_ok side price qty A \<longleftrightarrow> side \<in> {BUY, SELL} \<and> ab_next A \<noteq> - 1 \<and>
     (case spec_match side price qty (A\<lparr>ab_next := ab_next A + 1\<rparr>) of
        (l, A', fs) \<Rightarrow> l \<noteq> 0 \<longrightarrow> slot_ok side price A')"

lemma spec_match_keeps:
  assumes "spec_match side price qty A = (l, A', fs)"
  shows "ab_next A' = ab_next A" "ab_bids A' = ab_bids A"
    "r_moid ` set (book_orders A') \<subseteq> r_moid ` set (book_orders A)"
proof -
  show "ab_next A' = ab_next A" "ab_bids A' = ab_bids A"
    using assms by (auto simp: spec_match_def after_match_def split: if_splits prod.splits)
  show "r_moid ` set (book_orders A') \<subseteq> r_moid ` set (book_orders A)"
    using assms match_asks_moids
    by (fastforce simp: spec_match_def after_match_def book_orders_def image_Un split: if_splits prod.splits)
qed

lemma same_core_publish:
  "same_core b (b\<lparr>ob_client_response := r\<rparr>)" "same_core b (b\<lparr>ob_market_update := u\<rparr>)"
  unfolding same_core_def
  by (rule exI [of _ r], rule exI [of _ "ob_market_update b"], simp,
      rule exI [of _ "ob_client_response b"], rule exI [of _ u], simp)

lemma same_core_rel: "same_core b b' \<Longrightarrow> book_rel b A \<Longrightarrow> book_rel b' A"
  by (auto simp: book_rel_def dest: same_core_rep)

lemma on_book_bnd: "on_book (bnd m f) = bnd (on_book m) (\<lambda>a. on_book (f a))"
  by (auto simp: on_book_def zoom_def bnd_def fun_eq_iff split: sum.splits)

lemma on_book_sq: "on_book (sq m n) = sq (on_book m) (on_book n)"
  by (simp add: sq_def on_book_bnd)

text \<open>The tail of \<open>add\<close>: what happens once the quantity left is known.\<close>

definition rest_order :: "ClientId \<Rightarrow> OrderId \<Rightarrow> TickerId \<Rightarrow> Side \<Rightarrow> Price \<Rightarrow> OrderId \<Rightarrow> Qty \<Rightarrow> (ME_ctx, unit) prog" where
  "rest_order cl coid t side price mo l =
     bnd (on_book (getNextPriority price)) (\<lambda>priority.
     sq (on_book (bnd (on_ord_pool (allocate (order_of side price t
           \<lparr>r_client = cl, r_oid = coid, r_moid = mo, r_qty = l, r_prio = priority\<rparr>))) addOrder))
    (sq (set_market_update \<lparr>upd_type = ADD, upd_order_id = mo, upd_ticker_id = t, upd_side = side,
           upd_price = price, upd_qty = l, upd_priority = priority\<rparr>) send_market_update))"

lemma add_tail:
  "add cl coid t side price qty =
     bnd (on_book generateNewMarketOrderId) (\<lambda>mo.
     sq (set_client_response \<lparr>resp_type = ACCEPTED, resp_client_id = cl, resp_ticker_id = t,
           resp_client_order_id = coid, resp_market_order_id = mo, resp_side = side, resp_price = price,
           resp_exec_qty = 0, resp_leaves_qty = qty\<rparr>)
    (sq send_client_response
    (bnd (checkForMatch cl coid t side price qty (ucast mo)) (\<lambda>l.
     when_do (l \<noteq> 0) (rest_order cl coid t side price mo l)))))"
  by (simp add: add_def rest_order_def on_book_bnd sq_bnd order_of_def)

lemma rest_order_refines:
  assumes rel: "book_rel (cx_book c) A" and wf: "wf_queues c" and slot: "slot_ok side price A"
    and side: "side \<in> {BUY, SELL}" and id: "mo < ab_next A" "mo \<notin> r_moid ` set (book_orders A)"
  shows "case place side price \<lparr>r_client = cl, r_oid = coid, r_moid = mo, r_qty = l,
        r_prio = spec_priority side price A\<rparr> A of
      Inl e \<Rightarrow> rest_order cl coid t side price mo l c = Inl e
    | Inr A' \<Rightarrow> \<exists>c'. rest_order cl coid t side price mo l c = Inr ((), c') \<and>
        sent c [] [\<lparr>upd_type = ADD, upd_order_id = mo, upd_ticker_id = t, upd_side = side,
          upd_price = price, upd_qty = l, upd_priority = spec_priority side price A\<rparr>] c' \<and>
        book_rel (cx_book c') A'"
proof -
  obtain L B Q where rep: "book_rep (cx_book c) A L B Q" using rel by (auto simp: book_rel_def)
  let ?r = "\<lparr>r_client = cl, r_oid = coid, r_moid = mo, r_qty = l, r_prio = spec_priority side price A\<rparr>"
  let ?u = "\<lparr>upd_type = ADD, upd_order_id = mo, upd_ticker_id = t, upd_side = side,
          upd_price = price, upd_qty = l, upd_priority = spec_priority side price A\<rparr>"
  let ?m = "bnd (on_ord_pool (allocate (order_of side price t ?r))) addOrder"
  have "on_book (getNextPriority price) c = Inr (spec_priority side price A, c)"
    using getNextPriority_refines [OF rep slot side] by (simp add: on_book_run)
  then have run: "rest_order cl coid t side price mo l c =
      sq (on_book ?m) (sq (set_market_update ?u) send_market_update) c"
    by (simp add: rest_order_def bnd_Inr)
  have "r_moid ?r < ab_next A" "r_moid ?r \<notin> r_moid ` set (book_orders A)" using id by simp_all
  note pr = place_refines [OF rep slot side this, of t]
  show ?thesis
  proof (cases "place side price ?r A")
    case (Inl e)
    then have "on_book ?m c = Inl e" using pr by (simp add: on_book_run)
    then show ?thesis using run Inl by (simp add: sq_Inl)
  next
    case (Inr A')
    then obtain b' where b': "?m (cx_book c) = Inr ((), b')" "book_rel b' A'" using pr by auto
    let ?c = "c\<lparr>cx_book := b'\<rparr>"
    have wf': "wf_queues ?c" using wf by simp
    have "rest_order cl coid t side price mo l c = Inr ((), put_upd ?u ?c)"
      using run b'(1) publish_run(3) [OF wf', of ?u] by (simp add: on_book_run sq_Inr [of "on_book ?m"])
    moreover have "sent c [] [?u] (put_upd ?u ?c)" by (simp add: sent_def put_upd_def)
    moreover have "book_rel (cx_book (put_upd ?u ?c)) A'"
      using same_core_rel [OF same_core_publish(2) b'(2)] by simp
    ultimately show ?thesis using Inr by auto
  qed
qed

text \<open>The head of \<open>add\<close>: the market order id and the acknowledgement.\<close>

lemma add_start:
  assumes "wf_queues c"
  shows "add cl coid t side price qty c = bnd (checkForMatch cl coid t side price qty (ucast (ob_next_market_order_id (cx_book c)))) (\<lambda>l.
      when_do (l \<noteq> 0) (rest_order cl coid t side price (ob_next_market_order_id (cx_book c)) l))
    (put_resp \<lparr>resp_type = ACCEPTED, resp_client_id = cl, resp_ticker_id = t, resp_client_order_id = coid,
       resp_market_order_id = ob_next_market_order_id (cx_book c), resp_side = side, resp_price = price,
       resp_exec_qty = 0, resp_leaves_qty = qty\<rparr>
      (c\<lparr>cx_book := (cx_book c)\<lparr>ob_next_market_order_id := ob_next_market_order_id (cx_book c) + 1\<rparr>\<rparr>))"
proof -
  let ?mo = "ob_next_market_order_id (cx_book c)"
  let ?b1 = "(cx_book c)\<lparr>ob_next_market_order_id := ?mo + 1\<rparr>"
  have "on_book generateNewMarketOrderId c = Inr (?mo, c\<lparr>cx_book := ?b1\<rparr>)"
    by (simp add: on_book_def zoom_def generateNewMarketOrderId_def bnd_def sq_def)
  then show ?thesis using publish_run(1) [of "c\<lparr>cx_book := ?b1\<rparr>"] assms by (simp add: add_tail bnd_Inr)
qed

text \<open>\<open>add\<close> up to that tail: the acknowledgement and the matching.\<close>

lemma add_front:
  assumes rel: "book_rel (cx_book c) A" and wf: "wf_queues c" and m1: "ab_next A \<noteq> - 1"
    and sm: "spec_match side price qty (A\<lparr>ab_next := ab_next A + 1\<rparr>) = (l, A2, fs)"
  obtains c2 where
    "add cl coid t side price qty c = when_do (l \<noteq> 0) (rest_order cl coid t side price (ab_next A) l) c2"
    "sent c (\<lparr>resp_type = ACCEPTED, resp_client_id = cl, resp_ticker_id = t,
        resp_client_order_id = coid, resp_market_order_id = ab_next A, resp_side = side, resp_price = price,
        resp_exec_qty = 0, resp_leaves_qty = qty\<rparr> #
        concat (map (fill_responses cl coid t (short_id (ab_next A))) fs)) (concat (map (fill_updates t) fs)) c2"
    "book_rel (cx_book c2) A2" "wf_queues c2"
proof -
  obtain L B Q where rep: "book_rep (cx_book c) A L B Q" using rel by (auto simp: book_rel_def)
  let ?mo = "ab_next A" and ?A1 = "A\<lparr>ab_next := ab_next A + 1\<rparr>"
  let ?acc = "\<lparr>resp_type = ACCEPTED, resp_client_id = cl, resp_ticker_id = t,
           resp_client_order_id = coid, resp_market_order_id = ?mo, resp_side = side, resp_price = price,
           resp_exec_qty = 0, resp_leaves_qty = qty\<rparr>"
  let ?b1 = "(cx_book c)\<lparr>ob_next_market_order_id := ?mo + 1\<rparr>"
  let ?c1 = "put_resp ?acc (c\<lparr>cx_book := ?b1\<rparr>)"
  have run1: "add cl coid t side price qty c = bnd (checkForMatch cl coid t side price qty (ucast ?mo)) (\<lambda>l.
     when_do (l \<noteq> 0) (rest_order cl coid t side price ?mo l)) ?c1"
    using add_start [OF wf, of cl coid t side price qty] rep by (simp add: book_rep_def)
  have rel1: "book_rel (cx_book ?c1) ?A1"
  proof -
    have "book_rel ?b1 ?A1" using next_rep [OF rep m1] unfolding book_rel_def by blast
    from same_core_rel [OF same_core_publish(1) this] show ?thesis by simp
  qed
  have wf1: "wf_queues ?c1" using wf by simp
  have s1: "sent c [?acc] [] ?c1" by (simp add: sent_def put_resp_def)
  obtain c2 where c2: "checkForMatch cl coid t side price qty (ucast ?mo) ?c1 = Inr (l, c2)"
    "sent ?c1 (concat (map (fill_responses cl coid t (short_id ?mo)) fs)) (concat (map (fill_updates t) fs)) c2"
    "book_rel (cx_book c2) A2"
    using checkForMatch_refines [OF rel1 wf1 sm, of cl coid t "ucast ?mo"] by (auto simp: short_id_def)
  note s2 = sent_trans [OF s1 c2(2)]
  have run2: "add cl coid t side price qty c = when_do (l \<noteq> 0) (rest_order cl coid t side price ?mo l) c2"
    using run1 c2(1) by (simp add: bnd_Inr)
  show ?thesis
    using that [OF run2 _ c2(3) sent_wf [OF c2(2) wf1]] s2 by simp
qed

lemma add_refines_main:
  assumes rel: "book_rel (cx_book c) A" and wf: "wf_queues c" and ok: "add_ok side price qty A"
  shows "case spec_add cl coid t side price qty A of
      Inl e \<Rightarrow> add cl coid t side price qty c = Inl e
    | Inr (A', rs, us) \<Rightarrow> \<exists>c'. add cl coid t side price qty c = Inr ((), c') \<and> sent c rs us c' \<and>
        book_rel (cx_book c') A'"
proof -
  have wf0: "\<forall>r \<in> set (book_orders A). r_moid r < ab_next A"
    using rel book_rep_wf by (auto simp: book_rel_def ab_wf_def)
  let ?mo = "ab_next A" and ?A1 = "A\<lparr>ab_next := ab_next A + 1\<rparr>"
  have side: "side \<in> {BUY, SELL}" and m1: "?mo \<noteq> - 1" using ok by (simp_all add: add_ok_def)
  obtain l A2 fs where sm: "spec_match side price qty ?A1 = (l, A2, fs)" by (cases "spec_match side price qty ?A1")
  have slot: "l \<noteq> 0 \<Longrightarrow> slot_ok side price A2" using ok sm by (simp add: add_ok_def)
  obtain c2 where run2: "add cl coid t side price qty c = when_do (l \<noteq> 0) (rest_order cl coid t side price ?mo l) c2"
    and s2: "sent c (\<lparr>resp_type = ACCEPTED, resp_client_id = cl, resp_ticker_id = t,
        resp_client_order_id = coid, resp_market_order_id = ?mo, resp_side = side, resp_price = price,
        resp_exec_qty = 0, resp_leaves_qty = qty\<rparr> #
        concat (map (fill_responses cl coid t (short_id ?mo)) fs)) (concat (map (fill_updates t) fs)) c2"
    and c2: "book_rel (cx_book c2) A2" "wf_queues c2"
    using add_front [OF rel wf m1 sm] by blast
  show ?thesis
  proof (cases "l = 0")
    case True
    then show ?thesis using run2 c2(1) s2 sm by (auto simp: spec_add_def Let_def)
  next
    case False
    have nx: "ab_next A2 = ?mo + 1" using spec_match_keeps(1) [OF sm] by simp
    have old: "r < ?mo" if "r \<in> r_moid ` set (book_orders A2)" for r
    proof -
      have "r \<in> r_moid ` set (book_orders A)"
        using spec_match_keeps(3) [OF sm] that by (auto simp: book_orders_def)
      then show ?thesis using wf0 by auto
    qed
    have id: "?mo < ab_next A2" "?mo \<notin> r_moid ` set (book_orders A2)"
      using word_less_succ [OF m1] nx old by auto
    let ?r = "\<lparr>r_client = cl, r_oid = coid, r_moid = ?mo, r_qty = l, r_prio = spec_priority side price A2\<rparr>"
    note rest = rest_order_refines [OF c2 slot [OF False] side id, where cl = cl and coid = coid and l = l and t = t]
    show ?thesis
    proof (cases "place side price ?r A2")
      case (Inl e)
      then show ?thesis using rest run2 False sm by (simp add: spec_add_def Let_def)
    next
      case (Inr A3)
      then obtain c' where "rest_order cl coid t side price ?mo l c2 = Inr ((), c')"
        "sent c2 [] [\<lparr>upd_type = ADD, upd_order_id = ?mo, upd_ticker_id = t, upd_side = side,
          upd_price = price, upd_qty = l, upd_priority = spec_priority side price A2\<rparr>] c'" "book_rel (cx_book c') A3"
        using rest by auto
      then show ?thesis using sent_trans [OF s2] run2 False sm Inr by (fastforce simp: spec_add_def Let_def)
    qed
  qed
qed

section \<open>cancel\<close>

lemma find_unique:
  assumes "y \<in> set xs" "P y" "\<And>z. z \<in> set xs \<Longrightarrow> P z \<Longrightarrow> z = y"
  shows "List.find P xs = Some y"
  using assms
proof (induction xs)
  case Nil
  then show ?case by simp
next
  case (Cons a xs)
  show ?case
  proof (cases "P a")
    case True
    have "a = y" by (rule Cons.prems(3) [OF list.set_intros(1) True])
    then show ?thesis using True by simp
  next
    case False
    then have "y \<in> set xs" using Cons.prems(1,2) by auto
    from Cons.IH [OF this Cons.prems(2) Cons.prems(3) [OF list.set_intros(2)]] False show ?thesis by simp
  qed
qed

lemma set_view_orders:
  "set (concat (map (\<lambda>(p, rs). map (\<lambda>r. (s, p, r)) rs) (view b Q L))) =
    {(s, lprice b i, rest_of (od b z)) | i z. i \<in> set L \<and> z \<in> set (Q i)}"
  by (induction L) (auto simp: view_def)

lemma find_in_view:
  assumes rep: "book_rep b A L B Q" and i: "i \<in> set (L @ B)" and x: "x \<in> set (Q i)" and M: "set M \<subseteq> set (L @ B)"
  shows "find_in s (moid b x) (view b Q M) = (if i \<in> set M then Some (s, lprice b i, rest_of (od b x)) else None)"
proof -
  have inv: "book_inv b L B Q (ab_open A)" and inj: "inj_on (moid b) (ords b)"
    using rep by (simp_all add: book_rep_def ids_ok_def)
  have orders: "orders_ok b (L @ B) Q" and links: "links_ok b L B (ab_open A)" using inv by (simp_all add: book_inv_def)
  note dist = links_distinct [OF links]
  have same: "z = x \<and> j = i" if "j \<in> set M" "z \<in> set (Q j)" "o_market_order_id (od b z) = moid b x" for j z
  proof -
    have j: "j \<in> set (L @ B)" using M that(1) by blast
    have "z \<in> ords b" "x \<in> ords b"
      using orders_live(1) [OF orders j that(2)] orders_live(1) [OF orders i x] by simp_all
    then have "z = x" using inj that(3) by (auto simp: moid_def inj_on_def)
    moreover have "j = i" using orders_disjoint [OF orders dist j i] that(2) x \<open>z = x\<close> by blast
    ultimately show ?thesis by simp
  qed
  let ?xs = "concat (map (\<lambda>(p, rs). map (\<lambda>r. (s, p, r)) rs) (view b Q M))"
  let ?P = "\<lambda>(s', p, r). r_moid r = moid b x"
  show ?thesis
  proof (cases "i \<in> set M")
    case True
    have "List.find ?P ?xs = Some (s, lprice b i, rest_of (od b x))"
    proof (rule find_unique)
      show "(s, lprice b i, rest_of (od b x)) \<in> set ?xs"
        unfolding set_view_orders using True x by blast
      show "z = (s, lprice b i, rest_of (od b x))" if "z \<in> set ?xs" "?P z" for z
      proof -
        obtain j w where w: "z = (s, lprice b j, rest_of (od b w))" "j \<in> set M" "w \<in> set (Q j)"
          using \<open>z \<in> set ?xs\<close> unfolding set_view_orders by blast
        with \<open>?P z\<close> have "w = x \<and> j = i" using same [of j w] by simp
        then show ?thesis using w(1) by simp
      qed
    qed (simp add: moid_def)
    then show ?thesis using True by (simp add: find_in_def)
  next
    case False
    have "List.find ?P ?xs = None"
      unfolding find_None_iff set_view_orders using same False by auto
    then show ?thesis using False by (simp add: find_in_def)
  qed
qed

lemma find_order_rep:
  assumes rep: "book_rep b A L B Q" and i: "i \<in> set (L @ B)" and x: "x \<in> set (Q i)"
  shows "find_order (moid b x) A = Some (lside b i, lprice b i, rest_of (od b x))"
proof -
  have links: "links_ok b L B (ab_open A)" and v: "ab_asks A = view b Q L" "ab_bids A = view b Q B"
    using rep by (simp_all add: book_rep_def book_inv_def)
  have sides: "i \<in> set L \<Longrightarrow> lside b i = SELL" "i \<notin> set L \<Longrightarrow> i \<in> set B \<and> lside b i = BUY"
    using links i by (auto simp: links_ok_def)
  show ?thesis
    using find_in_view [OF rep i x, of L SELL] find_in_view [OF rep i x, of B BUY] sides
    by (cases "i \<in> set L") (simp_all add: find_order_def v)
qed

lemma cell_order:
  assumes rep: "book_rep b A L B Q" and rng: "unat c < ME_MAX_NUM_CLIENTS" "unat oid < ME_MAX_ORDER_IDS"
    and cell: "cell b c oid = Some x"
  obtains i where "i \<in> set (L @ B)" "x \<in> set (Q i)" "x < ocap b" "o_client_id (od b x) = c"
    "o_client_order_id (od b x) = oid" "o_price (od b x) = lprice b i" "o_side (od b x) = lside b i"
proof -
  have inv: "book_inv b L B Q (ab_open A)" using rep by (simp add: book_rep_def)
  then have x: "x \<in> ords b" "o_client_id (od b x) = c" "o_client_order_id (od b x) = oid"
    and orders: "orders_ok b (L @ B) Q"
    using rng cell by (auto simp: book_inv_def index_ok_def)
  then obtain i where i: "i \<in> set (L @ B)" "x \<in> set (Q i)"
  proof -
    have "x \<in> set (concat (map Q (L @ B)))" unfolding orders_okD(3) [OF orders] by (rule x(1))
    then show thesis using that unfolding set_concat set_map by blast
  qed
  note ord = book_inv_order [OF inv i]
  show thesis using that [OF i ord(2) x(2,3) ord(3,4)] .
qed

lemma cancel_refines_main:
  assumes rel: "book_rel (cx_book c) A" and wf: "wf_queues c"
  shows "case spec_cancel cl oid t A of
      Inl e \<Rightarrow> cancel cl oid t c = Inl e
    | Inr (A', rs, us) \<Rightarrow> \<exists>c'. cancel cl oid t c = Inr ((), c') \<and> sent c rs us c' \<and> book_rel (cx_book c') A'"
proof -
  obtain L B Q where rep: "book_rep (cx_book c) A L B Q" using rel by (auto simp: book_rel_def)
  let ?b = "cx_book c"
  have ix: "index_ok ?b" using rep by (simp add: book_rep_def book_inv_def)
  have len: "alen (ob_cid_oid_to_order ?b) = ME_MAX_NUM_CLIENTS"
    "\<And>c. c < ME_MAX_NUM_CLIENTS \<Longrightarrow> alen (aget (ob_cid_oid_to_order ?b) c) = ME_MAX_ORDER_IDS"
    using ix by (simp_all add: index_ok_def)
  have cancelable: "on_book (rd (\<lambda>b. unat cl < alen (ob_cid_oid_to_order b))) c = Inr (unat cl < ME_MAX_NUM_CLIENTS, c)"
    by (simp add: on_book_run len)
  let ?rej = "cancel_rejected cl oid t"
  have rej: "sq (set_client_response ?rej) send_client_response c = Inr ((), put_resp ?rej c)"
    "sent c [?rej] [] (put_resp ?rej c)" "book_rel (cx_book (put_resp ?rej c)) A"
    using publish_run(4) [OF wf] same_core_rel [OF same_core_publish(1) rel]
    by (simp_all add: sent_def put_resp_def)
  show ?thesis
  proof (cases "unat cl < ME_MAX_NUM_CLIENTS")
    case False
    then have "cancel cl oid t c = Inr ((), put_resp ?rej c)"
      using cancelable rej(1) by (simp add: cancel_def bnd_Inr cancel_rejected_def)
    then show ?thesis using False rej by (simp add: spec_cancel_def)
  next
    case cl: True
    show ?thesis
    proof (cases "unat oid < ME_MAX_ORDER_IDS")
      case False
      then have "on_book (get_cid_oid cl oid) c = Inl Terminate"
        using cl len by (simp add: on_book_run get_cid_oid_def bnd_def arr_at_def)
      then show ?thesis using cancelable cl False by (simp add: cancel_def bnd_Inr bnd_Inl spec_cancel_def)
    next
      case oid: True
      have get: "on_book (get_cid_oid cl oid) c = Inr (cell ?b cl oid, c)"
        using cl oid len by (simp add: on_book_run get_cid_oid_def bnd_def cell_def)
      have ixA: "ab_index A (cl, oid) = map_option (moid ?b) (cell ?b cl oid)"
        using rep cl oid by (simp add: book_rep_def index_rel_def)
      show ?thesis
      proof (cases "cell ?b cl oid")
        case None
        then have "cancel cl oid t c = Inr ((), put_resp ?rej c)"
          using cancelable get cl rej(1) by (simp add: cancel_def bnd_Inr cancel_rejected_def)
        then show ?thesis using cl oid None ixA rej by (simp add: spec_cancel_def)
      next
        case (Some x)
        then obtain i where i: "i \<in> set (L @ B)" "x \<in> set (Q i)" and x: "x < ocap ?b"
          "o_price (od ?b x) = lprice ?b i" "o_side (od ?b x) = lside ?b i"
          using cell_order [OF rep cl oid] by metis
        let ?y = "od ?b x" and ?mo = "moid ?b x"
        have spec: "ab_index A (cl, oid) = Some ?mo" "find_order ?mo A = Some (lside ?b i, lprice ?b i, rest_of ?y)"
          using ixA Some find_order_rep [OF rep i] by simp_all
        let ?resp = "\<lparr>resp_type = CANCELED, resp_client_id = cl, resp_ticker_id = t, resp_client_order_id = oid,
          resp_market_order_id = ?mo, resp_side = lside ?b i, resp_price = lprice ?b i, resp_exec_qty = Qty_INVALID,
          resp_leaves_qty = o_qty ?y\<rparr>"
        let ?upd = "\<lparr>upd_type = CANCEL, upd_order_id = ?mo, upd_ticker_id = t, upd_side = lside ?b i,
          upd_price = lprice ?b i, upd_qty = 0, upd_priority = o_priority ?y\<rparr>"
        let ?b1 = "?b\<lparr>ob_client_response := ?resp, ob_market_update := ?upd\<rparr>"
        let ?c1 = "c\<lparr>cx_book := ?b1\<rparr>"
        have core: "same_core ?b ?b1" unfolding same_core_def by blast
        have rep1: "book_rep ?b1 A L B Q" by (rule same_core_rep [OF core rep])
        have "on_book (rd_ord (Some x) (\<lambda>x. x)) c = Inr (?y, c)" using x(1) by (simp add: on_book_run rd_ord_run)
        then have run: "cancel cl oid t c = sq (sq (on_book (removeOrder (Some x))) send_market_update) send_client_response ?c1"
          using cancelable cl get Some x
          by (simp add: cancel_def bnd_Inr sq_bnd sq_sq set_client_response_def set_market_update_def on_book_run sq_Inr moid_def)
        have y1: "moid ?b1 x = ?mo" "rest_of (od ?b1 x) = rest_of ?y" by (simp_all add: moid_def)
        note rem = removeOrder_refines [OF rep1 i, unfolded y1]
        show ?thesis
        proof (cases "remove_order ?mo (rest_of ?y) A")
          case (Inl e)
          then have "on_book (removeOrder (Some x)) ?c1 = Inl e" using rem by (simp add: on_book_run)
          then have "cancel cl oid t c = Inl e" using run by (simp add: sq_sq sq_Inl)
          then show ?thesis using cl oid spec Inl by (simp add: spec_cancel_def)
        next
          case (Inr A')
          then obtain b' where b': "removeOrder (Some x) ?b1 = Inr ((), b')" "book_rel b' A'"
            and ids: "ob_client_response b' = ?resp" "ob_market_update b' = ?upd"
            using rem unfolding same_ids_def book_rel_def by auto
          let ?c2 = "c\<lparr>cx_book := b', cx_ogw := q_push ?resp (cx_ogw c), cx_md := q_push ?upd (cx_md c)\<rparr>"
          have "cancel cl oid t c = Inr ((), ?c2)"
            unfolding run using b'(1) ids wf
            by (simp add: sq_sq on_book_run sq_Inr sq_def bnd_def send_market_update_def send_client_response_def
                sendMarketUpdate_def sendClientResponse_def zoom_def push_elem_run wf_queues_def)
          moreover have "sent c [?resp] [?upd] ?c2" by (simp add: sent_def)
          ultimately show ?thesis using cl oid spec Inr b'(2) by (auto simp: spec_cancel_def)
        qed
      qed
    qed
  qed
qed

end
