(* ===== verification/Book_Properties.thy ===== *)
theory Book_Properties
  imports Book_Refinement
begin

text \<open>
  What the refinement gives for the order book: the refinement theorems themselves, price-time
  priority, and the behaviours the representation lets through, first among them the crashes of an
  ask ring whose last level was appended without its \<open>next_entry_\<close>.
\<close>


section \<open>A new book\<close>

lemma new_book_rep: "book_rep (MEOrderBook_new t) empty_book [] [] (\<lambda>_. [])"
proof -
  let ?b = "MEOrderBook_new t"
  have "book_inv ?b [] [] (\<lambda>_. []) False"
    by (simp add: book_inv_def links_ok_def slots_ok_def orders_ok_def index_ok_def MEOrderBook_new_def
        MemPool_new_view cell_def limit_defs)
  then show ?thesis
    by (simp add: book_rep_def empty_book_def index_rel_def ids_ok_def)
      (simp add: MEOrderBook_new_def cell_def MemPool_new_view)
qed

lemma new_book_rel: "book_rel (MEOrderBook_new t) empty_book"
  using new_book_rep unfolding book_rel_def by blast

definition fresh_ctx :: "TickerId \<Rightarrow> nat \<Rightarrow> nat \<Rightarrow> ME_ctx" where
  "fresh_ctx t m n = \<lparr>cx_book = MEOrderBook_new t, cx_ogw = LFQueue_new m MEClientResponse_default,
     cx_md = LFQueue_new n MEMarketUpdate_default\<rparr>"

lemma fresh_ctx_ok: "book_rel (cx_book (fresh_ctx t m n)) empty_book"
  "0 < m \<Longrightarrow> 0 < n \<Longrightarrow> wf_queues (fresh_ctx t m n)"
  by (simp_all add: fresh_ctx_def new_book_rel wf_queues_def q_ok_wf [OF LFQueue_new_ok])

section \<open>Price-time priority of the abstract matching\<close>

definition filled :: "fill list \<Rightarrow> nat" where
  "filled fs = sum_list (map (\<lambda>f. unat (f_qty f)) fs)"

definition fill_ok :: "Price \<Rightarrow> fill \<Rightarrow> bool" where
  "fill_ok price f \<longleftrightarrow> sint (f_price f) \<le> sint price \<and> f_qty f \<le> r_qty (f_maker f)"

lemma filled_simps [simp]: "filled [] = 0" "filled (f # fs) = unat (f_qty f) + filled fs"
  "filled (fs @ gs) = filled fs + filled gs"
  by (simp_all add: filled_def)

lemma match_level_spec:
  assumes "match_level p l rs = (l', rs', fs)" "\<not> sint price < sint p"
  shows "map f_maker fs = take (length fs) rs \<and> (\<forall>f \<in> set fs. fill_ok price f) \<and>
    unat l = unat l' + filled fs \<and> (rs' \<noteq> [] \<longrightarrow> l' = 0) \<and> (rs' = [] \<longrightarrow> length fs = length rs)"
  using assms
proof (induction p l rs arbitrary: l' rs' fs rule: match_level.induct)
  case (1 p l)
  then show ?case by simp
next
  case (2 p l r rs)
  obtain l1 rs1 fs1 where m: "match_level p (l - r_qty r) rs = (l1, rs1, fs1)"
    by (cases "match_level p (l - r_qty r) rs")
  consider "l = 0" | "l \<noteq> 0" "r_qty r \<le> l" | "l \<noteq> 0" "\<not> r_qty r \<le> l" by blast
  then show ?case
  proof cases
    case 1
    then show ?thesis using 2(2) by simp
  next
    case small: 2
    have "unat (l - r_qty r) = unat l - unat (r_qty r)" "unat (r_qty r) \<le> unat l"
      using small(2) by (simp_all add: unat_sub word_le_nat_alt)
    then show ?thesis
      using 2(1) [OF small m 2(3)] 2(2,3) small m by (auto simp: fill_ok_def)
  next
    case 3
    then show ?thesis using 2(2,3) by (auto simp: fill_ok_def)
  qed
qed

lemma match_asks_spec:
  assumes "match_asks price l ls = (l', ls', fs)"
    "sorted_wrt (\<lambda>l m. sint (fst l) < sint (fst m)) ls" "\<forall>l \<in> set ls. snd l \<noteq> []"
  shows "map f_maker fs = take (length fs) (orders_of ls) \<and> (\<forall>f \<in> set fs. fill_ok price f) \<and>
    unat l = unat l' + filled fs \<and> (l' \<noteq> 0 \<longrightarrow> (\<forall>m \<in> set ls'. sint price < sint (fst m)))"
  using assms
proof (induction price l ls arbitrary: l' ls' fs rule: match_asks.induct)
  case (1 price l)
  then show ?case by simp
next
  case (2 price l p rs ls)
  obtain l1 rs1 fs1 where m: "match_level p l rs = (l1, rs1, fs1)" by (cases "match_level p l rs")
  obtain l2 ls2 fs2 where n: "match_asks price l1 ls = (l2, ls2, fs2)" by (cases "match_asks price l1 ls")
  show ?case
  proof (cases "l = 0 \<or> sint price < sint p")
    case True
    then show ?thesis using 2(2,3) by (auto intro: less_trans dest!: bspec)
  next
    case False
    note lv = match_level_spec [OF m, of price]
    show ?thesis
    proof (cases "rs1 = []")
      case True
      have out: "l' = l2" "ls' = ls2" "fs = fs1 @ fs2" using 2(2) False m n True by auto
      have "map f_maker fs2 = take (length fs2) (orders_of ls) \<and> (\<forall>f \<in> set fs2. fill_ok price f) \<and>
          unat l1 = unat l2 + filled fs2 \<and> (l2 \<noteq> 0 \<longrightarrow> (\<forall>m \<in> set ls2. sint price < sint (fst m)))"
        using 2(1) [OF False m [symmetric] refl True n] 2(3,4) by simp
      then show ?thesis using lv False True out by auto
    next
      case rs1: False
      then have out: "l' = l1" "ls' = (p, rs1) # ls" "fs = fs1" using 2(2) False m by auto
      have "length fs1 \<le> length rs"
      proof -
        have "length fs1 = length (take (length fs1) rs)" using lv False by (metis length_map)
        then show ?thesis by simp
      qed
      then show ?thesis using lv False rs1 out by auto
    qed
  qed
qed

text \<open>What a list of trades leaves of the orders, from the first one on: all but the last are taken as a whole.\<close>

definition left_over :: "fill list \<Rightarrow> resting list \<Rightarrow> resting list" where
  "left_over fs rs =
     (if fs \<noteq> [] \<and> f_qty (last fs) \<noteq> r_qty (f_maker (last fs)) then
        (f_maker (last fs))\<lparr>r_qty := r_qty (f_maker (last fs)) - f_qty (last fs)\<rparr> # drop (length fs) rs
      else drop (length fs) rs)"

definition taken_whole :: "fill \<Rightarrow> bool" where
  "taken_whole f \<longleftrightarrow> f_qty f = r_qty (f_maker f)"

lemma left_over_Nil [simp]: "left_over [] rs = rs"
  by (simp add: left_over_def)

lemma left_over_whole: "\<forall>f \<in> set gs. taken_whole f \<Longrightarrow> length qs = length gs \<Longrightarrow> left_over (gs @ fs) (qs @ rs) = left_over fs rs"
  by (cases fs rule: rev_cases; cases gs rule: rev_cases) (auto simp: left_over_def taken_whole_def)

lemma left_over_more: "length fs \<le> length qs \<Longrightarrow> left_over fs (qs @ rs) = left_over fs qs @ rs"
  by (simp add: left_over_def)

lemma match_level_left:
  assumes "match_level p l rs = (l', rs', fs)"
  shows "rs' = left_over fs rs \<and> (\<forall>f \<in> set (butlast fs). taken_whole f) \<and> length fs \<le> length rs \<and>
    (rs' = [] \<longrightarrow> (\<forall>f \<in> set fs. taken_whole f) \<and> length fs = length rs)"
  using assms
proof (induction p l rs arbitrary: l' rs' fs rule: match_level.induct)
  case (2 p l r rs)
  obtain l1 rs1 fs1 where m: "match_level p (l - r_qty r) rs = (l1, rs1, fs1)"
    by (cases "match_level p (l - r_qty r) rs")
  consider "l = 0" | "l \<noteq> 0" "r_qty r \<le> l" | "l \<noteq> 0" "\<not> r_qty r \<le> l" by blast
  then show ?case
  proof cases
    case 2
    let ?f = "\<lparr>f_maker = r, f_price = p, f_qty = r_qty r, f_leaves = l - r_qty r\<rparr>"
    have out: "rs' = rs1" "fs = ?f # fs1" using "2.prems" 2 m by auto
    have "left_over ([?f] @ fs1) ([r] @ rs) = left_over fs1 rs" by (rule left_over_whole) (simp_all add: taken_whole_def)
    then show ?thesis using "2.IH" [OF 2 m] out by (auto simp: taken_whole_def split: if_splits)
  next
    case 3
    then show ?thesis using "2.prems" by (auto simp: left_over_def)
  qed (use "2.prems" in simp)
qed simp

lemma match_asks_left:
  assumes "match_asks price l ls = (l', ls', fs)"
  shows "orders_of ls' = left_over fs (orders_of ls) \<and> (\<forall>f \<in> set (butlast fs). taken_whole f)"
  using assms
proof (induction price l ls arbitrary: l' ls' fs rule: match_asks.induct)
  case (2 price l p rs ls)
  obtain l1 rs1 fs1 where m: "match_level p l rs = (l1, rs1, fs1)" by (cases "match_level p l rs")
  obtain l2 ls2 fs2 where n: "match_asks price l1 ls = (l2, ls2, fs2)" by (cases "match_asks price l1 ls")
  note lv = match_level_left [OF m]
  show ?case
  proof (cases "l = 0 \<or> sint price < sint p")
    case False
    show ?thesis
    proof (cases "rs1 = []")
      case True
      have out: "ls' = ls2" "fs = fs1 @ fs2" using "2.prems" False m n True by auto
      have "orders_of ls2 = left_over fs2 (orders_of ls) \<and> (\<forall>f \<in> set (butlast fs2). taken_whole f)"
        using "2.IH" [OF False m [symmetric] refl True n] .
      moreover have "left_over (fs1 @ fs2) (rs @ orders_of ls) = left_over fs2 (orders_of ls)"
        using lv True by (intro left_over_whole) simp_all
      ultimately show ?thesis using out lv True by (auto simp: orders_of_def butlast_append split: if_splits)
    next
      case rs1: False
      then have "ls' = (p, rs1) # ls" "fs = fs1" using "2.prems" False m by auto
      then show ?thesis using lv left_over_more [of fs1 rs "orders_of ls"] by (simp add: orders_of_def)
    qed
  qed (use "2.prems" in simp)
qed simp

section \<open>A few abstract runs\<close>

lemma add_ok_empty: "side \<in> {BUY, SELL} \<Longrightarrow> add_ok side price qty empty_book"
  by (auto simp: add_ok_def spec_match_def empty_book_def slot_ok_def after_match_def)

definition one_ask :: "ClientId \<Rightarrow> OrderId \<Rightarrow> Price \<Rightarrow> Qty \<Rightarrow> abook" where
  "one_ask cl oid p q =
     \<lparr>ab_asks = [(p, [\<lparr>r_client = cl, r_oid = oid, r_moid = 1, r_qty = q, r_prio = 1\<rparr>])], ab_bids = [],
      ab_open = False, ab_index = [(cl, oid) \<mapsto> 1], ab_next = 2\<rparr>"

definition two_asks :: "ClientId \<Rightarrow> OrderId \<Rightarrow> Price \<Rightarrow> Qty \<Rightarrow> ClientId \<Rightarrow> OrderId \<Rightarrow> Price \<Rightarrow> Qty \<Rightarrow> abook" where
  "two_asks cl oid p q cl' oid' p' q' =
     \<lparr>ab_asks = [(p, [\<lparr>r_client = cl, r_oid = oid, r_moid = 1, r_qty = q, r_prio = 1\<rparr>]),
                (p', [\<lparr>r_client = cl', r_oid = oid', r_moid = 2, r_qty = q', r_prio = 1\<rparr>])], ab_bids = [],
      ab_open = True, ab_index = [(cl, oid) \<mapsto> 1, (cl', oid') \<mapsto> 2], ab_next = 3\<rparr>"

definition ids_in_range :: "ClientId \<Rightarrow> OrderId \<Rightarrow> bool" where
  "ids_in_range cl oid \<longleftrightarrow> unat cl < ME_MAX_NUM_CLIENTS \<and> unat oid < ME_MAX_ORDER_IDS"

lemmas spec_run_defs = spec_add_def spec_match_def place_def new_level_def append_level_def side_levels_def
  spec_priority_def book_orders_def orders_of_def cheaper_level_def ids_in_range_def

lemma spec_add_first_ask:
  assumes "q \<noteq> 0" "ids_in_range cl oid"
  shows "\<exists>rs us. spec_add cl oid t SELL p q empty_book = Inr (one_ask cl oid p q, rs, us)"
  using assms by (simp add: spec_run_defs empty_book_def one_ask_def Let_def limit_defs)

lemma spec_add_second_ask:
  assumes "q' \<noteq> 0" "ids_in_range cl' oid'" "sint p < sint p'"
  shows "\<exists>rs us. spec_add cl' oid' t SELL p' q' (one_ask cl oid p q) = Inr (two_asks cl oid p q cl' oid' p' q', rs, us)"
  using assms by (auto simp: spec_run_defs one_ask_def two_asks_def Let_def limit_defs)

lemma spec_add_third_ask:
  assumes "q'' \<noteq> 0" "sint p < sint p'" "sint p' < sint p''"
  shows "spec_add cl'' oid'' t SELL p'' q'' (two_asks cl oid p q cl' oid' p' q') = Inl Null_deref"
  using assms by (auto simp: spec_run_defs two_asks_def Let_def limit_defs)

lemma add_ok_asks:
  assumes "priceToIndex p' \<noteq> priceToIndex p"
  shows "add_ok SELL p' q' (one_ask cl oid p q)"
    and "priceToIndex p'' \<noteq> priceToIndex p \<Longrightarrow> priceToIndex p'' \<noteq> priceToIndex p' \<Longrightarrow>
      add_ok SELL p'' q'' (two_asks cl oid p q cl' oid' p' q')"
  using assms by (auto simp: add_ok_def spec_match_def one_ask_def two_asks_def slot_ok_def)

lemma spec_cancel_second_ask:
  assumes "ids_in_range cl' oid'"
  shows "spec_cancel cl' oid' t (two_asks cl oid p q cl' oid' p' q') = Inl Null_deref"
  using assms by (simp add: spec_cancel_def two_asks_def find_order_def find_in_def remove_order_def only_def ids_in_range_def)

text \<open>One ask, then two, on a fresh book.\<close>

lemma one_ask_run:
  assumes "0 < m" "0 < n" "q \<noteq> 0" "ids_in_range cl oid"
  shows "\<exists>c. add cl oid t SELL p q (fresh_ctx t m n) = Inr ((), c) \<and> wf_queues c \<and>
    book_rel (cx_book c) (one_ask cl oid p q)"
proof -
  note fresh = fresh_ctx_ok(1) [of t] fresh_ctx_ok(2) [OF assms(1,2), of t]
  show ?thesis
    using add_refines_main [OF fresh add_ok_empty, where side = SELL and price = p and qty = q and cl = cl and coid = oid and t = t]
      spec_add_first_ask [OF assms(3,4), where t = t and p = p] sent_wf [OF _ fresh(2)]
    by auto
qed

lemma two_asks_run:
  assumes "0 < m" "0 < n" "q \<noteq> 0" "q' \<noteq> 0" "ids_in_range cl oid" "ids_in_range cl' oid'"
    "sint p < sint p'" "priceToIndex p' \<noteq> priceToIndex p"
  shows "\<exists>c. sq (add cl oid t SELL p q) (add cl' oid' t SELL p' q') (fresh_ctx t m n) = Inr ((), c) \<and>
    wf_queues c \<and> book_rel (cx_book c) (two_asks cl oid p q cl' oid' p' q')"
proof -
  obtain c1 where c1: "add cl oid t SELL p q (fresh_ctx t m n) = Inr ((), c1)" "wf_queues c1"
    "book_rel (cx_book c1) (one_ask cl oid p q)"
    using one_ask_run [OF assms(1,2,3,5)] by blast
  obtain c2 where "add cl' oid' t SELL p' q' c1 = Inr ((), c2)" "wf_queues c2"
    "book_rel (cx_book c2) (two_asks cl oid p q cl' oid' p' q')"
    using add_refines_main [OF c1(3,2) add_ok_asks(1) [OF assms(8)], where cl = cl' and coid = oid' and t = t and qty = q']
      spec_add_second_ask [OF assms(4,6,7), where t = t and cl = cl and oid = oid and q = q] sent_wf [OF _ c1(2)]
    by auto
  then show ?thesis using c1(1) by (auto simp: sq_Inr)
qed

section \<open>Properties\<close>

text \<open>
  C1. \<open>add\<close> is a refinement of the abstract book: on a well-shaped book it fills, rests and
  publishes exactly what \<open>spec_add\<close> says, in that order, and ends in a fault exactly when, and with
  the fault, that \<open>spec_add\<close> does. Hypotheses: a side of BUY or SELL, a market order id left, and, when a
  quantity is left to rest, a slot of its price that is free or holds a level of the same price and side:
  a level of another price is left out, and one of the other side at the same price.
\<close>

theorem add_refines:
  assumes "book_rel (cx_book c) A" "wf_queues c" "add_ok side price qty A"
  shows "case spec_add cl coid t side price qty A of
      Inl e \<Rightarrow> add cl coid t side price qty c = Inl e
    | Inr (A', rs, us) \<Rightarrow> \<exists>c'. add cl coid t side price qty c = Inr ((), c') \<and> sent c rs us c' \<and>
        book_rel (cx_book c') A'"
  using assms by (rule add_refines_main)

theorem add_refines_witness:
  "\<exists>c'. add 1 7 0 SELL 100 10 (fresh_ctx 0 8 8) = Inr ((), c') \<and> book_rel (cx_book c') (one_ask 1 7 100 10)"
  using add_refines [OF fresh_ctx_ok(1) fresh_ctx_ok(2) add_ok_empty, of 8 8 SELL 1 7 0 100 10 0]
    spec_add_first_ask [of 10 1 7 0 100]
  by (auto simp: ids_in_range_def limit_defs)

text \<open>
  C2. \<open>cancel\<close> is a refinement of \<open>spec_cancel\<close>: an order the index knows leaves the book and is
  reported with its remaining quantity; anything else is rejected without a change; a client order
  id beyond the array throws; and removing the last order of the last level of an open ask ring
  dereferences \<open>nullptr\<close>.
\<close>

theorem cancel_refines:
  assumes "book_rel (cx_book c) A" "wf_queues c"
  shows "case spec_cancel cl oid t A of
      Inl e \<Rightarrow> cancel cl oid t c = Inl e
    | Inr (A', rs, us) \<Rightarrow> \<exists>c'. cancel cl oid t c = Inr ((), c') \<and> sent c rs us c' \<and> book_rel (cx_book c') A'"
  using assms by (rule cancel_refines_main)

theorem cancel_refines_witness:
  "\<exists>c c'. book_rel (cx_book c) (two_asks 1 7 100 10 2 8 105 20) \<and> cancel 1 7 0 c = Inr ((), c') \<and>
     book_rel (cx_book c') \<lparr>ab_asks = [(105, [\<lparr>r_client = 2, r_oid = 8, r_moid = 2, r_qty = 20, r_prio = 1\<rparr>])],
       ab_bids = [], ab_open = False, ab_index = [(2, 8) \<mapsto> 2], ab_next = 3\<rparr>"
proof -
  obtain c where c: "wf_queues c" "book_rel (cx_book c) (two_asks 1 7 100 10 2 8 105 20)"
    using two_asks_run [of 8 8 10 20 1 7 2 8 100 105 0]
    by (auto simp: ids_in_range_def limit_defs priceToIndex_def)
  have "spec_cancel 1 7 0 (two_asks 1 7 100 10 2 8 105 20) =
    Inr (\<lparr>ab_asks = [(105, [\<lparr>r_client = 2, r_oid = 8, r_moid = 2, r_qty = 20, r_prio = 1\<rparr>])],
       ab_bids = [], ab_open = False, ab_index = [(2, 8) \<mapsto> 2], ab_next = 3\<rparr>,
      [\<lparr>resp_type = CANCELED, resp_client_id = 1, resp_ticker_id = 0, resp_client_order_id = 7,
        resp_market_order_id = 1, resp_side = SELL, resp_price = 100, resp_exec_qty = Qty_INVALID, resp_leaves_qty = 10\<rparr>],
      [\<lparr>upd_type = CANCEL, upd_order_id = 1, upd_ticker_id = 0, upd_side = SELL, upd_price = 100, upd_qty = 0,
        upd_priority = 1\<rparr>])"
    by (simp add: spec_cancel_def two_asks_def find_order_def find_in_def remove_order_def only_def without_def
        forget_def limit_defs fun_eq_iff)
  with cancel_refines [OF c(2,1), of 1 7 0] c(2) show ?thesis by auto
qed

text \<open>
  C3. A buy order trades by price, then by time: the orders it fills are the first ones of the asks
  listed from the cheapest level up and from the oldest order on, none of them above its limit; all of
  them but the last are taken as a whole, and what remains of the asks is the rest of that list, with
  what the last one has left at its head; the bids stay. The quantities traded and left add up to its
  quantity; and if something is left of the order itself, every ask that remains is above its limit.
\<close>

theorem checkForMatch_price_time:
  assumes "book_rel (cx_book c) A" "wf_queues c"
  shows "\<exists>l c' A' fs. checkForMatch cl coid t BUY price qty mo c = Inr (l, c') \<and>
    sent c (concat (map (fill_responses cl coid t (ucast mo)) fs)) (concat (map (fill_updates t) fs)) c' \<and>
    book_rel (cx_book c') A' \<and>
    map f_maker fs = take (length fs) (orders_of (ab_asks A)) \<and>
    (\<forall>f \<in> set fs. fill_ok price f) \<and> (\<forall>f \<in> set (butlast fs). f_qty f = r_qty (f_maker f)) \<and>
    orders_of (ab_asks A') = left_over fs (orders_of (ab_asks A)) \<and> ab_bids A' = ab_bids A \<and>
    unat qty = unat l + filled fs \<and>
    (l \<noteq> 0 \<longrightarrow> (\<forall>m \<in> set (ab_asks A'). sint price < sint (fst m)))"
proof -
  obtain l ls fs where m: "match_asks price qty (ab_asks A) = (l, ls, fs)" by (cases "match_asks price qty (ab_asks A)")
  have wfA: "ab_wf A" using assms(1) book_rep_wf by (auto simp: book_rel_def)
  have "spec_match BUY price qty A = (l, after_match A ls fs, fs)" using m by (simp add: spec_match_def)
  then obtain c' where c': "checkForMatch cl coid t BUY price qty mo c = Inr (l, c')"
    "sent c (concat (map (fill_responses cl coid t (ucast mo)) fs)) (concat (map (fill_updates t) fs)) c'"
    "book_rel (cx_book c') (after_match A ls fs)"
    using checkForMatch_refines [OF assms] by blast
  have "sorted_wrt (\<lambda>l m. sint (fst l) < sint (fst m)) (ab_asks A)" "\<forall>l \<in> set (ab_asks A). snd l \<noteq> []"
    using wfA by (simp_all add: ab_wf_def)
  note spec = match_asks_spec [OF m this]
  have "ab_asks (after_match A ls fs) = ls" "ab_bids (after_match A ls fs) = ab_bids A" by (simp_all add: after_match_def)
  then show ?thesis
    using c' spec match_asks_left [OF m] unfolding taken_whole_def
    by (intro exI [of _ l] exI [of _ c'] exI [of _ "after_match A ls fs"] exI [of _ fs]) simp
qed

theorem checkForMatch_price_time_witness:
  "\<exists>c c' A' l fs. book_rel (cx_book c) (two_asks 1 7 100 10 2 8 105 20) \<and>
     checkForMatch 3 9 0 BUY 101 15 3 c = Inr (l, c') \<and> book_rel (cx_book c') A' \<and>
     orders_of (ab_asks A') = left_over fs (orders_of (ab_asks (two_asks 1 7 100 10 2 8 105 20))) \<and>
     (15::nat) = unat l + filled fs \<and> (l \<noteq> 0 \<longrightarrow> (\<forall>m \<in> set (ab_asks A'). 101 < sint (fst m)))"
proof -
  obtain c where c: "wf_queues c" "book_rel (cx_book c) (two_asks 1 7 100 10 2 8 105 20)"
    using two_asks_run [of 8 8 10 20 1 7 2 8 100 105 0]
    by (auto simp: ids_in_range_def limit_defs priceToIndex_def)
  from checkForMatch_price_time [OF c(2,1), of 3 9 0 101 15 3] c(2) show ?thesis
    by (simp add: eq_commute [of 15]) blast
qed

text \<open>
  C24. Three sell orders at rising prices stop the exchange: each new highest level is appended
  without its \<open>next_entry_\<close>, so the second one leaves the ring open and the third one's walk reads
  through \<open>nullptr\<close>.
\<close>

theorem third_higher_ask_faults:
  assumes "0 < m" "0 < n" "q \<noteq> 0" "q' \<noteq> 0" "q'' \<noteq> 0" "ids_in_range cl oid" "ids_in_range cl' oid'"
    "sint p < sint p'" "sint p' < sint p''"
    "priceToIndex p' \<noteq> priceToIndex p" "priceToIndex p'' \<noteq> priceToIndex p" "priceToIndex p'' \<noteq> priceToIndex p'"
  shows "sq (sq (add cl oid t SELL p q) (add cl' oid' t SELL p' q')) (add cl'' oid'' t SELL p'' q'')
      (fresh_ctx t m n) = Inl Null_deref"
proof -
  obtain c where c: "sq (add cl oid t SELL p q) (add cl' oid' t SELL p' q') (fresh_ctx t m n) = Inr ((), c)"
    "wf_queues c" "book_rel (cx_book c) (two_asks cl oid p q cl' oid' p' q')"
    using two_asks_run [OF assms(1-4,6,7,8,10), of t] by blast
  have "add cl'' oid'' t SELL p'' q'' c = Inl Null_deref"
    using add_refines_main [OF c(3,2) add_ok_asks(2) [OF assms(10-12)], where cl = cl'' and coid = oid'' and t = t and qty = q'']
      spec_add_third_ask [OF assms(5,8,9)] by simp
  then show ?thesis using c(1) by (simp add: sq_Inr)
qed

theorem third_higher_ask_faults_witness:
  "sq (sq (add 1 1 0 SELL 100 10) (add 1 2 0 SELL 101 10)) (add 1 3 0 SELL 102 10) (fresh_ctx 0 8 8) = Inl Null_deref"
  by (rule third_higher_ask_faults) (simp_all add: ids_in_range_def limit_defs priceToIndex_def)

text \<open>
  Cancelling the higher one of two asks that arrived in rising order stops the exchange: the
  level that empties is the last one of an open ring, and unlinking it writes through \<open>nullptr\<close>.
\<close>

theorem cancel_last_ask_faults:
  assumes "0 < m" "0 < n" "q \<noteq> 0" "q' \<noteq> 0" "ids_in_range cl oid" "ids_in_range cl' oid'"
    "sint p < sint p'" "priceToIndex p' \<noteq> priceToIndex p"
  shows "sq (sq (add cl oid t SELL p q) (add cl' oid' t SELL p' q')) (cancel cl' oid' t)
      (fresh_ctx t m n) = Inl Null_deref"
proof -
  obtain c where c: "sq (add cl oid t SELL p q) (add cl' oid' t SELL p' q') (fresh_ctx t m n) = Inr ((), c)"
    "wf_queues c" "book_rel (cx_book c) (two_asks cl oid p q cl' oid' p' q')"
    using two_asks_run [OF assms, of t] by blast
  have "cancel cl' oid' t c = Inl Null_deref"
    using cancel_refines_main [OF c(3,2), of cl' oid' t] spec_cancel_second_ask [OF assms(6)] by simp
  then show ?thesis using c(1) by (simp add: sq_Inr)
qed

theorem cancel_last_ask_faults_witness:
  "sq (sq (add 1 1 0 SELL 100 10) (add 1 2 0 SELL 101 10)) (cancel 1 2 0) (fresh_ctx 0 8 8) = Inl Null_deref"
  by (rule cancel_last_ask_faults) (simp_all add: ids_in_range_def limit_defs priceToIndex_def)

end
