(* ===== verification/Book_Returns.thy ===== *)
theory Book_Returns
  imports Book_Properties
begin

text \<open>
  More of the order book: the truncated id of the taker in its fills, that \<open>add\<close> returns, and that
  cancelling what was just added gives back the book.
\<close>

section \<open>The id of the incoming order\<close>

text \<open>
  C27. \<open>checkForMatch\<close> takes the new market order id as a 32-bit \<open>Qty\<close>, so the fills reported to the
  incoming buy order carry the id modulo \<open>2 ^ 32\<close>, while its acceptance carries the whole id.
\<close>

theorem taker_fills_carry_short_id:
  assumes "book_rel (cx_book c) A" "wf_queues c" "add_ok BUY price qty A"
    "add cl coid t BUY price qty c = Inr ((), c')"
  shows "\<exists>r rs us. sent c (r # rs) us c' \<and> resp_type r = ACCEPTED \<and> resp_market_order_id r = ab_next A \<and>
    (\<forall>r' \<in> set rs. resp_side r' = BUY \<longrightarrow> resp_type r' = FILLED \<and>
       unat (resp_market_order_id r') = unat (ab_next A) mod 2 ^ 32)"
proof -
  have short: "unat (short_id m) = unat m mod 2 ^ 32" for m
    by (simp add: short_id_def unsigned_ucast_eq take_bit_eq_mod unat_mod_distrib)
  obtain A' rs us where spec: "spec_add cl coid t BUY price qty A = Inr (A', rs, us)" and "sent c rs us c'"
    using add_refines_main [OF assms(1-3), of cl coid t] assms(4)
    by (cases "spec_add cl coid t BUY price qty A") auto
  moreover have "\<exists>r rs'. rs = r # rs' \<and> resp_type r = ACCEPTED \<and> resp_market_order_id r = ab_next A \<and>
    (\<forall>r' \<in> set rs'. resp_side r' = BUY \<longrightarrow> resp_type r' = FILLED \<and> resp_market_order_id r' = short_id (ab_next A))"
    using spec by (auto simp: spec_add_def Let_def fill_responses_def split: prod.splits if_splits sum.splits)
  ultimately show ?thesis using short by metis
qed


theorem taker_fills_carry_short_id_witness:
  "\<exists>c c' r rs us. book_rel (cx_book c) (one_ask 1 7 100 10) \<and> add 3 9 0 BUY 100 10 c = Inr ((), c') \<and>
     sent c (r # rs) us c' \<and>
     (\<forall>r' \<in> set rs. resp_side r' = BUY \<longrightarrow> unat (resp_market_order_id r') = unat (2 :: OrderId) mod 2 ^ 32)"
proof -
  obtain c where c: "book_rel (cx_book c) (one_ask 1 7 100 10)" "wf_queues c"
    using one_ask_run [of 8 8 10 1 7 0 100] by (auto simp: ids_in_range_def limit_defs)
  have ok: "add_ok BUY 100 10 (one_ask 1 7 100 10)"
    by (simp add: add_ok_def spec_match_def one_ask_def)
  have "\<exists>A' rs us. spec_add 3 9 0 BUY 100 10 (one_ask 1 7 100 10) = Inr (A', rs, us)"
    by (simp add: spec_add_def spec_match_def one_ask_def Let_def)
  then obtain c' where "add 3 9 0 BUY 100 10 c = Inr ((), c')"
    using add_refines_main [OF c ok, of 3 9 0] by auto
  from taker_fills_carry_short_id [OF c ok this] this c(1) show ?thesis
    by (simp add: one_ask_def) blast
qed

section \<open>add returns\<close>

lemma match_level_length: "match_level p l rs = (l', rs', fs) \<Longrightarrow> length rs' \<le> length rs"
proof (induction p l rs arbitrary: l' rs' fs rule: match_level.induct)
  case (1 p l)
  then show ?case by simp
next
  case (2 p l r rs)
  obtain l1 rs1 fs1 where m: "match_level p (l - r_qty r) rs = (l1, rs1, fs1)"
    by (cases "match_level p (l - r_qty r) rs")
  show ?case using 2(2) 2(1) [OF _ _ m] m by (auto split: if_splits)
qed

lemma match_asks_length:
  "match_asks price l ls = (l', ls', fs) \<Longrightarrow>
    length ls' \<le> length ls \<and> length (orders_of ls') \<le> length (orders_of ls)"
proof (induction price l ls arbitrary: l' ls' fs rule: match_asks.induct)
  case (1 price l)
  then show ?case by simp
next
  case (2 price l p rs ls)
  obtain l1 rs1 fs1 where m: "match_level p l rs = (l1, rs1, fs1)" by (cases "match_level p l rs")
  obtain l2 ls2 fs2 where n: "match_asks price l1 ls = (l2, ls2, fs2)" by (cases "match_asks price l1 ls")
  show ?case
    using 2(2) 2(1) [OF _ m [symmetric] refl _ n] match_level_length [OF m] m n
    by (auto split: if_splits)
qed

lemma spec_match_sizes:
  assumes "spec_match side price qty A = (l, A', fs)"
  shows "length (book_orders A') \<le> length (book_orders A)"
    "length (ab_asks A') + length (ab_bids A') \<le> length (ab_asks A) + length (ab_bids A)"
    "ab_open A' \<Longrightarrow> ab_open A"
  using assms match_asks_length
  by (fastforce simp: spec_match_def after_match_def book_orders_def split: if_splits prod.splits)+

lemma place_succeeds:
  assumes "side = BUY \<or> \<not> ab_open A" "length (book_orders A) + 1 < ME_MAX_ORDER_IDS"
    "length (ab_asks A) + length (ab_bids A) + 1 < ME_MAX_PRICE_LEVELS" "ids_in_range (r_client r) (r_oid r)"
  shows "\<exists>A'. place side p r A = Inr A'"
  using assms by (auto simp: place_def new_level_def Let_def ids_in_range_def split: sum.split)

text \<open>
  C28. \<open>add\<close> always returns, with the order in the book or filled, when both pools have a block to
  spare, the ids are in range, and the order is a buy or the ask ring is closed: the level walk and
  the matching loop end, and no pointer is null on the way.
\<close>

theorem add_returns:
  assumes "book_rel (cx_book c) A" "wf_queues c" "add_ok side price qty A" "ids_in_range cl coid"
    "side = BUY \<or> \<not> ab_open A" "length (book_orders A) + 1 < ME_MAX_ORDER_IDS"
    "length (ab_asks A) + length (ab_bids A) + 1 < ME_MAX_PRICE_LEVELS"
  shows "\<exists>c' A' rs us. add cl coid t side price qty c = Inr ((), c') \<and>
    spec_add cl coid t side price qty A = Inr (A', rs, us) \<and> book_rel (cx_book c') A'"
proof -
  let ?A = "A\<lparr>ab_next := ab_next A + 1\<rparr>"
  obtain l A1 fs where m: "spec_match side price qty ?A = (l, A1, fs)" by (cases "spec_match side price qty ?A")
  have bo: "book_orders ?A = book_orders A" by (simp add: book_orders_def)
  have "side = BUY \<or> \<not> ab_open A1" "length (book_orders A1) + 1 < ME_MAX_ORDER_IDS"
    "length (ab_asks A1) + length (ab_bids A1) + 1 < ME_MAX_PRICE_LEVELS"
    using spec_match_sizes [OF m] assms(5-7) bo by auto
  from place_succeeds [OF this, of "\<lparr>r_client = cl, r_oid = coid, r_moid = ab_next A, r_qty = l,
      r_prio = spec_priority side price A1\<rparr>" price] assms(4)
  obtain A' rs us where "spec_add cl coid t side price qty A = Inr (A', rs, us)"
    using m by (cases "l = 0") (auto simp: spec_add_def Let_def)
  then show ?thesis using add_refines_main [OF assms(1-3), of cl coid t] by auto
qed

theorem add_returns_witness:
  "\<exists>c' A' rs us. add 1 7 0 SELL 100 10 (fresh_ctx 0 8 8) = Inr ((), c') \<and>
    spec_add 1 7 0 SELL 100 10 empty_book = Inr (A', rs, us) \<and> book_rel (cx_book c') A'"
  by (rule add_returns [OF fresh_ctx_ok(1) fresh_ctx_ok(2) add_ok_empty])
    (simp_all add: ids_in_range_def limit_defs empty_book_def book_orders_def orders_of_def)

section \<open>A buy order added and cancelled\<close>

lemma find_in_none:
  assumes "mo \<notin> r_moid ` set (orders_of ls)"
  shows "find_in s mo ls = None"
proof -
  have "r_moid r \<noteq> mo" if mem: "(s', p, r) \<in> set (concat (map (\<lambda>(p, rs). map (\<lambda>r. (s, p, r)) rs) ls))" for s' p r
  proof -
    obtain rs where "(p, rs) \<in> set ls" "r \<in> set rs" using mem by auto
    then show ?thesis using no_moid [OF assms, of "(p, rs)" r] by simp
  qed
  then show ?thesis unfolding find_in_def find_None_iff by fast
qed

lemma find_skip: "(\<And>x. x \<in> set xs \<Longrightarrow> \<not> P x) \<Longrightarrow> List.find P (xs @ ys) = List.find P ys"
  by (induction xs) auto

lemma find_in_append_at:
  assumes "mo \<notin> r_moid ` set (orders_of ls)" "level_at p ls = Some rs" "r_moid r = mo"
  shows "find_in s mo (append_at p r ls) = Some (s, p, r)"
  using assms(1,2)
proof (induction ls)
  case Nil
  then show ?case by simp
next
  case (Cons l ls)
  obtain q qs where l: "l = (q, qs)" by (cases l)
  have qs: "r_moid x \<noteq> mo" if "x \<in> set qs" for x using Cons.prems(1) that by (auto simp: l)
  have skip: "List.find (\<lambda>(s, p, r). r_moid r = mo) (map (\<lambda>r. (s, q, r)) qs @ ys) =
      List.find (\<lambda>(s, p, r). r_moid r = mo) ys" for ys
    by (rule find_skip) (use qs in auto)
  show ?case
  proof (cases "q = p")
    case True
    then show ?thesis
      using skip [unfolded True] assms(3) by (simp add: l find_in_def)
  next
    case False
    have "find_in s mo (append_at p r ls) = Some (s, p, r)"
      using Cons False by (auto simp: l)
    then show ?thesis using skip False by (simp add: l find_in_def)
  qed
qed

lemma without_Cons:
  "without mo ((q, qs) # ls) = (if filter (\<lambda>r. r_moid r \<noteq> mo) qs = [] then without mo ls
     else (q, filter (\<lambda>r. r_moid r \<noteq> mo) qs) # without mo ls)"
  by (simp add: without_def)

lemma filter_other: "(\<And>x. x \<in> set qs \<Longrightarrow> r_moid x \<noteq> mo) \<Longrightarrow> filter (\<lambda>r. r_moid r \<noteq> mo) qs = qs"
  by (simp add: filter_id_conv)

lemma without_fresh:
  assumes "mo \<notin> r_moid ` set (orders_of ls)" "\<forall>l \<in> set ls. snd l \<noteq> []"
  shows "without mo ls = ls"
  using no_moid [OF assms(1)] assms(2) by (intro without_other) auto

lemma without_append_at:
  assumes "mo \<notin> r_moid ` set (orders_of ls)" "\<forall>l \<in> set ls. snd l \<noteq> []" "level_at p ls = Some rs" "r_moid r = mo"
  shows "without mo (append_at p r ls) = ls"
  using assms(1-3)
proof (induction ls)
  case Nil
  then show ?case by simp
next
  case (Cons l ls)
  obtain q qs where l: "l = (q, qs)" by (cases l)
  have qs: "filter (\<lambda>r. r_moid r \<noteq> mo) qs = qs" "qs \<noteq> []"
    using Cons.prems(1,2) by (auto simp: l intro!: filter_other)
  show ?case
  proof (cases "q = p")
    case True
    have "without mo ls = ls" using Cons.prems by (intro without_fresh) (auto simp: l)
    then show ?thesis using qs True assms(4) by (simp add: l without_Cons)
  next
    case False
    have "without mo (append_at p r ls) = ls" using Cons False by (auto simp: l)
    then show ?thesis using qs False by (simp add: l without_Cons)
  qed
qed

text \<open>The abstract book after a buy order that trades with nothing.\<close>

definition rest_bid :: "Price \<Rightarrow> resting \<Rightarrow> abook \<Rightarrow> abook" where
  "rest_bid price r A = A\<lparr>ab_bids := (if level_at price (ab_bids A) = None then (price, [r]) # ab_bids A
       else append_at price r (ab_bids A)),
     ab_next := ab_next A + 1, ab_index := (ab_index A)((r_client r, r_oid r) := Some (r_moid r))\<rparr>"

lemma rest_bid_sel [simp]:
  "ab_asks (rest_bid price r A) = ab_asks A" "ab_open (rest_bid price r A) = ab_open A"
  "ab_next (rest_bid price r A) = ab_next A + 1"
  "ab_index (rest_bid price r A) = (ab_index A)((r_client r, r_oid r) := Some (r_moid r))"
  by (simp_all add: rest_bid_def)

definition quiet_buy :: "ClientId \<Rightarrow> OrderId \<Rightarrow> Price \<Rightarrow> Qty \<Rightarrow> abook \<Rightarrow> resting" where
  "quiet_buy cl coid price qty A =
     \<lparr>r_client = cl, r_oid = coid, r_moid = ab_next A, r_qty = qty, r_prio = spec_priority BUY price A\<rparr>"

lemma spec_add_quiet_buy:
  assumes "ab_wf A" "ids_in_range cl coid" "qty \<noteq> 0" "\<forall>l \<in> set (ab_asks A). sint price < sint (fst l)"
    "length (book_orders A) + 1 < ME_MAX_ORDER_IDS" "length (ab_asks A) + length (ab_bids A) + 1 < ME_MAX_PRICE_LEVELS"
  shows "\<exists>rs us. spec_add cl coid t BUY price qty A = Inr (rest_bid price (quiet_buy cl coid price qty A) A, rs, us)"
proof -
  let ?A = "A\<lparr>ab_next := ab_next A + 1\<rparr>" and ?r = "quiet_buy cl coid price qty A"
  have "match_asks price qty (ab_asks A) = (qty, ab_asks A, [])"
    using assms(4) by (cases "ab_asks A") auto
  moreover have "after_match ?A (ab_asks A) [] = ?A"
    using assms(1) by (cases A) (auto simp: after_match_def same_head_def full_makers_def ab_wf_def)
  ultimately have m: "spec_match BUY price qty ?A = (qty, ?A, [])" by (simp add: spec_match_def)
  have prio: "spec_priority BUY price ?A = spec_priority BUY price A" by (simp add: spec_priority_def side_levels_def)
  have "place BUY price ?r ?A = Inr (rest_bid price ?r A)"
    using assms(2,5,6)
    by (auto simp: place_def new_level_def append_level_def side_levels_def rest_bid_def quiet_buy_def ids_in_range_def
        book_orders_def)
  then show ?thesis using assms(3) by (simp add: spec_add_def m Let_def prio quiet_buy_def)
qed

lemma remove_rested_bid:
  assumes "ab_wf A" "r_moid r = ab_next A"
  shows "find_order (r_moid r) (rest_bid price r A) = Some (BUY, price, r)"
    "remove_order (r_moid r) r (rest_bid price r A) =
      Inr (A\<lparr>ab_next := ab_next A + 1, ab_index := (ab_index A)((r_client r, r_oid r) := None)\<rparr>)"
proof -
  let ?mo = "r_moid r"
  have new: "?mo \<notin> r_moid ` set (book_orders A)" using assms by (auto simp: ab_wf_def)
  have nb: "?mo \<notin> r_moid ` set (orders_of (ab_bids A))" and na: "?mo \<notin> r_moid ` set (orders_of (ab_asks A))"
    using new by (auto simp: book_orders_def)
  have ne: "\<forall>l \<in> set (ab_bids A). snd l \<noteq> []" "\<forall>l \<in> set (ab_asks A). snd l \<noteq> []"
    and len: "ab_open A \<Longrightarrow> ab_asks A \<noteq> []" using assms(1) by (auto simp: ab_wf_def)
  have bids: "find_in BUY ?mo (ab_bids (rest_bid price r A)) = Some (BUY, price, r)"
    "without ?mo (ab_bids (rest_bid price r A)) = ab_bids A"
    using find_in_append_at [OF nb _ refl] without_append_at [OF nb ne(1) _ refl] without_fresh [OF nb ne(1)]
    by (auto simp: rest_bid_def find_in_def without_Cons)
  show "find_order ?mo (rest_bid price r A) = Some (BUY, price, r)"
    using bids(1) find_in_none [OF na] by (simp add: find_order_def)
  have not_only: "\<not> only ?mo l" if mem: "l \<in> set (ab_asks A)" for l
  proof -
    obtain z where "z \<in> set (snd l)" using ne(2) mem by (cases "snd l") auto
    then show ?thesis using no_moid [OF na mem] by (auto simp: only_def)
  qed
  have closed: "\<not> (ab_open A \<and> only ?mo (last (ab_asks A)))" "ab_open A \<Longrightarrow> \<not> only ?mo (hd (ab_asks A))"
    using not_only [OF last_in_set] not_only [OF hd_in_set] len by blast+
  have "(rest_bid price r A)\<lparr>ab_asks := without ?mo (ab_asks A), ab_bids := without ?mo (ab_bids (rest_bid price r A)),
      ab_open := (ab_open A \<and> \<not> only ?mo (hd (ab_asks A))), ab_index := forget r (ab_index (rest_bid price r A))\<rparr> =
      A\<lparr>ab_next := ab_next A + 1, ab_index := (ab_index A)((r_client r, r_oid r) := None)\<rparr>"
    by (rule abook.equality) (use closed(2) in \<open>auto simp: bids(2) without_fresh [OF na ne(2)] forget_def\<close>)
  then show "remove_order ?mo r (rest_bid price r A) =
      Inr (A\<lparr>ab_next := ab_next A + 1, ab_index := (ab_index A)((r_client r, r_oid r) := None)\<rparr>)"
    using closed(1) by (simp add: remove_order_def)
qed

text \<open>
  C29. Adding a buy order that trades with nothing and cancelling it again leaves the book as it was,
  but for the market order id it has used up and an index entry of the same ids, if there was one.
\<close>

theorem add_cancel_roundtrip:
  assumes "book_rel (cx_book c) A" "wf_queues c" "add_ok BUY price qty A" "ids_in_range cl coid" "qty \<noteq> 0"
    "\<forall>l \<in> set (ab_asks A). sint price < sint (fst l)" "length (book_orders A) + 1 < ME_MAX_ORDER_IDS"
    "length (ab_asks A) + length (ab_bids A) + 1 < ME_MAX_PRICE_LEVELS"
  shows "\<exists>c'. sq (add cl coid t BUY price qty) (cancel cl coid t) c = Inr ((), c') \<and>
    book_rel (cx_book c') (A\<lparr>ab_next := ab_next A + 1, ab_index := (ab_index A)((cl, coid) := None)\<rparr>)"
proof -
  have wf: "ab_wf A" using assms(1) book_rep_wf by (auto simp: book_rel_def)
  let ?r = "quiet_buy cl coid price qty A"
  have r: "r_moid ?r = ab_next A" "r_client ?r = cl" "r_oid ?r = coid" by (simp_all add: quiet_buy_def)
  obtain c1 where c1: "add cl coid t BUY price qty c = Inr ((), c1)" "wf_queues c1"
    "book_rel (cx_book c1) (rest_bid price ?r A)"
    using add_refines_main [OF assms(1-3), of cl coid t] spec_add_quiet_buy [OF wf assms(4-8), of t] sent_wf [OF _ assms(2)]
    by auto
  have "\<exists>rs us. spec_cancel cl coid t (rest_bid price ?r A) =
      Inr (A\<lparr>ab_next := ab_next A + 1, ab_index := (ab_index A)((cl, coid) := None)\<rparr>, rs, us)"
    using remove_rested_bid [OF wf r(1), of price] assms(4) by (simp add: spec_cancel_def ids_in_range_def r)
  then obtain c2 where "cancel cl coid t c1 = Inr ((), c2)"
    "book_rel (cx_book c2) (A\<lparr>ab_next := ab_next A + 1, ab_index := (ab_index A)((cl, coid) := None)\<rparr>)"
    using cancel_refines_main [OF c1(3,2), of cl coid t] by auto
  then show ?thesis using c1(1) by (auto simp: sq_Inr)
qed

theorem add_cancel_roundtrip_witness:
  "\<exists>c'. sq (add 1 7 0 BUY 100 10) (cancel 1 7 0) (fresh_ctx 0 8 8) = Inr ((), c') \<and>
    book_rel (cx_book c') (empty_book\<lparr>ab_next := ab_next empty_book + 1, ab_index := (ab_index empty_book)((1, 7) := None)\<rparr>)"
  by (rule add_cancel_roundtrip [OF fresh_ctx_ok(1) fresh_ctx_ok(2) add_ok_empty])
    (simp_all add: ids_in_range_def limit_defs empty_book_def book_orders_def orders_of_def)

end
