(* ===== verification/Price_Collision.thy ===== *)
theory Price_Collision
  imports Book_Properties
begin

text \<open>
  The hypothesis \<open>add_ok\<close> of the refinement leaves out orders that come to rest with a price whose slot is
  taken by a level of the other side or of another price. This theory follows the sell orders among them:
  they are appended to the orders of that level. A sell order at the price of a resting buy order is
  queued with the bids; one whose price equals that of an ask modulo 256 is queued behind that price. In
  either case matching does not look there.
\<close>

section \<open>An order in the level of another price\<close>

lemma addOrder_foreign_run:
  assumes inv: "book_inv b L B Q op" and new: "placed b x y b0" and i: "i \<in> set (L @ B)" and Q: "Q i = f # xs"
    and slot: "aget (slots b) (priceToIndex (o_price y)) = Some i" and y: "in_range y"
  shows "addOrder (Some x) b0 = Inr ((), set_cell x y (append_links x f (last (f # xs)) b0))"
    "added b x y (set_cell x y (append_links x f (last (f # xs)) b0))"
    "index_ok (set_cell x y (append_links x f (last (f # xs)) b0))" "x \<noteq> f" "x \<noteq> last (f # xs)"
proof -
  note lev = book_inv_level [OF inv i] and pl = placed_sel [OF new]
  have ok: "orders_ok b (L @ B) Q" "slots_ok b (L @ B)" "index_ok b" using inv by (simp_all add: book_inv_def)
  have ring: "ring (onext b) (oprev b) (f # xs) (Some f)" and first: "l_first_me_order (lv b i) = Some f"
    using lev(3) Q by (simp_all add: level_orders_ok_def)
  define p where "p = last (f # xs)"
  have p: "oprev b f = Some p" "p \<in> set (Q i)" "f \<in> set (Q i)"
    using ring_prev_hd [OF ring] Q by (simp_all add: p_def)
  have caps: "f < ocap b0" "p < ocap b0" using orders_live(2) [OF ok(1) i] p pl(5) by auto
  have "f \<in> ords b" "p \<in> ords b" using orders_live(1) [OF ok(1) i] p by auto
  then have ne: "x \<noteq> f" "x \<noteq> p" using pl(1) by auto
  then show "x \<noteq> f" "x \<noteq> last (f # xs)" by (simp_all add: p_def)
  let ?b1 = "append_links x f p b0"
  note ap = append_links_sel [OF ne, of b0]
  have get: "getOrdersAtPrice (o_price (od b0 x)) b0 = Inr (Some i, b0)"
    using getOrdersAtPrice_run [of b0 "L @ B"] ok(2) pl(4,7,8) slot by (simp add: slots_ok_def)
  have run: "addOrder (Some x) b0 = bnd (rd_ord (Some x) o_client_id) (\<lambda>c.
      bnd (rd_ord (Some x) o_client_order_id) (\<lambda>i. put_cid_oid c i (Some x))) ?b1"
    using addOrder_existing_run [OF pl(2) caps _ ne get] lev(1) pl(4,7) first p(1) ne by simp
  have "payload (od ?b1 z) = payload (if z = x then y else od b z)" for z
    using same_payloadsD [OF ap(3), of z] pl(4) by simp
  then have "linked b x y ?b1"
    unfolding linked_def using pl ap(4,5,7,11) append_links_sel(12) [OF ne, of b b0] by auto
  note ix = index_step [OF ok(3) this]
  show "addOrder (Some x) b0 = Inr ((), set_cell x y (append_links x f (last (f # xs)) b0))"
    "added b x y (set_cell x y (append_links x f (last (f # xs)) b0))"
    "index_ok (set_cell x y (append_links x f (last (f # xs)) b0))"
    using run ix y by (simp_all add: p_def)
qed

lemma addOrder_foreign_level:
  assumes inv: "book_inv b L B Q op" and new: "placed b x y b0" and i: "i \<in> set (L @ B)"
    and slot: "aget (slots b) (priceToIndex (o_price y)) = Some i" and y: "in_range y"
  shows "\<exists>b'. addOrder (Some x) b0 = Inr ((), b') \<and> added b x y b' \<and> ob_asks_at_price b' = ob_asks_at_price b \<and>
    ob_orders_at_price_pool b' = ob_orders_at_price_pool b \<and> ocap b' = ocap b"
proof -
  obtain f xs where Q: "Q i = f # xs"
    using book_inv_level(3) [OF inv i] by (cases "Q i") (auto simp: level_orders_ok_def)
  note run = addOrder_foreign_run [OF inv new i Q slot y]
  show ?thesis
    using run(1,2) append_links_sel [OF run(4,5), of b0] placed_sel [OF new]
    by (intro exI [of _ "set_cell x y (append_links x f (last (f # xs)) b0)"]) simp
qed

text \<open>\<open>zs\<close> are the orders of level \<open>i\<close>, from the first one round the ring.\<close>

definition queue_of :: "MEOrderBook \<Rightarrow> nat \<Rightarrow> nat list \<Rightarrow> bool" where
  "queue_of b i zs \<longleftrightarrow> zs \<noteq> [] \<and> l_first_me_order (lv b i) = Some (hd zs) \<and> ring (onext b) (oprev b) zs (Some (hd zs))"

text \<open>The new order is the last one of the level, and the others are as they were.\<close>

lemma addOrder_foreign_queue:
  assumes inv: "book_inv b L B Q op" and new: "placed b x y b0" and i: "i \<in> set (L @ B)" and Q: "Q i = f # xs"
    and slot: "aget (slots b) (priceToIndex (o_price y)) = Some i" and y: "in_range y"
  defines "b' \<equiv> set_cell x y (append_links x f (last (f # xs)) b0)"
  shows "queue_of b' i (Q i @ [x])" "lv b' = lv b" "slots b' = slots b"
    "map (\<lambda>z. rest_of (od b' z)) (Q i) = map (\<lambda>z. rest_of (od b z)) (Q i)"
proof -
  note run = addOrder_foreign_run [OF inv new i Q slot y] and lev = book_inv_level [OF inv i] and pl = placed_sel [OF new]
  note ap = append_links_sel [OF run(4,5), of b0]
  have ok: "orders_ok b (L @ B) Q" using inv by (simp add: book_inv_def)
  have ring: "ring (onext b) (oprev b) (f # xs) (Some f)" and first: "l_first_me_order (lv b i) = Some f"
    using lev(3) Q by (simp_all add: level_orders_ok_def)
  show lvs: "lv b' = lv b" "slots b' = slots b" using ap(7,10) pl(7,8) by (simp_all add: b'_def)
  have live: "z \<in> ords b" if "z \<in> set (Q i)" for z using orders_live(1) [OF ok i] that by blast
  then have "x \<notin> set (f # xs)" using pl(1) Q by auto
  from ring_append [OF ring this ring_prev_hd(1) [OF ring]]
  have "ring ((onext b)(x := Some f, last (f # xs) := Some x)) ((oprev b)(x := Some (last (f # xs)), f := Some x))
      (f # xs @ [x]) (Some f)" by simp
  moreover have "ring (onext b') (oprev b') (f # xs @ [x]) (Some f) = ring ((onext b)(x := Some f, last (f # xs) := Some x))
      ((oprev b)(x := Some (last (f # xs)), f := Some x)) (f # xs @ [x]) (Some f)"
  proof (rule ring_cong)
    fix a
    show "onext b' a = ((onext b)(x := Some f, last (f # xs) := Some x)) a"
      "oprev b' a = ((oprev b)(x := Some (last (f # xs)), f := Some x)) a"
      using fun_cong [OF ap(1), of a] fun_cong [OF ap(2), of a] pl(4) by (simp_all add: b'_def)
  qed
  ultimately show "queue_of b' i (Q i @ [x])" using Q first lvs(1) by (simp add: queue_of_def)
  have "rest_of (od b' z) = rest_of (od b z)" if "z \<in> set (Q i)" for z
  proof -
    have "payload (od b' z) = payload (od b z)" using run(2) live [OF that] by (simp add: added_def b'_def)
    from payload_eqD [OF this] show ?thesis by (simp add: rest_of_def)
  qed
  then show "map (\<lambda>z. rest_of (od b' z)) (Q i) = map (\<lambda>z. rest_of (od b z)) (Q i)" by simp
qed

text \<open>The price of the order at the head of the best ask level.\<close>

definition front_ask :: "MEOrderBook \<Rightarrow> Price \<Rightarrow> bool" where
  "front_ask b p \<longleftrightarrow> (\<exists>i f. ob_asks_at_price b = Some i \<and> i < lcap b \<and> l_first_me_order (lv b i) = Some f \<and>
     f < ocap b \<and> o_price (od b f) = p)"

lemma no_match_behind_front:
  assumes "front_ask (cx_book c) p" "sint price < sint p"
  shows "checkForMatch cl coid t BUY price qty mo c = Inr (qty, c)"
proof -
  obtain i f where f: "ob_asks_at_price (cx_book c) = Some i" "i < lcap (cx_book c)"
    "l_first_me_order (lv (cx_book c) i) = Some f" "f < ocap (cx_book c)" "o_price (od (cx_book c) f) = p"
    using assms(1) by (auto simp: front_ask_def)
  have "on_book (rd ob_asks_at_price) c = Inr (Some i, c)" "on_book (rd_lvl (Some i) l_first_me_order) c = Inr (Some f, c)"
    "on_book (rd_ord (Some f) o_price) c = Inr (p, c)"
    using f by (simp_all add: on_book_run rd_lvl_run rd_ord_run)
  then have "buy_round cl coid t price m qty c = Inr (None, c)" for m
    using assms(2) by (simp add: buy_round_def bnd_Inr)
  then have "buy_loop cl coid t price m qty c = Inr (qty, c)" for m
    by (subst buy_loop.simps) simp
  then show ?thesis by (simp add: checkForMatch_def bnd_Inr)
qed

text \<open>No ask that a buy order at \<open>price\<close> would find.\<close>

definition asks_above :: "MEOrderBook \<Rightarrow> Price \<Rightarrow> bool" where
  "asks_above b price \<longleftrightarrow> ob_asks_at_price b = None \<or> (\<exists>p. front_ask b p \<and> sint price < sint p)"

lemma no_match_below:
  assumes "asks_above (cx_book c) price"
  shows "checkForMatch cl coid t BUY price qty mo c = Inr (qty, c)"
proof (cases "ob_asks_at_price (cx_book c) = None")
  case True
  then have "buy_loop cl coid t price m qty c = Inr (qty, c)" for m by (subst buy_loop.simps) simp
  then show ?thesis by (simp add: checkForMatch_def bnd_Inr)
next
  case False
  then show ?thesis using assms no_match_behind_front by (auto simp: asks_above_def)
qed

lemma book_rep_front:
  assumes rep: "book_rep b A L B Q" and "L = i # Ls"
  shows "\<exists>f. ob_asks_at_price b = Some i \<and> i < lcap b \<and> l_first_me_order (lv b i) = Some f \<and> f < ocap b \<and> f \<in> ords b \<and>
    o_price (od b f) = lprice b i \<and> ab_asks A \<noteq> [] \<and> lprice b i = fst (hd (ab_asks A))"
proof -
  have inv: "book_inv b L B Q (ab_open A)" and view: "ab_asks A = view b Q L" using rep by (simp_all add: book_rep_def)
  have i: "i \<in> set (L @ B)" using assms(2) by simp
  note lev = book_inv_level [OF inv i]
  obtain f xs where Q: "Q i = f # xs" using lev(3) by (cases "Q i") (auto simp: level_orders_ok_def)
  have "orders_ok b (L @ B) Q" using inv by (simp add: book_inv_def)
  then have "f < ocap b" "f \<in> ords b" using orders_live i Q by auto
  then show ?thesis
    using lev(1,3) Q inv assms(2) view by (auto simp: level_orders_ok_def book_inv_def links_ok_def view_def)
qed

lemma book_rep_asks_above:
  assumes rep: "book_rep b A L B Q" and above: "\<forall>l \<in> set (ab_asks A). sint price < sint (fst l)"
    and same: "ob_asks_at_price b' = ob_asks_at_price b" "ob_orders_at_price_pool b' = ob_orders_at_price_pool b" "ocap b' = ocap b"
      "\<forall>z \<in> ords b. o_price (od b' z) = o_price (od b z)"
  shows "asks_above b' price"
proof (cases L)
  case Nil
  then have "ob_asks_at_price b = None" using rep by (simp add: book_rep_def book_inv_def links_ok_def)
  then show ?thesis using same(1) by (simp add: asks_above_def)
next
  case (Cons i Ls)
  from book_rep_front [OF rep Cons] obtain f where f: "ob_asks_at_price b = Some i" "i < lcap b" "l_first_me_order (lv b i) = Some f"
    "f < ocap b" "f \<in> ords b" "o_price (od b f) = lprice b i" "ab_asks A \<noteq> []" "lprice b i = fst (hd (ab_asks A))" by blast
  have "sint price < sint (lprice b i)" unfolding f(8) using above f(7) by simp
  moreover have "front_ask b' (lprice b i)"
    unfolding front_ask_def using f same by (intro exI [of _ i] exI [of _ f]) simp
  ultimately show ?thesis by (auto simp: asks_above_def)
qed

lemma rest_order_foreign_run:
  assumes rep: "book_rep (cx_book c) A L B Q" and wf: "wf_queues c" and i: "i \<in> set (L @ B)" and Q: "Q i = f # xs"
    and slot: "priceToIndex p' = priceToIndex (lprice (cx_book c) i)" and ids: "ids_in_range cl coid"
    and room: "length (book_orders A) + 1 < ME_MAX_ORDER_IDS"
  shows "\<exists>x y b0 u. placed (cx_book c) x y b0 \<and> in_range y \<and> o_price y = p' \<and> o_side y = s \<and> o_qty y = l \<and>
    o_client_id y = cl \<and> o_client_order_id y = coid \<and> o_market_order_id y = mo \<and>
    rest_order cl coid t s p' mo l c = Inr ((), put_upd u (c\<lparr>cx_book := set_cell x y (append_links x f (last (f # xs)) b0)\<rparr>))"
proof -
  let ?b = "cx_book c"
  have inv: "book_inv ?b L B Q (ab_open A)" using rep by (simp add: book_rep_def)
  have pool: "pool_ok (ob_order_pool ?b)" "ocap ?b = ME_MAX_ORDER_IDS" and orders: "orders_ok ?b (L @ B) Q"
    and slots: "slots_ok ?b (L @ B)" using inv by (simp_all add: book_inv_def)
  note lev = book_inv_level [OF inv i]
  then have here: "aget (slots ?b) (priceToIndex p') = Some i" using slot by simp
  have ring: "ring (onext ?b) (oprev ?b) (f # xs) (Some f)" and first: "l_first_me_order (lv ?b i) = Some f"
    using lev(3) Q by (simp_all add: level_orders_ok_def)
  have caps: "f < ocap ?b" "last (f # xs) < ocap ?b"
    using orders_live [OF orders i] Q by simp_all
  obtain prio where "getNextPriority p' ?b = Inr (prio, ?b)"
    using getOrdersAtPrice_run [OF slots, of p'] here lev(1) first caps ring_prev_hd [OF ring]
    by (simp add: getNextPriority_def bnd_def rd_lvl_run rd_ord_run)
  then have prio: "bnd (on_book (getNextPriority p')) g c = g prio c" for g by (simp add: on_book_run bnd_def)
  let ?y = "order_of s p' t \<lparr>r_client = cl, r_oid = coid, r_moid = mo, r_qty = l, r_prio = prio\<rparr>"
  have "card (ords ?b) + 1 \<noteq> ME_MAX_ORDER_IDS" using room sizes(1) [OF rep] by simp
  then obtain x pl where al: "allocate ?y (ob_order_pool ?b) = Inr (Some x, pl)" and
    pl: "pool_ok pl" "pool_live pl = insert x (ords ?b)" "pool_obj pl = (od ?b)(x := ?y)" "pool_cap pl = ocap ?b"
      "x = pool_next_free_index (ob_order_pool ?b)"
    using allocate_cases [OF pool(1), of ?y] pool(2) by auto
  let ?placed = "?b\<lparr>ob_order_pool := pl\<rparr>"
  have "x \<notin> ords ?b" "x < ocap ?b" using pool(1) pl(5) by (simp_all add: pool_ok_def)
  then have new: "placed ?b x ?y ?placed" unfolding placed_def using pl(1-4) by (intro conjI exI [of _ pl]) simp_all
  have y: "in_range ?y" "o_price ?y = p'" "o_side ?y = s" "o_qty ?y = l" "o_client_id ?y = cl" "o_client_order_id ?y = coid" "o_market_order_id ?y = mo"
    using ids by (simp_all add: in_range_def ids_in_range_def order_of_def)
  have "aget (slots ?b) (priceToIndex (o_price ?y)) = Some i" using here y(2) by simp
  note add = addOrder_foreign_run(1) [OF inv new i Q this y(1)]
  let ?b' = "set_cell x ?y (append_links x f (last (f # xs)) ?placed)"
  let ?m = "bnd (on_ord_pool (allocate ?y)) addOrder"
  have m: "sq (on_book ?m) g c = g (c\<lparr>cx_book := ?b'\<rparr>)" for g
    using al add by (simp add: on_book_run bnd_def sq_def on_ord_pool_def zoom_def)
  obtain u where "rest_order cl coid t s p' mo l c = Inr ((), put_upd u (c\<lparr>cx_book := ?b'\<rparr>))"
    using publish_run(3) [of "c\<lparr>cx_book := ?b'\<rparr>"] wf by (force simp: rest_order_def prio m)
  with new y show ?thesis by (intro exI conjI) assumption+
qed

text \<open>A level of the abstract book: of side \<open>s\<close>, with price \<open>p\<close> and the orders \<open>os\<close>.\<close>

definition holds_level :: "abook \<Rightarrow> Side \<Rightarrow> Price \<Rightarrow> resting list \<Rightarrow> bool" where
  "holds_level A s p os \<longleftrightarrow> s = BUY \<and> (p, os) \<in> set (ab_bids A) \<or> s = SELL \<and> (p, os) \<in> set (ab_asks A)"

text \<open>The order of block \<open>x\<close> is the last one in such a level, which has the slot of its price.\<close>

definition queued_last :: "MEOrderBook \<Rightarrow> nat \<Rightarrow> Side \<Rightarrow> Price \<Rightarrow> resting list \<Rightarrow> bool" where
  "queued_last b x s p os \<longleftrightarrow> (\<exists>i zs. aget (slots b) (priceToIndex (o_price (od b x))) = Some i \<and> lprice b i = p \<and> lside b i = s \<and>
     queue_of b i (zs @ [x]) \<and> map (\<lambda>z. rest_of (od b z)) zs = os)"

lemma queued_last_message [simp]: "queued_last (b\<lparr>ob_market_update := u\<rparr>) x s p os = queued_last b x s p os"
  by (simp add: queued_last_def queue_of_def)

lemma rest_order_foreign:
  assumes rep: "book_rep (cx_book c) A L B Q" and wf: "wf_queues c" and taken: "holds_level A s p os"
    and slot: "priceToIndex p' = priceToIndex p" and ids: "ids_in_range cl coid"
    and room: "length (book_orders A) + 1 < ME_MAX_ORDER_IDS"
  shows "\<exists>c'. rest_order cl coid t SELL p' mo l c = Inr ((), c') \<and>
    (\<exists>x. cell (cx_book c') cl coid = Some x \<and> o_price (od (cx_book c') x) = p' \<and> o_side (od (cx_book c') x) = SELL \<and>
      o_qty (od (cx_book c') x) = l \<and> queued_last (cx_book c') x s p os) \<and>
    (\<forall>price. (\<forall>l \<in> set (ab_asks A). sint price < sint (fst l)) \<longrightarrow> asks_above (cx_book c') price)"
proof -
  let ?b = "cx_book c"
  have inv: "book_inv ?b L B Q (ab_open A)" and view: "ab_asks A = view ?b Q L" "ab_bids A = view ?b Q B"
    using rep by (simp_all add: book_rep_def)
  have "\<forall>i \<in> set L. lside ?b i = SELL" "\<forall>i \<in> set B. lside ?b i = BUY" using inv by (simp_all add: book_inv_def links_ok_def)
  then obtain i where i: "i \<in> set (L @ B)" "lprice ?b i = p" "lside ?b i = s" "map (\<lambda>z. rest_of (od ?b z)) (Q i) = os"
    using taken view by (auto simp: holds_level_def view_def)
  obtain f xs where Q: "Q i = f # xs"
    using book_inv_level(3) [OF inv i(1)] by (cases "Q i") (auto simp: level_orders_ok_def)
  obtain x y b0 u where y: "placed ?b x y b0" "in_range y" "o_price y = p'" "o_side y = SELL" "o_qty y = l"
      "o_client_id y = cl" "o_client_order_id y = coid"
    and run: "rest_order cl coid t SELL p' mo l c = Inr ((), put_upd u (c\<lparr>cx_book := set_cell x y (append_links x f (last (f # xs)) b0)\<rparr>))"
    using rest_order_foreign_run [OF rep wf i(1) Q _ ids room, of p' SELL] slot i(2) by blast
  let ?b' = "set_cell x y (append_links x f (last (f # xs)) b0)"
  have here: "aget (slots ?b) (priceToIndex (o_price y)) = Some i"
    using book_inv_level(4) [OF inv i(1)] slot i(2) y(3) by simp
  note add = addOrder_foreign_run [OF inv y(1) i(1) Q here y(2)] and queue = addOrder_foreign_queue [OF inv y(1) i(1) Q here y(2)]
  have same: "ob_asks_at_price ?b' = ob_asks_at_price ?b" "ob_orders_at_price_pool ?b' = ob_orders_at_price_pool ?b" "ocap ?b' = ocap ?b"
    using append_links_sel [OF add(4,5), of b0] placed_sel [OF y(1)] by simp_all
  have pay: "payload (od ?b' x) = payload y" "\<forall>z \<in> ords ?b. payload (od ?b' z) = payload (od ?b z)" "cell ?b' cl coid = Some x"
    using add(2) y(6,7) by (simp_all add: added_def)
  note new = payload_eqD(5-7) [OF pay(1)]
  have last: "queued_last ?b' x s p os"
    unfolding queued_last_def using queue i new(2) here by (intro exI [of _ i] exI [of _ "Q i"]) simp
  have "\<forall>z \<in> ords ?b. o_price (od ?b' z) = o_price (od ?b z)" using pay(2) payload_eqD(6) by blast
  note above = book_rep_asks_above [OF rep _ same this]
  let ?c' = "put_upd u (c\<lparr>cx_book := ?b'\<rparr>)"
  have "cx_book ?c' = ?b'\<lparr>ob_market_update := u\<rparr>" by (simp add: put_upd_def)
  then have "cell (cx_book ?c') = cell ?b'" "od (cx_book ?c') = od ?b'" "queued_last (cx_book ?c') x s p os"
    "asks_above (cx_book ?c') price = asks_above ?b' price" for price
    using last by (simp_all add: cell_def asks_above_def front_ask_def fun_eq_iff)
  then show ?thesis
    using run pay(3) y(3-5) new above by (intro exI [of _ ?c'] conjI exI [of _ x] allI impI) simp_all
qed

lemma rest_in_taken_slot:
  assumes "book_rel (cx_book c) A" "wf_queues c" "ab_next A \<noteq> -1" "holds_level A s p os"
    "priceToIndex p' = priceToIndex p" "ids_in_range cl coid" "length (book_orders A) + 1 < ME_MAX_ORDER_IDS" "q \<noteq> 0"
  shows "\<exists>c' x. add cl coid t SELL p' q c = Inr ((), c') \<and> cell (cx_book c') cl coid = Some x \<and>
    o_side (od (cx_book c') x) = SELL \<and> o_price (od (cx_book c') x) = p' \<and> o_qty (od (cx_book c') x) = q \<and>
    queued_last (cx_book c') x s p os \<and>
    (\<forall>cl2 coid2 t2 price q2 mo. (\<forall>l \<in> set (ab_asks A). sint price < sint (fst l)) \<longrightarrow>
      checkForMatch cl2 coid2 t2 BUY price q2 mo c' = Inr (q2, c'))"
proof -
  let ?mo = "ab_next A" and ?A1 = "A\<lparr>ab_next := ab_next A + 1\<rparr>"
  have sm: "spec_match SELL p' q ?A1 = (q, ?A1, [])" by (simp add: spec_match_def)
  obtain c2 where run: "add cl coid t SELL p' q c = rest_order cl coid t SELL p' ?mo q c2"
    and c2: "book_rel (cx_book c2) ?A1" "wf_queues c2"
    using add_front [OF assms(1-3) sm, of cl coid t] assms(8) by auto
  obtain L' B' Q' where rep: "book_rep (cx_book c2) ?A1 L' B' Q'" using c2(1) by (auto simp: book_rel_def)
  have "holds_level ?A1 s p os" "length (book_orders ?A1) + 1 < ME_MAX_ORDER_IDS"
    using assms(4,7) by (simp_all add: book_orders_def holds_level_def)
  from rest_order_foreign [OF rep c2(2) this(1) assms(5,6) this(2), of t ?mo q]
  obtain c' x where c': "rest_order cl coid t SELL p' ?mo q c2 = Inr ((), c')" "cell (cx_book c') cl coid = Some x"
    "o_price (od (cx_book c') x) = p'" "o_side (od (cx_book c') x) = SELL" "o_qty (od (cx_book c') x) = q"
    "queued_last (cx_book c') x s p os"
    "\<And>price. (\<forall>l \<in> set (ab_asks ?A1). sint price < sint (fst l)) \<Longrightarrow> asks_above (cx_book c') price" by blast
  have "add cl coid t SELL p' q c = Inr ((), c')" using run c'(1) by simp
  moreover have "checkForMatch cl2 coid2 t2 BUY price q2 m c' = Inr (q2, c')"
    if "\<forall>l \<in> set (ab_asks A). sint price < sint (fst l)" for cl2 coid2 t2 price q2 m
    using no_match_below [OF c'(7)] that by simp
  ultimately show ?thesis using c'(2-6) by blast
qed

section \<open>Properties\<close>

text \<open>
  C23. A sell order that comes to rest at a price whose slot is held by a level of bids, for one by a
  resting buy order at the very same price, or by a level of asks of another price, is accepted and
  entered into the index, but as the last order of that level, behind the orders there. A buy order
  below all asks of before does not find it, and so trades with nothing, even if it is at the price of
  the sell order or above: a buy and a sell order at one price rest side by side.
\<close>

theorem sell_into_taken_slot:
  assumes "book_rel (cx_book c) A" "wf_queues c" "ab_next A \<noteq> -1" "holds_level A s p os" "s = BUY \<or> p' \<noteq> p"
    "priceToIndex p' = priceToIndex p" "ids_in_range cl coid" "length (book_orders A) + 1 < ME_MAX_ORDER_IDS" "q \<noteq> 0"
  shows "\<exists>c' x. add cl coid t SELL p' q c = Inr ((), c') \<and> cell (cx_book c') cl coid = Some x \<and>
    o_side (od (cx_book c') x) = SELL \<and> o_price (od (cx_book c') x) = p' \<and> o_qty (od (cx_book c') x) = q \<and>
    queued_last (cx_book c') x s p os \<and>
    (\<forall>cl2 coid2 t2 price q2 mo. (\<forall>l \<in> set (ab_asks A). sint price < sint (fst l)) \<longrightarrow>
      checkForMatch cl2 coid2 t2 BUY price q2 mo c' = Inr (q2, c'))"
  by (rule rest_in_taken_slot [OF assms(1-4,6-9)])

lemma one_bid_run:
  assumes "(q :: Qty) \<noteq> 0" "ids_in_range cl oid"
  shows "\<exists>c A os. book_rel (cx_book c) A \<and> wf_queues c \<and> ab_next A = 2 \<and> ab_asks A = [] \<and> ab_bids A = [(p, os)] \<and>
    length (book_orders A) = 1"
proof -
  note fresh = fresh_ctx_ok(1) [of 0 8 8] fresh_ctx_ok(2) [of 8 8 0]
  have "\<exists>A os rs us. spec_add cl oid 0 BUY p q empty_book = Inr (A, rs, us) \<and> ab_next A = 2 \<and> ab_asks A = [] \<and>
      ab_bids A = [(p, os)] \<and> length (book_orders A) = 1"
    using assms by (simp add: spec_run_defs empty_book_def Let_def limit_defs after_match_def full_makers_def)
  then obtain A os rs us where A: "spec_add cl oid 0 BUY p q empty_book = Inr (A, rs, us)" "ab_next A = 2" "ab_asks A = []"
      "ab_bids A = [(p, os)]" "length (book_orders A) = 1" by blast
  obtain c where "book_rel (cx_book c) A" "wf_queues c"
    using add_refines_main [OF fresh(1) _ add_ok_empty, of BUY cl oid 0 p q] A(1) fresh(2) sent_wf by fastforce
  then show ?thesis using A by blast
qed

text \<open>A buy order at 100, a sell order at 100, a buy order at 100: nobody trades.\<close>

theorem sell_into_taken_slot_witness:
  "\<exists>c A os c' x. book_rel (cx_book c) A \<and> ab_bids A = [(100, os)] \<and> add 2 8 0 SELL 100 5 c = Inr ((), c') \<and>
     cell (cx_book c') 2 8 = Some x \<and> o_side (od (cx_book c') x) = SELL \<and> queued_last (cx_book c') x BUY 100 os \<and>
     checkForMatch 3 9 0 BUY 100 5 3 c' = Inr (5, c')"
proof -
  obtain c A os where c: "book_rel (cx_book c) A" "wf_queues c" "ab_next A = 2" "ab_asks A = []" "ab_bids A = [(100, os)]"
      "length (book_orders A) = 1"
    using one_bid_run [of 10 1 7 100] by (auto simp: ids_in_range_def limit_defs)
  have pre: "ab_next A \<noteq> -1" "holds_level A BUY 100 os" "ids_in_range 2 8" "length (book_orders A) + 1 < ME_MAX_ORDER_IDS"
    using c(3-6) by (simp_all add: ids_in_range_def limit_defs holds_level_def)
  obtain c' x where run: "add 2 8 0 SELL 100 5 c = Inr ((), c')" "cell (cx_book c') 2 8 = Some x" "o_side (od (cx_book c') x) = SELL"
    "queued_last (cx_book c') x BUY 100 os" "\<forall>cl coid t price q mo. (\<forall>l \<in> set (ab_asks A). sint price < sint (fst l)) \<longrightarrow> checkForMatch cl coid t BUY price q mo c' = Inr (q, c')"
    using sell_into_taken_slot [OF c(1,2) pre(1,2) _ refl pre(3,4), of 5 0] by auto
  then have "checkForMatch 3 9 0 BUY 100 5 3 c' = Inr (5, c')" using c(4) by simp
  then show ?thesis using c(1,5) run(1-4) by blast
qed

text \<open>
  A sell order whose price agrees modulo 256 with that of the best ask is accepted and entered into the
  index, but in the level of the best ask: no buy order below the price of that level trades with it,
  whatever the price of the order itself.
\<close>

theorem colliding_ask_is_hidden:
  assumes "book_rel (cx_book c) A" "wf_queues c" "ab_next A \<noteq> - 1" "ab_asks A = (p, os) # ls"
    "priceToIndex p' = priceToIndex p" "ids_in_range cl coid" "length (book_orders A) + 1 < ME_MAX_ORDER_IDS" "q \<noteq> 0"
  shows "\<exists>c' x. add cl coid t SELL p' q c = Inr ((), c') \<and> cell (cx_book c') cl coid = Some x \<and>
    o_side (od (cx_book c') x) = SELL \<and> o_price (od (cx_book c') x) = p' \<and> o_qty (od (cx_book c') x) = q \<and>
    (\<forall>cl2 coid2 t2 price q2 mo. sint price < sint p \<longrightarrow>
      checkForMatch cl2 coid2 t2 BUY price q2 mo c' = Inr (q2, c'))"
proof -
  have taken: "holds_level A SELL p os" using assms(4) by (simp add: holds_level_def)
  have "sorted_wrt (\<lambda>l m. sint (fst l) < sint (fst m)) (ab_asks A)"
    using assms(1) book_rep_wf by (auto simp: book_rel_def ab_wf_def)
  then have "sint price < sint p \<Longrightarrow> \<forall>l \<in> set (ab_asks A). sint price < sint (fst l)" for price
    using assms(4) by (auto intro: less_trans)
  then show ?thesis
    using rest_in_taken_slot [OF assms(1-3) taken assms(5-8), of t] by metis
qed

theorem colliding_ask_is_hidden_witness:
  "\<exists>c c' x. book_rel (cx_book c) (one_ask 1 7 300 10) \<and> add 2 8 0 SELL 44 5 c = Inr ((), c') \<and>
     cell (cx_book c') 2 8 = Some x \<and> o_price (od (cx_book c') x) = 44 \<and>
     checkForMatch 3 9 0 BUY 100 5 2 c' = Inr (5, c')"
proof -
  obtain c where c: "book_rel (cx_book c) (one_ask 1 7 300 10)" "wf_queues c"
    using one_ask_run [of 8 8 10 1 7 0 300] by (auto simp: ids_in_range_def limit_defs)
  obtain c' x where "add 2 8 0 SELL 44 5 c = Inr ((), c')" "cell (cx_book c') 2 8 = Some x"
    "o_price (od (cx_book c') x) = 44" "\<forall>cl coid t price q mo. sint price < sint (300 :: Price) \<longrightarrow>
      checkForMatch cl coid t BUY price q mo c' = Inr (q, c')"
    using colliding_ask_is_hidden [OF c, of 300 _ _ 44 2 8 5 0]
    by (auto simp: one_ask_def priceToIndex_def ids_in_range_def book_orders_def orders_of_def limit_defs)
  moreover from this(4) have "checkForMatch 3 9 0 BUY 100 5 2 c' = Inr (5, c')" by simp
  ultimately show ?thesis using c(1) by blast
qed

end
