(* ===== verification/Shared_Levels.thy ===== *)
theory Shared_Levels
  imports Price_Collision
begin

text \<open>
  Levels that hold orders \<open>addOrder\<close> of \<open>me_order_book.h\<close> has queued there because of their slot, whatever
  the side and the price of the level: two orders in a level, how the second one enters it, how each of
  them leaves it, and what becomes of the index.
\<close>

section \<open>One order in a level, and two\<close>

text \<open>\<open>x\<close> alone in level \<open>i\<close>; \<open>f\<close> and then \<open>x\<close> in level \<open>i\<close>.\<close>

definition alone_in :: "MEOrderBook \<Rightarrow> nat \<Rightarrow> nat \<Rightarrow> bool" where
  "alone_in b i x \<longleftrightarrow> index_ok b \<and> alen (slots b) = ME_MAX_PRICE_LEVELS \<and> i < lcap b \<and> x \<in> ords b \<and>
     l_first_me_order (lv b i) = Some x \<and> oprev b x = Some x \<and> aget (slots b) (priceToIndex (o_price (od b x))) = Some i"

definition shared_level :: "MEOrderBook \<Rightarrow> nat \<Rightarrow> nat \<Rightarrow> nat \<Rightarrow> bool" where
  "shared_level b i f x \<longleftrightarrow> index_ok b \<and> alen (slots b) = ME_MAX_PRICE_LEVELS \<and> i < lcap b \<and> x \<in> ords b \<and> f \<in> ords b \<and> f \<noteq> x \<and>
     l_first_me_order (lv b i) = Some f \<and> onext b f = Some x \<and> oprev b f = Some x \<and> onext b x = Some f \<and> oprev b x = Some f \<and>
     aget (slots b) (priceToIndex (o_price (od b f))) = Some i \<and> aget (slots b) (priceToIndex (o_price (od b x))) = Some i"

lemma shared_messages [simp]:
  "alone_in (b\<lparr>ob_client_response := r\<rparr>) i x = alone_in b i x"
  "alone_in (b\<lparr>ob_market_update := u\<rparr>) i x = alone_in b i x"
  "shared_level (b\<lparr>ob_client_response := r\<rparr>) i f x = shared_level b i f x"
  "shared_level (b\<lparr>ob_market_update := u\<rparr>) i f x = shared_level b i f x"
  by (simp_all add: alone_in_def shared_level_def index_ok_def cell_def)

lemma get_level: "alen (slots b) = ME_MAX_PRICE_LEVELS \<Longrightarrow> getOrdersAtPrice p b = Inr (aget (slots b) (priceToIndex p), b)"
  by (simp add: getOrdersAtPrice_def bnd_def arr_at_def)

text \<open>The index entry of an order is cleared, and nothing else in the index changes.\<close>

definition forgets :: "nat \<Rightarrow> MEOrderBook \<Rightarrow> MEOrderBook \<Rightarrow> bool" where
  "forgets x b b' \<longleftrightarrow> (\<forall>c o'. cell b' c o' =
     (if c = o_client_id (od b x) \<and> o' = o_client_order_id (od b x) then None else cell b c o'))"

lemma forgets_messages [simp]:
  "forgets x (b\<lparr>ob_client_response := r\<rparr>) b' = forgets x b b'"
  "forgets x (b\<lparr>ob_market_update := u\<rparr>) b' = forgets x b b'"
  by (simp_all add: forgets_def cell_def)

text \<open>The order in front leaves: the other one stays alone, and the level is untouched but for its first order.\<close>

lemma remove_first:
  assumes "shared_level b i f x"
  shows "\<exists>b'. removeOrder (Some f) b = Inr ((), b') \<and> alone_in b' i x \<and> forgets f b b' \<and>
    payload (od b' x) = payload (od b x) \<and> lvls b' = lvls b \<and> lnext b' = lnext b \<and> ob_asks_at_price b' = ob_asks_at_price b"
proof -
  have g: "index_ok b" "alen (slots b) = ME_MAX_PRICE_LEVELS" "i < lcap b" "x \<in> ords b"
      "aget (slots b) (priceToIndex (o_price (od b x))) = Some i"
    and f: "f \<in> ords b" "f \<noteq> x" "l_first_me_order (lv b i) = Some f" "onext b f = Some x" "oprev b f = Some x"
      "onext b x = Some f" "oprev b x = Some f" "aget (slots b) (priceToIndex (o_price (od b f))) = Some i"
    using assms by (simp_all add: shared_level_def)
  have caps: "f < ocap b" "x < ocap b" using g(4) f(1) mp.in_use_bound by auto
  have "getOrdersAtPrice (o_price (od b f)) b = Inr (Some i, b)" using get_level [OF g(2)] f(8) by simp
  from unlink_order_run [OF caps(1,2,2) f(5,4) f(2) [symmetric] f(2) [symmetric] this g(3)]
  obtain b1 where run: "removeOrder (Some f) b = sq (bnd (rd_ord (Some f) o_client_id) (\<lambda>c.
        bnd (rd_ord (Some f) o_client_order_id) (\<lambda>i. put_cid_oid c i None))) (on_ord_pool (deallocate (Some f))) b1"
    and b1: "onext b1 = (onext b)(x := Some x, f := None)" "oprev b1 = (oprev b)(x := Some x, f := None)"
      "same_payloads b b1" "ords b1 = ords b" "ocap b1 = ocap b"
      "lv b1 = (lv b)(i := (lv b i)\<lparr>l_first_me_order :=
         if l_first_me_order (lv b i) = Some f then Some x else l_first_me_order (lv b i)\<rparr>)"
      "lvls b1 = lvls b" "lcap b1 = lcap b" "slots b1 = slots b" "ob_cid_oid_to_order b1 = ob_cid_oid_to_order b"
      "ob_asks_at_price b1 = ob_asks_at_price b"
    by blast
  have pay: "payload (od b1 z) = payload (od b z)" for z by (rule same_payloadsD [OF b1(3)])
  note sel = payload_eqD [OF pay]
  have ix1: "index_ok b1" by (rule index_ok_cong [OF g(1) b1(10,4,3)])
  have f1: "f \<in> ords b1" using f(1) b1(4) by simp
  obtain pl where drop: "sq (bnd (rd_ord (Some f) o_client_id) (\<lambda>c. bnd (rd_ord (Some f) o_client_order_id)
           (\<lambda>i. put_cid_oid c i None))) (on_ord_pool (deallocate (Some f))) b1
      = Inr ((), b1\<lparr>ob_cid_oid_to_order := clear_cell f b1, ob_order_pool := pl\<rparr>)"
    "pool_live pl = ords b1 - {f}" "pool_obj pl = od b1" "pool_cap pl = ocap b1"
    using drop_order [OF ix1 f1] by blast
  let ?b = "b1\<lparr>ob_cid_oid_to_order := clear_cell f b1, ob_order_pool := pl\<rparr>"
  have "index_ok ?b" by (rule index_ok_clear [OF ix1 f1 drop(2,3)])
  moreover have "oprev ?b x = Some x" using fun_cong [OF b1(2), of x] f(2) drop(3) by simp
  ultimately have "alone_in ?b i x"
    using g f(2,3) b1 drop sel(6) [of x] by (simp add: alone_in_def)
  moreover have "forgets f b ?b"
    using b1(10) sel(2,3) [of f] by (simp add: forgets_def cell_clear) (simp add: cell_def)
  moreover have "payload (od ?b x) = payload (od b x)" using pay drop(3) by simp
  moreover have "lnext ?b = lnext b" using b1(6) by (auto simp: fun_eq_iff)
  ultimately show ?thesis using run drop(1) b1(7,11) by (intro exI [of _ ?b]) simp
qed

text \<open>The last order leaves a level that is linked to itself: the level goes too, with the side of the order.\<close>

lemma remove_last:
  assumes "alone_in b i x" "i \<in> lvls b" "lnext b i = Some i"
  shows "\<exists>b'. removeOrder (Some x) b = Inr ((), b') \<and> forgets x b b' \<and>
    ob_asks_at_price b' = (if o_side (od b x) = BUY then ob_asks_at_price b else None) \<and>
    alen (slots b') = ME_MAX_PRICE_LEVELS \<and> aget (slots b') (priceToIndex (o_price (od b x))) = None \<and>
    lv b' = lv b \<and> lcap b' = lcap b \<and> od b' = od b \<and> ocap b' = ocap b \<and> i \<notin> lvls b' \<and> x \<notin> ords b'"
proof -
  have g: "index_ok b" "alen (slots b) = ME_MAX_PRICE_LEVELS" "i < lcap b" "x \<in> ords b" "oprev b x = Some x"
      "aget (slots b) (priceToIndex (o_price (od b x))) = Some i"
    using assms(1) by (simp_all add: alone_in_def)
  have cap: "x < ocap b" using g(4) mp.in_use_bound by auto
  note get = get_level [OF g(2)]
  have "getOrdersAtPrice (o_price (od b x)) b = Inr (Some i, b)" using get g(6) by simp
  note run = removeOrder_single_run [OF cap g(5) this]
  let ?p = "o_price (od b x)" and ?asks = "if o_side (od b x) = BUY then ob_asks_at_price b else None"
  let ?b1 = "b\<lparr>ob_asks_at_price := ?asks, ob_price_orders_at_price_hash_map := arr_put (priceToIndex ?p) None (slots b)\<rparr>"
  obtain pl where pl: "deallocate (Some i) (ob_orders_at_price_pool b) = Inr ((), pl)" "pool_live pl = lvls b - {i}"
      "pool_obj pl = lv b" "pool_cap pl = lcap b"
    using mp.release_used [OF assms(2)] by blast
  have level: "removeOrdersAtPrice (o_side (od b x)) ?p b = Inr ((), ?b1\<lparr>ob_orders_at_price_pool := pl\<rparr>)"
    using g assms(3) pl(1) get
    by (simp add: removeOrdersAtPrice_def bnd_def sq_def rd_lvl_run set_best_def put_price_slot_def arr_at_def on_lvl_pool_def zoom_def)
  let ?b2 = "?b1\<lparr>ob_orders_at_price_pool := pl\<rparr>"
  have ix2: "index_ok ?b2" using g(1) by (simp add: index_ok_def cell_def)
  have x2: "x \<in> ords ?b2" using g(4) by simp
  obtain pl2 where pl2: "sq (bnd (rd_ord (Some x) o_client_id) (\<lambda>c. bnd (rd_ord (Some x) o_client_order_id)
           (\<lambda>i. put_cid_oid c i None))) (on_ord_pool (deallocate (Some x))) ?b2
      = Inr ((), ?b2\<lparr>ob_cid_oid_to_order := clear_cell x ?b2, ob_order_pool := pl2\<rparr>)"
    "pool_live pl2 = ords ?b2 - {x}" "pool_obj pl2 = od ?b2" "pool_cap pl2 = ocap ?b2"
    using drop_order [OF ix2 x2] by blast
  let ?b' = "?b2\<lparr>ob_cid_oid_to_order := clear_cell x ?b2, ob_order_pool := pl2\<rparr>"
  have "forgets x b ?b'" by (simp add: forgets_def cell_clear) (simp add: cell_def)
  then show ?thesis
    using run level pl pl2 g(2) by (intro exI [of _ ?b']) simp
qed

section \<open>An order joins the only order of a level\<close>

lemma joins_level:
  assumes rep: "book_rep b A L B Q" and new: "placed b x y b0" and i: "i \<in> set (L @ B)" and Q: "Q i = [f]"
    and slot: "aget (slots b) (priceToIndex (o_price y)) = Some i" and y: "in_range y"
  shows "shared_level (set_cell x y (append_links x f f b0)) i f x"
    "payload (od (set_cell x y (append_links x f f b0)) x) = payload y"
    "payload (od (set_cell x y (append_links x f f b0)) f) = payload (od b f)"
    "ob_orders_at_price_pool (set_cell x y (append_links x f f b0)) = ob_orders_at_price_pool b"
    "ob_asks_at_price (set_cell x y (append_links x f f b0)) = ob_asks_at_price b"
proof -
  have inv: "book_inv b L B Q (ab_open A)" using rep by (simp add: book_rep_def)
  note lev = book_inv_level [OF inv i] and pl = placed_sel [OF new]
  have f: "f \<in> ords b" "o_price (od b f) = lprice b i" using book_inv_order [OF inv i, of f] Q by simp_all
  have len: "alen (slots b) = ME_MAX_PRICE_LEVELS" and first: "l_first_me_order (lv b i) = Some f"
    using inv lev(3) Q by (simp_all add: book_inv_def slots_ok_def level_orders_ok_def)
  note add = addOrder_foreign_run [OF inv new i Q slot y, simplified]
  let ?b = "set_cell x y (append_links x f f b0)"
  note ap = append_links_sel [OF add(4,4), of b0]
  show pay: "payload (od ?b x) = payload y" "payload (od ?b f) = payload (od b f)"
    using add(2) f(1) by (simp_all add: added_def)
  show "ob_orders_at_price_pool ?b = ob_orders_at_price_pool b" "ob_asks_at_price ?b = ob_asks_at_price b"
    using ap(7,9) pl(7,10) by simp_all
  have "ords ?b = insert x (ords b)" using add(2) by (simp add: added_def)
  moreover have "onext ?b f = Some x" "onext ?b x = Some f" "oprev ?b f = Some x" "oprev ?b x = Some f"
    using fun_cong [OF ap(1)] fun_cong [OF ap(2)] add(4) by simp_all
  ultimately show "shared_level ?b i f x"
    using add(3,4) ap(4,7,10) pl len first lev f slot payload_eqD(6) [OF pay(1)] payload_eqD(6) [OF pay(2)]
    by (simp add: shared_level_def)
qed

section \<open>The index\<close>

lemma rep_known:
  assumes rep: "book_rep b A L B Q" and z: "z \<in> ords b" and "ab_index A (cl, oid) = Some (moid b z)"
  shows "cell b cl oid = Some z" "o_client_id (od b z) = cl" "o_client_order_id (od b z) = oid"
proof -
  have ix: "index_ok b" using rep by (simp add: book_rep_def book_inv_def)
  have "ab_index A (cl, oid) = (if unat cl < ME_MAX_NUM_CLIENTS \<and> unat oid < ME_MAX_ORDER_IDS
      then map_option (moid b) (cell b cl oid) else None)"
    using rep unfolding book_rep_def index_rel_def by blast
  then obtain w where w: "unat cl < ME_MAX_NUM_CLIENTS" "unat oid < ME_MAX_ORDER_IDS" "cell b cl oid = Some w" "moid b w = moid b z"
    using assms(3) by (cases "cell b cl oid") (auto split: if_splits)
  then have "w \<in> ords b" "o_client_id (od b w) = cl" "o_client_order_id (od b w) = oid"
    using ix unfolding index_ok_def by blast+
  moreover have "w = z" using rep w(4) calculation(1) z by (auto simp: book_rep_def ids_ok_def inj_on_def)
  ultimately show "cell b cl oid = Some z" "o_client_id (od b z) = cl" "o_client_order_id (od b z) = oid"
    using w(3) by simp_all
qed

text \<open>Every client order of the index of \<open>A\<close>, but those in \<open>X\<close>, is in that of \<open>b\<close>.\<close>

definition still_known :: "abook \<Rightarrow> (ClientId \<times> OrderId) set \<Rightarrow> MEOrderBook \<Rightarrow> bool" where
  "still_known A X b \<longleftrightarrow> (\<forall>k. k \<notin> X \<longrightarrow> ab_index A k \<noteq> None \<longrightarrow> cell b (fst k) (snd k) \<noteq> None)"

lemma still_known_forgets:
  assumes "still_known A X b" "forgets x b b'"
  shows "still_known A (insert (o_client_id (od b x), o_client_order_id (od b x)) X) b'"
  using assms by (auto simp: still_known_def forgets_def)

lemma rep_still_known:
  assumes "book_rep b A L B Q" "added b x y b'"
  shows "still_known A {} b'"
proof -
  have "ab_index A k = (if unat (fst k) < ME_MAX_NUM_CLIENTS \<and> unat (snd k) < ME_MAX_ORDER_IDS
      then map_option (moid b) (cell b (fst k) (snd k)) else None)" for k
    using assms(1) unfolding book_rep_def index_rel_def by (cases k) auto
  moreover have "cell b (fst k) (snd k) \<noteq> None \<Longrightarrow> cell b' (fst k) (snd k) \<noteq> None" for k
    using assms(2) by (auto simp: added_def)
  ultimately show ?thesis by (auto simp: still_known_def split: if_splits)
qed

end
