(* ===== verification/Guest_Orders.thy ===== *)
theory Guest_Orders
  imports Shared_Levels
begin

text \<open>
  What becomes of a sell order that \<open>addOrder\<close> of \<open>me_order_book.h\<close> queues in the level of a buy order. When
  both have been cancelled, \<open>removeOrder\<close> removes the level with the side of the sell order, and
  \<open>removeOrdersAtPrice\<close> clears \<open>asks_at_price_\<close>, as the level is the only one in its ring.
\<close>

section \<open>A level of the bids with a sell order\<close>

text \<open>\<open>f\<close> and then \<open>x\<close>, a sell order, in level \<open>i\<close>, the only one in its ring; and \<open>x\<close> alone.\<close>

definition guest_level :: "MEOrderBook \<Rightarrow> nat \<Rightarrow> nat \<Rightarrow> bool" where
  "guest_level b i x \<longleftrightarrow> alone_in b i x \<and> i \<in> lvls b \<and> lnext b i = Some i \<and> o_side (od b x) = SELL"

definition with_guest :: "MEOrderBook \<Rightarrow> nat \<Rightarrow> nat \<Rightarrow> nat \<Rightarrow> bool" where
  "with_guest b i f x \<longleftrightarrow> shared_level b i f x \<and> i \<in> lvls b \<and> lnext b i = Some i \<and> o_side (od b x) = SELL"

lemma guest_messages [simp]:
  "guest_level (b\<lparr>ob_client_response := r\<rparr>) i x = guest_level b i x"
  "with_guest (b\<lparr>ob_client_response := r\<rparr>) i f x = with_guest b i f x"
  "guest_level (b\<lparr>ob_market_update := u\<rparr>) i x = guest_level b i x"
  "with_guest (b\<lparr>ob_market_update := u\<rparr>) i f x = with_guest b i f x"
  by (simp_all add: guest_level_def with_guest_def)

lemma remove_host:
  assumes "with_guest b i f x"
  shows "\<exists>b'. removeOrder (Some f) b = Inr ((), b') \<and> guest_level b' i x \<and> forgets f b b' \<and> payload (od b' x) = payload (od b x)"
proof -
  have w: "shared_level b i f x" "i \<in> lvls b" "lnext b i = Some i" "o_side (od b x) = SELL"
    using assms by (simp_all add: with_guest_def)
  obtain b' where "removeOrder (Some f) b = Inr ((), b')" "alone_in b' i x" "forgets f b b'" and pay: "payload (od b' x) = payload (od b x)"
    and "lvls b' = lvls b" "lnext b' = lnext b"
    using remove_first [OF w(1)] by blast
  then show ?thesis
    using w payload_eqD(5) [OF pay] by (intro exI [of _ b']) (simp add: guest_level_def fun_eq_iff)
qed

lemma remove_guest:
  assumes "guest_level b i x"
  shows "\<exists>b'. removeOrder (Some x) b = Inr ((), b') \<and> ob_asks_at_price b' = None \<and> forgets x b b'"
proof -
  have "alone_in b i x" "i \<in> lvls b" "lnext b i = Some i" "o_side (od b x) = SELL"
    using assms by (simp_all add: guest_level_def)
  then show ?thesis using remove_last [of b i x] by auto
qed

section \<open>Cancelling\<close>

lemma cancel_known_run:
  assumes "index_ok (cx_book c)" "unat cl < ME_MAX_NUM_CLIENTS" "unat oid < ME_MAX_ORDER_IDS"
    "cell (cx_book c) cl oid = Some x" "wf_queues c"
    "\<And>r u. \<exists>b'. removeOrder (Some x) ((cx_book c)\<lparr>ob_client_response := r, ob_market_update := u\<rparr>) = Inr ((), b') \<and> P b'"
  shows "\<exists>c'. cancel cl oid t c = Inr ((), c') \<and> P (cx_book c') \<and> wf_queues c'"
proof -
  let ?b = "cx_book c"
  have len: "alen (ob_cid_oid_to_order ?b) = ME_MAX_NUM_CLIENTS" "alen (aget (ob_cid_oid_to_order ?b) (unat cl)) = ME_MAX_ORDER_IDS"
    using assms(1,2) by (simp_all add: index_ok_def)
  have "x \<in> ords ?b" using assms(1-4) unfolding index_ok_def by blast
  then have x: "x < ocap ?b" by (rule mp.in_use_bound)
  let ?y = "od ?b x"
  let ?r = "\<lparr>resp_type = CANCELED, resp_client_id = cl, resp_ticker_id = t, resp_client_order_id = oid,
    resp_market_order_id = o_market_order_id ?y, resp_side = o_side ?y, resp_price = o_price ?y, resp_exec_qty = Qty_INVALID,
    resp_leaves_qty = o_qty ?y\<rparr>"
  let ?u = "\<lparr>upd_type = CANCEL, upd_order_id = o_market_order_id ?y, upd_ticker_id = t, upd_side = o_side ?y,
    upd_price = o_price ?y, upd_qty = 0, upd_priority = o_priority ?y\<rparr>"
  obtain b' where b': "removeOrder (Some x) (?b\<lparr>ob_client_response := ?r, ob_market_update := ?u\<rparr>) = Inr ((), b')" "P b'"
    using assms(6) by blast
  let ?c = "c\<lparr>cx_book := b', cx_ogw := q_push (ob_client_response b') (cx_ogw c), cx_md := q_push (ob_market_update b') (cx_md c)\<rparr>"
  have "on_book (rd (\<lambda>b. unat cl < alen (ob_cid_oid_to_order b))) c = Inr (True, c)" using assms(2) len by (simp add: on_book_run)
  moreover have "on_book (get_cid_oid cl oid) c = Inr (Some x, c)"
    using assms(2-4) len by (simp add: on_book_run get_cid_oid_def bnd_def cell_def arr_at_def)
  moreover have "on_book (rd_ord (Some x) (\<lambda>x. x)) c = Inr (?y, c)" using x by (simp add: on_book_run rd_ord_run)
  ultimately have "cancel cl oid t c = Inr ((), ?c)"
    using b'(1) assms(5)
    by (simp add: cancel_def bnd_Inr sq_bnd sq_sq set_client_response_def set_market_update_def on_book_run sq_Inr)
      (simp add: sq_def bnd_def send_market_update_def send_client_response_def sendMarketUpdate_def sendClientResponse_def
        on_book_run zoom_def push_elem_run wf_queues_def)
  then show ?thesis using b'(2) assms(5) by (intro exI [of _ ?c]) (simp add: wf_queues_def)
qed

lemma cancel_host:
  assumes w: "with_guest (cx_book c) i f x" and q: "wf_queues c"
    and known: "cell (cx_book c) (o_client_id (od (cx_book c) f)) (o_client_order_id (od (cx_book c) f)) = Some f"
  shows "\<exists>c'. cancel (o_client_id (od (cx_book c) f)) (o_client_order_id (od (cx_book c) f)) t c = Inr ((), c') \<and>
    guest_level (cx_book c') i x \<and> forgets f (cx_book c) (cx_book c') \<and>
    payload (od (cx_book c') x) = payload (od (cx_book c) x) \<and> wf_queues c'"
proof -
  let ?b = "cx_book c"
  have ix: "index_ok ?b" "f \<in> ords ?b" using w by (simp_all add: with_guest_def shared_level_def)
  then have r: "unat (o_client_id (od ?b f)) < ME_MAX_NUM_CLIENTS" "unat (o_client_order_id (od ?b f)) < ME_MAX_ORDER_IDS"
    by (auto simp: index_ok_def in_range_def)
  let ?P = "\<lambda>b'. guest_level b' i x \<and> forgets f ?b b' \<and> payload (od b' x) = payload (od ?b x)"
  have "\<exists>b'. removeOrder (Some f) (?b\<lparr>ob_client_response := rs, ob_market_update := us\<rparr>) = Inr ((), b') \<and> ?P b'" for rs us
    using remove_host [of "?b\<lparr>ob_client_response := rs, ob_market_update := us\<rparr>" i f x] w by simp
  from cancel_known_run [OF ix(1) r known q this] show ?thesis by blast
qed

lemma cancel_guest:
  assumes w: "guest_level (cx_book c) i x" and q: "wf_queues c"
    and known: "cell (cx_book c) (o_client_id (od (cx_book c) x)) (o_client_order_id (od (cx_book c) x)) = Some x"
  shows "\<exists>c'. cancel (o_client_id (od (cx_book c) x)) (o_client_order_id (od (cx_book c) x)) t c = Inr ((), c') \<and>
    ob_asks_at_price (cx_book c') = None \<and> forgets x (cx_book c) (cx_book c')"
proof -
  let ?b = "cx_book c"
  have ix: "index_ok ?b" "x \<in> ords ?b" using w by (simp_all add: guest_level_def alone_in_def)
  then have r: "unat (o_client_id (od ?b x)) < ME_MAX_NUM_CLIENTS" "unat (o_client_order_id (od ?b x)) < ME_MAX_ORDER_IDS"
    by (auto simp: index_ok_def in_range_def)
  let ?P = "\<lambda>b'. ob_asks_at_price b' = None \<and> forgets x ?b b'"
  have "\<exists>b'. removeOrder (Some x) (?b\<lparr>ob_client_response := rs, ob_market_update := us\<rparr>) = Inr ((), b') \<and> ?P b'" for rs us
    using remove_guest [of "?b\<lparr>ob_client_response := rs, ob_market_update := us\<rparr>" i x] w by simp
  from cancel_known_run [OF ix(1) r known q this] show ?thesis by blast
qed

section \<open>A sell order enters a level of the bids\<close>

lemma host_takes_guest:
  assumes rep: "book_rep b A L B Q" and new: "placed b x y b0" and i: "i \<in> set B" and Q: "Q i = [f]"
    and slot: "aget (slots b) (priceToIndex (o_price y)) = Some i" and y: "in_range y" "o_side y = SELL"
  shows "with_guest (set_cell x y (append_links x f f b0)) i f x"
proof -
  have inv: "book_inv b L B Q (ab_open A)" using rep by (simp add: book_rep_def)
  have j: "i \<in> set (L @ B)" using i by simp
  note j2 = joins_level [OF rep new j Q slot y(1)]
  have "lnext b i = Some i" "i \<in> lvls b" using inv i book_inv_level(2) [OF inv j] by (simp_all add: book_inv_def links_ok_def)
  then show ?thesis
    using j2(1) payload_eqD(5) [OF j2(2)] y(2) unfolding with_guest_def j2(4) by simp
qed

lemma guest_rests:
  assumes "book_rel (cx_book c) A" "wf_queues c" "ab_next A \<noteq> -1" "(p, [r]) \<in> set (ab_bids A)"
    "ab_index A (r_client r, r_oid r) = Some (r_moid r)" "priceToIndex p' = priceToIndex p" "ids_in_range cl coid"
    "(cl, coid) \<noteq> (r_client r, r_oid r)" "length (book_orders A) + 1 < ME_MAX_ORDER_IDS" "q \<noteq> 0"
  shows "\<exists>c' i f x. add cl coid t SELL p' q c = Inr ((), c') \<and> wf_queues c' \<and> with_guest (cx_book c') i f x \<and>
    cell (cx_book c') (r_client r) (r_oid r) = Some f \<and> cell (cx_book c') cl coid = Some x \<and>
    o_client_id (od (cx_book c') f) = r_client r \<and> o_client_order_id (od (cx_book c') f) = r_oid r \<and>
    o_client_id (od (cx_book c') x) = cl \<and> o_client_order_id (od (cx_book c') x) = coid \<and> still_known A {} (cx_book c')"
proof -
  let ?mo = "ab_next A" and ?A1 = "A\<lparr>ab_next := ab_next A + 1\<rparr>"
  have sm: "spec_match SELL p' q ?A1 = (q, ?A1, [])" by (simp add: spec_match_def)
  obtain c2 where run: "add cl coid t SELL p' q c = rest_order cl coid t SELL p' ?mo q c2"
    and c2: "book_rel (cx_book c2) ?A1" "wf_queues c2"
    using add_front [OF assms(1-3) sm, of cl coid t] assms(10) by auto
  let ?b = "cx_book c2"
  obtain L B Q where rep: "book_rep ?b ?A1 L B Q" using c2(1) by (auto simp: book_rel_def)
  then have inv: "book_inv ?b L B Q (ab_open A)" and view: "ab_bids A = view ?b Q B" by (simp_all add: book_rep_def)
  then obtain i f where i: "i \<in> set B" "lprice ?b i = p" "Q i = [f]" "r = rest_of (od ?b f)"
    using assms(4) by (auto simp: view_def)
  then have j: "i \<in> set (L @ B)" by simp
  have room: "length (book_orders ?A1) + 1 < ME_MAX_ORDER_IDS" using assms(9) by (simp add: book_orders_def)
  obtain x y b0 u where y: "placed ?b x y b0" "in_range y" "o_price y = p'" "o_side y = SELL" "o_client_id y = cl"
      "o_client_order_id y = coid"
    and rest: "rest_order cl coid t SELL p' ?mo q c2 = Inr ((), put_upd u (c2\<lparr>cx_book := set_cell x y (append_links x f f b0)\<rparr>))"
    using rest_order_foreign_run [OF rep c2(2) j i(3) _ assms(7) room, of p' SELL] assms(6) i(2) by fastforce
  let ?b' = "set_cell x y (append_links x f f b0)"
  have slot: "aget (slots ?b) (priceToIndex (o_price y)) = Some i"
    using book_inv_level(4) [OF inv j] assms(6) i(2) y(3) by simp
  note add = addOrder_foreign_run(2) [OF inv y(1) j i(3) slot y(2), simplified]
  have f: "f \<in> ords ?b" using book_inv_order(1) [OF inv j, of f] i(3) by simp
  have "ab_index ?A1 (r_client r, r_oid r) = Some (moid ?b f)" using assms(5) i(4) by (simp add: moid_def)
  note known = rep_known [OF rep f this]
  have pay: "payload (od ?b' x) = payload y" "payload (od ?b' f) = payload (od ?b f)"
    "cell ?b' cl coid = Some x" "cell ?b' (r_client r) (r_oid r) = Some f"
    using add f y(5,6) known assms(8) by (auto simp: added_def)
  have "with_guest ?b' i f x" by (rule host_takes_guest [OF rep y(1) i(1,3) slot y(2,4)])
  moreover have "still_known A {} ?b'" using rep_still_known [OF rep add] by (simp add: still_known_def)
  moreover have "wf_queues (put_upd u (c2\<lparr>cx_book := ?b'\<rparr>))" using c2(2) by (simp add: put_upd_def wf_queues_def)
  moreover have "cx_book (put_upd u (c2\<lparr>cx_book := ?b'\<rparr>)) = ?b'\<lparr>ob_market_update := u\<rparr>" by (simp add: put_upd_def)
  ultimately show ?thesis
    using run rest pay known y(5,6) payload_eqD(2,3) [OF pay(1)] payload_eqD(2,3) [OF pay(2)]
    by (intro exI [of _ "put_upd u (c2\<lparr>cx_book := ?b'\<rparr>)"] exI [of _ i] exI [of _ f] exI [of _ x])
      (simp add: still_known_def cell_def)
qed

section \<open>Properties\<close>

text \<open>
  C20. A buy order rests alone at a price; a sell order comes to rest in its level, at the same price or 256
  apart; both are cancelled, the buy order first. Every call succeeds, all other orders keep their entry in the
  index, and yet no buy order of any price finds a sell order any more: the level is removed with the side of the order
  that left last, which clears \<open>asks_at_price_\<close>, whatever sell orders rest.
\<close>

theorem asks_are_lost:
  assumes "book_rel (cx_book c) A" "wf_queues c" "ab_next A \<noteq> -1" "(p, [r]) \<in> set (ab_bids A)"
    "ab_index A (r_client r, r_oid r) = Some (r_moid r)" "priceToIndex p' = priceToIndex p" "ids_in_range cl coid"
    "(cl, coid) \<noteq> (r_client r, r_oid r)" "length (book_orders A) + 1 < ME_MAX_ORDER_IDS" "q \<noteq> 0"
  shows "\<exists>c'. sq (add cl coid t SELL p' q) (sq (cancel (r_client r) (r_oid r) t) (cancel cl coid t)) c = Inr ((), c') \<and>
    (\<forall>k. k \<notin> {(r_client r, r_oid r), (cl, coid)} \<longrightarrow> ab_index A k \<noteq> None \<longrightarrow> cell (cx_book c') (fst k) (snd k) \<noteq> None) \<and>
    (\<forall>cl2 coid2 t2 price q2 mo. checkForMatch cl2 coid2 t2 BUY price q2 mo c' = Inr (q2, c'))"
proof -
  obtain c1 i f x where 1: "add cl coid t SELL p' q c = Inr ((), c1)" "wf_queues c1" "with_guest (cx_book c1) i f x"
    "cell (cx_book c1) (r_client r) (r_oid r) = Some f" "cell (cx_book c1) cl coid = Some x"
    "o_client_id (od (cx_book c1) f) = r_client r" "o_client_order_id (od (cx_book c1) f) = r_oid r"
    "o_client_id (od (cx_book c1) x) = cl" "o_client_order_id (od (cx_book c1) x) = coid" "still_known A {} (cx_book c1)"
    using guest_rests [OF assms, of t] by blast
  obtain c2 where 2: "cancel (r_client r) (r_oid r) t c1 = Inr ((), c2)" "guest_level (cx_book c2) i x"
    "forgets f (cx_book c1) (cx_book c2)" "payload (od (cx_book c2) x) = payload (od (cx_book c1) x)" "wf_queues c2"
    using cancel_host [OF 1(3,2), of t] 1(4,6,7) by auto
  have x: "o_client_id (od (cx_book c2) x) = cl" "o_client_order_id (od (cx_book c2) x) = coid"
    using payload_eqD(2,3) [OF 2(4)] 1(8,9) by simp_all
  have "cell (cx_book c2) cl coid = Some x" using 2(3) 1(5-7) assms(8) by (auto simp: forgets_def)
  then obtain c3 where 3: "cancel cl coid t c2 = Inr ((), c3)" "ob_asks_at_price (cx_book c3) = None"
    "forgets x (cx_book c2) (cx_book c3)"
    using cancel_guest [OF 2(2,5), of t] x by auto
  have "still_known A {(cl, coid), (r_client r, r_oid r)} (cx_book c3)"
    using still_known_forgets [OF still_known_forgets [OF 1(10) 2(3)] 3(3)] 1(6,7) x by simp
  moreover have "checkForMatch cl2 coid2 t2 BUY price q2 m c3 = Inr (q2, c3)" for cl2 coid2 t2 price q2 m
    by (rule no_match_below) (simp add: asks_above_def 3(2))
  ultimately show ?thesis
    using 1(1) 2(1) 3(1) by (intro exI [of _ c3]) (simp add: sq_def bnd_def still_known_def insert_commute)
qed

text \<open>An ask at 105, a bid at 100, a sell order at 100; the orders at 100 are cancelled; a buy order at 200 finds nothing.\<close>

lemma ask_and_bid_run:
  "\<exists>c A r. book_rel (cx_book c) A \<and> wf_queues c \<and> ab_next A = 3 \<and> ab_bids A = [(100, [r])] \<and> r_client r = 2 \<and> r_oid r = 8 \<and>
     ab_index A (2, 8) = Some (r_moid r) \<and> ab_index A (1, 7) \<noteq> None \<and> length (book_orders A) = 2"
proof -
  obtain c1 where c1: "book_rel (cx_book c1) (one_ask 1 7 105 10)" "wf_queues c1"
    using one_ask_run [of 8 8 10 1 7 0 105] by (auto simp: ids_in_range_def limit_defs)
  have ok: "add_ok BUY 100 4 (one_ask 1 7 105 10)"
    by (simp add: add_ok_def spec_match_def one_ask_def after_match_def full_makers_def slot_ok_def priceToIndex_def limit_defs)
  have "\<exists>A r rs us. spec_add 2 8 0 BUY 100 4 (one_ask 1 7 105 10) = Inr (A, rs, us) \<and> ab_next A = 3 \<and> ab_bids A = [(100, [r])] \<and>
      r_client r = 2 \<and> r_oid r = 8 \<and> ab_index A (2, 8) = Some (r_moid r) \<and> ab_index A (1, 7) \<noteq> None \<and> length (book_orders A) = 2"
    by (simp add: spec_run_defs one_ask_def Let_def limit_defs after_match_def full_makers_def)
  then obtain A r rs us where A: "spec_add 2 8 0 BUY 100 4 (one_ask 1 7 105 10) = Inr (A, rs, us)" "ab_next A = 3" "ab_bids A = [(100, [r])]"
      "r_client r = 2" "r_oid r = 8" "ab_index A (2, 8) = Some (r_moid r)" "ab_index A (1, 7) \<noteq> None" "length (book_orders A) = 2"
    by blast
  obtain c where "book_rel (cx_book c) A" "wf_queues c"
    using add_refines_main [OF c1 ok, of 2 8 0] A(1) c1(2) sent_wf by fastforce
  then show ?thesis using A by blast
qed

theorem asks_are_lost_witness:
  "\<exists>c A c'. book_rel (cx_book c) A \<and> ab_index A (1, 7) \<noteq> None \<and>
     sq (add 3 9 0 SELL 100 5) (sq (cancel 2 8 0) (cancel 3 9 0)) c = Inr ((), c') \<and> cell (cx_book c') 1 7 \<noteq> None \<and>
     checkForMatch 4 5 0 BUY 200 5 4 c' = Inr (5, c')"
proof -
  obtain c A r where c: "book_rel (cx_book c) A" "wf_queues c" "ab_next A = 3" "ab_bids A = [(100, [r])]" "r_client r = 2" "r_oid r = 8"
      "ab_index A (2, 8) = Some (r_moid r)" "ab_index A (1, 7) \<noteq> None" "length (book_orders A) = 2"
    using ask_and_bid_run by blast
  have pre: "ab_next A \<noteq> -1" "(100, [r]) \<in> set (ab_bids A)" "ab_index A (r_client r, r_oid r) = Some (r_moid r)"
    "(5 :: Qty) \<noteq> 0" "ids_in_range 3 9" "(3, 9) \<noteq> (r_client r, r_oid r)" "length (book_orders A) + 1 < ME_MAX_ORDER_IDS"
    using c by (simp_all add: ids_in_range_def limit_defs)
  obtain c' where "sq (add 3 9 0 SELL 100 5) (sq (cancel (r_client r) (r_oid r) 0) (cancel 3 9 0)) c = Inr ((), c')"
    and known: "\<And>k. k \<notin> {(r_client r, r_oid r), (3, 9)} \<Longrightarrow> ab_index A k \<noteq> None \<Longrightarrow> cell (cx_book c') (fst k) (snd k) \<noteq> None"
    and none: "\<And>cl oid t price q mo. checkForMatch cl oid t BUY price q mo c' = Inr (q, c')"
    using asks_are_lost [OF c(1,2) pre(1-3) refl pre(5-7,4), of 0] by blast
  moreover have "cell (cx_book c') 1 7 \<noteq> None" using known [of "(1, 7)"] c(5,6,8) by simp
  ultimately show ?thesis using c(1,5,6,8) by (intro exI [of _ c] exI [of _ A] exI [of _ c']) simp
qed

end
