(* ===== verification/Guest_Buys.thy ===== *)
theory Guest_Buys
  imports Shared_Levels
begin

text \<open>
  What becomes of a buy order that \<open>addOrder\<close> of \<open>me_order_book.h\<close> queues in the level of the best ask. The
  matching loop of \<open>checkForMatch\<close> reads the orders of that level without looking at their side: once the ask
  is gone, the next buy order trades with the buy order. And when that one is filled too, its side keeps
  \<open>removeOrdersAtPrice\<close> from clearing \<open>asks_at_price_\<close>, which then points to a level given back to the pool.
\<close>

section \<open>One trade, whatever the side of the resting order\<close>

definition fill_msg ::
  "ClientId \<Rightarrow> OrderId \<Rightarrow> OrderId \<Rightarrow> Side \<Rightarrow> TickerId \<Rightarrow> Price \<Rightarrow> Qty \<Rightarrow> Qty \<Rightarrow> MEClientResponse" where
  "fill_msg cl coid mo s t p exec leaves = \<lparr>resp_type = FILLED, resp_client_id = cl, resp_ticker_id = t,
     resp_client_order_id = coid, resp_market_order_id = mo, resp_side = s, resp_price = p,
     resp_exec_qty = exec, resp_leaves_qty = leaves\<rparr>"

definition fill_of_order :: "MEOrder \<Rightarrow> TickerId \<Rightarrow> Qty \<Rightarrow> MEClientResponse" where
  "fill_of_order y t f = fill_msg (o_client_id y) (o_client_order_id y) (o_market_order_id y) (o_side y) t (o_price y) f (o_qty y - f)"

definition resting_of :: "MEOrderBook \<Rightarrow> nat \<Rightarrow> Qty \<Rightarrow> MEClientResponse \<Rightarrow> MEMarketUpdate \<Rightarrow> MEOrderBook" where
  "resting_of b x q r u = (set_qty x q b)\<lparr>ob_client_response := r, ob_market_update := u\<rparr>"

lemma min_words: "(a :: 'w::len word) \<le> b \<Longrightarrow> min b a = a" "a < b \<Longrightarrow> min a b = a"
  by (simp_all add: min_def less_imp_le)

lemma trade_sent: "sent c [r1, r2] [u1, u2] (put_upd u2 (put_upd u1 (put_resp r2 (put_resp r1 (c\<lparr>cx_book := b\<rparr>)))))"
  by (simp add: sent_def put_resp_def put_upd_def)

lemma match_partial:
  assumes "x < ocap (cx_book c)" "wf_queues c" "l < o_qty (od (cx_book c) x)"
  shows "\<exists>c' us. match_order t cl s coid mo (Some x) l c = Inr (0, c') \<and>
    sent c [fill_msg cl coid mo s t (o_price (od (cx_book c) x)) l 0, fill_of_order (od (cx_book c) x) t l] us c'"
proof -
  have q: "o_qty (od (cx_book c) x) - l \<noteq> 0" using assms(3) by auto
  show ?thesis
    unfolding match_order_run [OF assms(1,2)] min_words(2) [OF assms(3)] if_not_P [OF q] fill_msg_def fill_of_order_def
    by (intro exI conjI, simp) (rule trade_sent)
qed

lemma match_full:
  assumes "x < ocap (cx_book c)" "wf_queues c" "o_qty (od (cx_book c) x) \<le> l"
    and rm: "\<And>r u. \<exists>b'. removeOrder (Some x) (resting_of (cx_book c) x 0 r u) = Inr ((), b') \<and> P b'"
  shows "\<exists>c' us. match_order t cl s coid mo (Some x) l c = Inr (l - o_qty (od (cx_book c) x), c') \<and> P (cx_book c') \<and>
    sent c [fill_msg cl coid mo s t (o_price (od (cx_book c) x)) (o_qty (od (cx_book c) x)) (l - o_qty (od (cx_book c) x)),
      fill_of_order (od (cx_book c) x) t (o_qty (od (cx_book c) x))] us c'"
proof -
  let ?y = "od (cx_book c) x"
  let ?r1 = "fill_msg cl coid mo s t (o_price ?y) (o_qty ?y) (l - o_qty ?y)" and ?r2 = "fill_of_order ?y t (o_qty ?y)"
  let ?u1 = "\<lparr>upd_type = TRADE, upd_order_id = OrderId_INVALID, upd_ticker_id = t, upd_side = s,
        upd_price = o_price ?y, upd_qty = o_qty ?y, upd_priority = Priority_INVALID\<rparr>"
  let ?u2 = "\<lparr>upd_type = CANCEL, upd_order_id = o_market_order_id ?y, upd_ticker_id = t,
          upd_side = o_side ?y, upd_price = o_price ?y, upd_qty = o_qty ?y, upd_priority = Priority_INVALID\<rparr>"
  let ?c4 = "put_upd ?u2 (put_upd ?u1 (put_resp ?r2 (put_resp ?r1 (c\<lparr>cx_book := set_qty x 0 (cx_book c)\<rparr>))))"
  obtain b' where b': "removeOrder (Some x) (resting_of (cx_book c) x 0 ?r2 ?u2) = Inr ((), b')" "P b'" using rm by blast
  have "match_order t cl s coid mo (Some x) l c = (case removeOrder (Some x) (cx_book ?c4) of
      Inl e \<Rightarrow> Inl e | Inr (u, b') \<Rightarrow> Inr (l - o_qty ?y, ?c4\<lparr>cx_book := b'\<rparr>))"
    unfolding match_order_run [OF assms(1,2)] min_words(1) [OF assms(3)] unfolding fill_msg_def fill_of_order_def diff_self by (simp add: Let_def)
  then have "match_order t cl s coid mo (Some x) l c = Inr (l - o_qty ?y, ?c4\<lparr>cx_book := b'\<rparr>)"
    using b'(1) by (simp add: resting_of_def)
  moreover have "sent c [?r1, ?r2] [?u1, ?u2] (?c4\<lparr>cx_book := b'\<rparr>)" by (simp add: sent_put trade_sent)
  ultimately show ?thesis using b'(2) by (intro exI [of _ "?c4\<lparr>cx_book := b'\<rparr>"] exI [of _ "[?u1, ?u2]"]) simp
qed

lemma match_full_fault:
  assumes "x < ocap (cx_book c)" "wf_queues c" "o_qty (od (cx_book c) x) \<le> l"
    and rm: "\<And>r u. removeOrder (Some x) (resting_of (cx_book c) x 0 r u) = Inl e"
  shows "match_order t cl s coid mo (Some x) l c = Inl e"
  unfolding match_order_run [OF assms(1,2)] min_words(1) [OF assms(3)]
  using rm by (simp add: Let_def resting_of_def)

section \<open>One round of the loop\<close>

text \<open>\<open>x\<close> is the order a buy order looks at.\<close>

definition at_front :: "MEOrderBook \<Rightarrow> nat \<Rightarrow> nat \<Rightarrow> bool" where
  "at_front b i x \<longleftrightarrow> ob_asks_at_price b = Some i \<and> i < lcap b \<and> l_first_me_order (lv b i) = Some x \<and> x < ocap b"

lemma at_front_messages [simp]:
  "at_front (b\<lparr>ob_client_response := r\<rparr>) i x = at_front b i x"
  "at_front (b\<lparr>ob_market_update := u\<rparr>) i x = at_front b i x"
  "at_front (b\<lparr>ob_next_market_order_id := n\<rparr>) i x = at_front b i x"
  by (simp_all add: at_front_def)

lemma buy_loop_front:
  assumes "at_front (cx_book c) i x" "l \<noteq> 0" "sint (o_price (od (cx_book c) x)) \<le> sint price"
  shows "buy_loop cl coid t price mo l c = (case match_order t cl BUY coid mo (Some x) l c of
    Inl e \<Rightarrow> Inl e | Inr (l', c') \<Rightarrow> buy_loop cl coid t price mo l' c')"
proof -
  have "on_book (rd ob_asks_at_price) c = Inr (Some i, c)" "on_book (rd_lvl (Some i) l_first_me_order) c = Inr (Some x, c)"
    "on_book (rd_ord (Some x) o_price) c = Inr (o_price (od (cx_book c) x), c)"
    using assms(1) by (simp_all add: at_front_def on_book_run rd_lvl_run rd_ord_run)
  then have "buy_round cl coid t price mo l c = (case match_order t cl BUY coid mo (Some x) l c of
      Inl e \<Rightarrow> Inl e | Inr (l', c') \<Rightarrow> Inr (Some l', c'))"
    using assms(3) by (simp add: buy_round_def bnd_Inr not_less [symmetric]) (simp add: bnd_def split: sum.split)
  then show ?thesis
    using assms(1,2) by (subst buy_loop.simps) (simp add: at_front_def split: sum.split prod.split)
qed

lemma buy_loop_filled [simp]: "buy_loop cl coid t price mo 0 c = Inr (0, c)"
  by (subst buy_loop.simps) simp

section \<open>A buy order in the best level of the asks\<close>

text \<open>Behind the ask \<open>f\<close>; alone, once \<open>f\<close> is gone; and gone itself, with \<open>asks_at_price_\<close> on its level still.\<close>

definition buyer_behind :: "MEOrderBook \<Rightarrow> nat \<Rightarrow> nat \<Rightarrow> nat \<Rightarrow> bool" where
  "buyer_behind b i f x \<longleftrightarrow> shared_level b i f x \<and> ob_asks_at_price b = Some i \<and> i \<in> lvls b \<and> o_side (od b x) = BUY"

definition buyer_alone :: "MEOrderBook \<Rightarrow> nat \<Rightarrow> nat \<Rightarrow> bool" where
  "buyer_alone b i x \<longleftrightarrow> alone_in b i x \<and> ob_asks_at_price b = Some i \<and> i \<in> lvls b \<and> o_side (od b x) = BUY"

definition stale_best :: "MEOrderBook \<Rightarrow> nat \<Rightarrow> nat \<Rightarrow> bool" where
  "stale_best b i x \<longleftrightarrow> at_front b i x \<and> i \<notin> lvls b \<and> x \<notin> ords b \<and> o_qty (od b x) = 0 \<and> oprev b x = Some x \<and>
     alen (slots b) = ME_MAX_PRICE_LEVELS \<and> aget (slots b) (priceToIndex (o_price (od b x))) = None"

lemma buyer_messages [simp]:
  "buyer_behind (b\<lparr>ob_client_response := r\<rparr>) i f x = buyer_behind b i f x"
  "buyer_behind (b\<lparr>ob_market_update := u\<rparr>) i f x = buyer_behind b i f x"
  "buyer_behind (b\<lparr>ob_next_market_order_id := n\<rparr>) i f x = buyer_behind b i f x"
  "stale_best (b\<lparr>ob_client_response := r\<rparr>) i x = stale_best b i x"
  "stale_best (b\<lparr>ob_next_market_order_id := n\<rparr>) i x = stale_best b i x"
  by (simp_all add: buyer_behind_def stale_best_def shared_level_def index_ok_def cell_def)

lemma resting_of_sel [simp]:
  "lv (resting_of b x q r u) = lv b" "lvls (resting_of b x q r u) = lvls b" "lcap (resting_of b x q r u) = lcap b"
  "ob_asks_at_price (resting_of b x q r u) = ob_asks_at_price b" "slots (resting_of b x q r u) = slots b"
  "ords (resting_of b x q r u) = ords b" "ocap (resting_of b x q r u) = ocap b"
  "od (resting_of b x q r u) = (od b)(x := (od b x)\<lparr>o_qty := q\<rparr>)"
  "ob_cid_oid_to_order (resting_of b x q r u) = ob_cid_oid_to_order b"
  by (simp_all add: resting_of_def set_qty_sel)

lemma index_ok_resting [simp]: "index_ok b \<Longrightarrow> index_ok (resting_of b x q r u)"
  by (auto simp: index_ok_def cell_def in_range_def)

lemma shared_resting: "shared_level b i f x \<Longrightarrow> shared_level (resting_of b f q r u) i f x"
  by (auto simp: shared_level_def)

lemma alone_resting: "alone_in b i x \<Longrightarrow> alone_in (resting_of b x q r u) i x"
  by (auto simp: alone_in_def)

lemma buyer_fronts:
  "buyer_behind b i f x \<Longrightarrow> at_front b i f" "buyer_alone b i x \<Longrightarrow> at_front b i x" "stale_best b i x \<Longrightarrow> at_front b i x"
  by (auto simp: buyer_behind_def buyer_alone_def stale_best_def at_front_def shared_level_def alone_in_def intro: mp.in_use_bound)

text \<open>The ask is taken.\<close>

lemma ask_taken:
  assumes w: "buyer_behind (cx_book c) i f x" and q: "wf_queues c" and l: "o_qty (od (cx_book c) f) \<le> l"
  shows "\<exists>c' us. match_order t cl s coid mo (Some f) l c = Inr (l - o_qty (od (cx_book c) f), c') \<and> buyer_alone (cx_book c') i x \<and>
    payload (od (cx_book c') x) = payload (od (cx_book c) x) \<and> lnext (cx_book c') = lnext (cx_book c) \<and>
    sent c [fill_msg cl coid mo s t (o_price (od (cx_book c) f)) (o_qty (od (cx_book c) f)) (l - o_qty (od (cx_book c) f)),
      fill_of_order (od (cx_book c) f) t (o_qty (od (cx_book c) f))] us c'"
proof -
  let ?b = "cx_book c"
  have w': "shared_level ?b i f x" "ob_asks_at_price ?b = Some i" "i \<in> lvls ?b" "o_side (od ?b x) = BUY" "f \<noteq> x"
    using w by (simp_all add: buyer_behind_def shared_level_def)
  have f: "f < ocap ?b" using buyer_fronts(1) [OF w] by (simp add: at_front_def)
  let ?P = "\<lambda>b'. buyer_alone b' i x \<and> payload (od b' x) = payload (od ?b x) \<and> lnext b' = lnext ?b"
  have "\<exists>b'. removeOrder (Some f) (resting_of ?b f 0 r u) = Inr ((), b') \<and> ?P b'" for r u
  proof -
    obtain b' where b': "removeOrder (Some f) (resting_of ?b f 0 r u) = Inr ((), b')" "alone_in b' i x"
      "payload (od b' x) = payload (od ?b x)" "lvls b' = lvls ?b" "lnext b' = lnext ?b" "ob_asks_at_price b' = ob_asks_at_price ?b"
      using remove_first [OF shared_resting [OF w'(1)], of 0 r u] w'(5) by auto
    then show ?thesis using w' payload_eqD(5) [OF b'(3)] by (intro exI [of _ b']) (simp add: buyer_alone_def)
  qed
  from match_full [OF f q l this] show ?thesis by blast
qed

text \<open>The buy order is taken: nothing is assigned to \<open>asks_at_price_\<close>.\<close>

lemma buyer_taken:
  assumes w: "buyer_alone (cx_book c) i x" "lnext (cx_book c) i = Some i" and q: "wf_queues c" and l: "o_qty (od (cx_book c) x) \<le> l"
  shows "\<exists>c' us. match_order t cl s coid mo (Some x) l c = Inr (l - o_qty (od (cx_book c) x), c') \<and> stale_best (cx_book c') i x \<and>
    o_price (od (cx_book c') x) = o_price (od (cx_book c) x) \<and>
    sent c [fill_msg cl coid mo s t (o_price (od (cx_book c) x)) (o_qty (od (cx_book c) x)) (l - o_qty (od (cx_book c) x)),
      fill_of_order (od (cx_book c) x) t (o_qty (od (cx_book c) x))] us c'"
proof -
  let ?b = "cx_book c"
  have w': "alone_in ?b i x" "ob_asks_at_price ?b = Some i" "i \<in> lvls ?b" "o_side (od ?b x) = BUY"
    using w(1) by (simp_all add: buyer_alone_def)
  have front: "at_front ?b i x" "x < ocap ?b" using buyer_fronts(2) [OF w(1)] by (simp_all add: at_front_def)
  let ?P = "\<lambda>b'. stale_best b' i x \<and> o_price (od b' x) = o_price (od ?b x)"
  have "\<exists>b'. removeOrder (Some x) (resting_of ?b x 0 r u) = Inr ((), b') \<and> ?P b'" for r u
  proof -
    let ?b0 = "resting_of ?b x 0 r u"
    have pre: "i \<in> lvls ?b0" "lnext ?b0 i = Some i" using w' w(2) by simp_all
    obtain b' where "removeOrder (Some x) ?b0 = Inr ((), b')" "ob_asks_at_price b' = (if o_side (od ?b0 x) = BUY then ob_asks_at_price ?b0 else None)"
      "alen (slots b') = ME_MAX_PRICE_LEVELS" "aget (slots b') (priceToIndex (o_price (od ?b0 x))) = None"
      "lv b' = lv ?b0" "lcap b' = lcap ?b0" "od b' = od ?b0" "ocap b' = ocap ?b0" "i \<notin> lvls b'" "x \<notin> ords b'"
      using remove_last [OF alone_resting [OF w'(1)] pre] by blast
    then show ?thesis
      using front w' by (intro exI [of _ b']) (simp add: stale_best_def at_front_def alone_in_def)
  qed
  from match_full [OF front(2) q l this] show ?thesis by blast
qed

text \<open>The next buy order trades with the order that is gone, for nothing, and asks for its level.\<close>

lemma stale_faults:
  assumes w: "stale_best (cx_book c) i x" and q: "wf_queues c" and l: "l \<noteq> 0" "sint (o_price (od (cx_book c) x)) \<le> sint price"
  shows "buy_loop cl coid t price mo l c = Inl Null_deref"
proof -
  let ?b = "cx_book c"
  have w': "x < ocap ?b" "o_qty (od ?b x) \<le> l" "oprev ?b x = Some x" "alen (slots ?b) = ME_MAX_PRICE_LEVELS"
    "aget (slots ?b) (priceToIndex (o_price (od ?b x))) = None"
    using w by (simp_all add: stale_best_def at_front_def)
  have "removeOrder (Some x) (resting_of ?b x 0 r u) = Inl Null_deref" for r u
    using w' by (simp add: removeOrder_def removeOrdersAtPrice_def bnd_def sq_def rd_ord_run get_level)
  from match_full_fault [OF w'(1) q w'(2) this] show ?thesis
    using buy_loop_front [OF buyer_fronts(3) [OF w] l] by simp
qed

section \<open>A buy order comes to rest there\<close>

definition accepted_msg :: "ClientId \<Rightarrow> OrderId \<Rightarrow> OrderId \<Rightarrow> Side \<Rightarrow> TickerId \<Rightarrow> Price \<Rightarrow> Qty \<Rightarrow> MEClientResponse" where
  "accepted_msg cl coid mo s t p q = \<lparr>resp_type = ACCEPTED, resp_client_id = cl, resp_ticker_id = t, resp_client_order_id = coid,
     resp_market_order_id = mo, resp_side = s, resp_price = p, resp_exec_qty = 0, resp_leaves_qty = q\<rparr>"

lemma buyer_rests:
  assumes "book_rel (cx_book c) A" "wf_queues c" "ab_next A \<noteq> -1" "ab_asks A = (p, [r]) # ls"
    "priceToIndex p' = priceToIndex p" "sint p' < sint p" "ids_in_range cl coid"
    "length (book_orders A) + 1 < ME_MAX_ORDER_IDS" "q \<noteq> 0"
  shows "\<exists>c' i f x y. add cl coid t BUY p' q c = Inr ((), c') \<and> wf_queues c' \<and> buyer_behind (cx_book c') i f x \<and>
    rest_of (od (cx_book c') f) = r \<and> o_price (od (cx_book c') f) = p \<and> o_side (od (cx_book c') f) = SELL \<and>
    payload (od (cx_book c') x) = payload y \<and> o_client_id y = cl \<and> o_client_order_id y = coid \<and> o_market_order_id y = ab_next A \<and>
    o_side y = BUY \<and> o_price y = p' \<and> o_qty y = q \<and>
    ob_next_market_order_id (cx_book c') = ab_next A + 1 \<and> (ls = [] \<longrightarrow> lnext (cx_book c') i = Some i)"
proof -
  let ?mo = "ab_next A" and ?A1 = "A\<lparr>ab_next := ab_next A + 1\<rparr>"
  have "after_match ?A1 ((p, [r]) # ls) [] = ?A1"
    using assms(4) by (cases A) (simp add: after_match_def same_head_def full_makers_def)
  then have sm: "spec_match BUY p' q ?A1 = (q, ?A1, [])" using assms(4,6) by (simp add: spec_match_def)
  obtain c2 where run: "add cl coid t BUY p' q c = rest_order cl coid t BUY p' ?mo q c2"
    and c2: "book_rel (cx_book c2) ?A1" "wf_queues c2"
    using add_front [OF assms(1-3) sm, of cl coid t] assms(9) by auto
  let ?b = "cx_book c2"
  obtain L B Q where rep: "book_rep ?b ?A1 L B Q" using c2(1) by (auto simp: book_rel_def)
  have "ab_asks ?A1 = (p, [r]) # ls" using assms(4) by simp
  from head_order [OF rep this] obtain i Ls f xs where h: "L = i # Ls" "Q i = f # xs" "i \<in> set (L @ B)" "f \<in> set (Q i)"
    "r = rest_of (od ?b f)" "p = o_price (od ?b f)" "o_side (od ?b f) = SELL" "ob_asks_at_price ?b = Some i" by metis
  have inv: "book_inv ?b L B Q (ab_open A)" and view: "ab_asks A = view ?b Q L" using rep by (simp_all add: book_rep_def)
  have Q: "Q i = [f]" and single: "ls = [] \<Longrightarrow> Ls = []" using view h(1,2) assms(4) by (auto simp: view_def)
  have price: "lprice ?b i = p" using book_inv_order(3) [OF inv h(3,4)] h(6) by simp
  have room: "length (book_orders ?A1) + 1 < ME_MAX_ORDER_IDS" using assms(8) by (simp add: book_orders_def)
  obtain x y b0 u where y: "placed ?b x y b0" "in_range y" "o_price y = p'" "o_side y = BUY" "o_qty y = q" "o_client_id y = cl"
      "o_client_order_id y = coid" "o_market_order_id y = ?mo"
    and rest: "rest_order cl coid t BUY p' ?mo q c2 = Inr ((), put_upd u (c2\<lparr>cx_book := set_cell x y (append_links x f f b0)\<rparr>))"
    using rest_order_foreign_run [OF rep c2(2) h(3) Q _ assms(7) room, of p' BUY] assms(5) price by fastforce
  let ?b' = "set_cell x y (append_links x f f b0)"
  let ?c' = "put_upd u (c2\<lparr>cx_book := ?b'\<rparr>)"
  have slot: "aget (slots ?b) (priceToIndex (o_price y)) = Some i"
    using book_inv_level(4) [OF inv h(3)] assms(5) price y(3) by simp
  note j = joins_level [OF rep y(1) h(3) Q slot y(2)]
  have "buyer_behind ?b' i f x"
    unfolding buyer_behind_def j(4,5) using j(1) h(8) book_inv_level(2) [OF inv h(3)] payload_eqD(5) [OF j(2)] y(4) by simp
  moreover have "rest_of (od ?b' f) = r" "o_price (od ?b' f) = p" "o_side (od ?b' f) = SELL"
    using payload_rest [OF j(3)] payload_eqD(5,6) [OF j(3)] h(5-7) by simp_all
  moreover have "same_ids ?b ?b'" using addOrder_foreign_run(2) [OF inv y(1) h(3) Q slot y(2)] by (simp add: added_def)
  then have "ob_next_market_order_id ?b' = ?mo + 1" using rep by (simp add: same_ids_def book_rep_def)
  moreover have "lnext ?b' i = Some i" if "ls = []"
  proof -
    have "\<not> ab_open A" "ring (lnext ?b) (lprev ?b) [i] (ask_end [i] (ab_open A))"
      using inv h(1) single [OF that] by (auto simp: book_inv_def links_ok_def)
    then show ?thesis unfolding j(4) by (simp add: ring_single ask_end_def)
  qed
  moreover have "wf_queues ?c'" using c2(2) by (simp add: put_upd_def wf_queues_def)
  moreover have "cx_book ?c' = ?b'\<lparr>ob_market_update := u\<rparr>" by (simp add: put_upd_def)
  ultimately show ?thesis
    using run rest j(2) y by (intro exI [of _ ?c'] exI [of _ i] exI [of _ f] exI [of _ x] exI [of _ y]) simp
qed

lemma fill_of_rest: "o_price y = p \<Longrightarrow> o_side y = s \<Longrightarrow> rest_of y = r \<Longrightarrow>
    fill_of_order y t f = fill_msg (r_client r) (r_oid r) (r_moid r) s t p f (r_qty r - f)"
  by (auto simp: fill_of_order_def rest_of_def)

lemma fill_of_payload: "payload y = payload y' \<Longrightarrow> fill_of_order y t f = fill_of_order y' t f"
  using payload_eqD [of y y'] by (simp add: fill_of_order_def)

text \<open>The next buy order takes the ask, and there is something left for the buy order behind it.\<close>

lemma next_buy:
  assumes w: "buyer_behind (cx_book c) i f x" and q: "wf_queues c" and n: "o_qty (od (cx_book c) f) < n"
    and p: "sint (o_price (od (cx_book c) f)) \<le> sint price" and y: "payload (od (cx_book c) x) = payload y"
  defines "mo \<equiv> ob_next_market_order_id (cx_book c)"
  shows "\<exists>c2 us. sent c [accepted_msg cl coid mo BUY t price n,
      fill_msg cl coid (short_id mo) BUY t (o_price (od (cx_book c) f)) (o_qty (od (cx_book c) f)) (n - o_qty (od (cx_book c) f)),
      fill_of_order (od (cx_book c) f) t (o_qty (od (cx_book c) f))] us c2 \<and> wf_queues c2 \<and> buyer_alone (cx_book c2) i x \<and>
    payload (od (cx_book c2) x) = payload y \<and> lnext (cx_book c2) = lnext (cx_book c) \<and>
    add cl coid t BUY price n c = bnd (buy_loop cl coid t price (short_id mo) (n - o_qty (od (cx_book c) f)))
      (\<lambda>l. when_do (l \<noteq> 0) (rest_order cl coid t BUY price mo l)) c2"
proof -
  let ?f = "o_qty (od (cx_book c) f)"
  let ?c1 = "put_resp (accepted_msg cl coid mo BUY t price n)
    (c\<lparr>cx_book := (cx_book c)\<lparr>ob_next_market_order_id := mo + 1\<rparr>\<rparr>)"
  have n0: "n \<noteq> 0" "?f \<le> n" using n by auto
  have w1: "buyer_behind (cx_book ?c1) i f x" "wf_queues ?c1" "od (cx_book ?c1) = od (cx_book c)" "lnext (cx_book ?c1) = lnext (cx_book c)"
    using w q by simp_all
  have "o_qty (od (cx_book ?c1) f) \<le> n" using n0 by simp
  from ask_taken [OF w1(1,2) this, where t = t and cl = cl and s = BUY and coid = coid and mo = "short_id mo"]
  obtain c2 us where m: "match_order t cl BUY coid (short_id mo) (Some f) n ?c1 = Inr (n - ?f, c2)" "buyer_alone (cx_book c2) i x"
      "payload (od (cx_book c2) x) = payload y" "lnext (cx_book c2) = lnext (cx_book c)"
    and s: "sent ?c1 [fill_msg cl coid (short_id mo) BUY t (o_price (od (cx_book c) f)) ?f (n - ?f), fill_of_order (od (cx_book c) f) t ?f] us c2"
    unfolding w1(3,4) using y by auto
  have "sint (o_price (od (cx_book ?c1) f)) \<le> sint price" using p by simp
  note round1 = buy_loop_front [OF buyer_fronts(1) [OF w1(1)] n0(1) this, of cl coid t "short_id mo"]
  have "add cl coid t BUY price n c = bnd (buy_loop cl coid t price (short_id mo) n)
      (\<lambda>l. when_do (l \<noteq> 0) (rest_order cl coid t BUY price mo l)) ?c1"
    using add_start [OF q, of cl coid t BUY price n]
    by (simp add: mo_def accepted_msg_def checkForMatch_def short_id_def bnd_ret_right)
  then have run: "add cl coid t BUY price n c = bnd (buy_loop cl coid t price (short_id mo) (n - ?f))
      (\<lambda>l. when_do (l \<noteq> 0) (rest_order cl coid t BUY price mo l)) c2"
    using round1 m(1) by (simp add: bnd_def)
  have "sent c [accepted_msg cl coid mo BUY t price n] [] ?c1" by (simp add: sent_def put_resp_def)
  from sent_trans [OF this s] sent_wf [OF s w1(2)] show ?thesis
    using m run by (intro exI [of _ c2] exI [of _ "[] @ us"]) simp
qed

section \<open>Properties\<close>

text \<open>
  C21. A buy order whose price is below the best ask, but has its slot, rests behind that ask. The next buy order
  that takes the ask and wants more trades with it: two buy orders are filled against each other, both
  clients are told that they bought, and the second one at the price of the first, below every ask.
\<close>

theorem buys_trade_with_buys:
  assumes "book_rel (cx_book c) A" "wf_queues c" "ab_next A \<noteq> -1" "ab_asks A = (p, [r]) # ls"
    "priceToIndex p' = priceToIndex p" "sint p' < sint p" "ids_in_range cl coid"
    "length (book_orders A) + 1 < ME_MAX_ORDER_IDS" "r_qty r < n" "n - r_qty r < q" "sint p \<le> sint price"
  shows "\<exists>c1 c2 us. add cl coid t BUY p' q c = Inr ((), c1) \<and> add cl' coid' t BUY price n c1 = Inr ((), c2) \<and>
    sent c1 [accepted_msg cl' coid' (ab_next A + 1) BUY t price n,
      fill_msg cl' coid' (short_id (ab_next A + 1)) BUY t p (r_qty r) (n - r_qty r),
      fill_msg (r_client r) (r_oid r) (r_moid r) SELL t p (r_qty r) 0,
      fill_msg cl' coid' (short_id (ab_next A + 1)) BUY t p' (n - r_qty r) 0,
      fill_msg cl coid (ab_next A) BUY t p' (n - r_qty r) (q - (n - r_qty r))] us c2"
proof -
  have q: "q \<noteq> 0" using assms(10) by auto
  obtain c1 i f x y where 1: "add cl coid t BUY p' q c = Inr ((), c1)" "wf_queues c1" "buyer_behind (cx_book c1) i f x"
    and f: "rest_of (od (cx_book c1) f) = r" "o_price (od (cx_book c1) f) = p" "o_side (od (cx_book c1) f) = SELL"
    and y: "payload (od (cx_book c1) x) = payload y" "o_client_id y = cl" "o_client_order_id y = coid"
      "o_market_order_id y = ab_next A" "o_side y = BUY" "o_price y = p'" "o_qty y = q"
    and mo: "ob_next_market_order_id (cx_book c1) = ab_next A + 1"
    using buyer_rests [OF assms(1-8) q, of t] by blast
  have fq: "o_qty (od (cx_book c1) f) = r_qty r" using f(1) by auto
  have "o_qty (od (cx_book c1) f) < n" "sint (o_price (od (cx_book c1) f)) \<le> sint price" using fq f(2) assms(9,11) by simp_all
  from next_buy [OF 1(3,2) this y(1), where t = t and cl = cl' and coid = coid', unfolded mo fq fill_of_rest [OF f(2,3,1)], unfolded f(2)]
  obtain c2 us where 2: "sent c1 [accepted_msg cl' coid' (ab_next A + 1) BUY t price n,
      fill_msg cl' coid' (short_id (ab_next A + 1)) BUY t p (r_qty r) (n - r_qty r),
      fill_msg (r_client r) (r_oid r) (r_moid r) SELL t p (r_qty r) (r_qty r - r_qty r)] us c2"
    "wf_queues c2" "buyer_alone (cx_book c2) i x" "payload (od (cx_book c2) x) = payload y"
    and run: "add cl' coid' t BUY price n c1 = bnd (buy_loop cl' coid' t price (short_id (ab_next A + 1)) (n - r_qty r))
      (\<lambda>l. when_do (l \<noteq> 0) (rest_order cl' coid' t BUY price (ab_next A + 1) l)) c2" by blast
  note x = buyer_fronts(2) [OF 2(3)] payload_eqD [OF 2(4)]
  have pre: "x < ocap (cx_book c2)" "n - r_qty r < o_qty (od (cx_book c2) x)" "n - r_qty r \<noteq> 0"
      "sint (o_price (od (cx_book c2) x)) \<le> sint price"
    using x assms(6,9-11) y(6,7) by (auto simp: at_front_def)
  from match_partial [OF pre(1) 2(2) pre(2), of t cl' BUY coid' "short_id (ab_next A + 1)"] fill_of_payload [OF 2(4)]
  obtain c3 us2 where 3: "match_order t cl' BUY coid' (short_id (ab_next A + 1)) (Some x) (n - r_qty r) c2 = Inr (0, c3)"
    "sent c2 [fill_msg cl' coid' (short_id (ab_next A + 1)) BUY t p' (n - r_qty r) 0,
      fill_msg cl coid (ab_next A) BUY t p' (n - r_qty r) (q - (n - r_qty r))] us2 c3"
    using x(7) y by (auto simp: fill_of_order_def)
  have "add cl' coid' t BUY price n c1 = Inr ((), c3)"
    unfolding run using buy_loop_front [OF x(1) pre(3,4)] 3(1) by (simp add: bnd_def)
  then show ?thesis using 1(1) sent_trans [OF 2(1) 3(2)] by (intro exI [of _ c1] exI [of _ c3]) auto
qed

text \<open>An ask of 10 at 300, a buy order of 5 at 44, a buy order of 12 at 300: two of the twelve come from the buyer.\<close>

lemma ask_at_300:
  "\<exists>c. book_rel (cx_book c) (one_ask 1 7 300 10) \<and> wf_queues c"
  using one_ask_run [of 8 8 10 1 7 0 300] by (auto simp: ids_in_range_def limit_defs)

lemma one_ask_sel:
  "ab_next (one_ask cl oid p q) = 2" "length (book_orders (one_ask cl oid p q)) = 1"
  "ab_asks (one_ask cl oid p q) = [(p, [\<lparr>r_client = cl, r_oid = oid, r_moid = 1, r_qty = q, r_prio = 1\<rparr>])]"
  by (simp_all add: one_ask_def book_orders_def orders_of_def)

theorem buys_trade_with_buys_witness:
  "\<exists>c c1 c2 us. add 2 8 0 BUY 44 5 c = Inr ((), c1) \<and> add 3 9 0 BUY 300 12 c1 = Inr ((), c2) \<and>
     sent c1 [accepted_msg 3 9 3 BUY 0 300 12, fill_msg 3 9 3 BUY 0 300 10 2, fill_msg 1 7 1 SELL 0 300 10 0,
       fill_msg 3 9 3 BUY 0 44 2 0, fill_msg 2 8 2 BUY 0 44 2 3] us c2"
proof -
  obtain c where c: "book_rel (cx_book c) (one_ask 1 7 300 10)" "wf_queues c" using ask_at_300 by blast
  have pre: "ab_next (one_ask 1 7 300 10) \<noteq> -1" "priceToIndex 44 = priceToIndex 300" "sint (44 :: Price) < sint (300 :: Price)"
    "ids_in_range 2 8" "length (book_orders (one_ask 1 7 300 10)) + 1 < ME_MAX_ORDER_IDS" "sint (300 :: Price) \<le> sint (300 :: Price)"
    "short_id 3 = 3"
    by (simp_all add: one_ask_sel priceToIndex_def ids_in_range_def limit_defs short_id_def)
  show ?thesis
    using buys_trade_with_buys [OF c pre(1) one_ask_sel(3) pre(2-5), of 12 5 300, OF _ _ pre(6), where t = 0 and cl' = 3 and coid' = 9]
      pre(7) by (simp add: one_ask_sel(1)) blast
qed

text \<open>
  C22. When the ask is the only one and the next buy order is large enough to take the buy order behind it as well,
  \<open>asks_at_price_\<close> is left on the level that has been given back to the pool. If something is left to buy, the same
  call goes on with that level and dereferences \<open>nullptr\<close>; if not, the first buy order after it does.
\<close>

theorem taken_buyer_faults:
  assumes "book_rel (cx_book c) A" "wf_queues c" "ab_next A \<noteq> -1" "ab_asks A = [(p, [r])]"
    "priceToIndex p' = priceToIndex p" "sint p' < sint p" "ids_in_range cl coid"
    "length (book_orders A) + 1 < ME_MAX_ORDER_IDS" "r_qty r < n" "q \<le> n - r_qty r" "q \<noteq> 0" "sint p \<le> sint price"
  shows "\<exists>c1. add cl coid t BUY p' q c = Inr ((), c1) \<and>
    (if q < n - r_qty r then add cl' coid' t BUY price n c1 = Inl Null_deref
     else \<exists>c2. add cl' coid' t BUY price n c1 = Inr ((), c2) \<and>
       (\<forall>cl'' coid'' price3 n3. n3 \<noteq> 0 \<and> sint p' \<le> sint price3 \<longrightarrow> add cl'' coid'' t BUY price3 n3 c2 = Inl Null_deref))"
proof -
  obtain c1 i f x y where 1: "add cl coid t BUY p' q c = Inr ((), c1)" "wf_queues c1" "buyer_behind (cx_book c1) i f x"
    and f: "rest_of (od (cx_book c1) f) = r" "o_price (od (cx_book c1) f) = p"
    and y: "payload (od (cx_book c1) x) = payload y" "o_price y = p'" "o_qty y = q"
    and mo: "ob_next_market_order_id (cx_book c1) = ab_next A + 1" and single: "lnext (cx_book c1) i = Some i"
    using buyer_rests [OF assms(1-8,11), of t] by blast
  have fq: "o_qty (od (cx_book c1) f) = r_qty r" using f(1) by auto
  have "o_qty (od (cx_book c1) f) < n" "sint (o_price (od (cx_book c1) f)) \<le> sint price" using fq f(2) assms(9,12) by simp_all
  from next_buy [OF 1(3,2) this y(1), where t = t and cl = cl' and coid = coid', unfolded mo fq]
  obtain c2 where 2: "wf_queues c2" "buyer_alone (cx_book c2) i x" "payload (od (cx_book c2) x) = payload y"
      "lnext (cx_book c2) = lnext (cx_book c1)"
    and run: "add cl' coid' t BUY price n c1 = bnd (buy_loop cl' coid' t price (short_id (ab_next A + 1)) (n - r_qty r))
      (\<lambda>l. when_do (l \<noteq> 0) (rest_order cl' coid' t BUY price (ab_next A + 1) l)) c2" by blast
  have self: "lnext (cx_book c2) i = Some i" using fun_cong [OF 2(4)] single by simp
  note x = buyer_fronts(2) [OF 2(2)] payload_eqD [OF 2(3)]
  have pre: "o_qty (od (cx_book c2) x) \<le> n - r_qty r" "n - r_qty r \<noteq> 0" "sint (o_price (od (cx_book c2) x)) \<le> sint price"
    using x assms(6,9,10,12) y by (auto simp: at_front_def)
  from buyer_taken [OF 2(2) self 2(1) pre(1), where t = t and cl = cl' and s = BUY and coid = coid' and mo = "short_id (ab_next A + 1)"]
  obtain c3 us where 3: "match_order t cl' BUY coid' (short_id (ab_next A + 1)) (Some x) (n - r_qty r) c2 = Inr (n - r_qty r - q, c3)"
    "stale_best (cx_book c3) i x" "o_price (od (cx_book c3) x) = p'" "wf_queues c3"
    using x(7,8) y(2,3) sent_wf 2(1) by fastforce
  have add: "add cl' coid' t BUY price n c1 = bnd (buy_loop cl' coid' t price (short_id (ab_next A + 1)) (n - r_qty r - q))
      (\<lambda>l. when_do (l \<noteq> 0) (rest_order cl' coid' t BUY price (ab_next A + 1) l)) c3"
    unfolding run using buy_loop_front [OF x(1) pre(2,3)] 3(1) by (simp add: bnd_def)
  show ?thesis
  proof (cases "q < n - r_qty r")
    case True
    then have "n - r_qty r - q \<noteq> 0" "sint (o_price (od (cx_book c3) x)) \<le> sint price" using 3(3) assms(6,12) by auto
    from stale_faults [OF 3(2,4) this] have "add cl' coid' t BUY price n c1 = Inl Null_deref"
      unfolding add by (simp add: bnd_Inl)
    then show ?thesis using True 1(1) by auto
  next
    case False
    then have "n - r_qty r - q = 0" using assms(10) by auto
    then have ran: "add cl' coid' t BUY price n c1 = Inr ((), c3)" unfolding add by (simp add: bnd_def)
    have "add cl'' coid'' t BUY price3 n3 c3 = Inl Null_deref" if "n3 \<noteq> 0" "sint p' \<le> sint price3" for cl'' coid'' price3 n3
    proof -
      let ?c = "put_resp (accepted_msg cl'' coid'' (ob_next_market_order_id (cx_book c3)) BUY t price3 n3)
        (c3\<lparr>cx_book := (cx_book c3)\<lparr>ob_next_market_order_id := ob_next_market_order_id (cx_book c3) + 1\<rparr>\<rparr>)"
      have "stale_best (cx_book ?c) i x" "wf_queues ?c" "sint (o_price (od (cx_book ?c) x)) \<le> sint price3" using 3(2-4) that by simp_all
      from stale_faults [OF this(1,2) that(1) this(3)] show ?thesis
        using add_start [OF 3(4), of cl'' coid'' t BUY price3 n3]
        by (simp add: accepted_msg_def checkForMatch_def bnd_ret_right bnd_Inl)
    qed
    then show ?thesis using False 1(1) ran by auto
  qed
qed

theorem taken_buyer_faults_witness:
  "\<exists>c c1 c2. add 2 8 0 BUY 44 5 c = Inr ((), c1) \<and> add 3 9 0 BUY 300 15 c1 = Inr ((), c2) \<and>
     add 4 5 0 BUY 50 1 c2 = Inl Null_deref"
proof -
  obtain c where c: "book_rel (cx_book c) (one_ask 1 7 300 10)" "wf_queues c" using ask_at_300 by blast
  have pre: "ab_next (one_ask 1 7 300 10) \<noteq> -1" "priceToIndex 44 = priceToIndex 300" "sint (44 :: Price) < sint (300 :: Price)"
    "ids_in_range 2 8" "length (book_orders (one_ask 1 7 300 10)) + 1 < ME_MAX_ORDER_IDS" "sint (300 :: Price) \<le> sint (300 :: Price)"
    by (simp_all add: one_ask_sel priceToIndex_def ids_in_range_def limit_defs)
  obtain c1 c2 where "add 2 8 0 BUY 44 5 c = Inr ((), c1)" "add 3 9 0 BUY 300 15 c1 = Inr ((), c2)"
    and f: "\<And>cl coid p n. n \<noteq> 0 \<Longrightarrow> sint (44 :: Price) \<le> sint p \<Longrightarrow> add cl coid 0 BUY p n c2 = Inl Null_deref"
    using taken_buyer_faults [OF c pre(1) one_ask_sel(3) pre(2-5), of 15 5 300, OF _ _ _ pre(6), where t = 0 and cl' = 3 and coid' = 9]
    by (simp split: if_splits) blast
  moreover have "add 4 5 0 BUY 50 1 c2 = Inl Null_deref" using f [of 1 50] by simp
  ultimately show ?thesis by blast
qed

end
