(* ===== verification/Wire_Format.thy ===== *)
theory Wire_Format
  imports Types
begin

text \<open>
  The packed structures of \<open>client_request.h\<close> and \<open>client_response.h\<close> as the bytes they are in memory
  and on the wire (\<open>#pragma pack(push, 1)\<close>, little-endian as on the machines the code is built for):
  what the casts \<open>reinterpret_cast<const OMClientRequest *>\<close> of the order server read and what
  \<open>TCPSocket::send\<close> copies.
\<close>

section \<open>Little-endian integers\<close>

type_synonym byte = "8 word"

unbundle bit_operations_syntax

primrec le_bytes :: "nat \<Rightarrow> 'w::len word \<Rightarrow> byte list" where
  "le_bytes 0 w = []"
| "le_bytes (Suc n) w = ucast w # le_bytes n (drop_bit 8 w)"

primrec le_word :: "byte list \<Rightarrow> 'w::len word" where
  "le_word [] = 0"
| "le_word (b # bs) = ucast b OR push_bit 8 (le_word bs)"

lemma length_le_bytes [simp]: "length (le_bytes n w) = n"
  by (induction n arbitrary: w) simp_all

lemma le_word_le_bytes_take: "le_word (le_bytes n w) = take_bit (8 * n) (w :: 'w::len word)"
proof (induction n arbitrary: w)
  case (Suc n)
  have "ucast (ucast w :: byte) OR push_bit 8 (take_bit (8 * n) (drop_bit 8 w)) = take_bit (8 * Suc n) w"
    by (rule bit_word_eqI) (auto simp: bit_simps)
  then show ?case using Suc by simp
qed simp

lemma le_word_le_bytes [simp]: "LENGTH('w) \<le> 8 * n \<Longrightarrow> le_word (le_bytes n w) = (w :: 'w::len word)"
  by (simp add: le_word_le_bytes_take take_bit_word_eq_self)

lemma le_word_take_bit: "take_bit (8 * length bs) (le_word bs :: 'w::len word) = le_word bs"
proof (induction bs)
  case (Cons b bs)
  have low: "bit (le_word bs :: 'w word) i \<Longrightarrow> i < 8 * length bs" for i
    using Cons by (metis bit_take_bit_iff)
  show ?case by (intro bit_word_eqI) (auto simp: bit_simps dest: low bit_imp_le_length)
qed simp

lemma le_bytes_le_word:
  "8 * length bs \<le> LENGTH('w) \<Longrightarrow> le_bytes (length bs) (le_word bs :: 'w::len word) = bs"
proof (induction bs)
  case (Cons b bs)
  let ?w = "le_word bs :: 'w word"
  have low: "bit ?w i \<Longrightarrow> i < 8 * length bs" for i
    using le_word_take_bit [of bs, where 'w = 'w] by (metis bit_take_bit_iff)
  have "(ucast (ucast b OR push_bit 8 ?w :: 'w word) :: byte) = b"
    using Cons.prems by (intro bit_word_eqI) (auto simp: bit_simps)
  moreover have "drop_bit 8 (ucast b OR push_bit 8 ?w) = ?w"
    using Cons.prems by (intro bit_word_eqI) (auto simp: bit_simps dest: low bit_imp_le_length)
  ultimately show ?case using Cons by simp
qed simp


section \<open>Enumerations\<close>

fun Side_of_byte :: "byte \<Rightarrow> Side" where
  "Side_of_byte b = (if b = 0 then Side_INVALID else if b = 1 then BUY else if b = - 1 then SELL else Side_other b)"

fun byte_of_Side :: "Side \<Rightarrow> byte" where
  "byte_of_Side Side_INVALID = 0"
| "byte_of_Side BUY = 1"
| "byte_of_Side SELL = - 1"
| "byte_of_Side (Side_other b) = b"

fun ClientRequestType_of_byte :: "byte \<Rightarrow> ClientRequestType" where
  "ClientRequestType_of_byte b =
     (if b = 0 then Request_INVALID else if b = 1 then Request_NEW else if b = 2 then Request_CANCEL
      else Request_other b)"

fun byte_of_ClientRequestType :: "ClientRequestType \<Rightarrow> byte" where
  "byte_of_ClientRequestType Request_INVALID = 0"
| "byte_of_ClientRequestType Request_NEW = 1"
| "byte_of_ClientRequestType Request_CANCEL = 2"
| "byte_of_ClientRequestType (Request_other b) = b"

fun ClientResponseType_of_byte :: "byte \<Rightarrow> ClientResponseType" where
  "ClientResponseType_of_byte b =
     (if b = 0 then Response_INVALID else if b = 1 then ACCEPTED else if b = 2 then CANCELED
      else if b = 3 then FILLED else if b = 4 then CANCEL_REJECTED else Response_other b)"

fun byte_of_ClientResponseType :: "ClientResponseType \<Rightarrow> byte" where
  "byte_of_ClientResponseType Response_INVALID = 0"
| "byte_of_ClientResponseType ACCEPTED = 1"
| "byte_of_ClientResponseType CANCELED = 2"
| "byte_of_ClientResponseType FILLED = 3"
| "byte_of_ClientResponseType CANCEL_REJECTED = 4"
| "byte_of_ClientResponseType (Response_other b) = b"

text \<open>The last constructor of each enumeration is meant for the bytes without an enumerator only.\<close>

lemma enum_bytes [simp]:
  "byte_of_Side (Side_of_byte b) = b"
  "byte_of_ClientRequestType (ClientRequestType_of_byte b) = b"
  "byte_of_ClientResponseType (ClientResponseType_of_byte b) = b"
  by simp_all

section \<open>Structures\<close>

text \<open>The field of \<open>n\<close> bytes at an offset.\<close>

definition field :: "nat \<Rightarrow> nat \<Rightarrow> byte list \<Rightarrow> 'w::len word" where
  "field off n bs = le_word (take n (drop off bs))"

definition sizeof_MEClientRequest :: nat where "sizeof_MEClientRequest = 30"
definition sizeof_OMClientRequest :: nat where "sizeof_OMClientRequest = 38"
definition sizeof_MEClientResponse :: nat where "sizeof_MEClientResponse = 42"

lemmas sizeof_defs = sizeof_MEClientRequest_def sizeof_OMClientRequest_def sizeof_MEClientResponse_def

definition MEClientRequest_of_bytes :: "byte list \<Rightarrow> MEClientRequest" where
  "MEClientRequest_of_bytes bs =
     \<lparr>req_type = ClientRequestType_of_byte (field 0 1 bs), req_client_id = field 1 4 bs,
      req_ticker_id = field 5 4 bs, req_order_id = field 9 8 bs, req_side = Side_of_byte (field 17 1 bs),
      req_price = field 18 8 bs, req_qty = field 26 4 bs\<rparr>"

definition bytes_of_MEClientRequest :: "MEClientRequest \<Rightarrow> byte list" where
  "bytes_of_MEClientRequest r =
     le_bytes 1 (byte_of_ClientRequestType (req_type r)) @ le_bytes 4 (req_client_id r) @
     le_bytes 4 (req_ticker_id r) @ le_bytes 8 (req_order_id r) @ le_bytes 1 (byte_of_Side (req_side r)) @
     le_bytes 8 (req_price r) @ le_bytes 4 (req_qty r)"

definition OMClientRequest_of_bytes :: "byte list \<Rightarrow> OMClientRequest" where
  "OMClientRequest_of_bytes bs =
     \<lparr>om_seq_num = field 0 8 bs, om_me_client_request = MEClientRequest_of_bytes (drop 8 bs)\<rparr>"

definition bytes_of_OMClientRequest :: "OMClientRequest \<Rightarrow> byte list" where
  "bytes_of_OMClientRequest r = le_bytes 8 (om_seq_num r) @ bytes_of_MEClientRequest (om_me_client_request r)"

definition bytes_of_MEClientResponse :: "MEClientResponse \<Rightarrow> byte list" where
  "bytes_of_MEClientResponse r =
     le_bytes 1 (byte_of_ClientResponseType (resp_type r)) @ le_bytes 4 (resp_client_id r) @
     le_bytes 4 (resp_ticker_id r) @ le_bytes 8 (resp_client_order_id r) @ le_bytes 8 (resp_market_order_id r) @
     le_bytes 1 (byte_of_Side (resp_side r)) @ le_bytes 8 (resp_price r) @ le_bytes 4 (resp_exec_qty r) @
     le_bytes 4 (resp_leaves_qty r)"

lemma length_bytes [simp]:
  "length (bytes_of_MEClientRequest r) = sizeof_MEClientRequest"
  "length (bytes_of_OMClientRequest m) = sizeof_OMClientRequest"
  "length (bytes_of_MEClientResponse p) = sizeof_MEClientResponse"
  by (simp_all add: bytes_of_MEClientRequest_def bytes_of_OMClientRequest_def bytes_of_MEClientResponse_def sizeof_defs)

lemma le_bytes_field:
  assumes "8 * n \<le> LENGTH('w)" "off + n \<le> length bs" "m = off + n"
  shows "le_bytes n (field off n bs :: 'w::len word) @ drop m bs = drop off bs"
proof -
  have "length (take n (drop off bs)) = n" using assms(2) by simp
  then have "le_bytes n (field off n bs :: 'w word) = take n (drop off bs)"
    using le_bytes_le_word [of "take n (drop off bs)", where 'w = 'w] assms(1) by (simp only: field_def)
  then show ?thesis
    using append_take_drop_id [of n "drop off bs"] by (simp add: assms(3) add.commute)
qed

lemma field_append:
  "off < length xs \<Longrightarrow> off + n \<le> length xs \<Longrightarrow> field off n (xs @ ys) = field off n xs"
  "length xs \<le> off \<Longrightarrow> field off n (xs @ ys) = field (off - length xs) n ys"
  by (simp_all add: field_def)

lemma field_le_bytes [simp]: "LENGTH('w) \<le> 8 * n \<Longrightarrow> field 0 n (le_bytes n w) = (w :: 'w::len word)"
  by (simp add: field_def)

lemma le_bytes_last_field:
  assumes "8 * n \<le> LENGTH('w)" "off + n = length bs"
  shows "le_bytes n (field off n bs :: 'w::len word) = drop off bs"
  using le_bytes_field [OF assms(1) eq_imp_le [OF assms(2)] refl] by (simp only: assms(2) drop_all order_refl append_Nil2)

lemma bytes_of_MEClientRequest_of_bytes:
  assumes "length bs = sizeof_MEClientRequest"
  shows "bytes_of_MEClientRequest (MEClientRequest_of_bytes bs) = bs"
proof -
  have len: "length bs = 30" using assms by (simp add: sizeof_defs)
  have last: "le_bytes 4 (field 26 4 bs :: 32 word) = drop 26 bs"
    by (rule le_bytes_last_field) (simp_all add: len)
  have glue: "le_bytes 8 (field 18 8 bs :: 64 word) @ drop 26 bs = drop 18 bs"
    "le_bytes 1 (field 17 1 bs :: 8 word) @ drop 18 bs = drop 17 bs"
    "le_bytes 8 (field 9 8 bs :: 64 word) @ drop 17 bs = drop 9 bs"
    "le_bytes 4 (field 5 4 bs :: 32 word) @ drop 9 bs = drop 5 bs"
    "le_bytes 4 (field 1 4 bs :: 32 word) @ drop 5 bs = drop 1 bs"
    "le_bytes 1 (field 0 1 bs :: 8 word) @ drop 1 bs = drop 0 bs"
    by (rule le_bytes_field; simp add: len)+
  show ?thesis
    by (simp only: bytes_of_MEClientRequest_def MEClientRequest_of_bytes_def MEClientRequest.select_convs
        enum_bytes last glue drop_0)
qed

definition plain_request :: "MEClientRequest \<Rightarrow> bool" where
  "plain_request r \<longleftrightarrow> req_type r \<in> {Request_INVALID, Request_NEW, Request_CANCEL} \<and>
     req_side r \<in> {Side_INVALID, BUY, SELL}"

lemma MEClientRequest_of_bytes_of:
  assumes "plain_request r"
  shows "MEClientRequest_of_bytes (bytes_of_MEClientRequest r) = r"
  using assms
  by (auto simp: MEClientRequest_of_bytes_def bytes_of_MEClientRequest_def plain_request_def field_append
      simp del: One_nat_def)

lemma OMClientRequest_of_bytes_of:
  "plain_request (om_me_client_request r) \<Longrightarrow> OMClientRequest_of_bytes (bytes_of_OMClientRequest r) = r"
  using MEClientRequest_of_bytes_of [of "om_me_client_request r"]
  by (simp add: OMClientRequest_of_bytes_def bytes_of_OMClientRequest_def field_append)


section \<open>Properties\<close>

text \<open>
  The layout of a client request on the wire: a request whose enumerations have enumerators is read
  back from its 38 bytes as it was written; and reading any 38 bytes loses none of them, whatever
  values they hold.
\<close>

theorem OMClientRequest_wire_roundtrip:
  "(plain_request (om_me_client_request r) \<longrightarrow> OMClientRequest_of_bytes (bytes_of_OMClientRequest r) = r) \<and>
   (length bs = sizeof_OMClientRequest \<longrightarrow> bytes_of_OMClientRequest (OMClientRequest_of_bytes bs) = bs)"
proof (intro conjI impI)
  show "OMClientRequest_of_bytes (bytes_of_OMClientRequest r) = r" if "plain_request (om_me_client_request r)"
    using that by (rule OMClientRequest_of_bytes_of)
  show "bytes_of_OMClientRequest (OMClientRequest_of_bytes bs) = bs" if "length bs = sizeof_OMClientRequest"
    using that bytes_of_MEClientRequest_of_bytes [of "drop 8 bs"]
    by (simp add: OMClientRequest_of_bytes_def bytes_of_OMClientRequest_def le_bytes_field sizeof_defs)
qed

theorem OMClientRequest_wire_roundtrip_witness:
  "plain_request (om_me_client_request \<lparr>om_seq_num = 1, om_me_client_request = MEClientRequest_default\<rparr>) \<and>
   OMClientRequest_of_bytes (bytes_of_OMClientRequest \<lparr>om_seq_num = 1, om_me_client_request = MEClientRequest_default\<rparr>) =
     \<lparr>om_seq_num = 1, om_me_client_request = MEClientRequest_default\<rparr> \<and>
   bytes_of_OMClientRequest (OMClientRequest_of_bytes (replicate 38 255)) = replicate 38 255"
proof -
  have "plain_request MEClientRequest_default" by (simp add: plain_request_def MEClientRequest_default_def)
  then show ?thesis
    using OMClientRequest_wire_roundtrip [of "\<lparr>om_seq_num = 1, om_me_client_request = MEClientRequest_default\<rparr>" "replicate 38 255"]
    by (simp add: sizeof_defs)
qed

end
