(* ===== verification/FIFO_Sequencer.thy ===== *)
theory FIFO_Sequencer
  imports Lock_Free_Queue Types "HOL-Library.Multiset"
begin

text \<open>
  \<open>exchange/order_server/fifo_sequencer.h\<close>: the requests of one poll of the sockets are collected with
  their receive times, sorted by them, and published to the matching engine. \<open>std::sort\<close> is only
  known by its contract, the locale \<open>std_sort\<close>: a sorted permutation, and nothing on equal keys.
\<close>

section \<open>The sequencer\<close>

type_synonym Nanos = "64 word"

record RecvTimeClientRequest =
  rt_recv_time :: Nanos
  rt_request :: MEClientRequest

definition earlier :: "RecvTimeClientRequest \<Rightarrow> RecvTimeClientRequest \<Rightarrow> bool" where
  "earlier x y \<longleftrightarrow> sint (rt_recv_time x) < sint (rt_recv_time y)"

definition ME_MAX_PENDING_REQUESTS :: nat where
  "ME_MAX_PENDING_REQUESTS = 1024"

record FIFOSequencer =
  fs_incoming_requests :: "MEClientRequest LFQueue"
  fs_pending_client_requests :: "RecvTimeClientRequest carray"
  fs_pending_size :: nat

definition FIFOSequencer_new :: "MEClientRequest LFQueue \<Rightarrow> FIFOSequencer" where
  "FIFOSequencer_new client_requests =
     \<lparr>fs_incoming_requests = client_requests,
      fs_pending_client_requests =
        arr_fill ME_MAX_PENDING_REQUESTS \<lparr>rt_recv_time = 0, rt_request = MEClientRequest_default\<rparr>,
      fs_pending_size = 0\<rparr>"

definition addClientRequest :: "Nanos \<Rightarrow> MEClientRequest \<Rightarrow> (FIFOSequencer, unit) prog" where
  "addClientRequest rx_time request =
     bnd (rd fs_pending_size) (\<lambda>n.
     bnd (rd fs_pending_client_requests) (\<lambda>pending.
     sq (when_do (n \<ge> alen pending) (FATAL ''Too many pending requests''))
    (sq (wr (\<lambda>s. s\<lparr>fs_pending_size := n + 1\<rparr>))
    (bnd (lift_res (arr_at pending n)) (\<lambda>_.
     wr (\<lambda>s. s\<lparr>fs_pending_client_requests :=
       arr_put n \<lparr>rt_recv_time = rx_time, rt_request = request\<rparr> pending\<rparr>))))))"

text \<open>The pending requests in the order of arrival, and the sort of that part of the array in place.\<close>

definition pending_list :: "FIFOSequencer \<Rightarrow> RecvTimeClientRequest list" where
  "pending_list s = map (aget (fs_pending_client_requests s)) [0..<fs_pending_size s]"

definition put_prefix :: "'a list \<Rightarrow> 'a carray \<Rightarrow> 'a carray" where
  "put_prefix xs a = a\<lparr>aget := (\<lambda>i. if i < length xs then xs ! i else aget a i)\<rparr>"

definition sort_pending ::
  "(RecvTimeClientRequest list \<Rightarrow> RecvTimeClientRequest list) \<Rightarrow> (FIFOSequencer, unit) prog" where
  "sort_pending srt =
     wr (\<lambda>s. s\<lparr>fs_pending_client_requests := put_prefix (srt (pending_list s)) (fs_pending_client_requests s)\<rparr>)"

text \<open>The publishing loop, over the indices it visits.\<close>

fun publish_loop :: "nat list \<Rightarrow> (FIFOSequencer, unit) prog" where
  "publish_loop [] = ret ()"
| "publish_loop (i # is) =
     bnd (rd fs_pending_client_requests) (\<lambda>pending.
     bnd (lift_res (arr_at pending i)) (\<lambda>r.
     sq (zoom fs_incoming_requests (\<lambda>q s. s\<lparr>fs_incoming_requests := q\<rparr>) (push_elem (rt_request r)))
    (publish_loop is)))"

definition sequenceAndPublish ::
  "(RecvTimeClientRequest list \<Rightarrow> RecvTimeClientRequest list) \<Rightarrow> (FIFOSequencer, unit) prog" where
  "sequenceAndPublish srt =
     bnd (rd fs_pending_size) (\<lambda>n.
     if n = 0 then ret ()
     else
       sq (sort_pending srt)
      (sq (publish_loop [0..<n])
      (wr (\<lambda>s. s\<lparr>fs_pending_size := 0\<rparr>))))"

section \<open>The contract of the sort\<close>

definition in_time_order :: "RecvTimeClientRequest list \<Rightarrow> bool" where
  "in_time_order xs \<longleftrightarrow> sorted_wrt (\<lambda>x y. \<not> earlier y x) xs"

locale std_sort =
  fixes srt :: "RecvTimeClientRequest list \<Rightarrow> RecvTimeClientRequest list"
  assumes mset_srt: "mset (srt xs) = mset xs"
    and srt_order: "in_time_order (srt xs)"
begin

lemma length_srt: "length (srt xs) = length xs"
  using mset_srt by (rule mset_eq_length)

lemma set_srt: "set (srt xs) = set xs"
  using mset_srt by (rule mset_eq_setD)

text \<open>With strictly increasing times there is only one way to sort: the order of arrival.\<close>

lemma srt_strict:
  assumes "sorted_wrt earlier xs"
  shows "srt xs = xs"
proof -
  let ?key = "\<lambda>x. sint (rt_recv_time x)"
  have "sorted (map ?key (srt xs))"
    using srt_order [of xs] by (simp add: in_time_order_def earlier_def sorted_map not_less)
  moreover have "sorted_wrt (<) (map ?key xs)"
    using assms by (simp add: sorted_wrt_map earlier_def [abs_def])
  then have "sorted (map ?key xs)" "distinct (map ?key xs)"
    by (simp_all add: strict_sorted_iff)
  moreover have "mset (map ?key (srt xs)) = mset (map ?key xs)" using mset_srt by simp
  ultimately have keys: "map ?key (srt xs) = map ?key xs"
    by (metis properties_for_sort)
  have "inj_on ?key (set xs)" using \<open>distinct (map ?key xs)\<close> by (simp add: distinct_map)
  then have "inj_on ?key (set (srt xs) \<union> set xs)" by (simp add: set_srt)
  with keys show ?thesis by (metis map_inj_on)
qed

end

text \<open>
  Two sorts that meet the contract: one that keeps the order of arrival among equal times and one
  that reverses it. The code may not assume more than what both share.
\<close>

definition time_of :: "RecvTimeClientRequest \<Rightarrow> int" where
  "time_of x = sint (rt_recv_time x)"

definition stable_sort :: "RecvTimeClientRequest list \<Rightarrow> RecvTimeClientRequest list" where
  "stable_sort xs = sort_key time_of xs"

definition late_first_sort :: "RecvTimeClientRequest list \<Rightarrow> RecvTimeClientRequest list" where
  "late_first_sort xs = sort_key time_of (rev xs)"

lemma sort_key_in_time_order: "in_time_order (sort_key time_of xs)"
  using sorted_sort_key [of time_of xs]
  by (simp add: in_time_order_def earlier_def time_of_def sorted_map not_less)

interpretation stable: std_sort stable_sort
  by unfold_locales (simp_all add: stable_sort_def sort_key_in_time_order)

interpretation late_first: std_sort late_first_sort
  by unfold_locales (simp_all add: late_first_sort_def sort_key_in_time_order)


section \<open>Publishing\<close>

definition seq_ok :: "FIFOSequencer \<Rightarrow> bool" where
  "seq_ok s \<longleftrightarrow> alen (fs_pending_client_requests s) = ME_MAX_PENDING_REQUESTS \<and>
     fs_pending_size s \<le> ME_MAX_PENDING_REQUESTS"

lemma FIFOSequencer_new_ok: "seq_ok (FIFOSequencer_new q)" "pending_list (FIFOSequencer_new q) = []"
  by (simp_all add: FIFOSequencer_new_def seq_ok_def pending_list_def)

lemma length_pending_list [simp]: "length (pending_list s) = fs_pending_size s"
  by (simp add: pending_list_def)

lemma addClientRequest_run:
  assumes "seq_ok s" "fs_pending_size s < ME_MAX_PENDING_REQUESTS"
  shows "\<exists>s'. addClientRequest t r s = Inr ((), s') \<and> seq_ok s' \<and>
    pending_list s' = pending_list s @ [\<lparr>rt_recv_time = t, rt_request = r\<rparr>] \<and>
    fs_incoming_requests s' = fs_incoming_requests s"
proof -
  let ?n = "fs_pending_size s" and ?p = "fs_pending_client_requests s"
  let ?s = "s\<lparr>fs_pending_size := ?n + 1,
    fs_pending_client_requests := arr_put ?n \<lparr>rt_recv_time = t, rt_request = r\<rparr> ?p\<rparr>"
  have "addClientRequest t r s = Inr ((), ?s)"
    using assms by (simp add: addClientRequest_def bnd_def sq_def seq_ok_def)
  moreover have "pending_list ?s = pending_list s @ [\<lparr>rt_recv_time = t, rt_request = r\<rparr>]"
    by (simp add: pending_list_def)
  ultimately show ?thesis using assms by (auto simp: seq_ok_def)
qed

lemma publish_loop_run:
  assumes "q_wf (fs_incoming_requests s)" "\<forall>i \<in> set is. i < alen (fs_pending_client_requests s)"
  shows "publish_loop is s = Inr ((), s\<lparr>fs_incoming_requests :=
    fold q_push (map (\<lambda>i. rt_request (aget (fs_pending_client_requests s) i)) is) (fs_incoming_requests s)\<rparr>)"
  using assms
  by (induction "is" arbitrary: s) (simp_all add: bnd_def sq_def zoom_def push_elem_run)

lemma map_put_prefix: "map (aget (put_prefix xs a)) [0..<length xs] = xs"
  by (rule nth_equalityI) (simp_all add: put_prefix_def)

text \<open>Any sort that meets the contract: what is published, and in which state the sequencer is left.\<close>

context std_sort
begin

lemma sequence_run:
  assumes "seq_ok s" "q_wf (fs_incoming_requests s)"
  shows "\<exists>s'. sequenceAndPublish srt s = Inr ((), s') \<and> seq_ok s' \<and> pending_list s' = [] \<and>
    fs_incoming_requests s' = fold q_push (map rt_request (srt (pending_list s))) (fs_incoming_requests s)"
proof (cases "fs_pending_size s = 0")
  case True
  have "srt [] = []" using length_srt [of "[]"] by simp
  then show ?thesis using assms True by (simp add: sequenceAndPublish_def bnd_def pending_list_def)
next
  case False
  let ?n = "fs_pending_size s" and ?xs = "srt (pending_list s)"
  let ?s = "s\<lparr>fs_pending_client_requests := put_prefix ?xs (fs_pending_client_requests s)\<rparr>"
  have len: "length ?xs = ?n" by (simp add: length_srt)
  have "publish_loop [0..<?n] ?s = Inr ((), ?s\<lparr>fs_incoming_requests :=
      fold q_push (map (\<lambda>i. rt_request (aget (fs_pending_client_requests ?s) i)) [0..<?n]) (fs_incoming_requests ?s)\<rparr>)"
    by (rule publish_loop_run) (use assms in \<open>simp_all add: put_prefix_def seq_ok_def\<close>)
  moreover have "map (\<lambda>i. rt_request (aget (fs_pending_client_requests ?s) i)) [0..<?n] = map rt_request ?xs"
    using arg_cong [OF map_put_prefix [of ?xs "fs_pending_client_requests s", unfolded len], of "map rt_request"]
    by (simp add: comp_def)
  ultimately show ?thesis
    using assms False
    by (simp add: sequenceAndPublish_def sort_pending_def bnd_def sq_def seq_ok_def put_prefix_def pending_list_def)
qed

end


section \<open>Properties\<close>

text \<open>
  C16. One round of the sequencer, for every sort that meets the contract of \<open>std::sort\<close>: the pending
  requests are pushed onto the queue of the matching engine, each exactly once, in the order of their
  receive times; with strictly increasing receive times that is the order of arrival; and nothing is
  pending afterwards.
\<close>

theorem sequenceAndPublish_orders:
  assumes "\<And>xs. mset (srt xs) = mset xs" "\<And>xs. in_time_order (srt xs)"
    "seq_ok s" "q_ok (fs_incoming_requests s)" "fs_pending_size s \<le> q_room (fs_incoming_requests s)"
  shows "\<exists>s' xs. sequenceAndPublish srt s = Inr ((), s') \<and> pending_list s' = [] \<and>
    q_list (fs_incoming_requests s') = q_list (fs_incoming_requests s) @ map rt_request xs \<and>
    mset xs = mset (pending_list s) \<and> in_time_order xs \<and>
    (sorted_wrt earlier (pending_list s) \<longrightarrow> xs = pending_list s)"
proof -
  have std: "std_sort srt" using assms(1,2) by unfold_locales
  obtain s' where s': "sequenceAndPublish srt s = Inr ((), s')" "pending_list s' = []"
    "fs_incoming_requests s' = fold q_push (map rt_request (srt (pending_list s))) (fs_incoming_requests s)"
    using std_sort.sequence_run [OF std assms(3) q_ok_wf [OF assms(4)]] by blast
  have "length (map rt_request (srt (pending_list s))) \<le> q_room (fs_incoming_requests s)"
    using assms(5) by (simp add: std_sort.length_srt [OF std])
  then show ?thesis
    using s' q_push_batch(2) [OF assms(4)] assms(1,2) std_sort.srt_strict [OF std]
    by (intro exI [of _ s'] exI [of _ "srt (pending_list s)"]) simp
qed

definition rx :: "nat \<Rightarrow> nat \<Rightarrow> RecvTimeClientRequest" where
  "rx t i = \<lparr>rt_recv_time = of_nat t, rt_request = MEClientRequest_default\<lparr>req_order_id := of_nat i\<rparr>\<rparr>"

definition seq_with :: "RecvTimeClientRequest list \<Rightarrow> FIFOSequencer" where
  "seq_with xs = (FIFOSequencer_new (LFQueue_new 8 MEClientRequest_default))
     \<lparr>fs_pending_client_requests := put_prefix xs (fs_pending_client_requests (FIFOSequencer_new (LFQueue_new 8 MEClientRequest_default))),
      fs_pending_size := length xs\<rparr>"

lemma seq_with_ok:
  assumes "length xs \<le> ME_MAX_PENDING_REQUESTS"
  shows "seq_ok (seq_with xs)" "q_ok (fs_incoming_requests (seq_with xs))" "pending_list (seq_with xs) = xs"
    "q_list (fs_incoming_requests (seq_with xs)) = []" "q_room (fs_incoming_requests (seq_with xs)) = 7"
    "fs_pending_size (seq_with xs) = length xs"
  using assms map_put_prefix [of xs]
  by (simp_all add: seq_with_def FIFOSequencer_new_def seq_ok_def pending_list_def put_prefix_def LFQueue_new_ok)

theorem sequenceAndPublish_orders_witness:
  "\<exists>s'. sequenceAndPublish stable_sort (seq_with [rx 30 1, rx 10 2, rx 20 3]) = Inr ((), s') \<and>
     mset (q_list (fs_incoming_requests s')) = mset (map rt_request [rx 30 1, rx 10 2, rx 20 3])"
proof -
  have len: "length [rx 30 1, rx 10 2, rx 20 3] \<le> ME_MAX_PENDING_REQUESTS" by (simp add: ME_MAX_PENDING_REQUESTS_def)
  note ok = seq_with_ok [OF len]
  obtain s' xs where "sequenceAndPublish stable_sort (seq_with [rx 30 1, rx 10 2, rx 20 3]) = Inr ((), s')"
    "q_list (fs_incoming_requests s') = map rt_request xs" "mset xs = mset [rx 30 1, rx 10 2, rx 20 3]"
    using sequenceAndPublish_orders [OF stable.mset_srt stable.srt_order ok(1,2)] ok(3-6) by auto
  then show ?thesis by (simp add: mset_map)
qed

text \<open>
  Equal receive times lose the order of arrival: of two requests with the same time, one sort that
  meets the contract publishes the first one first, and another publishes it last.
\<close>

theorem equal_times_not_fifo:
  "\<exists>s1 s2. sequenceAndPublish stable_sort (seq_with [rx t i, rx t j]) = Inr ((), s1) \<and>
     q_list (fs_incoming_requests s1) = [rt_request (rx t i), rt_request (rx t j)] \<and>
     sequenceAndPublish late_first_sort (seq_with [rx t i, rx t j]) = Inr ((), s2) \<and>
     q_list (fs_incoming_requests s2) = [rt_request (rx t j), rt_request (rx t i)]"
proof -
  have len: "length [rx t i, rx t j] \<le> ME_MAX_PENDING_REQUESTS" by (simp add: ME_MAX_PENDING_REQUESTS_def)
  note ok = seq_with_ok [OF len]
  have room: "length [a, b] \<le> q_room (fs_incoming_requests (seq_with [rx t i, rx t j]))" for a b :: MEClientRequest
    using ok(5) by simp
  have "stable_sort [rx t i, rx t j] = [rx t i, rx t j]" "late_first_sort [rx t i, rx t j] = [rx t j, rx t i]"
    by (simp_all add: stable_sort_def late_first_sort_def time_of_def rx_def)
  then show ?thesis
    using stable.sequence_run [OF ok(1) q_ok_wf [OF ok(2)]] late_first.sequence_run [OF ok(1) q_ok_wf [OF ok(2)]]
      q_push_batch(2) [OF ok(2) room] ok(3,4)
    by auto
qed

text \<open>
  At most 1024 requests fit between two rounds: \<open>addClientRequest\<close> appends the request with its
  receive time while there is room and ends the process with a \<open>FATAL\<close> when there is none.
\<close>

theorem addClientRequest_bound:
  assumes "seq_ok s"
  shows "if fs_pending_size s = 1024
    then addClientRequest t r s = Inl (Fatal ''Too many pending requests'')
    else \<exists>s'. addClientRequest t r s = Inr ((), s') \<and> seq_ok s' \<and>
      pending_list s' = pending_list s @ [\<lparr>rt_recv_time = t, rt_request = r\<rparr>] \<and>
      fs_incoming_requests s' = fs_incoming_requests s"
proof (cases "fs_pending_size s = 1024")
  case True
  then show ?thesis
    using assms by (simp add: addClientRequest_def bnd_def sq_def seq_ok_def ME_MAX_PENDING_REQUESTS_def)
next
  case False
  then have "fs_pending_size s < ME_MAX_PENDING_REQUESTS" using assms by (simp add: seq_ok_def ME_MAX_PENDING_REQUESTS_def)
  from addClientRequest_run [OF assms this] False show ?thesis by simp
qed

theorem addClientRequest_bound_witness:
  "\<exists>s'. addClientRequest 5 MEClientRequest_default (seq_with []) = Inr ((), s') \<and>
     pending_list s' = [\<lparr>rt_recv_time = 5, rt_request = MEClientRequest_default\<rparr>]"
  using addClientRequest_bound [OF seq_with_ok(1) [of "[]"], of 5 MEClientRequest_default] seq_with_ok(3,6) [of "[]"]
  by auto

end
