(* ===== verification/TCP_Socket.thy ===== *)
theory TCP_Socket
  imports Wire_Format FIFO_Sequencer
begin

text \<open>
  \<open>low-latency-components/tcp_socket.h\<close>: the two buffers of a socket and \<open>sendAndRecv\<close>, which takes
  what the kernel has received, calls the owner's callback, and hands the outgoing bytes to the
  kernel. The answers of the system calls are arguments.
\<close>

section \<open>The socket\<close>

definition TCPBufferSize :: nat where
  "TCPBufferSize = 64 * 1024 * 1024"

text \<open>\<open>ts_wire\<close> is not in the code: it collects the bytes the kernel has accepted from this socket.\<close>

record TCPSocket =
  ts_socket_fd :: int
  ts_outbound_data :: "byte carray"
  ts_next_send_valid_index :: nat
  ts_inbound_data :: "byte carray"
  ts_next_rcv_valid_index :: nat
  ts_wire :: "byte list"

definition TCPSocket_new :: TCPSocket where
  "TCPSocket_new = \<lparr>ts_socket_fd = - 1, ts_outbound_data = arr_fill TCPBufferSize 0, ts_next_send_valid_index = 0,
     ts_inbound_data = arr_fill TCPBufferSize 0, ts_next_rcv_valid_index = 0, ts_wire = []\<rparr>"

text \<open>\<open>connect\<close>; \<open>fd\<close> is what \<open>CreateSocket\<close> returned.\<close>

definition TCPSocket_connect :: "int \<Rightarrow> (TCPSocket, int) prog" where
  "TCPSocket_connect fd = sq (wr (\<lambda>s. s\<lparr>ts_socket_fd := fd\<rparr>)) (ret fd)"

section \<open>Copies\<close>

text \<open>The bytes of a buffer from an offset on, and a copy into it, which is not checked.\<close>

definition slice :: "nat \<Rightarrow> nat \<Rightarrow> byte carray \<Rightarrow> byte list" where
  "slice off n a = map (aget a) [off..<off + n]"

definition blit :: "nat \<Rightarrow> byte list \<Rightarrow> byte carray \<Rightarrow> byte carray" where
  "blit off bs a = a\<lparr>aget := (\<lambda>i. if off \<le> i \<and> i < off + length bs then bs ! (i - off) else aget a i)\<rparr>"

definition memcpy :: "nat \<Rightarrow> byte list \<Rightarrow> byte carray \<Rightarrow> fault + byte carray" where
  "memcpy off bs a = (if off + length bs \<le> alen a then Inr (blit off bs a) else Inl Out_of_bounds)"

text \<open>\<open>send\<close> only appends to the outgoing buffer.\<close>

definition TCPSocket_send :: "byte list \<Rightarrow> (TCPSocket, unit) prog" where
  "TCPSocket_send data =
     bnd (rd (\<lambda>s. memcpy (ts_next_send_valid_index s) data (ts_outbound_data s))) (\<lambda>r.
     bnd (lift_res r) (\<lambda>out.
     sq (wr (\<lambda>s. s\<lparr>ts_outbound_data := out\<rparr>))
    (wr (\<lambda>s. s\<lparr>ts_next_send_valid_index := ts_next_send_valid_index s + length data\<rparr>))))"

section \<open>sendAndRecv\<close>

text \<open>
  What \<open>recvmsg\<close> delivered: the bytes (none when it returned zero or less) and the control messages,
  each with the flag that it is a timestamp. The kernel writes into the free part of the buffer only,
  so there are at most \<open>TCPBufferSize - next_rcv_valid_index_\<close> bytes.
\<close>

record cmsg =
  cm_is_timestamp :: bool
  cm_sec :: "64 word"
  cm_usec :: "64 word"

record recv_answer =
  ra_data :: "byte list"
  ra_cmsgs :: "cmsg list"

definition NANOS_TO_MICROS :: "64 word" where "NANOS_TO_MICROS = 1000"
definition NANOS_TO_SECS :: "64 word" where "NANOS_TO_SECS = 1000 * 1000 * 1000"

text \<open>The first timestamp among the control messages, in nanoseconds, and 0 when there is none.\<close>

fun kernel_time :: "cmsg list \<Rightarrow> Nanos" where
  "kernel_time [] = 0"
| "kernel_time (c # cs) =
     (if cm_is_timestamp c then cm_sec c * NANOS_TO_SECS + cm_usec c * NANOS_TO_MICROS else kernel_time cs)"

definition kernel_fits :: "TCPSocket \<Rightarrow> recv_answer \<Rightarrow> bool" where
  "kernel_fits s a \<longleftrightarrow> ts_next_rcv_valid_index s + length (ra_data a) \<le> TCPBufferSize"

text \<open>The receiving half: the result is the receive time when something was read.\<close>

definition recv_part :: "recv_answer \<Rightarrow> (TCPSocket, Nanos option) prog" where
  "recv_part a =
     (if ra_data a = [] then ret None
      else
        sq (wr (\<lambda>s. s\<lparr>ts_inbound_data := blit (ts_next_rcv_valid_index s) (ra_data a) (ts_inbound_data s),
              ts_next_rcv_valid_index := ts_next_rcv_valid_index s + length (ra_data a)\<rparr>))
       (ret (Some (kernel_time (ra_cmsgs a)))))"

text \<open>
  The sending half. \<open>::send\<close> returns the number of bytes it took, or \<open>- 1\<close>; the code logs the number
  and forgets the whole buffer.
\<close>

definition send_part :: "int \<Rightarrow> (TCPSocket, unit) prog" where
  "send_part n =
     sq (wr (\<lambda>s. if ts_next_send_valid_index s > 0
           then s\<lparr>ts_wire := ts_wire s @ take (nat n) (slice 0 (ts_next_send_valid_index s) (ts_outbound_data s))\<rparr>
           else s))
    (wr (\<lambda>s. s\<lparr>ts_next_send_valid_index := 0\<rparr>))"

section \<open>Buffers as byte strings\<close>

definition sock_ok :: "TCPSocket \<Rightarrow> bool" where
  "sock_ok s \<longleftrightarrow> alen (ts_outbound_data s) = TCPBufferSize \<and> alen (ts_inbound_data s) = TCPBufferSize \<and>
     ts_next_send_valid_index s \<le> TCPBufferSize \<and> ts_next_rcv_valid_index s \<le> TCPBufferSize"

definition out_bytes :: "TCPSocket \<Rightarrow> byte list" where
  "out_bytes s = slice 0 (ts_next_send_valid_index s) (ts_outbound_data s)"

definition in_bytes :: "TCPSocket \<Rightarrow> byte list" where
  "in_bytes s = slice 0 (ts_next_rcv_valid_index s) (ts_inbound_data s)"

lemma length_slice [simp]: "length (slice off n a) = n"
  by (simp add: slice_def)

lemma alen_blit [simp]: "alen (blit off bs a) = alen a"
  by (simp add: blit_def)

lemma length_in_out [simp]:
  "length (in_bytes s) = ts_next_rcv_valid_index s" "length (out_bytes s) = ts_next_send_valid_index s"
  by (simp_all add: in_bytes_def out_bytes_def)

lemma slice_blit_append: "slice 0 (off + length bs) (blit off bs a) = slice 0 off a @ bs"
  by (rule nth_equalityI) (auto simp: slice_def blit_def nth_append)

lemma slice_blit_start: "slice 0 (length bs) (blit 0 bs a) = bs"
  using slice_blit_append [of 0 bs a] by (simp add: slice_def)

lemma slice_part: "off + n \<le> m \<Longrightarrow> slice off n a = take n (drop off (slice 0 m a))"
  by (rule nth_equalityI) (auto simp: slice_def)

lemma TCPSocket_new_ok: "sock_ok TCPSocket_new" "in_bytes TCPSocket_new = []" "out_bytes TCPSocket_new = []"
  by (simp_all add: TCPSocket_new_def sock_ok_def in_bytes_def out_bytes_def slice_def)

lemma TCPSocket_send_run:
  assumes "sock_ok s" "length (out_bytes s) + length bs \<le> TCPBufferSize"
  shows "\<exists>s'. TCPSocket_send bs s = Inr ((), s') \<and> sock_ok s' \<and> out_bytes s' = out_bytes s @ bs \<and>
    in_bytes s' = in_bytes s \<and> ts_wire s' = ts_wire s \<and> ts_socket_fd s' = ts_socket_fd s"
  using assms
  by (simp add: TCPSocket_send_def bnd_def sq_def memcpy_def sock_ok_def)
    (simp add: out_bytes_def in_bytes_def slice_blit_append)

lemma TCPSocket_send_overflow:
  assumes "sock_ok s" "\<not> length (out_bytes s) + length bs \<le> TCPBufferSize"
  shows "TCPSocket_send bs s = Inl Out_of_bounds"
  using assms by (simp add: TCPSocket_send_def bnd_def memcpy_def sock_ok_def)

lemma recv_part_run:
  assumes "sock_ok s" "kernel_fits s a"
  shows "\<exists>s'. recv_part a s = Inr (if ra_data a = [] then None else Some (kernel_time (ra_cmsgs a)), s') \<and>
    sock_ok s' \<and> in_bytes s' = in_bytes s @ ra_data a \<and> out_bytes s' = out_bytes s \<and> ts_wire s' = ts_wire s \<and>
    ts_socket_fd s' = ts_socket_fd s"
  using assms
  by (cases "ra_data a = []")
    (simp_all add: recv_part_def sq_def bnd_def sock_ok_def kernel_fits_def in_bytes_def out_bytes_def slice_blit_append)

lemma send_part_run:
  assumes "sock_ok s"
  shows "\<exists>s'. send_part n s = Inr ((), s') \<and> sock_ok s' \<and> out_bytes s' = [] \<and> in_bytes s' = in_bytes s \<and>
    ts_wire s' = ts_wire s @ take (nat n) (out_bytes s) \<and> ts_socket_fd s' = ts_socket_fd s"
  using assms
  by (auto simp: send_part_def sq_def bnd_def sock_ok_def in_bytes_def out_bytes_def slice_def)

section \<open>Properties\<close>

text \<open>
  C38. What is handed to \<open>send\<close> is not always what goes out: two messages that fit the buffer are put
  one behind the other, but when the kernel takes \<open>n\<close> bytes of them only, \<open>sendAndRecv\<close> drops the
  others; a message that does not fit is copied past the end of the buffer.
\<close>

theorem TCPSocket_send_drops_rest:
  assumes "sock_ok s" "out_bytes s = []"
  shows "if length (a @ b) \<le> TCPBufferSize
    then \<exists>s'. sq (TCPSocket_send a) (sq (TCPSocket_send b) (send_part n)) s = Inr ((), s') \<and> sock_ok s' \<and>
      out_bytes s' = [] \<and> in_bytes s' = in_bytes s \<and> ts_wire s' = ts_wire s @ take (nat n) (a @ b)
    else sq (TCPSocket_send a) (sq (TCPSocket_send b) (send_part n)) s = Inl Out_of_bounds"
proof (cases "length a \<le> TCPBufferSize")
  case False
  then have "TCPSocket_send a s = Inl Out_of_bounds" using TCPSocket_send_overflow [OF assms(1), of a] assms(2) by simp
  then show ?thesis using False by (simp add: sq_Inl)
next
  case True
  then obtain s1 where s1: "TCPSocket_send a s = Inr ((), s1)" "sock_ok s1" "out_bytes s1 = a" "ts_wire s1 = ts_wire s"
      "in_bytes s1 = in_bytes s"
    using TCPSocket_send_run [OF assms(1), of a] assms(2) by auto
  show ?thesis
  proof (cases "length (a @ b) \<le> TCPBufferSize")
    case False
    then have "TCPSocket_send b s1 = Inl Out_of_bounds" using TCPSocket_send_overflow [OF s1(2), of b] s1(3) by simp
    then have "sq (TCPSocket_send a) (sq (TCPSocket_send b) (send_part n)) s = Inl Out_of_bounds"
      by (simp add: sq_Inr [where m = "TCPSocket_send a", OF s1(1)] sq_Inl)
    then show ?thesis using False by simp
  next
    case fit: True
    then obtain s2 where s2: "TCPSocket_send b s1 = Inr ((), s2)" "sock_ok s2" "out_bytes s2 = a @ b" "ts_wire s2 = ts_wire s"
        "in_bytes s2 = in_bytes s"
      using TCPSocket_send_run [OF s1(2), of b] s1(3-5) by auto
    then show ?thesis using send_part_run [OF s2(2), of n] s1(1) fit by (auto simp: sq_def bnd_def)
  qed
qed

theorem TCPSocket_send_drops_rest_witness:
  "\<exists>s'. sq (TCPSocket_send [1, 2]) (sq (TCPSocket_send [3]) (send_part 1)) TCPSocket_new = Inr ((), s') \<and>
     out_bytes s' = [] \<and> ts_wire s' = [1]"
  using TCPSocket_send_drops_rest [OF TCPSocket_new_ok(1,3), of "[1, 2]" "[3]" 1]
  by (auto simp: TCPBufferSize_def TCPSocket_new_def)

end
