(* ===== verification/TCP_Server.thy ===== *)
theory TCP_Server
  imports TCP_Socket
begin

text \<open>
  \<open>low-latency-components/tcp_server.h\<close>: the sockets of the server, the lists of sockets to receive from
  and to send on, \<open>poll\<close> over the events of \<open>epoll_wait\<close>, and \<open>sendAndRecv\<close> with the two callbacks of
  the owner. A socket pointer is the listener or an index into the list of
  sockets created so far.
\<close>

section \<open>The server\<close>

datatype sock_ptr = Listener | Accepted nat

record TCPServer =
  sv_sockets :: "TCPSocket list"
  sv_listener_socket :: TCPSocket
  sv_receive_sockets :: "sock_ptr list"
  sv_send_sockets :: "sock_ptr list"

text \<open>\<open>listen\<close>; the arguments say what \<open>epoll_create\<close>, \<open>CreateSocket\<close> and \<open>epoll_ctl\<close> returned.\<close>

definition TCPServer_listen :: "int \<Rightarrow> int \<Rightarrow> bool \<Rightarrow> ('a TCPServer_scheme, unit) prog" where
  "TCPServer_listen epoll_fd fd added =
     sq (ASSERT (epoll_fd \<ge> 0) ''epoll_create() failed error:'')
    (bnd (zoom sv_listener_socket (\<lambda>l s. s\<lparr>sv_listener_socket := l\<rparr>) (TCPSocket_connect fd)) (\<lambda>r.
     sq (ASSERT (r \<ge> 0) ''Listener socket failed to connect. iface:'')
    (ASSERT added ''epoll_ctl() failed. error:'')))"

definition get_socket :: "sock_ptr \<Rightarrow> 'a TCPServer_scheme \<Rightarrow> TCPSocket" where
  "get_socket p s = (case p of Listener \<Rightarrow> sv_listener_socket s | Accepted i \<Rightarrow> sv_sockets s ! i)"

definition put_socket :: "sock_ptr \<Rightarrow> TCPSocket \<Rightarrow> 'a TCPServer_scheme \<Rightarrow> 'a TCPServer_scheme" where
  "put_socket p k s = (case p of Listener \<Rightarrow> s\<lparr>sv_listener_socket := k\<rparr>
     | Accepted i \<Rightarrow> s\<lparr>sv_sockets := (sv_sockets s)[i := k]\<rparr>)"

definition on_socket :: "sock_ptr \<Rightarrow> (TCPSocket, 'b) prog \<Rightarrow> ('a TCPServer_scheme, 'b) prog" where
  "on_socket p = zoom (get_socket p) (put_socket p)"

section \<open>poll\<close>

record epoll_event =
  ev_socket :: sock_ptr
  ev_in :: bool
  ev_out :: bool
  ev_err :: bool

definition add_receive :: "sock_ptr \<Rightarrow> ('a TCPServer_scheme, unit) prog" where
  "add_receive p = wr (\<lambda>s. if p \<in> set (sv_receive_sockets s) then s
     else s\<lparr>sv_receive_sockets := sv_receive_sockets s @ [p]\<rparr>)"

definition add_send :: "sock_ptr \<Rightarrow> ('a TCPServer_scheme, unit) prog" where
  "add_send p = wr (\<lambda>s. if p \<in> set (sv_send_sockets s) then s
     else s\<lparr>sv_send_sockets := sv_send_sockets s @ [p]\<rparr>)"

text \<open>One event; the result says whether there is a new connection, which ends its treatment.\<close>

definition poll_event :: "epoll_event \<Rightarrow> ('a TCPServer_scheme, bool) prog" where
  "poll_event ev =
     (if ev_in ev \<and> ev_socket ev = Listener then ret True
      else
        sq (when_do (ev_in ev) (add_receive (ev_socket ev)))
       (sq (when_do (ev_out ev) (add_send (ev_socket ev)))
       (sq (when_do (ev_err ev) (add_receive (ev_socket ev)))
       (ret False))))"

fun poll_events :: "epoll_event list \<Rightarrow> ('a TCPServer_scheme, bool) prog" where
  "poll_events [] = ret False"
| "poll_events (ev # evs) = bnd (poll_event ev) (\<lambda>a. bnd (poll_events evs) (\<lambda>b. ret (a \<or> b)))"

text \<open>
  \<open>accept\<close> returned the descriptor \<open>ac_fd\<close>; whether \<open>setNonBlocking && disableNagle\<close> and
  \<open>addToEpollList\<close> succeeded. The end of the list is the \<open>- 1\<close> that ends the loop.
\<close>

record accepted =
  ac_fd :: int
  ac_configured :: bool
  ac_added :: bool

fun accept_loop :: "accepted list \<Rightarrow> ('a TCPServer_scheme, unit) prog" where
  "accept_loop [] = ret ()"
| "accept_loop (a # acs) =
     sq (ASSERT (ac_configured a) ''Failed to set non-blocking or no-delay on socket: '')
    (bnd (rd (\<lambda>s. length (sv_sockets s))) (\<lambda>socket.
     sq (wr (\<lambda>s. s\<lparr>sv_sockets := sv_sockets s @ [TCPSocket_new\<lparr>ts_socket_fd := ac_fd a\<rparr>]\<rparr>))
    (sq (ASSERT (ac_added a) ''Unable to add socket. error:'')
    (sq (add_receive (Accepted socket))
    (accept_loop acs)))))"

text \<open>The array \<open>events_\<close> has 1024 entries, whatever number is passed to \<open>epoll_wait\<close>.\<close>

definition max_events :: "'a TCPServer_scheme \<Rightarrow> nat" where
  "max_events s = 1 + length (sv_send_sockets s) + length (sv_receive_sockets s)"

definition events_size :: nat where "events_size = 1024"

definition poll :: "epoll_event list \<Rightarrow> accepted list \<Rightarrow> ('a TCPServer_scheme, unit) prog" where
  "poll events acs =
     sq (when_do (length events > events_size) (fail Out_of_bounds))
    (bnd (poll_events events) (\<lambda>have_new_connection.
     when_do have_new_connection (accept_loop acs)))"

section \<open>sendAndRecv\<close>

text \<open>
  The callback \<open>recv_callback_\<close> gets the socket and the receive time. \<open>accept_loop\<close> sets it in every socket
  it makes; that of the listener stays null, and \<open>sendAndRecv\<close> does not call it.
\<close>

fun has_recv_callback :: "sock_ptr \<Rightarrow> bool" where
  "has_recv_callback Listener = False"
| "has_recv_callback (Accepted i) = True"

definition sock_sendAndRecv ::
  "(sock_ptr \<Rightarrow> Nanos \<Rightarrow> ('a TCPServer_scheme, unit) prog) \<Rightarrow> recv_answer \<Rightarrow> int \<Rightarrow> sock_ptr \<Rightarrow>
    ('a TCPServer_scheme, bool) prog" where
  "sock_sendAndRecv recv_callback a n p =
     bnd (on_socket p (recv_part a)) (\<lambda>t.
     sq (case t of None \<Rightarrow> ret () | Some rx_time \<Rightarrow> when_do (has_recv_callback p) (recv_callback p rx_time))
    (sq (on_socket p (send_part n))
    (ret (t \<noteq> None))))"

text \<open>The answers of the kernel for each socket.\<close>

type_synonym kernel = "sock_ptr \<Rightarrow> recv_answer \<times> int"

fun each_sendAndRecv ::
  "(sock_ptr \<Rightarrow> Nanos \<Rightarrow> ('a TCPServer_scheme, unit) prog) \<Rightarrow> kernel \<Rightarrow> sock_ptr list \<Rightarrow>
    ('a TCPServer_scheme, bool) prog" where
  "each_sendAndRecv cb k [] = ret False"
| "each_sendAndRecv cb k (p # ps) =
     bnd (sock_sendAndRecv cb (fst (k p)) (snd (k p)) p) (\<lambda>a.
     bnd (each_sendAndRecv cb k ps) (\<lambda>b. ret (a \<or> b)))"

definition TCPServer_sendAndRecv ::
  "(sock_ptr \<Rightarrow> Nanos \<Rightarrow> ('a TCPServer_scheme, unit) prog) \<Rightarrow> ('a TCPServer_scheme, unit) prog \<Rightarrow>
    kernel \<Rightarrow> kernel \<Rightarrow> ('a TCPServer_scheme, unit) prog" where
  "TCPServer_sendAndRecv recv_callback recv_finished_callback k k' =
     bnd (rd sv_receive_sockets) (\<lambda>rs.
     bnd (each_sendAndRecv recv_callback k rs) (\<lambda>recv.
     sq (when_do recv recv_finished_callback)
    (bnd (rd sv_send_sockets) (\<lambda>ss.
     bnd (each_sendAndRecv recv_callback k' ss) (\<lambda>_. ret ())))))"

section \<open>The lists of sockets\<close>

fun valid_ptr :: "'a TCPServer_scheme \<Rightarrow> sock_ptr \<Rightarrow> bool" where
  "valid_ptr s Listener = True"
| "valid_ptr s (Accepted i) = (i < length (sv_sockets s))"

definition sv_ok :: "'a TCPServer_scheme \<Rightarrow> bool" where
  "sv_ok s \<longleftrightarrow> distinct (sv_receive_sockets s) \<and> distinct (sv_send_sockets s) \<and>
     (\<forall>p \<in> set (sv_receive_sockets s) \<union> set (sv_send_sockets s). valid_ptr s p) \<and>
     sock_ok (sv_listener_socket s) \<and> (\<forall>k \<in> set (sv_sockets s). sock_ok k)"

text \<open>What a poll may change: it adds sockets and list entries.\<close>

definition sv_grows :: "'a TCPServer_scheme \<Rightarrow> 'a TCPServer_scheme \<Rightarrow> bool" where
  "sv_grows s s' \<longleftrightarrow> (\<exists>ks. sv_sockets s' = sv_sockets s @ ks) \<and>
     set (sv_receive_sockets s) \<subseteq> set (sv_receive_sockets s') \<and> set (sv_send_sockets s) \<subseteq> set (sv_send_sockets s') \<and>
     sv_listener_socket s' = sv_listener_socket s"

lemma sv_grows_refl [simp]: "sv_grows s s"
  by (simp add: sv_grows_def)

lemma sv_grows_trans: "sv_grows s t \<Longrightarrow> sv_grows t u \<Longrightarrow> sv_grows s u"
  unfolding sv_grows_def by (metis append.assoc order_trans)

lemma sv_grows_valid: "sv_grows s t \<Longrightarrow> valid_ptr s p \<Longrightarrow> valid_ptr t p"
  by (cases p) (auto simp: sv_grows_def)

lemma add_receive_run:
  assumes "sv_ok s" "valid_ptr s p"
  shows "\<exists>s'. add_receive p s = Inr ((), s') \<and> sv_ok s' \<and> sv_grows s s' \<and> set (sv_receive_sockets s') = insert p (set (sv_receive_sockets s)) \<and>
    sv_send_sockets s' = sv_send_sockets s \<and> sv_sockets s' = sv_sockets s"
proof -
  have valid: "valid_ptr (s\<lparr>sv_receive_sockets := x\<rparr>) q = valid_ptr s q" for x q by (cases q) simp_all
  show ?thesis
    using assms by (auto simp: add_receive_def sv_ok_def sv_grows_def valid)
qed

lemma add_send_run:
  assumes "sv_ok s" "valid_ptr s p"
  shows "\<exists>s'. add_send p s = Inr ((), s') \<and> sv_ok s' \<and> sv_grows s s' \<and> sv_receive_sockets s' = sv_receive_sockets s \<and>
    set (sv_send_sockets s') = insert p (set (sv_send_sockets s)) \<and> sv_sockets s' = sv_sockets s"
proof -
  have valid: "valid_ptr (s\<lparr>sv_send_sockets := x\<rparr>) q = valid_ptr s q" for x q by (cases q) simp_all
  show ?thesis
    using assms by (auto simp: add_send_def sv_ok_def sv_grows_def valid)
qed

text \<open>The listener's \<open>EPOLLIN\<close> is a connection; every other event enters its socket into the lists.\<close>

definition is_connection :: "epoll_event \<Rightarrow> bool" where
  "is_connection ev \<longleftrightarrow> ev_in ev \<and> ev_socket ev = Listener"

definition wants_receive :: "epoll_event \<Rightarrow> bool" where
  "wants_receive ev \<longleftrightarrow> \<not> is_connection ev \<and> (ev_in ev \<or> ev_err ev)"

definition wants_send :: "epoll_event \<Rightarrow> bool" where
  "wants_send ev \<longleftrightarrow> \<not> is_connection ev \<and> ev_out ev"

lemma when_add_receive:
  assumes "sv_ok s" "valid_ptr s p"
  shows "\<exists>s'. when_do c (add_receive p) s = Inr ((), s') \<and> sv_ok s' \<and> sv_grows s s' \<and>
    set (sv_receive_sockets s') = (if c then insert p (set (sv_receive_sockets s)) else set (sv_receive_sockets s)) \<and>
    sv_send_sockets s' = sv_send_sockets s \<and> sv_sockets s' = sv_sockets s"
  using add_receive_run [OF assms] assms(1) by (cases c) (simp_all add: when_do_def)

lemma when_add_send:
  assumes "sv_ok s" "valid_ptr s p"
  shows "\<exists>s'. when_do c (add_send p) s = Inr ((), s') \<and> sv_ok s' \<and> sv_grows s s' \<and>
    sv_receive_sockets s' = sv_receive_sockets s \<and>
    set (sv_send_sockets s') = (if c then insert p (set (sv_send_sockets s)) else set (sv_send_sockets s)) \<and>
    sv_sockets s' = sv_sockets s"
  using add_send_run [OF assms] assms(1) by (cases c) (simp_all add: when_do_def)

lemma poll_event_run:
  assumes "sv_ok s" "valid_ptr s (ev_socket ev)"
  shows "\<exists>s'. poll_event ev s = Inr (is_connection ev, s') \<and> sv_ok s' \<and> sv_grows s s' \<and> sv_sockets s' = sv_sockets s \<and>
    set (sv_receive_sockets s') = set (sv_receive_sockets s) \<union> (if wants_receive ev then {ev_socket ev} else {}) \<and>
    set (sv_send_sockets s') = set (sv_send_sockets s) \<union> (if wants_send ev then {ev_socket ev} else {})"
proof (cases "is_connection ev")
  case True
  then show ?thesis using assms by (auto simp: poll_event_def is_connection_def wants_receive_def wants_send_def)
next
  case False
  let ?p = "ev_socket ev"
  obtain s1 where s1: "when_do (ev_in ev) (add_receive ?p) s = Inr ((), s1)" "sv_ok s1" "sv_grows s s1"
    "set (sv_receive_sockets s1) = (if ev_in ev then insert ?p (set (sv_receive_sockets s)) else set (sv_receive_sockets s))"
    "sv_send_sockets s1 = sv_send_sockets s" "sv_sockets s1 = sv_sockets s"
    using when_add_receive [OF assms] by metis
  obtain s2 where s2: "when_do (ev_out ev) (add_send ?p) s1 = Inr ((), s2)" "sv_ok s2" "sv_grows s1 s2"
    "sv_receive_sockets s2 = sv_receive_sockets s1"
    "set (sv_send_sockets s2) = (if ev_out ev then insert ?p (set (sv_send_sockets s1)) else set (sv_send_sockets s1))"
    "sv_sockets s2 = sv_sockets s1"
    using when_add_send [OF s1(2) sv_grows_valid [OF s1(3) assms(2)]] by metis
  obtain s3 where s3: "when_do (ev_err ev) (add_receive ?p) s2 = Inr ((), s3)" "sv_ok s3" "sv_grows s2 s3"
    "set (sv_receive_sockets s3) = (if ev_err ev then insert ?p (set (sv_receive_sockets s2)) else set (sv_receive_sockets s2))"
    "sv_send_sockets s3 = sv_send_sockets s2" "sv_sockets s3 = sv_sockets s2"
    using when_add_receive [OF s2(2) sv_grows_valid [OF s2(3) sv_grows_valid [OF s1(3) assms(2)]]] by metis
  have "poll_event ev s = Inr (False, s3)"
    using False by (auto simp: poll_event_def is_connection_def sq_def bnd_def s1(1) s2(1) s3(1))
  then show ?thesis
    using False s1 s2 s3 sv_grows_trans [OF s1(3) sv_grows_trans [OF s2(3) s3(3)]]
    by (auto simp: wants_receive_def wants_send_def)
qed

lemma poll_events_run:
  assumes "sv_ok s" "\<forall>ev \<in> set evs. valid_ptr s (ev_socket ev)"
  shows "\<exists>s'. poll_events evs s = Inr (\<exists>ev \<in> set evs. is_connection ev, s') \<and> sv_ok s' \<and> sv_grows s s' \<and>
    sv_sockets s' = sv_sockets s \<and>
    set (sv_receive_sockets s') = set (sv_receive_sockets s) \<union> ev_socket ` {ev \<in> set evs. wants_receive ev} \<and>
    set (sv_send_sockets s') = set (sv_send_sockets s) \<union> ev_socket ` {ev \<in> set evs. wants_send ev}"
  using assms
proof (induction evs arbitrary: s)
  case Nil
  then show ?case by simp
next
  case (Cons ev evs)
  obtain s1 where s1: "poll_event ev s = Inr (is_connection ev, s1)" "sv_ok s1" "sv_grows s s1" "sv_sockets s1 = sv_sockets s"
    "set (sv_receive_sockets s1) = set (sv_receive_sockets s) \<union> (if wants_receive ev then {ev_socket ev} else {})"
    "set (sv_send_sockets s1) = set (sv_send_sockets s) \<union> (if wants_send ev then {ev_socket ev} else {})"
    using poll_event_run [OF Cons.prems(1)] Cons.prems(2) by (metis list.set_intros(1))
  have "\<forall>ev \<in> set evs. valid_ptr s1 (ev_socket ev)" using Cons.prems(2) sv_grows_valid [OF s1(3)] by simp
  from Cons.IH [OF s1(2) this] obtain s2 where s2: "poll_events evs s1 = Inr (\<exists>ev \<in> set evs. is_connection ev, s2)"
    "sv_ok s2" "sv_grows s1 s2" "sv_sockets s2 = sv_sockets s1"
    "set (sv_receive_sockets s2) = set (sv_receive_sockets s1) \<union> ev_socket ` {ev \<in> set evs. wants_receive ev}"
    "set (sv_send_sockets s2) = set (sv_send_sockets s1) \<union> ev_socket ` {ev \<in> set evs. wants_send ev}"
    by blast
  have "poll_events (ev # evs) s = Inr (\<exists>ev \<in> set (ev # evs). is_connection ev, s2)"
    using s1(1) s2(1) by (simp add: bnd_def)
  then show ?case
    using s1(4-6) s2(2,4-6) sv_grows_trans [OF s1(3) s2(3)] by (intro exI [of _ s2]) auto
qed

lemma accept_loop_run:
  assumes "sv_ok s" "\<forall>a \<in> set acs. ac_configured a \<and> ac_added a"
  shows "\<exists>s'. accept_loop acs s = Inr ((), s') \<and> sv_ok s' \<and> sv_grows s s' \<and>
    sv_sockets s' = sv_sockets s @ map (\<lambda>a. TCPSocket_new\<lparr>ts_socket_fd := ac_fd a\<rparr>) acs \<and>
    sv_send_sockets s' = sv_send_sockets s \<and>
    set (sv_receive_sockets s') = set (sv_receive_sockets s) \<union>
      Accepted ` {length (sv_sockets s)..<length (sv_sockets s) + length acs}"
  using assms
proof (induction acs arbitrary: s)
  case Nil
  then show ?case by simp
next
  case (Cons a acs)
  let ?n = "length (sv_sockets s)"
  let ?s = "s\<lparr>sv_sockets := sv_sockets s @ [TCPSocket_new\<lparr>ts_socket_fd := ac_fd a\<rparr>]\<rparr>"
  have valid: "valid_ptr ?s p" if "valid_ptr s p" for p using that by (cases p) auto
  have "sock_ok (TCPSocket_new\<lparr>ts_socket_fd := ac_fd a\<rparr>)" using TCPSocket_new_ok(1) by (simp add: sock_ok_def)
  then have ok: "sv_ok ?s" using Cons.prems(1) valid by (auto simp: sv_ok_def)
  obtain s1 where s1: "add_receive (Accepted ?n) ?s = Inr ((), s1)" "sv_ok s1" "sv_grows ?s s1"
    "set (sv_receive_sockets s1) = insert (Accepted ?n) (set (sv_receive_sockets ?s))"
    "sv_send_sockets s1 = sv_send_sockets ?s" "sv_sockets s1 = sv_sockets ?s"
    using add_receive_run [OF ok, of "Accepted ?n"] by auto
  from Cons.IH [OF s1(2)] Cons.prems(2) obtain s2 where s2: "accept_loop acs s1 = Inr ((), s2)" "sv_ok s2" "sv_grows s1 s2"
    "sv_sockets s2 = sv_sockets s1 @ map (\<lambda>a. TCPSocket_new\<lparr>ts_socket_fd := ac_fd a\<rparr>) acs"
    "sv_send_sockets s2 = sv_send_sockets s1"
    "set (sv_receive_sockets s2) = set (sv_receive_sockets s1) \<union>
      Accepted ` {length (sv_sockets s1)..<length (sv_sockets s1) + length acs}"
    by auto
  have "accept_loop (a # acs) s = Inr ((), s2)"
    using Cons.prems(2) s1(1) s2(1) by (simp add: sq_def bnd_def)
  moreover have "sv_grows s ?s" by (simp add: sv_grows_def)
  then have "sv_grows s s2" using sv_grows_trans s1(3) s2(3) by blast
  moreover have "{?n..<?n + length (a # acs)} = insert ?n {Suc ?n..<Suc ?n + length acs}" by auto
  ultimately show ?case using s1(4-6) s2(2,4-6) by (intro exI [of _ s2]) auto
qed


definition TCPServer_new :: TCPServer where
  "TCPServer_new = \<lparr>sv_sockets = [], sv_listener_socket = TCPSocket_new, sv_receive_sockets = [], sv_send_sockets = []\<rparr>"

lemma TCPServer_new_ok: "sv_ok TCPServer_new"
  by (simp add: TCPServer_new_def sv_ok_def TCPSocket_new_ok)

section \<open>Properties\<close>

text \<open>
  C37. A poll of the sockets: every socket with something to read or an error is in the receive list
  afterwards, every socket ready for writing is in the send list, once each; when the listener
  reported a connection, all accepted descriptors have become new sockets with empty buffers, in the
  receive list; nothing else enters the lists and nothing leaves them.
\<close>

theorem poll_registers:
  assumes "sv_ok s" "length events \<le> 1024" "\<forall>ev \<in> set events. valid_ptr s (ev_socket ev)"
    "\<forall>a \<in> set acs. ac_configured a \<and> ac_added a"
  shows "\<exists>s' new. poll events acs s = Inr ((), s') \<and> sv_ok s' \<and>
    new = (if \<exists>ev \<in> set events. is_connection ev then acs else []) \<and>
    sv_sockets s' = sv_sockets s @ map (\<lambda>a. TCPSocket_new\<lparr>ts_socket_fd := ac_fd a\<rparr>) new \<and>
    set (sv_receive_sockets s') = set (sv_receive_sockets s) \<union> ev_socket ` {ev \<in> set events. wants_receive ev} \<union>
      Accepted ` {length (sv_sockets s)..<length (sv_sockets s')} \<and>
    set (sv_send_sockets s') = set (sv_send_sockets s) \<union> ev_socket ` {ev \<in> set events. wants_send ev}"
proof -
  let ?c = "\<exists>ev \<in> set events. is_connection ev"
  obtain s1 where s1: "poll_events events s = Inr (?c, s1)" "sv_ok s1" "sv_sockets s1 = sv_sockets s"
    "set (sv_receive_sockets s1) = set (sv_receive_sockets s) \<union> ev_socket ` {ev \<in> set events. wants_receive ev}"
    "set (sv_send_sockets s1) = set (sv_send_sockets s) \<union> ev_socket ` {ev \<in> set events. wants_send ev}"
    using poll_events_run [OF assms(1,3)] by blast
  obtain s2 where s2: "accept_loop acs s1 = Inr ((), s2)" "sv_ok s2"
    "sv_sockets s2 = sv_sockets s1 @ map (\<lambda>a. TCPSocket_new\<lparr>ts_socket_fd := ac_fd a\<rparr>) acs"
    "sv_send_sockets s2 = sv_send_sockets s1"
    "set (sv_receive_sockets s2) = set (sv_receive_sockets s1) \<union>
      Accepted ` {length (sv_sockets s1)..<length (sv_sockets s1) + length acs}"
    using accept_loop_run [OF s1(2) assms(4)] by blast
  have run: "poll events acs s = (when_do ?c (accept_loop acs)) s1"
    using s1(1) assms(2) by (simp add: poll_def sq_def bnd_def events_size_def)
  show ?thesis
  proof (cases ?c)
    case True
    then show ?thesis using run s1(3-5) s2 by (intro exI [of _ s2]) (simp add: when_do_def)
  next
    case False
    then show ?thesis using run s1(2-5) by (intro exI [of _ s1]) (simp add: when_do_def)
  qed
qed

definition connection :: epoll_event where
  "connection = \<lparr>ev_socket = Listener, ev_in = True, ev_out = False, ev_err = False\<rparr>"

theorem poll_registers_witness:
  "\<exists>s'. poll [connection] [\<lparr>ac_fd = 9, ac_configured = True, ac_added = True\<rparr>] TCPServer_new = Inr ((), s') \<and>
     map ts_socket_fd (sv_sockets s') = [9] \<and> set (sv_receive_sockets s') = {Accepted 0}"
proof -
  have c: "is_connection connection" by (simp add: is_connection_def connection_def)
  then have "\<not> wants_receive connection" by (simp add: wants_receive_def)
  with poll_registers [OF TCPServer_new_ok, of "[connection]" "[\<lparr>ac_fd = 9, ac_configured = True, ac_added = True\<rparr>]"] c
  show ?thesis by (auto simp: connection_def TCPServer_new_def)
qed

text \<open>
  The array of events is too small for the number passed to \<open>epoll_wait\<close>: with 1024 sockets to
  receive from, the kernel may deliver as many events as it was asked for and write past its end.
\<close>

theorem poll_events_overflow:
  assumes "1024 \<le> length (sv_receive_sockets s)"
  shows "\<exists>events. length events \<le> max_events s \<and>
    (\<forall>ev \<in> set events. ev_socket ev = hd (sv_receive_sockets s) \<and> ev_in ev) \<and>
    poll events acs s = Inl Out_of_bounds"
proof (intro exI conjI)
  let ?ev = "\<lparr>ev_socket = hd (sv_receive_sockets s), ev_in = True, ev_out = False, ev_err = False\<rparr>"
  show "length (replicate 1025 ?ev) \<le> max_events s" using assms by (simp add: max_events_def)
  show "poll (replicate 1025 ?ev) acs s = Inl Out_of_bounds"
    by (simp add: poll_def sq_def bnd_def events_size_def)
qed simp

theorem poll_events_overflow_witness:
  "\<exists>events. poll events [] (TCPServer_new\<lparr>sv_receive_sockets := map Accepted [0..<1024]\<rparr>) = Inl Out_of_bounds"
  using poll_events_overflow [of "TCPServer_new\<lparr>sv_receive_sockets := map Accepted [0..<1024]\<rparr>" "[]"] by auto

end
