(* ===== verification/Logging.thy ===== *)
theory Logging
  imports Lock_Free_Queue Types
begin

text \<open>
  \<open>low-latency-components/logging.h\<close>: \<open>log\<close> walks over a format string and pushes characters and
  arguments onto a queue, element by element; a second thread renders the elements into the file.
  The threads are taken one after the other here.
\<close>

section \<open>Elements and the logger\<close>

text \<open>The tagged union: one constructor per \<open>LogType\<close>, with the prefix \<open>Log_\<close> because \<open>CHAR\<close> is a keyword. The two floating types carry their bits.\<close>

datatype LogElement =
    Log_CHAR char
  | Log_INTEGER "32 word"
  | Log_LONG_INTEGER "64 word"
  | Log_LONG_LONG_INTEGER "64 word"
  | Log_UNSIGNED_INTEGER "32 word"
  | Log_UNSIGNED_LONG_INTEGER "64 word"
  | Log_UNSIGNED_LONG_LONG_INTEGER "64 word"
  | Log_FLOAT "32 word"
  | Log_DOUBLE "64 word"

record Logger =
  lg_file :: string
  lg_queue :: "LogElement LFQueue"
  lg_running :: bool

definition LOG_QUEUE_SIZE :: nat where
  "LOG_QUEUE_SIZE = 8 * 1024 * 1024"

text \<open>The constructor; \<open>is_open\<close> and \<open>thread\<close> say what the file and the thread library answered.\<close>

definition Logger_new :: "bool \<Rightarrow> bool \<Rightarrow> fault + Logger" where
  "Logger_new is_open thread =
     (if \<not> is_open then Inl (Fatal ''Could not open log file: '')
      else if \<not> thread then Inl (Fatal ''Failed to start Logger Thread.'')
      else Inr \<lparr>lg_file = [], lg_queue = LFQueue_new LOG_QUEUE_SIZE (Log_CHAR (CHR 0x00)), lg_running = True\<rparr>)"

definition on_log_queue :: "(LogElement LFQueue, 'a) prog \<Rightarrow> (Logger, 'a) prog" where
  "on_log_queue = zoom lg_queue (\<lambda>q lg. lg\<lparr>lg_queue := q\<rparr>)"

section \<open>pushValue and log\<close>

definition pushValue :: "LogElement \<Rightarrow> (Logger, unit) prog" where
  "pushValue log_element = on_log_queue (push_elem log_element)"

text \<open>A C string ends at its first NUL; the end of the list stands for the terminator.\<close>

fun pushValue_string :: "string \<Rightarrow> (Logger, unit) prog" where
  "pushValue_string [] = ret ()"
| "pushValue_string (c # value) =
     (if c = CHR 0x00 then ret () else sq (pushValue (Log_CHAR c)) (pushValue_string value))"

text \<open>An argument of \<open>log\<close>: a value of one of the element types, or a string.\<close>

datatype log_arg = Elem LogElement | Str string

fun pushValue_arg :: "log_arg \<Rightarrow> (Logger, unit) prog" where
  "pushValue_arg (Elem x) = pushValue x"
| "pushValue_arg (Str s) = pushValue_string s"

text \<open>
  The two overloads of \<open>log\<close>: without arguments, and with a first argument and a pack of others.
  A literal percent sign is written twice; the second one is pushed.
\<close>

fun log :: "string \<Rightarrow> log_arg list \<Rightarrow> (Logger, unit) prog" where
  "log [] [] = ret ()"
| "log [] (value # args) = FATAL ''extra arguments provided to log()''"
| "log (c # s) [] =
     (if c = CHR ''%'' then
        (case s of
           [] \<Rightarrow> FATAL ''missing arguments to log()''
         | d # s' \<Rightarrow>
             if d = CHR ''%'' then sq (pushValue (Log_CHAR d)) (log s' [])
             else FATAL ''missing arguments to log()'')
      else sq (pushValue (Log_CHAR c)) (log s []))"
| "log (c # s) (value # args) =
     (if c = CHR ''%'' then
        (case s of
           [] \<Rightarrow> sq (pushValue_arg value) (log s args)
         | d # s' \<Rightarrow>
             if d = CHR ''%'' then sq (pushValue (Log_CHAR d)) (log s' (value # args))
             else sq (pushValue_arg value) (log s args))
      else sq (pushValue (Log_CHAR c)) (log s (value # args)))"

section \<open>flushQueue\<close>

text \<open>
  How the stream renders an element. What it prints for \<open>float\<close> and \<open>double\<close> depends on the stream's
  formatting and is left open: \<open>sf\<close> and \<open>sd\<close>.
\<close>

fun render :: "(32 word \<Rightarrow> string) \<Rightarrow> (64 word \<Rightarrow> string) \<Rightarrow> LogElement \<Rightarrow> string" where
  "render sf sd (Log_CHAR c) = [c]"
| "render sf sd (Log_INTEGER i) = to_string_signed i"
| "render sf sd (Log_LONG_INTEGER l) = to_string_signed l"
| "render sf sd (Log_LONG_LONG_INTEGER ll) = to_string_signed ll"
| "render sf sd (Log_UNSIGNED_INTEGER u) = to_string_unsigned u"
| "render sf sd (Log_UNSIGNED_LONG_INTEGER ul) = to_string_unsigned ul"
| "render sf sd (Log_UNSIGNED_LONG_LONG_INTEGER ull) = to_string_unsigned ull"
| "render sf sd (Log_FLOAT f) = sf f"
| "render sf sd (Log_DOUBLE d) = sd d"

definition write_file :: "string \<Rightarrow> (Logger, unit) prog" where
  "write_file s = wr (\<lambda>lg. lg\<lparr>lg_file := lg_file lg @ s\<rparr>)"

text \<open>One element of the inner \<open>for\<close> loop; \<open>False\<close> when its condition fails.\<close>

definition flush_one :: "(32 word \<Rightarrow> string) \<Rightarrow> (64 word \<Rightarrow> string) \<Rightarrow> (Logger, bool) prog" where
  "flush_one sf sd =
     bnd (on_log_queue getNextToRead) (\<lambda>next.
     bnd (on_log_queue LFQueue_size) (\<lambda>n.
     case next of
       None \<Rightarrow> ret False
     | Some i \<Rightarrow>
         if n = 0 then ret False
         else bnd (on_log_queue (read_slot i)) (\<lambda>x.
           sq (write_file (render sf sd x))
          (sq (on_log_queue updateReadIndex)
          (ret True)))))"

lemma updateReadIndex_lowers: "updateReadIndex q = Inr (u, q') \<Longrightarrow> q_num_elements q' < q_num_elements q"
  by (auto simp: updateReadIndex_def)

lemma flush_one_lowers:
  "flush_one sf sd lg = Inr (True, lg') \<Longrightarrow> q_num_elements (lg_queue lg') < q_num_elements (lg_queue lg)"
  by (auto simp: flush_one_def on_log_queue_def getNextToRead_def LFQueue_size_def read_slot_def write_file_def
      split: option.splits if_splits dest!: updateReadIndex_lowers)

function flush_pending :: "(32 word \<Rightarrow> string) \<Rightarrow> (64 word \<Rightarrow> string) \<Rightarrow> (Logger, unit) prog" where
  "flush_pending sf sd lg =
     (case flush_one sf sd lg of
        Inl e \<Rightarrow> Inl e
      | Inr (False, lg') \<Rightarrow> Inr ((), lg')
      | Inr (True, lg') \<Rightarrow> flush_pending sf sd lg')"
  by pat_completeness auto
termination
  by (relation "measure (\<lambda>(sf, sd, lg). q_num_elements (lg_queue lg))") (auto dest: flush_one_lowers)

declare flush_pending.simps [simp del]

text \<open>One round of the outer loop, when \<open>running_\<close> is set.\<close>

definition flushQueue_round :: "(32 word \<Rightarrow> string) \<Rightarrow> (64 word \<Rightarrow> string) \<Rightarrow> (Logger, unit) prog" where
  "flushQueue_round sf sd = bnd (rd lg_running) (\<lambda>r. when_do r (flush_pending sf sd))"

section \<open>What a call of log means\<close>

text \<open>The format in pieces: a character to copy or a hole for an argument.\<close>

datatype piece = Copy char | Hole

fun pieces :: "string \<Rightarrow> piece list" where
  "pieces [] = []"
| "pieces (c # s) =
     (if c = CHR ''%'' then
        (case s of [] \<Rightarrow> [Hole] | d # s' \<Rightarrow> if d = CHR ''%'' then Copy d # pieces s' else Hole # pieces s)
      else Copy c # pieces s)"

fun arg_elems :: "log_arg \<Rightarrow> LogElement list" where
  "arg_elems (Elem x) = [x]"
| "arg_elems (Str s) = map Log_CHAR (takeWhile (\<lambda>c. c \<noteq> CHR 0x00) s)"

fun fill_holes :: "piece list \<Rightarrow> log_arg list \<Rightarrow> LogElement list" where
  "fill_holes [] args = []"
| "fill_holes (Copy c # ps) args = Log_CHAR c # fill_holes ps args"
| "fill_holes (Hole # ps) (a # args) = arg_elems a @ fill_holes ps args"
| "fill_holes (Hole # ps) [] = []"

definition holes :: "string \<Rightarrow> nat" where
  "holes s = length (filter ((=) Hole) (pieces s))"

lemma on_log_queue_run: "m (lg_queue lg) = Inr (v, q) \<Longrightarrow> on_log_queue m lg = Inr (v, lg\<lparr>lg_queue := q\<rparr>)"
  by (simp add: on_log_queue_def zoom_def)

abbreviation push_all :: "LogElement list \<Rightarrow> Logger \<Rightarrow> Logger" where
  "push_all xs lg \<equiv> lg\<lparr>lg_queue := fold q_push xs (lg_queue lg)\<rparr>"

lemma pushValue_run: "q_wf (lg_queue lg) \<Longrightarrow> pushValue x lg = Inr ((), push_all [x] lg)"
  by (simp add: pushValue_def on_log_queue_run push_elem_run)

lemma pushValue_arg_run: "q_wf (lg_queue lg) \<Longrightarrow> pushValue_arg a lg = Inr ((), push_all (arg_elems a) lg)"
proof (cases a)
  case (Str s)
  have "q_wf (lg_queue lg) \<Longrightarrow> pushValue_string s lg = Inr ((), push_all (arg_elems (Str s)) lg)"
    by (induction s arbitrary: lg) (auto simp: sq_def bnd_def pushValue_run)
  then show "q_wf (lg_queue lg) \<Longrightarrow> ?thesis" using Str by simp
qed (simp add: pushValue_run)

lemma push_then:
  "q_wf (lg_queue lg) \<Longrightarrow> sq (pushValue x) m lg = m (push_all [x] lg)"
  "q_wf (lg_queue lg) \<Longrightarrow> sq (pushValue_arg a) m lg = m (push_all (arg_elems a) lg)"
  by (simp_all add: sq_def bnd_def pushValue_run pushValue_arg_run)

lemma holes_simps [simp]:
  "holes [] = 0" "c \<noteq> CHR ''%'' \<Longrightarrow> holes (c # s) = holes s" "holes [CHR ''%''] = 1"
  "holes (CHR ''%'' # CHR ''%'' # s) = holes s"
  "d \<noteq> CHR ''%'' \<Longrightarrow> holes (CHR ''%'' # d # s) = Suc (holes (d # s))"
  by (simp_all add: holes_def)

lemma push_all_push_all: "push_all ys (push_all xs lg) = push_all (xs @ ys) lg"
  by simp

lemma log_run:
  assumes "q_wf (lg_queue lg)"
  shows "log s args lg =
    (if holes s = length args then Inr ((), push_all (fill_holes (pieces s) args) lg)
     else if holes s < length args then Inl (Fatal ''extra arguments provided to log()'')
     else Inl (Fatal ''missing arguments to log()''))"
  using assms
proof (induction s args arbitrary: lg rule: log.induct)
  case 1
  then show ?case by simp
next
  case (2 v args)
  then show ?case by simp
next
  case three: (3 c s)
  consider "c \<noteq> CHR ''%''" | "c = CHR ''%''" "s = []" | s' where "c = CHR ''%''" "s = CHR ''%'' # s'"
    | d s' where "c = CHR ''%''" "s = d # s'" "d \<noteq> CHR ''%''" by (cases s) blast+
  then show ?case
  proof cases
    case plain: 1
    then show ?thesis using three(2) [OF plain, of "push_all [Log_CHAR c] lg"] three(3) by (simp add: push_then)
  next
    case esc: (3 s')
    then show ?thesis
      using three(1) [OF esc refl, of "push_all [Log_CHAR c] lg"] three(3) by (simp add: push_then)
  qed simp_all
next
  case four: (4 c s a args)
  consider "c \<noteq> CHR ''%''" | "c = CHR ''%''" "s = []" | s' where "c = CHR ''%''" "s = CHR ''%'' # s'"
    | d s' where "c = CHR ''%''" "s = d # s'" "d \<noteq> CHR ''%''" by (cases s) blast+
  then show ?case
  proof cases
    case plain: 1
    then show ?thesis using four(4) [OF plain, of "push_all [Log_CHAR c] lg"] four(5) by (simp add: push_then)
  next
    case stop: 2
    then show ?thesis using four(1) [OF stop, of "push_all (arg_elems a) lg"] four(5) by (cases args) (simp_all add: push_then)
  next
    case esc: (3 s')
    then show ?thesis
      using four(2) [OF esc refl, of "push_all [Log_CHAR c] lg"] four(5) by (simp add: push_then)
  next
    case hole: (4 d s')
    then show ?thesis
      using four(3) [OF hole, of "push_all (arg_elems a) lg"] four(5) by (simp add: push_then)
  qed
qed


section \<open>Flushing\<close>

lemma peek_parts:
  assumes "q_ok q" "q_list q = x # xs"
  shows "\<exists>i. getNextToRead q = Inr (Some i, q) \<and> read_slot i q = Inr (x, q)"
  using lfq.front_ok [OF assms(1)] assms(2)
  by (auto simp: peek_def getNextToRead_def read_slot_def split: if_splits)

lemma flush_one_run:
  assumes "q_ok (lg_queue lg)" "q_list (lg_queue lg) = x # xs"
  shows "flush_one sf sd lg = Inr (True, lg\<lparr>lg_file := lg_file lg @ render sf sd x, lg_queue := q_pop (lg_queue lg)\<rparr>)"
proof -
  have n: "q_num_elements (lg_queue lg) \<noteq> 0" using assms(2) by (metis length_q_list list.size(3) list.distinct(1) length_0_conv)
  obtain i where "getNextToRead (lg_queue lg) = Inr (Some i, lg_queue lg)" "read_slot i (lg_queue lg) = Inr (x, lg_queue lg)"
    using peek_parts [OF assms] by blast
  then show ?thesis
    using n updateReadIndex_run [OF q_ok_wf [OF assms(1)] n]
    by (simp add: flush_one_def bnd_def sq_def on_log_queue_def zoom_def LFQueue_size_def write_file_def)
qed

lemma flush_one_empty:
  assumes "q_ok (lg_queue lg)" "q_list (lg_queue lg) = []"
  shows "flush_one sf sd lg = Inr (False, lg)"
proof -
  have "q_num_elements (lg_queue lg) = 0" using assms(2) by (metis length_q_list list.size(3))
  then show ?thesis
    by (auto simp: flush_one_def bnd_def on_log_queue_def zoom_def LFQueue_size_def getNextToRead_def)
qed

lemma flush_pending_run:
  assumes "q_ok (lg_queue lg)"
  shows "\<exists>q'. flush_pending sf sd lg = Inr ((), lg\<lparr>lg_file := lg_file lg @ concat (map (render sf sd) (q_list (lg_queue lg))),
      lg_queue := q'\<rparr>) \<and> q_ok q' \<and> q_list q' = []"
  using assms
proof (induction "q_list (lg_queue lg)" arbitrary: lg)
  case Nil
  then have "flush_pending sf sd lg = Inr ((), lg)"
    by (subst flush_pending.simps) (simp add: flush_one_empty)
  moreover have "q_list (lg_queue lg) = []" using Nil by simp
  ultimately show ?case using Nil(2) by (intro exI [of _ "lg_queue lg"]) simp
next
  case (Cons x xs)
  let ?lg = "lg\<lparr>lg_file := lg_file lg @ render sf sd x, lg_queue := q_pop (lg_queue lg)\<rparr>"
  have list: "q_list (lg_queue lg) = x # xs" using Cons by simp
  have step: "flush_pending sf sd lg = flush_pending sf sd ?lg"
    by (subst flush_pending.simps) (simp add: flush_one_run [OF Cons.prems list])
  have "xs = q_list (lg_queue ?lg)" "q_ok (lg_queue ?lg)"
    using q_list_pop [OF Cons.prems] q_ok_pop [OF Cons.prems] list by simp_all
  from Cons.hyps(1) [OF this] this show ?case unfolding step list by auto
qed

section \<open>Properties\<close>

text \<open>
  C34. A logged line reaches the file as it reads: with as many arguments as the format has holes and
  room in the queue, \<open>log\<close> followed by one flush appends what was pending, then the format with the
  rendered arguments in its holes and \<open>%\<close> for \<open>%%\<close>, and leaves the queue empty. With fewer or more
  arguments \<open>log\<close> ends the process with the message of its \<open>FATAL\<close>.
\<close>

theorem log_then_flush:
  assumes "q_ok (lg_queue lg)" "length (fill_holes (pieces s) args) \<le> q_room (lg_queue lg)"
  shows "if holes s = length args
    then \<exists>q'. sq (log s args) (flush_pending sf sd) lg = Inr ((), lg\<lparr>lg_file := lg_file lg @
        concat (map (render sf sd) (q_list (lg_queue lg) @ fill_holes (pieces s) args)), lg_queue := q'\<rparr>) \<and>
      q_ok q' \<and> q_list q' = []
    else log s args lg = Inl (Fatal (if holes s < length args then ''extra arguments provided to log()''
      else ''missing arguments to log()''))"
proof (cases "holes s = length args")
  case True
  let ?lg = "push_all (fill_holes (pieces s) args) lg"
  have "q_ok (lg_queue ?lg)" "q_list (lg_queue ?lg) = q_list (lg_queue lg) @ fill_holes (pieces s) args"
    using q_push_batch [OF assms] by simp_all
  moreover have "log s args lg = Inr ((), ?lg)"
    using log_run [OF q_ok_wf [OF assms(1)], of s args] True by simp
  ultimately show ?thesis
    using True flush_pending_run [of ?lg sf sd] by (simp add: sq_def bnd_def)
next
  case False
  then show ?thesis using log_run [OF q_ok_wf [OF assms(1)], of s args] by simp
qed

theorem log_then_flush_witness:
  "\<exists>q'. sq (log ''n: %, 5%%'' [Elem (Log_INTEGER (- 3))]) (flush_pending (\<lambda>_. []) (\<lambda>_. []))
      \<lparr>lg_file = ''x'', lg_queue = LFQueue_new 16 (Log_CHAR (CHR 0x00)), lg_running = True\<rparr> =
    Inr ((), \<lparr>lg_file = ''xn: -3, 5%'', lg_queue = q', lg_running = True\<rparr>)"
proof -
  let ?lg = "\<lparr>lg_file = ''x'', lg_queue = LFQueue_new 16 (Log_CHAR (CHR 0x00)), lg_running = True\<rparr>"
  have "to_string_signed (- 3 :: 32 word) = ''-3''"
    by code_simp
  then show ?thesis
    using log_then_flush [of ?lg "''n: %, 5%%''" "[Elem (Log_INTEGER (- 3))]" "\<lambda>_. []" "\<lambda>_. []"]
    by (auto simp: LFQueue_new_ok holes_def)
qed

end
