(* ===== verification/Order_Server.thy ===== *)
theory Order_Server
  imports TCP_Server Logging "HOL-Library.Sublist"
begin

text \<open>
  \<open>exchange/order_server/order_server.h\<close> and \<open>order_server.cpp\<close>: the callbacks of the TCP server, which
  cut the received bytes into requests, check the socket and the sequence number of each, and hand it
  to the sequencer; and the loop that sends the responses of the matching engine to the clients.
\<close>

section \<open>The order server\<close>

record OrderServer = TCPServer +
  os_fifo_sequencer :: FIFOSequencer
  os_outgoing_responses :: "MEClientResponse LFQueue"
  os_cid_next_exp_seq_num :: "64 word carray"
  os_cid_tcp_socket :: "sock_ptr option carray"
  os_cid_next_outgoing_seq_num :: "64 word carray"
  os_run :: bool
  os_logger :: Logger

definition OrderServer_new :: "MEClientRequest LFQueue \<Rightarrow> MEClientResponse LFQueue \<Rightarrow> Logger \<Rightarrow> OrderServer" where
  "OrderServer_new client_requests client_responses logger =
     TCPServer.extend TCPServer_new
      \<lparr>os_fifo_sequencer = FIFOSequencer_new client_requests, os_outgoing_responses = client_responses,
       os_cid_next_exp_seq_num = arr_fill ME_MAX_NUM_CLIENTS 1, os_cid_tcp_socket = arr_fill ME_MAX_NUM_CLIENTS None,
       os_cid_next_outgoing_seq_num = arr_fill ME_MAX_NUM_CLIENTS 1, os_run = False, os_logger = logger\<rparr>"

text \<open>\<open>start\<close>: the flag, then the listener, then the thread.\<close>

definition OrderServer_start :: "int \<Rightarrow> int \<Rightarrow> bool \<Rightarrow> bool \<Rightarrow> (OrderServer, unit) prog" where
  "OrderServer_start epoll_fd fd added thread =
     sq (wr (\<lambda>s. s\<lparr>os_run := True\<rparr>))
    (sq (TCPServer_listen epoll_fd fd added)
    (ASSERT thread ''Failed to start OrderServer thread.''))"

definition OrderServer_stop :: "(OrderServer, unit) prog" where
  "OrderServer_stop = wr (\<lambda>s. s\<lparr>os_run := False\<rparr>)"

text \<open>The destructor stops the thread and pauses; it does not wait for it.\<close>

definition OrderServer_delete :: "(OrderServer, unit) prog" where
  "OrderServer_delete = OrderServer_stop"

section \<open>Receiving\<close>

text \<open>One request of the loop of \<open>recvCallback\<close>; both \<open>continue\<close>s end it early.\<close>

definition recv_request :: "sock_ptr \<Rightarrow> Nanos \<Rightarrow> OMClientRequest \<Rightarrow> (OrderServer, unit) prog" where
  "recv_request socket rx_time request =
     (let client_id = unat (req_client_id (om_me_client_request request)) in
      bnd (rd (\<lambda>s. arr_idx (os_cid_tcp_socket s) client_id)) (\<lambda>r.
      bnd (lift_res r) (\<lambda>bound.
      sq (when_do (bound = None)
           (wr (\<lambda>s. s\<lparr>os_cid_tcp_socket := arr_put client_id (Some socket) (os_cid_tcp_socket s)\<rparr>)))
     (bnd (rd (\<lambda>s. aget (os_cid_tcp_socket s) client_id)) (\<lambda>owner.
      if owner \<noteq> Some socket then ret ()
      else
        bnd (rd (\<lambda>s. arr_idx (os_cid_next_exp_seq_num s) client_id)) (\<lambda>q.
        bnd (lift_res q) (\<lambda>next_exp_seq_num.
        if om_seq_num request \<noteq> next_exp_seq_num then ret ()
        else
          sq (wr (\<lambda>s. s\<lparr>os_cid_next_exp_seq_num :=
                arr_put client_id (next_exp_seq_num + 1) (os_cid_next_exp_seq_num s)\<rparr>))
         (zoom os_fifo_sequencer (\<lambda>f s. s\<lparr>os_fifo_sequencer := f\<rparr>)
           (addClientRequest rx_time (om_me_client_request request))))))))))"

text \<open>The loop over the whole requests in the buffer; the result is the offset behind the last one.\<close>

function recv_loop :: "sock_ptr \<Rightarrow> Nanos \<Rightarrow> nat \<Rightarrow> nat \<Rightarrow> (OrderServer, nat) prog" where
  "recv_loop socket rx_time n i =
     (if i + sizeof_OMClientRequest \<le> n then
        bnd (rd (\<lambda>s. slice i sizeof_OMClientRequest (ts_inbound_data (get_socket socket s)))) (\<lambda>bs.
        sq (recv_request socket rx_time (OMClientRequest_of_bytes bs))
       (recv_loop socket rx_time n (i + sizeof_OMClientRequest)))
      else ret i)"
  by pat_completeness auto
termination
  by (relation "measure (\<lambda>(p, t, n, i). n - i)") (auto simp: sizeof_defs)

declare recv_loop.simps [simp del]

text \<open>
  \<open>memcpy\<close> on overlapping ranges is undefined; the rest is shorter than one request and the offset at
  least one request long, so the ranges of this copy never overlap.
\<close>

definition keep_rest :: "nat \<Rightarrow> (TCPSocket, unit) prog" where
  "keep_rest i =
     sq (wr (\<lambda>k. k\<lparr>ts_inbound_data :=
          blit 0 (slice i (ts_next_rcv_valid_index k - i) (ts_inbound_data k)) (ts_inbound_data k)\<rparr>))
    (wr (\<lambda>k. k\<lparr>ts_next_rcv_valid_index := ts_next_rcv_valid_index k - i\<rparr>))"

definition recvCallback :: "sock_ptr \<Rightarrow> Nanos \<Rightarrow> (OrderServer, unit) prog" where
  "recvCallback socket rx_time =
     bnd (rd (\<lambda>s. ts_next_rcv_valid_index (get_socket socket s))) (\<lambda>n.
     when_do (n \<ge> sizeof_OMClientRequest)
      (bnd (recv_loop socket rx_time n 0) (\<lambda>i. on_socket socket (keep_rest i))))"

definition recvFinishedCallback ::
  "(RecvTimeClientRequest list \<Rightarrow> RecvTimeClientRequest list) \<Rightarrow> (OrderServer, unit) prog" where
  "recvFinishedCallback srt = zoom os_fifo_sequencer (\<lambda>f s. s\<lparr>os_fifo_sequencer := f\<rparr>) (sequenceAndPublish srt)"

section \<open>Sending\<close>

definition on_outgoing :: "(MEClientResponse LFQueue, 'a) prog \<Rightarrow> (OrderServer, 'a) prog" where
  "on_outgoing = zoom os_outgoing_responses (\<lambda>q s. s\<lparr>os_outgoing_responses := q\<rparr>)"

text \<open>The body of the \<open>for\<close> loop of \<open>run\<close>: the sequence number, then the response, to the client's socket.\<close>

definition send_response :: "MEClientResponse \<Rightarrow> (OrderServer, unit) prog" where
  "send_response client_response =
     (let client_id = unat (resp_client_id client_response) in
      bnd (rd (\<lambda>s. arr_idx (os_cid_next_outgoing_seq_num s) client_id)) (\<lambda>r.
      bnd (lift_res r) (\<lambda>next_outgoing_seq_num.
      bnd (rd (\<lambda>s. arr_idx (os_cid_tcp_socket s) client_id)) (\<lambda>q.
      bnd (lift_res q) (\<lambda>socket.
      case socket of
        None \<Rightarrow> FATAL ''Don't have a TCPSocket for Client_id: ''
      | Some p \<Rightarrow>
          sq (on_socket p (TCPSocket_send (le_bytes 8 next_outgoing_seq_num)))
         (sq (on_socket p (TCPSocket_send (bytes_of_MEClientResponse client_response)))
         (sq (on_outgoing updateReadIndex)
         (wr (\<lambda>s. s\<lparr>os_cid_next_outgoing_seq_num :=
            arr_put client_id (next_outgoing_seq_num + 1) (os_cid_next_outgoing_seq_num s)\<rparr>)))))))))"

definition send_one :: "(OrderServer, bool) prog" where
  "send_one =
     bnd (on_outgoing getNextToRead) (\<lambda>next.
     bnd (on_outgoing LFQueue_size) (\<lambda>n.
     case next of
       None \<Rightarrow> ret False
     | Some i \<Rightarrow>
         if n = 0 then ret False
         else bnd (on_outgoing (read_slot i)) (\<lambda>r. sq (send_response r) (ret True))))"

lemma on_socket_outgoing: "on_socket p m s = Inr (x, s') \<Longrightarrow> os_outgoing_responses s' = os_outgoing_responses s"
  by (cases p) (auto simp: on_socket_def put_socket_def)

lemma send_one_lowers:
  "send_one s = Inr (True, s') \<Longrightarrow> q_num_elements (os_outgoing_responses s') < q_num_elements (os_outgoing_responses s)"
  by (auto simp: send_one_def send_response_def Let_def on_outgoing_def getNextToRead_def LFQueue_size_def read_slot_def
      split: option.splits if_splits dest!: on_socket_outgoing updateReadIndex_lowers)

function send_responses :: "(OrderServer, unit) prog" where
  "send_responses s =
     (case send_one s of
        Inl e \<Rightarrow> Inl e
      | Inr (False, s') \<Rightarrow> Inr ((), s')
      | Inr (True, s') \<Rightarrow> send_responses s')"
  by pat_completeness auto
termination
  by (relation "measure (\<lambda>s. q_num_elements (os_outgoing_responses s))") (auto dest: send_one_lowers)

declare send_responses.simps [simp del]

section \<open>run\<close>

text \<open>The environment of one round: the events, the accepted descriptors and the kernel's answers.\<close>

record environment =
  en_events :: "epoll_event list"
  en_accepted :: "accepted list"
  en_receive :: kernel
  en_send :: kernel

definition OrderServer_round ::
  "(RecvTimeClientRequest list \<Rightarrow> RecvTimeClientRequest list) \<Rightarrow> environment \<Rightarrow> (OrderServer, unit) prog" where
  "OrderServer_round srt env =
     sq (poll (en_events env) (en_accepted env))
    (sq (TCPServer_sendAndRecv recvCallback (recvFinishedCallback srt) (en_receive env) (en_send env))
    send_responses)"

text \<open>The first statement of \<open>run\<close>: five holes and the four arguments.\<close>

definition run_log_format :: string where
  "run_log_format = ''%:% %() % %.'' @ [CHR 0x0A]"

definition run_log :: "string \<Rightarrow> string \<Rightarrow> (OrderServer, unit) prog" where
  "run_log file time = zoom os_logger (\<lambda>l s. s\<lparr>os_logger := l\<rparr>)
     (log run_log_format [Str file, Elem (Log_INTEGER 21), Str ''run'', Str time])"

text \<open>The loop of \<open>run\<close>, cut after the rounds whose environments are given.\<close>

fun OrderServer_rounds ::
  "(RecvTimeClientRequest list \<Rightarrow> RecvTimeClientRequest list) \<Rightarrow> environment list \<Rightarrow> (OrderServer, unit) prog" where
  "OrderServer_rounds srt [] = ret ()"
| "OrderServer_rounds srt (env # envs) =
     bnd (rd os_run) (\<lambda>go. when_do go (sq (OrderServer_round srt env) (OrderServer_rounds srt envs)))"

definition OrderServer_run ::
  "(RecvTimeClientRequest list \<Rightarrow> RecvTimeClientRequest list) \<Rightarrow> string \<Rightarrow> string \<Rightarrow> environment list \<Rightarrow> (OrderServer, unit) prog" where
  "OrderServer_run srt file time envs = sq (run_log file time) (OrderServer_rounds srt envs)"


section \<open>Cutting a byte stream into requests\<close>

function chunks :: "byte list \<Rightarrow> byte list list" where
  "chunks bs = (if length bs < sizeof_OMClientRequest then []
     else take sizeof_OMClientRequest bs # chunks (drop sizeof_OMClientRequest bs))"
  by pat_completeness auto
termination
  by (relation "measure length") (auto simp: sizeof_defs)

declare chunks.simps [simp del]

function rest :: "byte list \<Rightarrow> byte list" where
  "rest bs = (if length bs < sizeof_OMClientRequest then bs else rest (drop sizeof_OMClientRequest bs))"
  by pat_completeness auto
termination
  by (relation "measure length") (auto simp: sizeof_defs)

declare rest.simps [simp del]

definition requests_of :: "byte list \<Rightarrow> OMClientRequest list" where
  "requests_of bs = map OMClientRequest_of_bytes (chunks bs)"

lemma chunks_short [simp]: "length bs < sizeof_OMClientRequest \<Longrightarrow> chunks bs = [] \<and> rest bs = bs"
  by (simp add: chunks.simps rest.simps)

lemma chunks_long:
  "\<not> length bs < sizeof_OMClientRequest \<Longrightarrow>
    chunks bs = take sizeof_OMClientRequest bs # chunks (drop sizeof_OMClientRequest bs) \<and>
    rest bs = rest (drop sizeof_OMClientRequest bs)"
  by (subst chunks.simps, subst rest.simps) simp

lemma length_rest: "length (rest bs) < sizeof_OMClientRequest"
  by (induction bs rule: rest.induct) (subst rest.simps, simp add: sizeof_defs)

text \<open>The cuts do not depend on how the stream was split by the network.\<close>

lemma chunks_append: "chunks (xs @ ys) = chunks xs @ chunks (rest xs @ ys) \<and> rest (xs @ ys) = rest (rest xs @ ys)"
proof (induction xs rule: chunks.induct)
  case (1 xs)
  show ?case
  proof (cases "length xs < sizeof_OMClientRequest")
    case True
    then show ?thesis by simp
  next
    case False
    then show ?thesis
      using 1 [OF False] chunks_long [OF False] chunks_long [of "xs @ ys"] by simp
  qed
qed

lemma chunks_of_requests:
  assumes "length tail < sizeof_OMClientRequest"
  shows "chunks (concat (map bytes_of_OMClientRequest rs) @ tail) = map bytes_of_OMClientRequest rs"
  by (induction rs) (use assms in \<open>simp_all add: chunks_long\<close>)

lemma rest_of_requests:
  assumes "length tail < sizeof_OMClientRequest"
  shows "rest (concat (map bytes_of_OMClientRequest rs) @ tail) = tail"
  by (induction rs) (use assms in \<open>simp_all add: chunks_long\<close>)

text \<open>The loop of \<open>recvCallback\<close> is a fold over the requests in the buffer.\<close>

fun recv_requests :: "sock_ptr \<Rightarrow> Nanos \<Rightarrow> OMClientRequest list \<Rightarrow> (OrderServer, unit) prog" where
  "recv_requests p t [] = ret ()"
| "recv_requests p t (r # rs) = sq (recv_request p t r) (recv_requests p t rs)"

lemma get_socket_frame [simp]:
  "get_socket p (s\<lparr>os_cid_tcp_socket := a\<rparr>) = get_socket p s"
  "get_socket p (s\<lparr>os_cid_next_exp_seq_num := b\<rparr>) = get_socket p s"
  "get_socket p (s\<lparr>os_fifo_sequencer := f\<rparr>) = get_socket p s"
  by (cases p; simp add: get_socket_def)+

lemma keeps_recv_request_socket: "keeps (\<lambda>s. get_socket p s = k) (recv_request q t r)"
  unfolding recv_request_def Let_def by (intro keeps_intro keeps_wr keeps_zoom) simp_all

lemma recv_request_socket: "recv_request q t r s = Inr ((), s') \<Longrightarrow> get_socket p s' = get_socket p s"
  using keepsD [OF keeps_recv_request_socket] by blast

lemma recv_loop_run:
  assumes "n = ts_next_rcv_valid_index (get_socket p s)" "i \<le> n"
  shows "recv_loop p t n i s = (case recv_requests p t (requests_of (drop i (in_bytes (get_socket p s)))) s of
      Inl e \<Rightarrow> Inl e | Inr (_, s') \<Rightarrow> Inr (n - length (rest (drop i (in_bytes (get_socket p s)))), s'))"
  using assms
proof (induction p t n i arbitrary: s rule: recv_loop.induct)
  case (1 p t n i)
  let ?bs = "in_bytes (get_socket p s)"
  have len: "length ?bs = n" using 1(2) by simp
  show ?case
  proof (cases "i + sizeof_OMClientRequest \<le> n")
    case False
    then have "length (drop i ?bs) < sizeof_OMClientRequest" using len by (simp add: sizeof_defs)
    then show ?thesis using False 1(2,3) len by (subst recv_loop.simps) (simp add: requests_of_def)
  next
    case True
    let ?chunk = "slice i sizeof_OMClientRequest (ts_inbound_data (get_socket p s))"
    have chunk: "?chunk = take sizeof_OMClientRequest (drop i ?bs)"
      using True len by (simp add: in_bytes_def slice_part)
    have long: "\<not> length (drop i ?bs) < sizeof_OMClientRequest" using True len by simp
    note cut = chunks_long [OF long]
    show ?thesis
    proof (cases "recv_request p t (OMClientRequest_of_bytes ?chunk) s")
      case (Inl e)
      then show ?thesis using True cut chunk by (subst recv_loop.simps) (simp add: requests_of_def bnd_def sq_def)
    next
      case (Inr x)
      then obtain s1 where s1: "recv_request p t (OMClientRequest_of_bytes ?chunk) s = Inr ((), s1)" by (cases x) auto
      have same: "get_socket p s1 = get_socket p s" using recv_request_socket [OF s1] .
      have "recv_loop p t n i s = recv_loop p t n (i + sizeof_OMClientRequest) s1"
        using True s1 by (subst recv_loop.simps) (simp add: bnd_def sq_def)
      also have "\<dots> = (case recv_requests p t (requests_of (drop (i + sizeof_OMClientRequest) ?bs)) s1 of
          Inl e \<Rightarrow> Inl e | Inr (_, s') \<Rightarrow> Inr (n - length (rest (drop (i + sizeof_OMClientRequest) ?bs)), s'))"
        using 1(1) [OF True, of s1, unfolded same, OF 1(2) True] .
      finally show ?thesis
        using s1 cut chunk by (simp add: requests_of_def bnd_def sq_def add.commute split: sum.split prod.split)
    qed
  qed
qed


lemma rest_suffix: "\<exists>k \<le> length bs. rest bs = drop k bs"
proof (induction bs rule: rest.induct)
  case (1 bs)
  show ?case
  proof (cases "length bs < sizeof_OMClientRequest")
    case True
    then show ?thesis by (intro exI [of _ 0]) simp
  next
    case False
    then obtain k where "k \<le> length (drop sizeof_OMClientRequest bs)" "rest bs = drop k (drop sizeof_OMClientRequest bs)"
      using 1 [OF False] chunks_long [OF False] by auto
    then show ?thesis using False by (intro exI [of _ "k + sizeof_OMClientRequest"]) auto
  qed
qed

lemma rest_drop: "drop (length bs - length (rest bs)) bs = rest bs" "length (rest bs) \<le> length bs"
  using rest_suffix [of bs] by auto

lemma keep_rest_run:
  assumes "sock_ok k" "i \<le> ts_next_rcv_valid_index k"
  shows "\<exists>k'. keep_rest i k = Inr ((), k') \<and> sock_ok k' \<and> in_bytes k' = drop i (in_bytes k) \<and>
    out_bytes k' = out_bytes k \<and> ts_wire k' = ts_wire k \<and> ts_socket_fd k' = ts_socket_fd k"
proof -
  let ?r = "slice i (ts_next_rcv_valid_index k - i) (ts_inbound_data k)"
  have "?r = drop i (in_bytes k)"
    using assms(2) slice_part [of i "ts_next_rcv_valid_index k - i" "ts_next_rcv_valid_index k" "ts_inbound_data k"]
    by (simp add: in_bytes_def)
  moreover have "slice 0 (ts_next_rcv_valid_index k - i) (blit 0 ?r (ts_inbound_data k)) = ?r"
    using slice_blit_start [of ?r "ts_inbound_data k"] by simp
  moreover have "ts_next_rcv_valid_index k - i \<le> TCPBufferSize"
    using assms(1) by (simp add: sock_ok_def le_diff_conv trans_le_add1)
  ultimately show ?thesis using assms(1)
    by (simp add: keep_rest_def sq_def bnd_def sock_ok_def out_bytes_def) (simp add: in_bytes_def)
qed

lemma put_get_socket [simp]: "put_socket p (get_socket p s) s = (s :: OrderServer)"
  by (cases p) (simp_all add: put_socket_def get_socket_def)

lemma recvCallback_run:
  assumes "sock_ok (get_socket p s)"
  shows "\<exists>k'. sock_ok k' \<and> in_bytes k' = rest (in_bytes (get_socket p s)) \<and> out_bytes k' = out_bytes (get_socket p s) \<and>
    recvCallback p t s = (case recv_requests p t (requests_of (in_bytes (get_socket p s))) s of
      Inl e \<Rightarrow> Inl e | Inr (_, s') \<Rightarrow> Inr ((), put_socket p k' s'))"
proof -
  let ?k = "get_socket p s" and ?bs = "in_bytes (get_socket p s)"
  have same: "get_socket p s' = ?k" if "recv_requests p t rs s = Inr ((), s')" for rs s'
  proof -
    have "keeps (\<lambda>x. get_socket p x = ?k) (recv_requests p t rs)"
      by (induction rs) (simp_all only: recv_requests.simps keeps_ret keeps_sq keeps_recv_request_socket)
    from keepsD [OF this that] show ?thesis by simp
  qed
  show ?thesis
  proof (cases "length ?bs < sizeof_OMClientRequest")
    case True
    then show ?thesis
      using assms by (intro exI [of _ ?k]) (simp add: recvCallback_def bnd_def when_do_def requests_of_def)
  next
    case False
    let ?i = "ts_next_rcv_valid_index ?k - length (rest ?bs)"
    have i: "?i \<le> ts_next_rcv_valid_index ?k" "drop ?i ?bs = rest ?bs" using rest_drop(1) [of ?bs] by simp_all
    obtain k' where k': "keep_rest ?i ?k = Inr ((), k')" "sock_ok k'" "in_bytes k' = rest ?bs" "out_bytes k' = out_bytes ?k"
      using keep_rest_run [OF assms i(1)] i(2) by auto
    have loop: "recv_loop p t (ts_next_rcv_valid_index ?k) 0 s = (case recv_requests p t (requests_of ?bs) s of
        Inl e \<Rightarrow> Inl e | Inr (_, s') \<Rightarrow> Inr (?i, s'))"
      using recv_loop_run [OF refl, of 0 p s t] by (simp split: sum.split prod.split)
    have "recvCallback p t s = (case recv_requests p t (requests_of ?bs) s of
        Inl e \<Rightarrow> Inl e | Inr (_, s') \<Rightarrow> Inr ((), put_socket p k' s'))"
    proof (cases "recv_requests p t (requests_of ?bs) s")
      case (Inl e)
      then show ?thesis using False loop by (simp add: recvCallback_def bnd_def when_do_def)
    next
      case (Inr x)
      then obtain s1 where s1: "recv_requests p t (requests_of ?bs) s = Inr ((), s1)" by (cases x) auto
      then show ?thesis
        using False loop same [OF s1] k'(1) by (simp add: recvCallback_def bnd_def when_do_def on_socket_def zoom_def)
    qed
    then show ?thesis using k' by blast
  qed
qed

section \<open>One request\<close>

definition server_ok :: "OrderServer \<Rightarrow> bool" where
  "server_ok s \<longleftrightarrow> alen (os_cid_next_exp_seq_num s) = ME_MAX_NUM_CLIENTS \<and>
     alen (os_cid_tcp_socket s) = ME_MAX_NUM_CLIENTS \<and> alen (os_cid_next_outgoing_seq_num s) = ME_MAX_NUM_CLIENTS \<and>
     seq_ok (os_fifo_sequencer s)"

abbreviation cid_of :: "OMClientRequest \<Rightarrow> nat" where
  "cid_of r \<equiv> unat (req_client_id (om_me_client_request r))"

text \<open>The client's socket is this one, or becomes this one, and the sequence number is the expected one.\<close>

definition accepts :: "sock_ptr \<Rightarrow> OMClientRequest \<Rightarrow> OrderServer \<Rightarrow> bool" where
  "accepts p r s \<longleftrightarrow> aget (os_cid_tcp_socket s) (cid_of r) \<in> {None, Some p} \<and>
     om_seq_num r = aget (os_cid_next_exp_seq_num s) (cid_of r)"

definition bind_socket :: "sock_ptr \<Rightarrow> OMClientRequest \<Rightarrow> OrderServer \<Rightarrow> OrderServer" where
  "bind_socket p r s = (if aget (os_cid_tcp_socket s) (cid_of r) = None
     then s\<lparr>os_cid_tcp_socket := arr_put (cid_of r) (Some p) (os_cid_tcp_socket s)\<rparr> else s)"

lemma recv_request_run:
  assumes "server_ok s"
  shows "recv_request p t r s =
    (if \<not> cid_of r < ME_MAX_NUM_CLIENTS then Inl Out_of_bounds
     else if \<not> accepts p r s then Inr ((), bind_socket p r s)
     else (case addClientRequest t (om_me_client_request r) (os_fifo_sequencer s) of
         Inl e \<Rightarrow> Inl e
       | Inr (_, f) \<Rightarrow> Inr ((), (bind_socket p r s)\<lparr>os_cid_next_exp_seq_num :=
           arr_put (cid_of r) (om_seq_num r + 1) (os_cid_next_exp_seq_num s), os_fifo_sequencer := f\<rparr>)))"
proof (cases "cid_of r < ME_MAX_NUM_CLIENTS")
  case False
  then show ?thesis using assms by (simp add: recv_request_def Let_def bnd_def arr_idx_out server_ok_def)
next
  case True
  have len: "cid_of r < alen (os_cid_tcp_socket s)" "cid_of r < alen (os_cid_next_exp_seq_num s)"
    using True assms by (simp_all add: server_ok_def)
  show ?thesis
    using True len
    by (cases "aget (os_cid_tcp_socket s) (cid_of r)")
      (auto simp: recv_request_def Let_def bnd_def sq_def when_do_def accepts_def bind_socket_def zoom_def
        split: sum.splits)
qed


section \<open>A batch of requests\<close>

lemma addClientRequest_Inr:
  assumes "seq_ok f" "addClientRequest t r f = Inr (u, f')"
  shows "seq_ok f' \<and> pending_list f' = pending_list f @ [\<lparr>rt_recv_time = t, rt_request = r\<rparr>]"
proof (cases "fs_pending_size f < ME_MAX_PENDING_REQUESTS")
  case True
  from addClientRequest_run [OF assms(1) this, of t r] assms(2) show ?thesis by auto
next
  case False
  then have "addClientRequest t r f = Inl (Fatal ''Too many pending requests'')"
    using assms(1) by (simp add: addClientRequest_def bnd_def sq_def seq_ok_def)
  then show ?thesis using assms(2) by simp
qed

abbreviation exp_seq :: "OrderServer \<Rightarrow> nat \<Rightarrow> 64 word" where
  "exp_seq s c \<equiv> aget (os_cid_next_exp_seq_num s) c"

abbreviation owner :: "OrderServer \<Rightarrow> nat \<Rightarrow> sock_ptr option" where
  "owner s c \<equiv> aget (os_cid_tcp_socket s) c"

abbreviation pending :: "OrderServer \<Rightarrow> RecvTimeClientRequest list" where
  "pending s \<equiv> pending_list (os_fifo_sequencer s)"

definition stamped :: "Nanos \<Rightarrow> OMClientRequest \<Rightarrow> RecvTimeClientRequest" where
  "stamped t r = \<lparr>rt_recv_time = t, rt_request = om_me_client_request r\<rparr>"

definition of_client :: "nat \<Rightarrow> OMClientRequest list \<Rightarrow> OMClientRequest list" where
  "of_client c rs = filter (\<lambda>r. cid_of r = c) rs"

text \<open>The sequence numbers \<open>e\<close>, \<open>e + 1\<close>, ... of \<open>n\<close> messages.\<close>

definition seqs :: "64 word \<Rightarrow> nat \<Rightarrow> 64 word list" where
  "seqs e n = map (\<lambda>i. e + of_nat i) [0..<n]"

lemma seqs_simps [simp]: "seqs e 0 = []" "seqs e (Suc n) = e # seqs (e + 1) n"
  by (simp_all add: seqs_def upt_conv_Cons map_Suc_upt [symmetric] add.assoc del: upt_Suc)

lemma of_client_simps [simp]:
  "of_client c [] = []" "of_client c (r # rs) = (if cid_of r = c then r # of_client c rs else of_client c rs)"
  by (simp_all add: of_client_def)

text \<open>What a batch of requests from one socket may do to the server.\<close>

definition took :: "sock_ptr \<Rightarrow> Nanos \<Rightarrow> OMClientRequest list \<Rightarrow> OrderServer \<Rightarrow> OrderServer \<Rightarrow> bool" where
  "took p t new s s' \<longleftrightarrow> server_ok s' \<and> pending s' = pending s @ map (stamped t) new \<and>
     (\<forall>c. map om_seq_num (of_client c new) = seqs (exp_seq s c) (length (of_client c new)) \<and>
       exp_seq s' c = exp_seq s c + of_nat (length (of_client c new))) \<and>
     (\<forall>r \<in> set new. owner s' (cid_of r) = Some p) \<and>
     (\<forall>c. owner s c \<noteq> None \<longrightarrow> owner s' c = owner s c)"

lemma took_refl: "server_ok s \<Longrightarrow> took p t [] s s"
  by (simp add: took_def)

lemma recv_request_took:
  assumes "server_ok s" "recv_request p t r s = Inr ((), s')"
  shows "took p t (if accepts p r s then [r] else []) s s'"
proof -
  have cid: "cid_of r < ME_MAX_NUM_CLIENTS"
    using recv_request_run [OF assms(1), of p t r] assms(2) by (cases "cid_of r < ME_MAX_NUM_CLIENTS") simp_all
  have bound: "owner (bind_socket p r s) c = (case owner s c of None \<Rightarrow> if c = cid_of r then Some p else None | Some q \<Rightarrow> Some q)"
    "exp_seq (bind_socket p r s) c = exp_seq s c" "pending (bind_socket p r s) = pending s" for c
    by (auto simp: bind_socket_def split: option.split)
  have ok: "server_ok (bind_socket p r s)" using assms(1) by (simp add: bind_socket_def server_ok_def)
  show ?thesis
  proof (cases "accepts p r s")
    case False
    then have "s' = bind_socket p r s" using recv_request_run [OF assms(1), of p t r] assms(2) cid by simp
    then show ?thesis using False bound ok by (auto simp: took_def)
  next
    case True
    then obtain f where f: "addClientRequest t (om_me_client_request r) (os_fifo_sequencer s) = Inr ((), f)"
      "s' = (bind_socket p r s)\<lparr>os_cid_next_exp_seq_num := arr_put (cid_of r) (om_seq_num r + 1) (os_cid_next_exp_seq_num s),
         os_fifo_sequencer := f\<rparr>"
      using recv_request_run [OF assms(1), of p t r] assms(2) cid by (auto split: sum.splits)
    have "seq_ok f" "pending_list f = pending s @ [stamped t r]"
      using addClientRequest_Inr [OF _ f(1)] assms(1) by (simp_all add: server_ok_def stamped_def)
    then show ?thesis using True bound ok f(2) assms(1) by (auto simp: took_def server_ok_def accepts_def)
  qed
qed

lemma took_Cons:
  assumes "took p t (if a then [r] else []) s s1" "took p t new s1 s2"
  shows "took p t (if a then r # new else new) s s2"
proof -
  have seq: "exp_seq s1 c = exp_seq s c + (if a \<and> cid_of r = c then 1 else 0)" for c
    using assms(1) by (cases a) (auto simp: took_def)
  have "a \<Longrightarrow> map om_seq_num (of_client (cid_of r) [r]) = seqs (exp_seq s (cid_of r)) (length (of_client (cid_of r) [r]))"
    using assms(1) unfolding took_def by (simp only: if_True)
  then have head: "a \<Longrightarrow> om_seq_num r = exp_seq s (cid_of r)" by simp
  show ?thesis
  proof (cases a)
    case False
    then show ?thesis using assms seq by (simp add: took_def)
  next
    case True
    have tail: "map om_seq_num (of_client c new) = seqs (exp_seq s1 c) (length (of_client c new))"
      "exp_seq s2 c = exp_seq s1 c + of_nat (length (of_client c new))" for c
      using assms(2) by (simp_all add: took_def)
    have "map om_seq_num (of_client c (r # new)) = seqs (exp_seq s c) (length (of_client c (r # new)))"
      "exp_seq s2 c = exp_seq s c + of_nat (length (of_client c (r # new)))" for c
      using tail seq True head by (auto simp: add.assoc)
    moreover have "\<forall>x \<in> set (r # new). owner s2 (cid_of x) = Some p" "\<forall>c. owner s c \<noteq> None \<longrightarrow> owner s2 c = owner s c"
      using assms True unfolding took_def by (auto simp del: not_None_eq)
    ultimately show ?thesis using assms True by (simp add: took_def)
  qed
qed

lemma recv_requests_took:
  assumes "server_ok s" "recv_requests p t rs s = Inr ((), s')"
  shows "\<exists>new. subseq new rs \<and> took p t new s s'"
  using assms
proof (induction rs arbitrary: s)
  case Nil
  then show ?case using took_refl by (intro exI [of _ "[]"]) simp
next
  case (Cons r rs)
  then obtain s1 where s1: "recv_request p t r s = Inr ((), s1)" "recv_requests p t rs s1 = Inr ((), s')" by auto
  note one = recv_request_took [OF Cons.prems(1) s1(1)]
  then have "server_ok s1" by (simp add: took_def)
  from Cons.IH [OF this s1(2)] obtain new where new: "subseq new rs" "took p t new s1 s'" by blast
  from took_Cons [OF one new(2)] new(1) show ?case
    by (cases "accepts p r s") (auto intro: list_emb.intros)
qed


text \<open>A client that keeps to one socket and to the sequence gets all its requests through.\<close>

definition in_sequence :: "sock_ptr \<Rightarrow> nat \<Rightarrow> OMClientRequest list \<Rightarrow> OrderServer \<Rightarrow> bool" where
  "in_sequence p c rs s \<longleftrightarrow> owner s c \<in> {None, Some p} \<and> (\<forall>r \<in> set rs. cid_of r = c) \<and>
     map om_seq_num rs = seqs (exp_seq s c) (length rs)"

lemma recv_requests_in_sequence:
  assumes "server_ok s" "c < ME_MAX_NUM_CLIENTS" "in_sequence p c rs s"
    "length (pending s) + length rs \<le> ME_MAX_PENDING_REQUESTS"
  shows "\<exists>s'. recv_requests p t rs s = Inr ((), s') \<and> took p t rs s s'"
  using assms
proof (induction rs arbitrary: s)
  case Nil
  then show ?case using took_refl by simp
next
  case (Cons r rs)
  have r: "cid_of r = c" "accepts p r s" using Cons.prems(3) by (auto simp: in_sequence_def accepts_def)
  have "fs_pending_size (os_fifo_sequencer s) < ME_MAX_PENDING_REQUESTS" "seq_ok (os_fifo_sequencer s)"
    using Cons.prems(1,4) by (simp_all add: server_ok_def)
  then obtain f where "addClientRequest t (om_me_client_request r) (os_fifo_sequencer s) = Inr ((), f)"
    using addClientRequest_run by blast
  then obtain s1 where s1: "recv_request p t r s = Inr ((), s1)"
    using recv_request_run [OF Cons.prems(1), of p t r] r Cons.prems(2) by simp
  have one: "took p t [r] s s1" using recv_request_took [OF Cons.prems(1) s1] r(2) by simp
  have "exp_seq s1 c = exp_seq s c + 1" "owner s1 c = Some p"
    using one r(1) by (auto simp: took_def)
  then have "in_sequence p c rs s1" using Cons.prems(3) by (simp add: in_sequence_def)
  moreover have "server_ok s1" "length (pending s1) = length (pending s) + 1"
    using one by (auto simp: took_def simp del: length_pending_list)
  ultimately obtain s2 where s2: "recv_requests p t rs s1 = Inr ((), s2)" "took p t rs s1 s2"
    using Cons.IH [of s1] Cons.prems(2,4) by auto
  have "took p t (r # rs) s s2" using took_Cons [of p t True r s s1 rs s2] one s2(2) by simp
  then show ?case using s1 s2(1) by (simp add: sq_def bnd_def)
qed

section \<open>Which requests are taken, exactly\<close>

text \<open>
  The requests of several reads, in the order in which the server sees them: the socket, the receive time
  and the request. \<open>bound_to\<close> is the socket a client has in the end: its own, or that of its first request.
  The request at \<open>i\<close> is admitted when it is on that socket, with the number its client has reached by the
  requests admitted before it.
\<close>

type_synonym event = "sock_ptr \<times> Nanos \<times> OMClientRequest"

definition ev_cid :: "event \<Rightarrow> nat" where
  "ev_cid e = cid_of (snd (snd e))"

definition ev_stamped :: "event \<Rightarrow> RecvTimeClientRequest" where
  "ev_stamped e = stamped (fst (snd e)) (snd (snd e))"

definition client_events :: "nat \<Rightarrow> event list \<Rightarrow> nat" where
  "client_events c es = length (filter (\<lambda>e. ev_cid e = c) es)"

definition bound_to :: "OrderServer \<Rightarrow> event list \<Rightarrow> nat \<Rightarrow> sock_ptr option" where
  "bound_to s es c = (case owner s c of Some p \<Rightarrow> Some p | None \<Rightarrow> map_option fst (List.find (\<lambda>e. ev_cid e = c) es))"

definition admits :: "OrderServer \<Rightarrow> event list \<Rightarrow> nat set \<Rightarrow> nat \<Rightarrow> bool" where
  "admits s es I i \<longleftrightarrow> bound_to s es (ev_cid (es ! i)) = Some (fst (es ! i)) \<and>
     om_seq_num (snd (snd (es ! i))) =
       exp_seq s (ev_cid (es ! i)) + of_nat (client_events (ev_cid (es ! i)) (nths (take i es) I))"

definition admitted :: "OrderServer \<Rightarrow> event list \<Rightarrow> nat set \<Rightarrow> OrderServer \<Rightarrow> bool" where
  "admitted s es I s' \<longleftrightarrow> (\<forall>i < length es. i \<in> I \<longleftrightarrow> admits s es I i) \<and>
     pending s' = pending s @ map ev_stamped (nths es I) \<and>
     (\<forall>c. owner s' c = bound_to s es c \<and> exp_seq s' c = exp_seq s c + of_nat (client_events c (nths es I)))"

fun recv_events :: "event list \<Rightarrow> (OrderServer, unit) prog" where
  "recv_events [] = ret ()"
| "recv_events ((p, t, r) # es) = sq (recv_request p t r) (recv_events es)"

lemma recv_events_append: "recv_events (es @ fs) = sq (recv_events es) (recv_events fs)"
  by (induction es rule: recv_events.induct) (auto simp: sq_def bnd_def fun_eq_iff split: sum.splits)

lemma recv_requests_events: "recv_requests p t rs = recv_events (map (\<lambda>r. (p, t, r)) rs)"
  by (induction rs) simp_all

lemma client_events_simps [simp]:
  "client_events c [] = 0" "client_events c (e # es) = (if ev_cid e = c then 1 else 0) + client_events c es"
  "client_events c (es @ fs) = client_events c es + client_events c fs"
  by (simp_all add: client_events_def)

lemma recv_request_exact:
  assumes "server_ok s" "cid_of r < ME_MAX_NUM_CLIENTS" "length (pending s) < ME_MAX_PENDING_REQUESTS"
  shows "\<exists>s'. recv_request p t r s = Inr ((), s') \<and> server_ok s' \<and>
    pending s' = pending s @ (if accepts p r s then [stamped t r] else []) \<and>
    (\<forall>c. owner s' c = (if owner s c = None \<and> c = cid_of r then Some p else owner s c) \<and>
      exp_seq s' c = exp_seq s c + (if accepts p r s \<and> c = cid_of r then 1 else 0))"
proof -
  have bound: "\<forall>c. owner (bind_socket p r s) c = (if owner s c = None \<and> c = cid_of r then Some p else owner s c)"
    "\<forall>c. exp_seq (bind_socket p r s) c = exp_seq s c" "pending (bind_socket p r s) = pending s" "server_ok (bind_socket p r s)"
    using assms(1) by (auto simp: bind_socket_def server_ok_def)
  show ?thesis
  proof (cases "accepts p r s")
    case False
    then show ?thesis using recv_request_run [OF assms(1), of p t r] assms(2) bound by simp
  next
    case True
    have "fs_pending_size (os_fifo_sequencer s) < ME_MAX_PENDING_REQUESTS" "seq_ok (os_fifo_sequencer s)"
      using assms(1,3) by (simp_all add: server_ok_def)
    then obtain f where f: "addClientRequest t (om_me_client_request r) (os_fifo_sequencer s) = Inr ((), f)" "seq_ok f"
      "pending_list f = pending s @ [stamped t r]"
      using addClientRequest_run unfolding stamped_def by blast
    then show ?thesis
      using True recv_request_run [OF assms(1), of p t r] assms bound by (auto simp: server_ok_def accepts_def)
  qed
qed

lemma accepts_bound: "accepts p r s \<longleftrightarrow> bound_to s ((p, t, r) # es) (cid_of r) = Some p \<and> om_seq_num r = exp_seq s (cid_of r)"
  by (auto simp: accepts_def bound_to_def ev_cid_def split: option.splits)

lemma admitted_Cons:
  fixes s s1 :: OrderServer
  assumes one: "pending s1 = pending s @ (if accepts p r s then [stamped t r] else [])"
      "\<forall>c. owner s1 c = (if owner s c = None \<and> c = cid_of r then Some p else owner s c) \<and>
        exp_seq s1 c = exp_seq s c + (if accepts p r s \<and> c = cid_of r then 1 else 0)"
    and rest: "admitted s1 es I s'"
  defines "J \<equiv> (if accepts p r s then {0} else {}) \<union> Suc ` I"
  shows "admitted s ((p, t, r) # es) J s'"
proof -
  let ?e = "(p, t, r)"
  have e: "ev_cid ?e = cid_of r" "ev_stamped ?e = stamped t r" by (simp_all add: ev_cid_def ev_stamped_def)
  have tail: "nths (?e # fs) J = (if accepts p r s then [?e] else []) @ nths fs I" for fs
  proof -
    have "{j. Suc j \<in> J} = I" "0 \<in> J \<longleftrightarrow> accepts p r s" by (auto simp: J_def)
    then show ?thesis by (simp add: nths_Cons)
  qed
  have bound: "bound_to s (?e # es) = bound_to s1 es"
    using one(2) e by (auto simp: bound_to_def fun_eq_iff split: option.split)
  have "i \<in> J \<longleftrightarrow> admits s (?e # es) J i" if i: "i < length (?e # es)" for i
  proof (cases i)
    case 0
    then show ?thesis using accepts_bound [of p r s t es] e by (auto simp: J_def admits_def)
  next
    case (Suc j)
    have count: "client_events c (nths (take i (?e # es)) J) = (if accepts p r s \<and> c = cid_of r then 1 else 0) + client_events c (nths (take j es) I)" for c
      using Suc tail e by simp
    have "j < length es" using i Suc by simp
    then have "j \<in> I \<longleftrightarrow> admits s1 es I j" using rest by (simp add: admitted_def)
    moreover have "i \<in> J \<longleftrightarrow> j \<in> I" using Suc by (auto simp: J_def)
    ultimately show ?thesis unfolding admits_def bound count using Suc one(2) by (simp add: add.assoc)
  qed
  then show ?thesis
    using rest one bound e tail [of es] unfolding admitted_def by (simp add: add.assoc)
qed

lemma recv_events_exact:
  assumes "server_ok s" "\<forall>e \<in> set es. ev_cid e < ME_MAX_NUM_CLIENTS" "length (pending s) + length es \<le> ME_MAX_PENDING_REQUESTS"
  shows "\<exists>s' I. recv_events es s = Inr ((), s') \<and> server_ok s' \<and> admitted s es I s'"
  using assms
proof (induction es arbitrary: s rule: recv_events.induct)
  case 1
  then show ?case by (intro exI [of _ s] exI [of _ "{}"]) (auto simp: admitted_def bound_to_def split: option.split)
next
  case (2 p t r es)
  obtain s1 where s1: "recv_request p t r s = Inr ((), s1)" "server_ok s1"
    "pending s1 = pending s @ (if accepts p r s then [stamped t r] else [])"
    "\<forall>c. owner s1 c = (if owner s c = None \<and> c = cid_of r then Some p else owner s c) \<and>
      exp_seq s1 c = exp_seq s c + (if accepts p r s \<and> c = cid_of r then 1 else 0)"
    using recv_request_exact [OF "2.prems"(1), of r p t] "2.prems"(2,3) by (auto simp: ev_cid_def)
  have "length (pending s1) \<le> length (pending s) + 1" using arg_cong [OF s1(3), of length] by (auto split: if_splits)
  then have "length (pending s1) + length es \<le> ME_MAX_PENDING_REQUESTS" using "2.prems"(3) by simp
  from "2.IH" [OF s1(2) _ this] "2.prems"(2) obtain s' I where s': "recv_events es s1 = Inr ((), s')" "server_ok s'" "admitted s1 es I s'"
    by auto
  from admitted_Cons [OF s1(3,4) s'(3)] s1(1) s'(1,2) show ?case
    by (intro exI [of _ s'] exI [of _ "(if accepts p r s then {0} else {}) \<union> Suc ` I"]) (simp add: sq_def bnd_def)
qed

text \<open>Two batches, one after the other.\<close>

lemma nths_cong: "(\<And>i. i < length xs \<Longrightarrow> i \<in> A \<longleftrightarrow> i \<in> B) \<Longrightarrow> nths xs A = nths xs B"
  unfolding nths_def by (rule arg_cong [where f = "map fst"], rule filter_cong) (auto simp: set_zip)

lemma bound_to_append:
  "bound_to s (es @ fs) c = (case bound_to s es c of Some p \<Rightarrow> Some p | None \<Rightarrow> map_option fst (List.find (\<lambda>e. ev_cid e = c) fs))"
proof -
  have "List.find P (es @ fs) = (case List.find P es of Some e \<Rightarrow> Some e | None \<Rightarrow> List.find P fs)" for P :: "event \<Rightarrow> bool"
    by (induction es) auto
  then show ?thesis by (simp add: bound_to_def split: option.split)
qed

lemma bound_to_member: "e \<in> set es \<Longrightarrow> \<exists>p. bound_to s es (ev_cid e) = Some p"
proof -
  assume "e \<in> set es"
  then have "List.find (\<lambda>x. ev_cid x = ev_cid e) es \<noteq> None" unfolding find_None_iff by blast
  then show ?thesis by (auto simp: bound_to_def split: option.split)
qed

lemma admitted_append:
  assumes es: "admitted s es I s1" and fs: "admitted s1 fs J s2"
  defines "K \<equiv> {i \<in> I. i < length es} \<union> (+) (length es) ` J"
  shows "admitted s (es @ fs) K s2"
proof -
  let ?n = "length es"
  have left: "nths (take i es) K = nths (take i es) I" for i by (rule nths_cong) (auto simp: K_def)
  have "{j. j + ?n \<in> K} = J" by (auto simp: K_def image_iff add.commute)
  then have both: "nths (es @ gs) K = nths es I @ nths gs J" for gs
    using left [of ?n] by (simp add: nths_append)
  have bound: "bound_to s (es @ fs) = bound_to s1 fs"
    using es by (auto simp: fun_eq_iff bound_to_append admitted_def) (simp add: bound_to_def)
  have "i \<in> K \<longleftrightarrow> admits s (es @ fs) K i" if i: "i < length (es @ fs)" for i
  proof (cases "i < ?n")
    case True
    then have e: "(es @ fs) ! i = es ! i" "take i (es @ fs) = take i es" "es ! i \<in> set es" by (simp_all add: nth_append)
    have "bound_to s (es @ fs) (ev_cid (es ! i)) = bound_to s es (ev_cid (es ! i))"
      using bound_to_member [OF e(3), of s] by (auto simp: bound_to_append)
    then have "admits s (es @ fs) K i \<longleftrightarrow> admits s es I i" unfolding admits_def e(1,2) left by simp
    then show ?thesis using True es by (auto simp: K_def admitted_def)
  next
    case False
    then obtain j where j: "i = ?n + j" "j < length fs" using i by (metis add_less_cancel_left le_add_diff_inverse length_append not_less)
    have "admits s (es @ fs) K i \<longleftrightarrow> admits s1 fs J j"
      unfolding admits_def using j es by (simp add: bound nth_append both admitted_def add.assoc)
    moreover have "i \<in> K \<longleftrightarrow> j \<in> J" using j(1) by (auto simp: K_def)
    ultimately show ?thesis using j(2) fs by (simp add: admitted_def)
  qed
  then show ?thesis
    using es fs both [of fs] bound unfolding admitted_def by (simp add: add.assoc)
qed

lemma admitted_put_socket [simp]:
  "admitted s es I (put_socket p k s') = admitted s es I s'" "admitted (put_socket p k s) es I s' = admitted s es I s'"
proof -
  have same: "pending (put_socket p k s) = pending s" "owner (put_socket p k s) = owner s" "exp_seq (put_socket p k s) = exp_seq s"
    for s :: OrderServer by (cases p; simp add: put_socket_def)+
  then have "bound_to (put_socket p k s) = bound_to s" by (simp add: bound_to_def fun_eq_iff)
  then show "admitted s es I (put_socket p k s') = admitted s es I s'" "admitted (put_socket p k s) es I s' = admitted s es I s'"
    using same by (simp_all add: admitted_def admits_def)
qed

text \<open>What the reader of a byte stream cuts off is what it was given.\<close>

lemma chunks_concat: "concat (chunks bs) @ rest bs = bs \<and> (\<forall>w \<in> set (chunks bs). length w = sizeof_OMClientRequest)"
proof (induction bs rule: chunks.induct)
  case (1 bs)
  show ?case
  proof (cases "length bs < sizeof_OMClientRequest")
    case False
    let ?d = "drop sizeof_OMClientRequest bs"
    have cut: "chunks bs = take sizeof_OMClientRequest bs # chunks ?d" "rest bs = rest ?d" using chunks_long [OF False] by blast+
    have IH: "concat (chunks ?d) @ rest ?d = ?d" "\<forall>w \<in> set (chunks ?d). length w = sizeof_OMClientRequest"
      using 1 [OF False] by blast+
    have "concat (chunks bs) @ rest bs = take sizeof_OMClientRequest bs @ (concat (chunks ?d) @ rest ?d)"
      by (simp only: cut concat.simps append_assoc)
    also have "\<dots> = bs" by (simp only: IH append_take_drop_id)
    finally have "concat (chunks bs) @ rest bs = bs" .
    moreover have "length (take sizeof_OMClientRequest bs) = sizeof_OMClientRequest" using False by simp
    then have "\<forall>w \<in> set (chunks bs). length w = sizeof_OMClientRequest" unfolding cut(1) list.set using IH(2) by blast
    ultimately show ?thesis by blast
  qed simp
qed

section \<open>Responses\<close>

text \<open>The frames of a list of responses: the client, and the bytes sent to its socket.\<close>

fun frames :: "(nat \<Rightarrow> 64 word) \<Rightarrow> MEClientResponse list \<Rightarrow> (nat \<times> byte list) list" where
  "frames nxt [] = []"
| "frames nxt (r # rs) = (let c = unat (resp_client_id r) in
     (c, le_bytes 8 (nxt c) @ bytes_of_MEClientResponse r) # frames (nxt(c := nxt c + 1)) rs)"

text \<open>What goes to one socket.\<close>

definition stream_to :: "(nat \<Rightarrow> sock_ptr option) \<Rightarrow> sock_ptr \<Rightarrow> (nat \<times> byte list) list \<Rightarrow> byte list" where
  "stream_to own p fs = concat (map snd (filter (\<lambda>(c, bs). own c = Some p) fs))"

lemma stream_to_simps [simp]:
  "stream_to own p [] = []"
  "stream_to own p ((c, bs) # fs) = (if own c = Some p then bs @ stream_to own p fs else stream_to own p fs)"
  by (simp_all add: stream_to_def)

definition sockets_ok :: "OrderServer \<Rightarrow> bool" where
  "sockets_ok s \<longleftrightarrow> sv_ok s \<and> (\<forall>c p. owner s c = Some p \<longrightarrow> valid_ptr s p)"

lemma get_socket_ok: "sv_ok s \<Longrightarrow> valid_ptr s p \<Longrightarrow> sock_ok (get_socket p s)"
  by (cases p) (simp_all add: sv_ok_def get_socket_def)

lemma get_put_socket:
  "valid_ptr s q \<Longrightarrow> get_socket p (put_socket q k s) = (if p = q then k else get_socket p s)"
  by (cases p; cases q) (auto simp: get_socket_def put_socket_def nth_list_update)

lemma put_socket_ok:
  assumes "sv_ok s" "sock_ok k"
  shows "sv_ok (put_socket q k s)"
proof -
  have "valid_ptr (put_socket q k s) p = valid_ptr s p" for p by (cases p; cases q) (simp_all add: put_socket_def)
  then show ?thesis
    using assms by (cases q) (auto simp: sv_ok_def put_socket_def dest: set_update_subset_insert [THEN subsetD])
qed

lemma put_socket_frame [simp]:
  "os_cid_next_outgoing_seq_num (put_socket p k s) = os_cid_next_outgoing_seq_num s"
  "os_cid_tcp_socket (put_socket p k s) = os_cid_tcp_socket s"
  "os_cid_next_exp_seq_num (put_socket p k s) = os_cid_next_exp_seq_num s"
  "os_fifo_sequencer (put_socket p k s) = os_fifo_sequencer s"
  "os_outgoing_responses (put_socket p k s) = os_outgoing_responses s"
  "valid_ptr (put_socket p k s) q = valid_ptr s q"
  by (cases p; cases q; simp add: put_socket_def)+

lemma on_socket_send:
  assumes "sv_ok s" "valid_ptr s p" "length (out_bytes (get_socket p s)) + length bs \<le> TCPBufferSize"
  shows "\<exists>k. on_socket p (TCPSocket_send bs) s = Inr ((), put_socket p k s) \<and> sv_ok (put_socket p k s) \<and>
    (\<forall>q. out_bytes (get_socket q (put_socket p k s)) = out_bytes (get_socket q s) @ (if q = p then bs else []))"
proof -
  obtain k where "TCPSocket_send bs (get_socket p s) = Inr ((), k)" "sock_ok k" "out_bytes k = out_bytes (get_socket p s) @ bs"
    using TCPSocket_send_run [OF get_socket_ok [OF assms(1,2)] assms(3)] by blast
  then show ?thesis
    using put_socket_ok [OF assms(1)] get_put_socket [OF assms(2)] by (intro exI [of _ k]) (simp add: on_socket_def zoom_def)
qed


abbreviation nxt_out :: "OrderServer \<Rightarrow> nat \<Rightarrow> 64 word" where
  "nxt_out s \<equiv> aget (os_cid_next_outgoing_seq_num s)"

abbreviation outgoing :: "OrderServer \<Rightarrow> MEClientResponse LFQueue" where
  "outgoing \<equiv> os_outgoing_responses"

definition frame_size :: nat where "frame_size = 8 + sizeof_MEClientResponse"

text \<open>The sockets may get \<open>n\<close> more frames.\<close>

definition room_for :: "nat \<Rightarrow> OrderServer \<Rightarrow> bool" where
  "room_for n s \<longleftrightarrow> (\<forall>c p. owner s c = Some p \<longrightarrow> length (out_bytes (get_socket p s)) + n * frame_size \<le> TCPBufferSize)"

definition sending :: "OrderServer \<Rightarrow> bool" where
  "sending s \<longleftrightarrow> server_ok s \<and> sockets_ok s \<and> q_ok (outgoing s)"

definition known_client :: "OrderServer \<Rightarrow> MEClientResponse \<Rightarrow> bool" where
  "known_client s r \<longleftrightarrow> unat (resp_client_id r) < ME_MAX_NUM_CLIENTS \<and> owner s (unat (resp_client_id r)) \<noteq> None"

lemma send_response_run:
  assumes "sending s" "q_list (outgoing s) = r # rs" "known_client s r" "room_for (Suc n) s"
  defines "c \<equiv> unat (resp_client_id r)"
  shows "\<exists>s'. send_response r s = Inr ((), s') \<and> sending s' \<and> q_list (outgoing s') = rs \<and> owner s' = owner s \<and>
    nxt_out s' = (nxt_out s)(c := nxt_out s c + 1) \<and> room_for n s' \<and>
    (\<forall>q. out_bytes (get_socket q s') = out_bytes (get_socket q s) @
      stream_to (owner s) q [(c, le_bytes 8 (nxt_out s c) @ bytes_of_MEClientResponse r)])"
proof -
  obtain p where p: "owner s c = Some p" and c: "c < ME_MAX_NUM_CLIENTS"
    using assms(3) by (auto simp: known_client_def c_def)
  have valid: "valid_ptr s p" and sv: "sv_ok s" and ok: "server_ok s" and q: "q_ok (outgoing s)"
    using assms(1) p by (auto simp: sending_def sockets_ok_def)
  have room: "length (out_bytes (get_socket p s)) + frame_size \<le> TCPBufferSize"
  proof -
    have "length (out_bytes (get_socket p s)) + Suc n * frame_size \<le> TCPBufferSize"
      using assms(4) p unfolding room_for_def by blast
    then show ?thesis by simp
  qed
  obtain k1 where k1: "on_socket p (TCPSocket_send (le_bytes 8 (nxt_out s c))) s = Inr ((), put_socket p k1 s)"
    "sv_ok (put_socket p k1 s)" "\<forall>q. out_bytes (get_socket q (put_socket p k1 s)) = out_bytes (get_socket q s) @
      (if q = p then le_bytes 8 (nxt_out s c) else [])"
    using on_socket_send [OF sv valid, of "le_bytes 8 (nxt_out s c)"] room by (auto simp: frame_size_def)
  let ?s1 = "put_socket p k1 s"
  have "length (out_bytes (get_socket p ?s1)) + length (bytes_of_MEClientResponse r) \<le> TCPBufferSize"
    using k1(3) room by (simp add: frame_size_def)
  with on_socket_send [OF k1(2), of p] valid obtain k2
    where k2: "on_socket p (TCPSocket_send (bytes_of_MEClientResponse r)) ?s1 = Inr ((), put_socket p k2 ?s1)"
      "sv_ok (put_socket p k2 ?s1)" "\<forall>q. out_bytes (get_socket q (put_socket p k2 ?s1)) = out_bytes (get_socket q ?s1) @
        (if q = p then bytes_of_MEClientResponse r else [])"
    by (metis put_socket_frame(6))
  let ?s2 = "put_socket p k2 ?s1"
  obtain q' where q': "updateReadIndex (outgoing s) = Inr ((), q')" "q_ok q'" "q_list q' = rs"
    using lfq.pop_ok [OF q] assms(2) by auto
  let ?s3 = "?s2\<lparr>os_outgoing_responses := q', os_cid_next_outgoing_seq_num :=
    arr_put c (nxt_out s c + 1) (os_cid_next_outgoing_seq_num s)\<rparr>"
  have len: "c < alen (os_cid_next_outgoing_seq_num s)" "c < alen (os_cid_tcp_socket s)"
    using ok c by (simp_all add: server_ok_def)
  have run: "send_response r s = Inr ((), ?s3)"
    using len p k1(1) k2(1) q'(1)
    by (simp add: send_response_def Let_def c_def [symmetric] bnd_def sq_def on_outgoing_def zoom_def)
  have sock: "get_socket x ?s3 = get_socket x ?s2" "valid_ptr ?s3 x = valid_ptr ?s2 x" "sv_ok ?s3 = sv_ok ?s2" for x
  proof -
    show "get_socket x ?s3 = get_socket x ?s2" "valid_ptr ?s3 x = valid_ptr ?s2 x"
      by (cases x; simp add: get_socket_def)+
    have "valid_ptr ?s3 y = valid_ptr ?s2 y" for y by (cases y) simp_all
    then show "sv_ok ?s3 = sv_ok ?s2" by (simp add: sv_ok_def)
  qed
  have out: "out_bytes (get_socket x ?s3) = out_bytes (get_socket x s) @
      stream_to (owner s) x [(c, le_bytes 8 (nxt_out s c) @ bytes_of_MEClientResponse r)]" for x
    using sock(1) k1(3) k2(3) p by simp
  have "sending ?s3"
    using assms(1) k2(2) q'(2) sock by (simp add: sending_def sockets_ok_def server_ok_def)
  moreover have "room_for n ?s3"
    unfolding room_for_def
  proof (intro allI impI)
    fix d x assume "owner ?s3 d = Some x"
    then have "length (out_bytes (get_socket x s)) + Suc n * frame_size \<le> TCPBufferSize"
      using assms(4) by (simp add: room_for_def)
    moreover have "length (stream_to (owner s) x [(c, le_bytes 8 (nxt_out s c) @ bytes_of_MEClientResponse r)]) \<le> frame_size"
      by (simp add: frame_size_def)
    ultimately show "length (out_bytes (get_socket x ?s3)) + n * frame_size \<le> TCPBufferSize"
      using out [of x] by simp
  qed
  ultimately show ?thesis using run out q'(3) by (intro exI [of _ ?s3]) simp
qed

lemma send_responses_run:
  assumes "sending s" "\<forall>r \<in> set (q_list (outgoing s)). known_client s r" "room_for (length (q_list (outgoing s))) s"
  shows "\<exists>s'. send_responses s = Inr ((), s') \<and> sending s' \<and> q_list (outgoing s') = [] \<and>
    (\<forall>p. out_bytes (get_socket p s') = out_bytes (get_socket p s) @
      stream_to (owner s) p (frames (nxt_out s) (q_list (outgoing s))))"
  using assms
proof (induction "q_list (outgoing s)" arbitrary: s)
  case Nil
  have e: "q_list (outgoing s) = []" using Nil(1) by simp
  then have "q_num_elements (outgoing s) = 0" by (metis length_q_list list.size(3))
  then have "send_one s = Inr (False, s)"
    by (auto simp: send_one_def bnd_def on_outgoing_def zoom_def LFQueue_size_def getNextToRead_def)
  then have "send_responses s = Inr ((), s)" by (subst send_responses.simps) simp
  then show ?case using Nil(2) e by (intro exI [of _ s]) simp
next
  case (Cons r rs)
  let ?c = "unat (resp_client_id r)"
  have list: "q_list (outgoing s) = r # rs" using Cons.hyps(2) by simp
  have q: "q_ok (outgoing s)" using Cons.prems(1) by (simp add: sending_def)
  obtain s1 where s1: "send_response r s = Inr ((), s1)" "sending s1" "q_list (outgoing s1) = rs" "owner s1 = owner s"
    "nxt_out s1 = (nxt_out s)(?c := nxt_out s ?c + 1)" "room_for (length rs) s1"
    "\<forall>q. out_bytes (get_socket q s1) = out_bytes (get_socket q s) @
      stream_to (owner s) q [(?c, le_bytes 8 (nxt_out s ?c) @ bytes_of_MEClientResponse r)]"
    using send_response_run [OF Cons.prems(1) list, of "length rs"] Cons.prems(2,3) list by auto
  obtain i where i: "getNextToRead (outgoing s) = Inr (Some i, outgoing s)" "read_slot i (outgoing s) = Inr (r, outgoing s)"
    using peek_parts [OF q list] by blast
  have "q_num_elements (outgoing s) \<noteq> 0" using list by (metis length_q_list list.size(3) list.distinct(1) length_0_conv)
  then have "send_one s = Inr (True, s1)"
    using i s1(1) by (simp add: send_one_def bnd_def sq_def on_outgoing_def zoom_def LFQueue_size_def)
  then have step: "send_responses s = send_responses s1" by (subst send_responses.simps) simp
  have "\<forall>x \<in> set (q_list (outgoing s1)). known_client s1 x"
    using Cons.prems(2) list s1(3,4) by (simp add: known_client_def)
  from Cons.hyps(1) [OF s1(3) [symmetric] s1(2) this] s1(3,6) obtain s2 where s2: "send_responses s1 = Inr ((), s2)" "sending s2"
    "q_list (outgoing s2) = []" "\<forall>p. out_bytes (get_socket p s2) = out_bytes (get_socket p s1) @
      stream_to (owner s1) p (frames (nxt_out s1) rs)" by auto
  show ?case
    using step s1(4,5,7) s2 list by (intro exI [of _ s2]) (simp add: Let_def)
qed

end
