(* ===== verification/Server_Properties.thy ===== *)
theory Server_Properties
  imports Order_Server
begin

text \<open>
  What the order server does with the bytes of its clients and with the responses of the engine, and
  where it fails: ids it does not check, and the format of the first log line of \<open>run\<close>.
\<close>

section \<open>Sockets and the rest of the server\<close>

lemma keeps_recv_requests_valid: "keeps (\<lambda>s. valid_ptr s q) (recv_requests p t rs)"
proof -
  have "valid_ptr (s\<lparr>os_cid_tcp_socket := a\<rparr>) q = valid_ptr s q"
    "valid_ptr (s\<lparr>os_cid_next_exp_seq_num := b\<rparr>) q = valid_ptr s q"
    "valid_ptr (s\<lparr>os_fifo_sequencer := f\<rparr>) q = valid_ptr s q" for s :: OrderServer and a b f
    by (cases q; simp)+
  then have "keeps (\<lambda>s. valid_ptr s q) (recv_request p t r)" for r
    unfolding recv_request_def Let_def by (intro keeps_intro keeps_wr keeps_zoom) simp_all
  then show ?thesis by (induction rs) (simp_all only: recv_requests.simps keeps_ret keeps_sq)
qed

lemma server_ok_put_socket [simp]: "server_ok (put_socket p k s) = server_ok s"
  by (simp add: server_ok_def)

lemma took_put_socket: "took p t new s s' \<Longrightarrow> took p t new s (put_socket q k s')"
  by (simp add: took_def)

section \<open>A small server\<close>

definition sock_with :: "byte list \<Rightarrow> TCPSocket" where
  "sock_with bs = TCPSocket_new\<lparr>ts_inbound_data := blit 0 bs (ts_inbound_data TCPSocket_new),
     ts_next_rcv_valid_index := length bs\<rparr>"

lemma sock_with_ok:
  assumes "length bs \<le> TCPBufferSize"
  shows "sock_ok (sock_with bs)" "in_bytes (sock_with bs) = bs" "out_bytes (sock_with bs) = []"
  using assms slice_blit_start [of bs]
  by (simp_all add: sock_with_def TCPSocket_new_def sock_ok_def in_bytes_def out_bytes_def) (simp add: slice_def)

definition server_with :: "byte list \<Rightarrow> OrderServer" where
  "server_with bs = (OrderServer_new (LFQueue_new 8 MEClientRequest_default) (LFQueue_new 8 MEClientResponse_default)
     \<lparr>lg_file = [], lg_queue = LFQueue_new 8 (Log_CHAR (CHR 0x00)), lg_running = True\<rparr>)
     \<lparr>sv_sockets := [sock_with bs], sv_receive_sockets := [Accepted 0], os_run := True\<rparr>"

lemma server_with_ok:
  assumes "length bs \<le> TCPBufferSize"
  shows "server_ok (server_with bs)" "sock_ok (get_socket (Accepted 0) (server_with bs))"
    "valid_ptr (server_with bs) (Accepted 0)" "in_bytes (get_socket (Accepted 0) (server_with bs)) = bs"
    "pending (server_with bs) = []" "owner (server_with bs) = (\<lambda>_. None)" "exp_seq (server_with bs) c = 1"
    "sv_ok (server_with bs)" "q_ok (outgoing (server_with bs))" "q_wf (lg_queue (os_logger (server_with bs)))"
proof -
  have valid: "valid_ptr (server_with bs) (Accepted 0)" by (simp add: server_with_def)
  then show "sv_ok (server_with bs)"
    using sock_with_ok(1) [OF assms] TCPSocket_new_ok(1)
    by (simp add: sv_ok_def) (simp add: server_with_def OrderServer_new_def TCPServer_new_def TCPServer.extend_def)
qed (use sock_with_ok [OF assms] FIFOSequencer_new_ok in \<open>simp_all add: server_with_def OrderServer_new_def server_ok_def
    get_socket_def TCPServer.extend_def LFQueue_new_ok q_ok_wf arr_fill_def\<close>)

section \<open>Properties\<close>

text \<open>
  C10. From the bytes of a socket, whatever requests they hold, \<open>recvCallback\<close> takes exactly the requests in
  sequence. A request is handed to the sequencer, with the time of the read, if and only if its client
  belongs to this socket, or to none before its first request here, and its number is the expected one
  of the client, advanced by the requests of the client taken before it; afterwards the clients belong to
  the sockets and the expected numbers are advanced accordingly. The whole requests are cut off, the piece
  of a next one stays, and whatever bytes follow, the requests are those of the undivided stream.
\<close>

theorem recvCallback_in_sequence:
  assumes "server_ok s" "sock_ok (get_socket p s)" "valid_ptr s p" "requests_of (in_bytes (get_socket p s)) = rs"
    "\<forall>r \<in> set rs. cid_of r < 256" "length (pending s) + length rs \<le> 1024"
  shows "\<exists>s' I. recvCallback p t s = Inr ((), s') \<and> server_ok s' \<and> admitted s (map (\<lambda>r. (p, t, r)) rs) I s' \<and>
    (\<exists>ws. in_bytes (get_socket p s) = concat ws @ in_bytes (get_socket p s') \<and> (\<forall>w \<in> set ws. length w = 38) \<and>
      rs = map OMClientRequest_of_bytes ws) \<and> length (in_bytes (get_socket p s')) < 38 \<and>
    (\<forall>ys. requests_of (in_bytes (get_socket p s) @ ys) = rs @ requests_of (in_bytes (get_socket p s') @ ys))"
proof -
  let ?es = "map (\<lambda>r. (p, t, r)) rs" and ?bs = "in_bytes (get_socket p s)"
  have "\<forall>e \<in> set ?es. ev_cid e < ME_MAX_NUM_CLIENTS" "length (pending s) + length ?es \<le> ME_MAX_PENDING_REQUESTS"
    using assms(5,6) by (auto simp: ev_cid_def limit_defs ME_MAX_PENDING_REQUESTS_def)
  from recv_events_exact [OF assms(1) this] obtain s1 I
    where s1: "recv_requests p t rs s = Inr ((), s1)" "server_ok s1" "admitted s ?es I s1"
    by (auto simp: recv_requests_events)
  obtain k where k: "in_bytes k = rest ?bs" "recvCallback p t s = Inr ((), put_socket p k s1)"
    using recvCallback_run [OF assms(2), of t] assms(4) s1(1) by auto
  have "valid_ptr s1 p" using keepsD [OF keeps_recv_requests_valid s1(1) assms(3)] .
  then have left: "in_bytes (get_socket p (put_socket p k s1)) = rest ?bs" using k(1) by (simp add: get_put_socket)
  show ?thesis
  proof (intro exI conjI)
    show "recvCallback p t s = Inr ((), put_socket p k s1)" by (rule k(2))
    show "server_ok (put_socket p k s1)" "admitted s ?es I (put_socket p k s1)" using s1(2,3) by simp_all
    show "?bs = concat (chunks ?bs) @ in_bytes (get_socket p (put_socket p k s1))" "\<forall>w \<in> set (chunks ?bs). length w = 38"
      unfolding left using chunks_concat [of ?bs] by (simp_all add: sizeof_defs)
    show "rs = map OMClientRequest_of_bytes (chunks ?bs)" using assms(4) by (simp add: requests_of_def)
    show "length (in_bytes (get_socket p (put_socket p k s1))) < 38"
      unfolding left using length_rest [of ?bs] by (simp add: sizeof_defs)
    show "\<forall>ys. requests_of (?bs @ ys) = rs @ requests_of (in_bytes (get_socket p (put_socket p k s1)) @ ys)"
      unfolding left using assms(4) chunks_append [of ?bs] by (auto simp: requests_of_def)
  qed
qed

definition first_request :: OMClientRequest where
  "first_request = \<lparr>om_seq_num = 1, om_me_client_request = \<lparr>req_type = Request_NEW, req_client_id = 5,
     req_ticker_id = 2, req_order_id = 9, req_side = BUY, req_price = 100, req_qty = 10\<rparr>\<rparr>"

definition late_request :: OMClientRequest where
  "late_request = first_request\<lparr>om_seq_num := 5\<rparr>"

text \<open>The first and the second request of a client, and between them one out of sequence.\<close>

definition second_request :: OMClientRequest where
  "second_request = first_request\<lparr>om_seq_num := 2\<rparr>"

lemma three_requests:
  "requests_of (concat (map bytes_of_OMClientRequest [first_request, late_request, second_request]) @ [1, 2, 3]) =
     [first_request, late_request, second_request]"
  using chunks_of_requests [of "[1, 2, 3]" "[first_request, late_request, second_request]"]
  by (simp add: requests_of_def sizeof_defs OMClientRequest_of_bytes_of plain_request_def first_request_def late_request_def
      second_request_def)

theorem recvCallback_in_sequence_witness:
  "\<exists>s'. recvCallback (Accepted 0) 77 (server_with (concat (map bytes_of_OMClientRequest
        [first_request, late_request, second_request]) @ [1, 2, 3])) = Inr ((), s') \<and>
     pending s' = [stamped 77 first_request, stamped 77 second_request] \<and> owner s' 5 = Some (Accepted 0) \<and> exp_seq s' 5 = 3"
proof -
  let ?bs = "concat (map bytes_of_OMClientRequest [first_request, late_request, second_request]) @ [1, 2, 3]"
  let ?rs = "[first_request, late_request, second_request]" and ?s = "server_with ?bs"
  let ?es = "map (\<lambda>r. (Accepted 0, 77 :: Nanos, r)) ?rs"
  have "length ?bs \<le> TCPBufferSize" by (simp add: sizeof_defs TCPBufferSize_def)
  note ok = server_with_ok [OF this]
  have "requests_of (in_bytes (get_socket (Accepted 0) ?s)) = ?rs" using three_requests ok(4) by simp
  moreover have "\<forall>r \<in> set ?rs. cid_of r < 256" by (simp add: first_request_def late_request_def second_request_def)
  moreover have "length (pending ?s) + length ?rs \<le> 1024" by (simp only: ok(5)) simp
  ultimately obtain s' I where s': "recvCallback (Accepted 0) 77 ?s = Inr ((), s')" "admitted ?s ?es I s'"
    using recvCallback_in_sequence [OF ok(1-3), of ?rs 77] by blast
  have "\<forall>e \<in> set ?es. ev_cid e = 5" by (simp add: ev_cid_def first_request_def late_request_def second_request_def)
  then have cid: "ev_cid (Accepted 0, 77, r) = 5" if "r \<in> set ?rs" for r using that by auto
  have bound: "bound_to ?s ?es 5 = Some (Accepted 0)" using ok(6) cid by (simp add: bound_to_def)
  have num: "om_seq_num first_request = 1" "om_seq_num late_request = 5" "om_seq_num second_request = 2"
    by (simp_all add: first_request_def late_request_def second_request_def)
  have adm: "i < 3 \<Longrightarrow> i \<in> I \<longleftrightarrow> admits ?s ?es I i" for i using s'(2) by (simp add: admitted_def)
  have 0: "0 \<in> I" using adm [of 0] bound cid num(1) ok(7) by (simp add: admits_def)
  have 1: "Suc 0 \<notin> I" using adm [of "Suc 0"] 0 bound cid num(2) ok(7) by (simp add: admits_def nths_Cons)
  have 2: "Suc (Suc 0) \<in> I" using adm [of "Suc (Suc 0)"] 0 1 bound cid num(3) ok(7) by (simp add: admits_def nths_Cons numeral_2_eq_2)
  have "nths ?es I = [(Accepted 0, 77, first_request), (Accepted 0, 77, second_request)]"
    using 0 1 2 by (simp add: nths_Cons)
  then have "pending s' = [stamped 77 first_request, stamped 77 second_request]" "owner s' 5 = Some (Accepted 0)" "exp_seq s' 5 = 3"
    using s'(2) bound cid ok(5,7) by (simp_all add: admitted_def ev_stamped_def)
  then show ?thesis using s'(1) by blast
qed

lemma recv_late:
  "\<exists>s'. recv_requests (Accepted 0) 77 [first_request, late_request] (server_with bs) = Inr ((), s') \<and>
    pending s' = [stamped 77 first_request]"
  by (simp add: server_with_def late_request_def first_request_def recv_request_def Let_def bnd_def sq_def
     OrderServer_new_def TCPServer.extend_def arr_idx_def arr_fill_def limit_defs arr_put_def zoom_def addClientRequest_def
     FIFOSequencer_new_def ME_MAX_PENDING_REQUESTS_def arr_at_def) (simp add: pending_list_def stamped_def)

lemma two_requests_of: 
  assumes "plain_request (om_me_client_request r)" "plain_request (om_me_client_request r')"
  shows "requests_of (bytes_of_OMClientRequest r @ bytes_of_OMClientRequest r') = [r, r']"
  using assms chunks_of_requests [of "[]" "[r, r']"] by (simp add: requests_of_def sizeof_defs OMClientRequest_of_bytes_of)

text \<open>
  C18. Whatever bytes a socket delivers, when \<open>recvCallback\<close> returns, the requests it has handed to the
  sequencer are some of those in the buffer, in their order; per client their sequence numbers follow
  the expected one without a gap, and it has advanced by their number; every one of them came over the
  socket its client is bound to, and no client has changed its socket.
\<close>

theorem recvCallback_sequence_numbers:
  assumes "server_ok s" "sock_ok (get_socket p s)" "recvCallback p t s = Inr ((), s')"
  shows "\<exists>new. subseq new (requests_of (in_bytes (get_socket p s))) \<and> pending s' = pending s @ map (stamped t) new \<and>
    (\<forall>c. map om_seq_num (of_client c new) = seqs (exp_seq s c) (length (of_client c new)) \<and>
      exp_seq s' c = exp_seq s c + of_nat (length (of_client c new))) \<and>
    (\<forall>r \<in> set new. owner s' (cid_of r) = Some p) \<and> (\<forall>c. owner s c \<noteq> None \<longrightarrow> owner s' c = owner s c) \<and> server_ok s'"
proof -
  obtain k where k: "recvCallback p t s = (case recv_requests p t (requests_of (in_bytes (get_socket p s))) s of
      Inl e \<Rightarrow> Inl e | Inr (_, s') \<Rightarrow> Inr ((), put_socket p k s'))"
    using recvCallback_run [OF assms(2), of t] by blast
  then obtain s1 where s1: "recv_requests p t (requests_of (in_bytes (get_socket p s))) s = Inr ((), s1)" "s' = put_socket p k s1"
    using assms(3) by (auto split: sum.splits)
  obtain new where new: "subseq new (requests_of (in_bytes (get_socket p s)))" "took p t new s s1"
    using recv_requests_took [OF assms(1) s1(1)] by blast
  have "took p t new s s'" using took_put_socket [OF new(2)] s1(2) by simp
  then show ?thesis using new(1) unfolding took_def by blast
qed

theorem recvCallback_sequence_numbers_witness:
  "\<exists>s'. recvCallback (Accepted 0) 77 (server_with (bytes_of_OMClientRequest first_request @ bytes_of_OMClientRequest late_request)) =
      Inr ((), s') \<and> pending s' = [stamped 77 first_request] \<and> exp_seq s' 5 = 2 \<and> owner s' 5 = Some (Accepted 0)"
proof -
  let ?bs = "bytes_of_OMClientRequest first_request @ bytes_of_OMClientRequest late_request"
  have "length ?bs \<le> TCPBufferSize" by (simp add: sizeof_defs TCPBufferSize_def)
  note ok = server_with_ok [OF this]
  have reqs: "requests_of ?bs = [first_request, late_request]"
    by (rule two_requests_of) (simp_all add: first_request_def late_request_def plain_request_def)
  obtain s1 where s1: "recv_requests (Accepted 0) 77 [first_request, late_request] (server_with ?bs) = Inr ((), s1)"
    "pending s1 = [stamped 77 first_request]" using recv_late by blast
  have "\<exists>k. recvCallback (Accepted 0) 77 (server_with ?bs) = Inr ((), put_socket (Accepted 0) k s1)"
    using recvCallback_run [OF ok(2), of 77] unfolding ok(4) reqs s1(1) by auto
  then obtain s' where s': "recvCallback (Accepted 0) 77 (server_with ?bs) = Inr ((), s')" "pending s' = pending s1"
    by (auto simp: put_socket_def)
  obtain new where "pending s' = map (stamped 77) new" "exp_seq s' 5 = 1 + of_nat (length (of_client 5 new))"
    "\<forall>r \<in> set new. owner s' (cid_of r) = Some (Accepted 0)"
    using recvCallback_sequence_numbers [OF ok(1,2) s'(1)] unfolding ok(5,7) append_Nil by blast
  note new = this
  have "map (stamped 77) new = [stamped 77 first_request]" using new(1) s'(2) s1(2) by simp
  then obtain r where r: "new = [r]" "stamped 77 r = stamped 77 first_request" by auto
  then have "om_me_client_request r = om_me_client_request first_request" by (simp add: stamped_def)
  with r(1) show ?thesis
    using s' s1(2) new(2,3) by (auto simp: of_client_def first_request_def)
qed

text \<open>
  C36. The ids of clients are not checked. A whole request from a client id of 256 or more, anywhere in the
  buffer behind requests that can be taken, makes \<open>recvCallback\<close> read past the array of sockets; a
  response to such a client, when it is the next one, does the same in \<open>run\<close>; and a response to a client
  without a socket ends the process.
\<close>

theorem client_ids_unchecked:
  assumes "server_ok s" "sock_ok (get_socket p s)"
    "requests_of (in_bytes (get_socket p s)) = qs @ r # rs" "256 \<le> cid_of r"
    "\<forall>q \<in> set qs. cid_of q < 256" "length (pending s) + length qs \<le> 1024"
    "q_ok (outgoing s)" "q_list (outgoing s) = x # xs"
  shows "recvCallback p t s = Inl Out_of_bounds \<and>
    (256 \<le> unat (resp_client_id x) \<longrightarrow> send_responses s = Inl Out_of_bounds) \<and>
    (unat (resp_client_id x) < 256 \<and> owner s (unat (resp_client_id x)) = None \<longrightarrow>
      send_responses s = Inl (Fatal ''Don't have a TCPSocket for Client_id: ''))"
proof -
  let ?es = "map (\<lambda>r. (p, t, r)) qs"
  have "\<forall>e \<in> set ?es. ev_cid e < ME_MAX_NUM_CLIENTS" "length (pending s) + length ?es \<le> ME_MAX_PENDING_REQUESTS"
    using assms(5,6) by (auto simp: ev_cid_def limit_defs ME_MAX_PENDING_REQUESTS_def)
  from recv_events_exact [OF assms(1) this] obtain s1 where s1: "recv_events ?es s = Inr ((), s1)" "server_ok s1" by blast
  have "recv_request p t r s1 = Inl Out_of_bounds"
    using recv_request_run [OF s1(2), of p t r] assms(4) by (simp add: limit_defs)
  then have "recv_requests p t (requests_of (in_bytes (get_socket p s))) s = Inl Out_of_bounds"
    using s1(1) unfolding assms(3) recv_requests_events map_append recv_events_append list.map recv_events.simps
    by (simp add: sq_def bnd_def)
  then have recv: "recvCallback p t s = Inl Out_of_bounds" using recvCallback_run [OF assms(2), of t] by auto
  obtain i where i: "getNextToRead (outgoing s) = Inr (Some i, outgoing s)" "read_slot i (outgoing s) = Inr (x, outgoing s)"
    using peek_parts [OF assms(7,8)] by blast
  have "q_num_elements (outgoing s) \<noteq> 0" using assms(8) by (metis length_q_list list.size(3) list.distinct(1) length_0_conv)
  then have "send_one s = sq (send_response x) (ret True) s"
    using i by (simp add: send_one_def bnd_def on_outgoing_def zoom_def LFQueue_size_def)
  then have step: "send_response x s = Inl e \<Longrightarrow> send_responses s = Inl e" for e
    by (subst send_responses.simps) (simp add: sq_def bnd_def)
  have len: "alen (os_cid_next_outgoing_seq_num s) = 256" "alen (os_cid_tcp_socket s) = 256"
    using assms(1) by (simp_all add: server_ok_def limit_defs)
  have "256 \<le> unat (resp_client_id x) \<Longrightarrow> send_response x s = Inl Out_of_bounds"
    using len by (simp add: send_response_def Let_def bnd_def arr_idx_def)
  moreover have "unat (resp_client_id x) < 256 \<Longrightarrow> owner s (unat (resp_client_id x)) = None \<Longrightarrow>
      send_response x s = Inl (Fatal ''Don't have a TCPSocket for Client_id: '')"
    using len by (simp add: send_response_def Let_def bnd_def)
  ultimately show ?thesis using recv step by blast
qed


definition bad_client :: OMClientRequest where
  "bad_client = first_request\<lparr>om_me_client_request := (om_me_client_request first_request)\<lparr>req_client_id := 300\<rparr>\<rparr>"

definition response_to :: "ClientId \<Rightarrow> OrderId \<Rightarrow> MEClientResponse" where
  "response_to c oid = MEClientResponse_default\<lparr>resp_type := ACCEPTED, resp_client_id := c, resp_client_order_id := oid\<rparr>"

definition with_responses :: "MEClientResponse list \<Rightarrow> OrderServer \<Rightarrow> OrderServer" where
  "with_responses rs s = s\<lparr>os_outgoing_responses := fold q_push rs (LFQueue_new 8 MEClientResponse_default)\<rparr>"

lemma with_responses_ok:
  assumes "length rs < 8"
  shows "q_ok (outgoing (with_responses rs s))" "q_list (outgoing (with_responses rs s)) = rs"
    "server_ok (with_responses rs s) = server_ok s" "get_socket p (with_responses rs s) = get_socket p s"
    "sv_ok (with_responses rs s) = sv_ok s" "valid_ptr (with_responses rs s) p = valid_ptr s p"
proof -
  have q: "q_ok (LFQueue_new 8 MEClientResponse_default)" by (rule LFQueue_new_ok) simp
  show "q_ok (outgoing (with_responses rs s))" "q_list (outgoing (with_responses rs s)) = rs"
    using q_push_batch [OF q, of rs] assms by (simp_all add: with_responses_def)
  show "server_ok (with_responses rs s) = server_ok s" by (simp add: with_responses_def server_ok_def)
  show valid: "valid_ptr (with_responses rs s) p = valid_ptr s p" for p by (cases p) (simp_all add: with_responses_def)
  show "get_socket p (with_responses rs s) = get_socket p s" by (cases p) (simp_all add: with_responses_def get_socket_def)
  show "sv_ok (with_responses rs s) = sv_ok s" using valid by (simp add: sv_ok_def) (simp add: with_responses_def)
qed

theorem client_ids_unchecked_witness:
  "recvCallback (Accepted 0) 77 (with_responses [response_to 300 1] (server_with (bytes_of_OMClientRequest first_request @ bytes_of_OMClientRequest bad_client))) =
     Inl Out_of_bounds \<and>
   send_responses (with_responses [response_to 300 1] (server_with (bytes_of_OMClientRequest first_request @ bytes_of_OMClientRequest bad_client))) = Inl Out_of_bounds"
proof -
  let ?s = "server_with (bytes_of_OMClientRequest first_request @ bytes_of_OMClientRequest bad_client)"
  let ?t = "with_responses [response_to 300 1] ?s"
  have "length (bytes_of_OMClientRequest first_request @ bytes_of_OMClientRequest bad_client) \<le> TCPBufferSize" by (simp add: sizeof_defs TCPBufferSize_def)
  note ok = server_with_ok [OF this]
  have len: "length [response_to 300 1] < 8" by simp
  note t = with_responses_ok [OF len, where s = ?s]
  have "plain_request (om_me_client_request first_request)" "plain_request (om_me_client_request bad_client)"
    by (simp_all add: bad_client_def first_request_def plain_request_def)
  from two_requests_of [OF this] have reqs: "requests_of (in_bytes (get_socket (Accepted 0) ?t)) = [first_request, bad_client]"
    by (simp add: t(4) ok(4))
  have "server_ok ?t" "sock_ok (get_socket (Accepted 0) ?t)" using t(3,4) ok(1,2) by simp_all
  moreover have "length (pending ?t) + length [first_request] \<le> 1024" using ok(5) by (simp add: with_responses_def del: length_pending_list)
  ultimately show ?thesis
    using client_ids_unchecked [where p = "Accepted 0" and t = 77 and qs = "[first_request]" and r = bad_client and rs = "[]",
        OF _ _ _ _ _ _ t(1,2)] reqs
    by (simp add: bad_client_def response_to_def first_request_def)
qed

text \<open>
  C17. The responses of the engine reach the clients in order and numbered: when every response is for a
  client with a socket and the buffers have room, \<open>run\<close> appends to the buffer of each socket the frames
  of its clients, a frame being the client's next sequence number and the packed response, and empties
  the queue.
\<close>

theorem send_responses_numbered:
  assumes "sending s" "\<forall>r \<in> set (q_list (outgoing s)). known_client s r" "room_for (length (q_list (outgoing s))) s"
  shows "\<exists>s'. send_responses s = Inr ((), s') \<and> sending s' \<and> q_list (outgoing s') = [] \<and>
    (\<forall>p. out_bytes (get_socket p s') = out_bytes (get_socket p s) @
      stream_to (owner s) p (frames (nxt_out s) (q_list (outgoing s))))"
  using assms by (rule send_responses_run)

definition bound_server :: OrderServer where
  "bound_server = with_responses [response_to 5 1, response_to 5 2]
     ((server_with [])\<lparr>os_cid_tcp_socket := arr_put 5 (Some (Accepted 0)) (arr_fill ME_MAX_NUM_CLIENTS None)\<rparr>)"

theorem send_responses_numbered_witness:
  "\<exists>s'. send_responses bound_server = Inr ((), s') \<and> q_list (outgoing s') = [] \<and>
     out_bytes (get_socket (Accepted 0) s') =
       le_bytes 8 (1 :: 64 word) @ bytes_of_MEClientResponse (response_to 5 1) @
       le_bytes 8 (2 :: 64 word) @ bytes_of_MEClientResponse (response_to 5 2)"
proof -
  let ?s = "(server_with [])\<lparr>os_cid_tcp_socket := arr_put 5 (Some (Accepted 0)) (arr_fill ME_MAX_NUM_CLIENTS None)\<rparr>"
  have "length ([] :: byte list) \<le> TCPBufferSize" by simp
  note ok = server_with_ok [OF this]
  have len: "length [response_to 5 1, response_to 5 2] < 8" by simp
  note t = with_responses_ok [OF len, where s = ?s]
  have sock: "get_socket p ?s = get_socket p (server_with [])" "valid_ptr ?s p = valid_ptr (server_with []) p"
    "sv_ok ?s = sv_ok (server_with [])" "server_ok ?s" for p
  proof -
    show "get_socket p ?s = get_socket p (server_with [])" "valid_ptr ?s p = valid_ptr (server_with []) p"
      by (cases p; simp add: get_socket_def)+
    have "valid_ptr ?s q = valid_ptr (server_with []) q" for q by (cases q) simp_all
    then show "sv_ok ?s = sv_ok (server_with [])" by (simp add: sv_ok_def)
    show "server_ok ?s" using ok(1) by (simp add: server_ok_def)
  qed
  have own: "owner bound_server = (\<lambda>c. if c = 5 then Some (Accepted 0) else None)"
    by (simp add: bound_server_def with_responses_def fun_eq_iff)
  have nxt: "nxt_out bound_server = (\<lambda>_. 1)"
    by (simp add: bound_server_def with_responses_def server_with_def OrderServer_new_def TCPServer.extend_def arr_fill_def)
  have out: "out_bytes (get_socket (Accepted 0) bound_server) = []"
    using sock_with_ok(3) [of "[]"] by (simp add: bound_server_def t(4) sock(1)) (simp add: server_with_def get_socket_def)
  then have out0: "ts_next_send_valid_index (get_socket (Accepted 0) bound_server) = 0" by (metis length_in_out(2) list.size(3))
  have list: "q_list (outgoing bound_server) = [response_to 5 1, response_to 5 2]" using t(2) by (simp add: bound_server_def)
  have "sending bound_server"
    using t sock ok(3,8) own by (auto simp: sending_def sockets_ok_def bound_server_def split: if_splits)
  moreover have "\<forall>r \<in> set (q_list (outgoing bound_server)). known_client bound_server r"
    by (simp add: list known_client_def own response_to_def limit_defs)
  moreover have "room_for (length (q_list (outgoing bound_server))) bound_server"
    unfolding room_for_def by (simp add: own out0 list frame_size_def sizeof_defs TCPBufferSize_def split: if_splits)
  ultimately show ?thesis
    using send_responses_numbered [of bound_server] out
    by (auto simp: list own nxt response_to_def)
qed

text \<open>
  C33. The server never gets to its loop: the first log line of \<open>run\<close> has five holes and is given four
  arguments, so \<open>log\<close> ends the process, whatever the sockets would have delivered.
\<close>

theorem run_dies_in_its_first_log:
  assumes "q_wf (lg_queue (os_logger s))"
  shows "OrderServer_run srt file time envs s = Inl (Fatal ''missing arguments to log()'')"
proof -
  have "holes run_log_format = 5" by code_simp
  then have "log run_log_format [Str file, Elem (Log_INTEGER 21), Str ''run'', Str time] (os_logger s) =
      Inl (Fatal ''missing arguments to log()'')"
    using log_run [OF assms, of run_log_format] by simp
  then show ?thesis by (simp add: OrderServer_run_def run_log_def sq_def bnd_def zoom_def)
qed

theorem run_dies_in_its_first_log_witness:
  "OrderServer_run stable_sort ''order_server.h'' ''now'' [] (server_with []) = Inl (Fatal ''missing arguments to log()'')"
  by (rule run_dies_in_its_first_log) (rule server_with_ok(10), simp)

end
