(* ===== verification/Matching_Engine.thy ===== *)
theory Matching_Engine
  imports Book_Properties
begin

text \<open>
  \<open>matching_engine.h\<close> and \<open>matching_engine.cpp\<close>: one order book per ticker, the incoming queue and the
  two outgoing ones. A round of \<open>run\<close> takes the next request and hands it to the book of its ticker.
  The engine refines the abstract engine \<open>spec_engine\<close>, a fold of the abstract book operations over
  the pending requests. \<open>run\<close> ends when another thread calls \<open>stop\<close>, so its loop is cut after a
  number of rounds; as many rounds as there are pending requests are enough to serve them all.
\<close>

section \<open>The engine\<close>

record MatchingEngine =
  me_ticker_order_book :: "MEOrderBook carray"
  me_incoming_requests :: "MEClientRequest LFQueue"
  me_outgoing_ogw_responses :: "MEClientResponse LFQueue"
  me_outgoing_md_updates :: "MEMarketUpdate LFQueue"
  me_run :: bool

definition MatchingEngine_new ::
  "MEClientRequest LFQueue \<Rightarrow> MEClientResponse LFQueue \<Rightarrow> MEMarketUpdate LFQueue \<Rightarrow> MatchingEngine" where
  "MatchingEngine_new client_requests client_responses market_updates =
     \<lparr>me_ticker_order_book = \<lparr>alen = ME_MAX_TICKERS, aget = (\<lambda>i. MEOrderBook_new (of_nat i))\<rparr>,
      me_incoming_requests = client_requests, me_outgoing_ogw_responses = client_responses,
      me_outgoing_md_updates = market_updates, me_run = False\<rparr>"

text \<open>\<open>start\<close> sets the flag before it creates the thread; \<open>thread\<close> says whether that succeeded.\<close>

definition MatchingEngine_start :: "bool \<Rightarrow> (MatchingEngine, unit) prog" where
  "MatchingEngine_start thread =
     sq (wr (\<lambda>e. e\<lparr>me_run := True\<rparr>)) (ASSERT thread ''Failed to start MatchingEngine thread.'')"

definition MatchingEngine_stop :: "(MatchingEngine, unit) prog" where
  "MatchingEngine_stop = wr (\<lambda>e. e\<lparr>me_run := False\<rparr>)"

text \<open>What the book of ticker \<open>i\<close> sees of the engine, and an operation of that book.\<close>

definition ctx_of :: "nat \<Rightarrow> MatchingEngine \<Rightarrow> ME_ctx" where
  "ctx_of i e = \<lparr>cx_book = aget (me_ticker_order_book e) i, cx_ogw = me_outgoing_ogw_responses e,
     cx_md = me_outgoing_md_updates e\<rparr>"

definition put_ctx :: "nat \<Rightarrow> ME_ctx \<Rightarrow> MatchingEngine \<Rightarrow> MatchingEngine" where
  "put_ctx i c e = e\<lparr>me_ticker_order_book := arr_put i (cx_book c) (me_ticker_order_book e),
     me_outgoing_ogw_responses := cx_ogw c, me_outgoing_md_updates := cx_md c\<rparr>"

definition on_ticker :: "nat \<Rightarrow> (ME_ctx, 'a) prog \<Rightarrow> (MatchingEngine, 'a) prog" where
  "on_ticker i = zoom (ctx_of i) (put_ctx i)"

text \<open>\<open>ticker_order_book_[ticker_id]\<close> is not checked; its use is the first statement.\<close>

definition processClientRequest :: "MEClientRequest \<Rightarrow> (MatchingEngine, unit) prog" where
  "processClientRequest r =
     bnd (rd me_ticker_order_book) (\<lambda>books.
     bnd (lift_res (arr_idx books (unat (req_ticker_id r)))) (\<lambda>_.
     case req_type r of
       Request_NEW \<Rightarrow> on_ticker (unat (req_ticker_id r))
         (add (req_client_id r) (req_order_id r) (req_ticker_id r) (req_side r) (req_price r) (req_qty r))
     | Request_CANCEL \<Rightarrow> on_ticker (unat (req_ticker_id r))
         (cancel (req_client_id r) (req_order_id r) (req_ticker_id r))
     | _ \<Rightarrow> FATAL (''Received invalid client-request-type: '' @ clientRequestTypeToString (req_type r))))"

definition on_incoming :: "(MEClientRequest LFQueue, 'a) prog \<Rightarrow> (MatchingEngine, 'a) prog" where
  "on_incoming = zoom me_incoming_requests (\<lambda>q e. e\<lparr>me_incoming_requests := q\<rparr>)"

text \<open>One round of the loop of \<open>run\<close>; \<open>run_rounds n\<close> is the loop cut after \<open>n\<close> rounds.\<close>

definition run_round :: "(MatchingEngine, unit) prog" where
  "run_round =
     bnd (on_incoming peek) (\<lambda>req. case req of
       None \<Rightarrow> ret ()
     | Some r \<Rightarrow> sq (processClientRequest r) (on_incoming updateReadIndex))"

fun run_rounds :: "nat \<Rightarrow> (MatchingEngine, unit) prog" where
  "run_rounds 0 = ret ()"
| "run_rounds (Suc n) = bnd (rd me_run) (\<lambda>go. when_do go (sq run_round (run_rounds n)))"

section \<open>The abstract engine\<close>

type_synonym abooks = "nat \<Rightarrow> abook"

definition spec_process ::
  "MEClientRequest \<Rightarrow> abooks \<Rightarrow> fault + abooks \<times> MEClientResponse list \<times> MEMarketUpdate list" where
  "spec_process r As =
     (let i = unat (req_ticker_id r) in
      if \<not> i < ME_MAX_TICKERS then Inl Out_of_bounds
      else map_sum id (\<lambda>(A, rs, us). (As(i := A), rs, us))
       (case req_type r of
          Request_NEW \<Rightarrow> spec_add (req_client_id r) (req_order_id r) (req_ticker_id r) (req_side r) (req_price r)
            (req_qty r) (As i)
        | Request_CANCEL \<Rightarrow> spec_cancel (req_client_id r) (req_order_id r) (req_ticker_id r) (As i)
        | _ \<Rightarrow> Inl (Fatal (''Received invalid client-request-type: '' @ clientRequestTypeToString (req_type r)))))"

text \<open>A batch of requests: the messages in order, and the first fault.\<close>

fun spec_engine ::
  "MEClientRequest list \<Rightarrow> abooks \<Rightarrow> fault + abooks \<times> MEClientResponse list \<times> MEMarketUpdate list" where
  "spec_engine [] As = Inr (As, [], [])"
| "spec_engine (r # rs) As =
     (case spec_process r As of
        Inl e \<Rightarrow> Inl e
      | Inr (As', ps, us) \<Rightarrow>
          (case spec_engine rs As' of
             Inl e \<Rightarrow> Inl e
           | Inr (As'', ps', us') \<Rightarrow> Inr (As'', ps @ ps', us @ us')))"

text \<open>The requests whose hypotheses the book needs: \<open>add_ok\<close> of every new order, where it arrives.\<close>

definition request_ok :: "MEClientRequest \<Rightarrow> abooks \<Rightarrow> bool" where
  "request_ok r As \<longleftrightarrow> req_type r = Request_NEW \<longrightarrow> unat (req_ticker_id r) < ME_MAX_TICKERS \<longrightarrow>
     add_ok (req_side r) (req_price r) (req_qty r) (As (unat (req_ticker_id r)))"

fun requests_ok :: "MEClientRequest list \<Rightarrow> abooks \<Rightarrow> bool" where
  "requests_ok [] As \<longleftrightarrow> True"
| "requests_ok (r # rs) As \<longleftrightarrow> request_ok r As \<and>
     (case spec_process r As of Inl e \<Rightarrow> True | Inr (As', _) \<Rightarrow> requests_ok rs As')"

definition engine_rel :: "MatchingEngine \<Rightarrow> abooks \<Rightarrow> bool" where
  "engine_rel e As \<longleftrightarrow> alen (me_ticker_order_book e) = ME_MAX_TICKERS \<and>
     (\<forall>i < ME_MAX_TICKERS. book_rel (aget (me_ticker_order_book e) i) (As i)) \<and>
     q_wf (me_outgoing_ogw_responses e) \<and> q_wf (me_outgoing_md_updates e)"

text \<open>What the engine has published since \<open>e\<close>.\<close>

definition engine_sent :: "MatchingEngine \<Rightarrow> MEClientResponse list \<Rightarrow> MEMarketUpdate list \<Rightarrow> MatchingEngine \<Rightarrow> bool" where
  "engine_sent e rs us e' \<longleftrightarrow>
     me_outgoing_ogw_responses e' = fold q_push rs (me_outgoing_ogw_responses e) \<and>
     me_outgoing_md_updates e' = fold q_push us (me_outgoing_md_updates e)"

lemma ctx_of_sel [simp]:
  "cx_book (ctx_of i e) = aget (me_ticker_order_book e) i"
  "cx_ogw (ctx_of i e) = me_outgoing_ogw_responses e"
  "cx_md (ctx_of i e) = me_outgoing_md_updates e"
  by (simp_all add: ctx_of_def)

lemma put_ctx_sel [simp]:
  "me_ticker_order_book (put_ctx i c e) = arr_put i (cx_book c) (me_ticker_order_book e)"
  "me_outgoing_ogw_responses (put_ctx i c e) = cx_ogw c"
  "me_outgoing_md_updates (put_ctx i c e) = cx_md c"
  "me_incoming_requests (put_ctx i c e) = me_incoming_requests e"
  "me_run (put_ctx i c e) = me_run e"
  by (simp_all add: put_ctx_def)

lemma engine_rel_ctx:
  assumes "engine_rel e As" "i < ME_MAX_TICKERS"
  shows "book_rel (cx_book (ctx_of i e)) (As i)" "wf_queues (ctx_of i e)"
  using assms by (simp_all add: engine_rel_def wf_queues_def)

text \<open>A book operation that refines an outcome of the abstract book does so inside the engine.\<close>

lemma on_ticker_refines:
  assumes "engine_rel e As" "i < ME_MAX_TICKERS"
    and m: "case out of Inl f \<Rightarrow> m (ctx_of i e) = Inl f
      | Inr (A', rs, us) \<Rightarrow> \<exists>c'. m (ctx_of i e) = Inr ((), c') \<and> sent (ctx_of i e) rs us c' \<and> book_rel (cx_book c') A'"
  shows "case map_sum id (\<lambda>(A, rs, us). (As(i := A), rs, us)) out of
      Inl f \<Rightarrow> on_ticker i m e = Inl f
    | Inr (As', rs, us) \<Rightarrow> \<exists>e'. on_ticker i m e = Inr ((), e') \<and> engine_sent e rs us e' \<and> engine_rel e' As' \<and>
        me_incoming_requests e' = me_incoming_requests e \<and> me_run e' = me_run e"
proof (cases out)
  case (Inl f)
  then show ?thesis using m by (simp add: on_ticker_def zoom_def)
next
  case (Inr x)
  then obtain A' rs us where out: "out = Inr (A', rs, us)" by (cases x) auto
  with m obtain c' where c': "m (ctx_of i e) = Inr ((), c')" "sent (ctx_of i e) rs us c'" "book_rel (cx_book c') A'"
    by auto
  have "engine_sent e rs us (put_ctx i c' e)" using c'(2) by (simp add: engine_sent_def sent_def)
  moreover have "engine_rel (put_ctx i c' e) (As(i := A'))"
    using assms(1) c'(3) sent_wf [OF c'(2)] by (auto simp: engine_rel_def wf_queues_def)
  ultimately show ?thesis using out c'(1) by (auto simp: on_ticker_def zoom_def)
qed

lemma process_refines_main:
  assumes "engine_rel e As" "request_ok r As"
  shows "case spec_process r As of
      Inl f \<Rightarrow> processClientRequest r e = Inl f
    | Inr (As', rs, us) \<Rightarrow> \<exists>e'. processClientRequest r e = Inr ((), e') \<and> engine_sent e rs us e' \<and> engine_rel e' As' \<and>
        me_incoming_requests e' = me_incoming_requests e \<and> me_run e' = me_run e"
proof -
  let ?i = "unat (req_ticker_id r)"
  have len: "alen (me_ticker_order_book e) = ME_MAX_TICKERS" using assms(1) by (simp add: engine_rel_def)
  show ?thesis
  proof (cases "?i < ME_MAX_TICKERS")
    case False
    then show ?thesis
      by (simp add: spec_process_def processClientRequest_def bnd_def arr_idx_out len)
  next
    case True
    note ctx = engine_rel_ctx [OF assms(1) True]
    have run: "processClientRequest r e = (case req_type r of
          Request_NEW \<Rightarrow> on_ticker ?i
            (add (req_client_id r) (req_order_id r) (req_ticker_id r) (req_side r) (req_price r) (req_qty r))
        | Request_CANCEL \<Rightarrow> on_ticker ?i (cancel (req_client_id r) (req_order_id r) (req_ticker_id r))
        | _ \<Rightarrow> FATAL (''Received invalid client-request-type: '' @ clientRequestTypeToString (req_type r))) e"
      using True by (simp add: processClientRequest_def bnd_def len)
    show ?thesis
    proof (cases "req_type r")
      case Request_NEW
      then have ok: "add_ok (req_side r) (req_price r) (req_qty r) (As ?i)" using assms(2) True by (simp add: request_ok_def)
      have "spec_process r As = map_sum id (\<lambda>(A, rs, us). (As(?i := A), rs, us))
          (spec_add (req_client_id r) (req_order_id r) (req_ticker_id r) (req_side r) (req_price r) (req_qty r) (As ?i))"
        using Request_NEW True by (simp add: spec_process_def Let_def)
      with on_ticker_refines [OF assms(1) True, where m = "add (req_client_id r) (req_order_id r) (req_ticker_id r)
          (req_side r) (req_price r) (req_qty r)", OF add_refines_main [OF ctx ok]]
      show ?thesis unfolding run Request_NEW ClientRequestType.case by simp
    next
      case Request_CANCEL
      have "spec_process r As = map_sum id (\<lambda>(A, rs, us). (As(?i := A), rs, us))
          (spec_cancel (req_client_id r) (req_order_id r) (req_ticker_id r) (As ?i))"
        using Request_CANCEL True by (simp add: spec_process_def Let_def)
      with on_ticker_refines [OF assms(1) True, where m = "cancel (req_client_id r) (req_order_id r) (req_ticker_id r)",
          OF cancel_refines_main [OF ctx]]
      show ?thesis unfolding run Request_CANCEL ClientRequestType.case by simp
    qed (use True in \<open>simp_all add: run spec_process_def Let_def\<close>)
  qed
qed

section \<open>The loop\<close>

lemma engine_sent_trans:
  "engine_sent e rs us e' \<Longrightarrow> engine_sent e' rs' us' e'' \<Longrightarrow> engine_sent e (rs @ rs') (us @ us') e''"
  by (simp add: engine_sent_def)

lemma engine_incoming [simp]:
  "engine_rel (e\<lparr>me_incoming_requests := q\<rparr>) As = engine_rel e As"
  "engine_sent e rs us (e'\<lparr>me_incoming_requests := q\<rparr>) = engine_sent e rs us e'"
  by (simp_all add: engine_rel_def engine_sent_def)

lemma run_round_idle:
  assumes "q_ok (me_incoming_requests e)" "q_list (me_incoming_requests e) = []"
  shows "run_round e = Inr ((), e)"
  using lfq.front_ok [OF assms(1)] assms(2)
  by (simp add: run_round_def on_incoming_def bnd_def zoom_def)

lemma run_round_next:
  assumes q: "q_ok (me_incoming_requests e)" "q_list (me_incoming_requests e) = r # rs"
    and ok: "engine_rel e As" "request_ok r As"
  shows "case spec_process r As of
      Inl f \<Rightarrow> run_round e = Inl f
    | Inr (As', ps, us) \<Rightarrow> \<exists>e'. run_round e = Inr ((), e') \<and> engine_sent e ps us e' \<and> engine_rel e' As' \<and>
        q_ok (me_incoming_requests e') \<and> q_list (me_incoming_requests e') = rs \<and> me_run e' = me_run e"
proof -
  have front: "on_incoming peek e = Inr (Some r, e)"
    using lfq.front_ok [OF q(1)] q(2) by (simp add: on_incoming_def zoom_def)
  obtain q' where q': "updateReadIndex (me_incoming_requests e) = Inr ((), q')" "q_ok q'" "q_list q' = rs"
    using lfq.pop_ok [OF q(1)] q(2) by auto
  show ?thesis
  proof (cases "spec_process r As")
    case (Inl f)
    with process_refines_main [OF ok] front show ?thesis by (simp add: run_round_def bnd_def sq_def)
  next
    case (Inr x)
    then obtain As' ps us where out: "spec_process r As = Inr (As', ps, us)" by (cases x) auto
    with process_refines_main [OF ok] obtain e' where e': "processClientRequest r e = Inr ((), e')"
      "engine_sent e ps us e'" "engine_rel e' As'" "me_incoming_requests e' = me_incoming_requests e" "me_run e' = me_run e"
      by auto
    have "on_incoming updateReadIndex e' = Inr ((), e'\<lparr>me_incoming_requests := q'\<rparr>)"
      using q'(1) e'(4) by (simp add: on_incoming_def zoom_def)
    then have "run_round e = Inr ((), e'\<lparr>me_incoming_requests := q'\<rparr>)"
      using front e'(1) by (simp add: run_round_def bnd_def sq_def)
    then show ?thesis using out e' q' by simp
  qed
qed

lemma run_rounds_idle:
  assumes "q_ok (me_incoming_requests e)" "q_list (me_incoming_requests e) = []"
  shows "run_rounds n e = Inr ((), e)"
  by (induction n) (auto simp: bnd_def sq_def when_do_def run_round_idle [OF assms])

lemma run_rounds_refine:
  assumes "engine_rel e As" "q_ok (me_incoming_requests e)" "me_run e" "q_list (me_incoming_requests e) = rs"
    "requests_ok rs As" "length rs \<le> n"
  shows "case spec_engine rs As of
      Inl f \<Rightarrow> run_rounds n e = Inl f
    | Inr (As', ps, us) \<Rightarrow> \<exists>e'. run_rounds n e = Inr ((), e') \<and> engine_sent e ps us e' \<and> engine_rel e' As' \<and>
        q_ok (me_incoming_requests e') \<and> q_list (me_incoming_requests e') = []"
  using assms
proof (induction rs arbitrary: e As n)
  case Nil
  then show ?case using run_rounds_idle [of e n] by (auto simp: engine_sent_def)
next
  case (Cons r rs)
  obtain k where n: "n = Suc k" "length rs \<le> k" using Cons.prems(6) by (cases n) auto
  have ok: "request_ok r As" using Cons.prems(5) by simp
  note step = run_round_next [OF Cons.prems(2,4,1) ok]
  show ?case
  proof (cases "spec_process r As")
    case (Inl f)
    with step Cons.prems(3) show ?thesis by (simp add: n bnd_def sq_def)
  next
    case (Inr x)
    then obtain As' ps us where out: "spec_process r As = Inr (As', ps, us)" by (cases x) auto
    with step obtain e' where e': "run_round e = Inr ((), e')" "engine_sent e ps us e'" "engine_rel e' As'"
      "q_ok (me_incoming_requests e')" "q_list (me_incoming_requests e') = rs" "me_run e' = me_run e"
      by auto
    have run: "run_rounds n e = run_rounds k e'" using Cons.prems(3) e'(1) by (simp add: n bnd_def sq_def)
    have "requests_ok rs As'" using Cons.prems(5) out by simp
    from Cons.IH [OF e'(3,4) _ e'(5) this n(2)] Cons.prems(3) e'(6)
    have IH: "case spec_engine rs As' of
        Inl f \<Rightarrow> run_rounds k e' = Inl f
      | Inr (As', ps, us) \<Rightarrow> \<exists>e''. run_rounds k e' = Inr ((), e'') \<and> engine_sent e' ps us e'' \<and> engine_rel e'' As' \<and>
          q_ok (me_incoming_requests e'') \<and> q_list (me_incoming_requests e'') = []"
      by simp
    show ?thesis
      unfolding run using IH out engine_sent_trans [OF e'(2)]
      by (cases "spec_engine rs As'") fastforce+
  qed
qed

lemma MatchingEngine_new_rel:
  assumes "q_wf ogw" "q_wf md"
  shows "engine_rel (MatchingEngine_new inc ogw md) (\<lambda>_. empty_book)"
  using assms by (simp add: engine_rel_def MatchingEngine_new_def new_book_rel)


section \<open>Properties\<close>

text \<open>
  C4. The engine serves the pending requests in the order of arrival: enough rounds of \<open>run\<close> empty the
  incoming queue, publish the responses and market updates that \<open>spec_engine\<close> lists, request by
  request, and leave every book related to its abstract book; a request on which the abstract engine
  faults ends the run with the same fault.
\<close>

theorem engine_run_refines:
  assumes "engine_rel e As" "q_ok (me_incoming_requests e)" "me_run e"
    "requests_ok (q_list (me_incoming_requests e)) As" "length (q_list (me_incoming_requests e)) \<le> n"
  shows "case spec_engine (q_list (me_incoming_requests e)) As of
      Inl f \<Rightarrow> run_rounds n e = Inl f
    | Inr (As', rs, us) \<Rightarrow> \<exists>e'. run_rounds n e = Inr ((), e') \<and> engine_sent e rs us e' \<and> engine_rel e' As' \<and>
        q_list (me_incoming_requests e') = []"
  using run_rounds_refine [OF assms(1-3) refl assms(4,5)]
  by (cases "spec_engine (q_list (me_incoming_requests e)) As") fastforce+

definition new_order :: "ClientId \<Rightarrow> OrderId \<Rightarrow> TickerId \<Rightarrow> Side \<Rightarrow> Price \<Rightarrow> Qty \<Rightarrow> MEClientRequest" where
  "new_order cl oid t side p q = \<lparr>req_type = Request_NEW, req_client_id = cl, req_ticker_id = t, req_order_id = oid,
     req_side = side, req_price = p, req_qty = q\<rparr>"

definition crossing_pair :: "MEClientRequest list" where
  "crossing_pair = [new_order 1 7 3 SELL 100 10, new_order 2 8 3 BUY 100 10]"

definition engine_with :: "MEClientRequest list \<Rightarrow> MatchingEngine" where
  "engine_with rs = (MatchingEngine_new (fold q_push rs (LFQueue_new 8 MEClientRequest_default))
     (LFQueue_new 8 MEClientResponse_default) (LFQueue_new 8 MEMarketUpdate_default))\<lparr>me_run := True\<rparr>"

lemma engine_with_ok:
  assumes "length rs < 8"
  shows "engine_rel (engine_with rs) (\<lambda>_. empty_book)" "q_ok (me_incoming_requests (engine_with rs))"
    "me_run (engine_with rs)" "q_list (me_incoming_requests (engine_with rs)) = rs"
    "q_ok (me_outgoing_ogw_responses (engine_with rs))" "q_ok (me_outgoing_md_updates (engine_with rs))"
    "q_list (me_outgoing_ogw_responses (engine_with rs)) = []" "q_list (me_outgoing_md_updates (engine_with rs)) = []"
    "q_room (me_outgoing_ogw_responses (engine_with rs)) = 7" "q_room (me_outgoing_md_updates (engine_with rs)) = 7"
proof -
  have q: "q_ok (LFQueue_new 8 d)" for d :: 'a by (rule LFQueue_new_ok) simp
  have "engine_rel (engine_with rs) As = engine_rel (MatchingEngine_new (fold q_push rs (LFQueue_new 8 MEClientRequest_default))
     (LFQueue_new 8 MEClientResponse_default) (LFQueue_new 8 MEMarketUpdate_default)) As" for As
    by (simp add: engine_with_def engine_rel_def)
  then show "engine_rel (engine_with rs) (\<lambda>_. empty_book)"
    using MatchingEngine_new_rel [OF q_ok_wf [OF q] q_ok_wf [OF q]] by simp
  show "q_ok (me_incoming_requests (engine_with rs))" "q_list (me_incoming_requests (engine_with rs)) = rs"
    using q_push_batch [OF q, of rs] assms by (simp_all add: engine_with_def MatchingEngine_new_def)
qed (simp_all add: engine_with_def MatchingEngine_new_def LFQueue_new_ok)

lemma crossing_pair_spec:
  "\<exists>As rs us. spec_engine crossing_pair (\<lambda>_. empty_book) = Inr (As, rs, us) \<and>
     map resp_type rs = [ACCEPTED, ACCEPTED, FILLED, FILLED] \<and> map upd_type us = [ADD, TRADE, CANCEL]"
  and crossing_pair_ok: "requests_ok crossing_pair (\<lambda>_. empty_book)"
  and crossing_pair_length: "length crossing_pair < 8"
proof -
  note eval = crossing_pair_def new_order_def spec_process_def spec_run_defs Let_def empty_book_def limit_defs
    after_match_def full_makers_def fill_responses_def fill_updates_def
  show "\<exists>As rs us. spec_engine crossing_pair (\<lambda>_. empty_book) = Inr (As, rs, us) \<and>
     map resp_type rs = [ACCEPTED, ACCEPTED, FILLED, FILLED] \<and> map upd_type us = [ADD, TRADE, CANCEL]"
    by (simp add: eval)
  show "requests_ok crossing_pair (\<lambda>_. empty_book)"
    by (simp add: request_ok_def add_ok_def slot_ok_def eval)
  show "length crossing_pair < 8" by (simp add: crossing_pair_def)
qed

lemma crossing_pair_runs: "\<exists>e. run_rounds 5 (engine_with crossing_pair) = Inr ((), e)"
proof -
  note e = engine_with_ok [OF crossing_pair_length]
  have "length crossing_pair \<le> 5" by (simp add: crossing_pair_def)
  from run_rounds_refine [OF e(1-4) crossing_pair_ok this] crossing_pair_spec show ?thesis by auto
qed

theorem engine_run_refines_witness:
  "\<exists>e'. run_rounds 5 (engine_with crossing_pair) = Inr ((), e') \<and> q_list (me_incoming_requests e') = [] \<and>
     map resp_type (q_list (me_outgoing_ogw_responses e')) = [ACCEPTED, ACCEPTED, FILLED, FILLED] \<and>
     map upd_type (q_list (me_outgoing_md_updates e')) = [ADD, TRADE, CANCEL]"
proof -
  note e = engine_with_ok [OF crossing_pair_length]
  obtain As rs us where run: "spec_engine crossing_pair (\<lambda>_. empty_book) = Inr (As, rs, us)"
      "map resp_type rs = [ACCEPTED, ACCEPTED, FILLED, FILLED]" "map upd_type us = [ADD, TRADE, CANCEL]"
    using crossing_pair_spec by (elim exE conjE)
  have len4: "length rs = 4" "length us = 3" using arg_cong [OF run(2), of length] arg_cong [OF run(3), of length] by simp_all
  have pre: "requests_ok (q_list (me_incoming_requests (engine_with crossing_pair))) (\<lambda>_. empty_book)"
    "length (q_list (me_incoming_requests (engine_with crossing_pair))) \<le> 5"
    unfolding e(4) using crossing_pair_ok by (simp_all add: crossing_pair_def)
  obtain e' where e': "run_rounds 5 (engine_with crossing_pair) = Inr ((), e')" "q_list (me_incoming_requests e') = []"
      "engine_sent (engine_with crossing_pair) rs us e'"
    using engine_run_refines [OF e(1-3) pre] unfolding e(4) run(1) by auto
  have "q_list (me_outgoing_ogw_responses e') = rs" "q_list (me_outgoing_md_updates e') = us"
    using e'(3) q_push_batch(2) [OF e(5), of rs] q_push_batch(2) [OF e(6), of us] e(7-10) len4
    by (simp_all add: engine_sent_def)
  then show ?thesis using e'(1,2) run(2,3) by auto
qed

text \<open>
  A request reaches the book of its own ticker only: whatever state the engine is in, a request
  that returns leaves the books of the other tickers, the incoming queue and the run flag as they were.
\<close>

theorem process_one_ticker:
  assumes "processClientRequest r e = Inr ((), e')" "i \<noteq> unat (req_ticker_id r)"
  shows "aget (me_ticker_order_book e') i = aget (me_ticker_order_book e) i \<and>
    me_incoming_requests e' = me_incoming_requests e \<and> me_run e' = me_run e"
  using assms
  by (cases "req_type r") (auto simp: processClientRequest_def on_ticker_def)

theorem process_one_ticker_witness:
  "\<exists>e'. processClientRequest (new_order 1 7 3 SELL 100 10) (engine_with []) = Inr ((), e') \<and>
     aget (me_ticker_order_book e') 5 = MEOrderBook_new 5"
proof -
  have "request_ok (new_order 1 7 3 SELL 100 10) (\<lambda>_. empty_book)"
    by (simp add: request_ok_def new_order_def add_ok_empty)
  moreover have "\<exists>A rs us. spec_process (new_order 1 7 3 SELL 100 10) (\<lambda>_. empty_book) = Inr (A, rs, us)"
    by (simp add: spec_process_def new_order_def spec_run_defs empty_book_def Let_def limit_defs)
  ultimately obtain e' where run: "processClientRequest (new_order 1 7 3 SELL 100 10) (engine_with []) = Inr ((), e')"
    using process_refines_main [OF engine_with_ok(1) [of "[]"], of "new_order 1 7 3 SELL 100 10"] by auto
  have "aget (me_ticker_order_book (engine_with [])) 5 = MEOrderBook_new 5"
    by (simp add: engine_with_def MatchingEngine_new_def)
  then show ?thesis using process_one_ticker [OF run, of 5] run by (simp add: new_order_def)
qed

end
