(* ===== verification/Trade_Sides.thy ===== *)
theory Trade_Sides
  imports Matching_Engine
begin

text \<open>
  An invariant of the whole engine, kept by every operation on every state that has it: no book has
  a best bid and no trade is led by a seller.
\<close>

section \<open>The invariant\<close>

text \<open>A trade is always reported with the side of the incoming order.\<close>

definition buyer_led :: "MEMarketUpdate \<Rightarrow> bool" where
  "buyer_led u \<longleftrightarrow> upd_type u = TRADE \<longrightarrow> upd_side u = BUY"

definition no_bids :: "MEOrderBook \<Rightarrow> bool" where
  "no_bids b \<longleftrightarrow> ob_bids_at_price b = None \<and> buyer_led (ob_market_update b)"

definition all_buyer_led :: "MEMarketUpdate LFQueue \<Rightarrow> bool" where
  "all_buyer_led q \<longleftrightarrow> (\<forall>i. buyer_led (aget (q_store q) i))"

definition no_sales :: "ME_ctx \<Rightarrow> bool" where
  "no_sales c \<longleftrightarrow> no_bids (cx_book c) \<and> all_buyer_led (cx_md c)"

lemma no_bids_upd [simp]:
  "no_bids (b\<lparr>ob_orders_at_price_pool := pl\<rparr>) = no_bids b"
  "no_bids (b\<lparr>ob_order_pool := po\<rparr>) = no_bids b"
  "no_bids (b\<lparr>ob_cid_oid_to_order := m\<rparr>) = no_bids b"
  "no_bids (b\<lparr>ob_price_orders_at_price_hash_map := h\<rparr>) = no_bids b"
  "no_bids (b\<lparr>ob_asks_at_price := v\<rparr>) = no_bids b"
  "no_bids (b\<lparr>ob_client_response := r\<rparr>) = no_bids b"
  "no_bids (b\<lparr>ob_next_market_order_id := n\<rparr>) = no_bids b"
  by (simp_all add: no_bids_def)

lemma keeps_no_bids_on_ord_pool [keeps_intro]: "keeps no_bids (on_ord_pool m)"
  unfolding on_ord_pool_def by (rule keeps_zoom) simp

lemma keeps_no_bids [keeps_intro]:
  "keeps no_bids (on_lvl_pool m)" "keeps no_bids (wr_lvl p f)" "keeps no_bids (wr_ord q g)"
  "keeps no_bids (put_cid_oid c i v)" "keeps no_bids (put_price_slot k w)" "keeps no_bids (set_best side y)"
  by (intro keeps_intro; simp)+

lemma keeps_no_bids_link [keeps_intro]:
  "keeps no_bids (link_after n best t)" "keeps no_bids (link_before n best t)"
  unfolding link_after_def link_before_def move_best_def by (intro keeps_intro)+

lemma keeps_no_bids_levels [keeps_intro]:
  "keeps no_bids (addOrdersAtPrice n)" "keeps no_bids (removeOrdersAtPrice side price)"
  unfolding addOrdersAtPrice_def removeOrdersAtPrice_def by (intro keeps_intro)+

lemma keeps_no_bids_orders [keeps_intro]:
  "keeps no_bids (addOrder p)" "keeps no_bids (removeOrder p)" "keeps no_bids (getNextPriority price)"
  "keeps no_bids generateNewMarketOrderId"
  unfolding addOrder_def removeOrder_def getNextPriority_def generateNewMarketOrderId_def
  by (intro keeps_intro keeps_wr; simp)+

lemma keeps_no_sales_on_book [keeps_intro]: "keeps no_bids m \<Longrightarrow> keeps no_sales (on_book m)"
  unfolding on_book_def by (rule keeps_zoom) (auto simp: no_sales_def dest: keepsD)

lemma all_buyer_led_push: "all_buyer_led q \<Longrightarrow> buyer_led u \<Longrightarrow> push_elem u q = Inr (x, q') \<Longrightarrow> all_buyer_led q'"
  by (auto simp: push_elem_def getNextToWriteTo_def write_slot_def updateWriteIndex_def all_buyer_led_def)

lemma keeps_no_sales_publish [keeps_intro]:
  "keeps no_sales (set_client_response r)" "buyer_led u \<Longrightarrow> keeps no_sales (set_market_update u)"
  "keeps no_sales send_client_response" "keeps no_sales send_market_update"
proof -
  show "keeps no_sales (set_client_response r)"
    unfolding set_client_response_def by (intro keeps_intro keeps_wr) simp
  show "keeps no_sales (set_market_update u)" if "buyer_led u"
    unfolding set_market_update_def using that by (intro keeps_intro keeps_wr) (simp add: no_bids_def)
  show "keeps no_sales send_client_response"
    by (auto simp: keeps_def send_client_response_def sendClientResponse_def on_book_def no_sales_def)
  show "keeps no_sales send_market_update"
    by (auto simp: keeps_def send_market_update_def sendMarketUpdate_def on_book_def no_sales_def no_bids_def
        intro: all_buyer_led_push)
qed

lemma keeps_no_sales_match [keeps_intro]: "keeps no_sales (match_order t cl BUY coid mo itr l)"
  unfolding match_order_def Let_def by (intro keeps_intro) (simp_all add: buyer_led_def)

lemma keeps_no_sales_buy_round: "keeps no_sales (buy_round cl coid t price mo l)"
  unfolding buy_round_def by (intro keeps_intro)

lemma buy_loop_no_sales:
  "no_sales c \<Longrightarrow> buy_loop cl coid t price mo l c = Inr (l', c') \<Longrightarrow> no_sales c'"
proof (induction cl coid t price mo l c rule: buy_loop.induct)
  case (1 cl coid t price mo l c)
  show ?case
  proof (cases "l \<noteq> 0 \<and> ob_asks_at_price (cx_book c) \<noteq> None")
    case False
    then have "c' = c" using 1(3) by (subst (asm) buy_loop.simps) auto
    then show ?thesis using 1(2) by simp
  next
    case True
    then obtain r c1 where r: "buy_round cl coid t price mo l c = Inr (r, c1)"
      using 1(3) by (subst (asm) buy_loop.simps) (cases "buy_round cl coid t price mo l c"; auto)
    have "no_sales c1" using keepsD [OF keeps_no_sales_buy_round r 1(2)] .
    then show ?thesis
      using 1(1) [OF True r refl] 1(3) True r by (subst (asm) buy_loop.simps) (cases r; simp)
  qed
qed

lemma sell_loop_no_sales: "no_sales c \<Longrightarrow> sell_loop cl coid t price mo l c = Inr (l, c)"
  by (subst sell_loop.simps) (simp add: no_sales_def no_bids_def)

lemma keeps_no_sales_checkForMatch [keeps_intro]:
  "keeps no_sales (checkForMatch cl coid t side price qty mo)"
  by (auto simp: keeps_def checkForMatch_def sell_loop_no_sales dest: buy_loop_no_sales split: if_splits)

lemma keeps_no_sales_ops [keeps_intro]:
  "keeps no_sales (add cl coid t side price qty)" "keeps no_sales (cancel cl coid t)"
  unfolding add_def cancel_def by (intro keeps_intro; simp add: buyer_led_def)+

section \<open>The engine\<close>

definition engine_no_sales :: "MatchingEngine \<Rightarrow> bool" where
  "engine_no_sales e \<longleftrightarrow> (\<forall>i < alen (me_ticker_order_book e). no_sales (ctx_of i e)) \<and>
     all_buyer_led (me_outgoing_md_updates e)"

lemma keeps_process [keeps_intro]: "keeps engine_no_sales (processClientRequest r)"
proof (rule keepsI)
  fix e u e' assume e: "engine_no_sales e" and run: "processClientRequest r e = Inr (u, e')"
  have "\<exists>m c'. keeps no_sales m \<and> m (ctx_of (unat (req_ticker_id r)) e) = Inr ((), c') \<and>
      e' = put_ctx (unat (req_ticker_id r)) c' e \<and> unat (req_ticker_id r) < alen (me_ticker_order_book e)"
    using run keeps_no_sales_ops
    by (cases "req_type r") (fastforce simp: processClientRequest_def on_ticker_def arr_idx_def split: if_splits)+
  then obtain m c' where "keeps no_sales m" "m (ctx_of (unat (req_ticker_id r)) e) = Inr ((), c')"
    "e' = put_ctx (unat (req_ticker_id r)) c' e" "unat (req_ticker_id r) < alen (me_ticker_order_book e)"
    by blast
  then show "engine_no_sales e'" using e by (fastforce simp: engine_no_sales_def no_sales_def dest: keepsD)
qed

lemma keeps_on_incoming [keeps_intro]: "keeps engine_no_sales (on_incoming m)"
  unfolding on_incoming_def by (rule keeps_zoom) (simp add: engine_no_sales_def no_sales_def)

lemma keeps_run_rounds: "keeps engine_no_sales (run_rounds n)"
proof (induction n)
  case 0
  show ?case by (simp only: run_rounds.simps keeps_ret)
next
  case (Suc n)
  then show ?case unfolding run_rounds.simps run_round_def by (intro keeps_intro)
qed


lemma MatchingEngine_new_no_sales:
  "engine_no_sales (MatchingEngine_new inc ogw (LFQueue_new m MEMarketUpdate_default)\<lparr>me_run := True\<rparr>)"
  by (simp add: engine_no_sales_def no_sales_def no_bids_def MatchingEngine_new_def MEOrderBook_new_def
      all_buyer_led_def buyer_led_def LFQueue_new_def MEMarketUpdate_default_def)

section \<open>Properties\<close>

text \<open>
  C19. A sell order never trades on arrival. Whatever requests an engine serves from its start, no book
  ever has a best bid, because the assignment meant to set \<open>bids_at_price_\<close> assigns nothing, so the
  loop of \<open>checkForMatch\<close> for sell orders ends at once and every trade in the market data queue is
  reported with the side BUY.
\<close>

theorem sell_never_trades:
  assumes "run_rounds n (MatchingEngine_new inc ogw (LFQueue_new m MEMarketUpdate_default)\<lparr>me_run := True\<rparr>) = Inr ((), e)"
  shows "(\<forall>i. upd_type (aget (q_store (me_outgoing_md_updates e)) i) = TRADE \<longrightarrow>
      upd_side (aget (q_store (me_outgoing_md_updates e)) i) = BUY) \<and>
    (\<forall>i < alen (me_ticker_order_book e). ob_bids_at_price (aget (me_ticker_order_book e) i) = None)"
  using keepsD [OF keeps_run_rounds assms MatchingEngine_new_no_sales]
  by (auto simp: engine_no_sales_def no_sales_def no_bids_def all_buyer_led_def buyer_led_def)

theorem sell_never_trades_witness:
  "\<exists>e. run_rounds 5 (engine_with crossing_pair) = Inr ((), e) \<and>
     (\<forall>i < alen (me_ticker_order_book e). ob_bids_at_price (aget (me_ticker_order_book e) i) = None)"
proof -
  obtain e where e: "run_rounds 5 (engine_with crossing_pair) = Inr ((), e)"
    using crossing_pair_runs by blast
  from sell_never_trades [OF this [unfolded engine_with_def]] e show ?thesis by blast
qed

end
