(* ===== verification/Exchange_System.thy ===== *)
theory Exchange_System
  imports Server_Properties Trade_Sides
begin

text \<open>
  The order server and the matching engine together: the queue the sequencer writes is the one the
  engine reads. From the bytes of a client's socket to the book.
\<close>

section \<open>From the bytes to the book\<close>

text \<open>The engine that reads the queue of a server.\<close>

definition fed_by :: "OrderServer \<Rightarrow> MatchingEngine \<Rightarrow> MatchingEngine" where
  "fed_by s e = e\<lparr>me_incoming_requests := fs_incoming_requests (os_fifo_sequencer s)\<rparr>"

lemma fed_by_rel [simp]: "engine_rel (fed_by s e) As = engine_rel e As" "me_run (fed_by s e) = me_run e"
  "me_incoming_requests (fed_by s e) = fs_incoming_requests (os_fifo_sequencer s)"
  "engine_sent (fed_by s e) rs us e' = engine_sent e rs us e'"
  by (simp_all add: fed_by_def engine_sent_def)

lemma keeps_recv_requests_queue:
  "keeps (\<lambda>s. fs_incoming_requests (os_fifo_sequencer s) = q) (recv_requests p t rs)"
proof -
  have "keeps (\<lambda>f. fs_incoming_requests f = q) (addClientRequest t r)" for r
    unfolding addClientRequest_def by (intro keeps_intro keeps_wr) simp_all
  then have "keeps (\<lambda>s. fs_incoming_requests (os_fifo_sequencer s) = q) (recv_request p t r)" for r
    unfolding recv_request_def Let_def by (intro keeps_intro keeps_wr keeps_zoom) (auto dest: keepsD)
  then show ?thesis by (induction rs) (simp_all only: recv_requests.simps keeps_ret keeps_sq)
qed

section \<open>The reads of several sockets\<close>

text \<open>The callbacks of the sockets that have received, one after the other, each with its receive time.\<close>

fun recv_reads :: "(sock_ptr \<times> Nanos) list \<Rightarrow> (OrderServer, unit) prog" where
  "recv_reads [] = ret ()"
| "recv_reads ((p, t) # ds) = sq (recvCallback p t) (recv_reads ds)"

definition read_events :: "OrderServer \<Rightarrow> sock_ptr \<times> Nanos \<Rightarrow> event list" where
  "read_events s d = map (\<lambda>r. (fst d, snd d, r)) (requests_of (in_bytes (get_socket (fst d) s)))"

definition events_of :: "OrderServer \<Rightarrow> (sock_ptr \<times> Nanos) list \<Rightarrow> event list" where
  "events_of s ds = concat (map (read_events s) ds)"

lemma events_of_simps [simp]: "events_of s [] = []" "events_of s (d # ds) = read_events s d @ events_of s ds"
  by (simp_all add: events_of_def)

lemma length_admitted: "admitted s es I s' \<Longrightarrow> length (pending s') \<le> length (pending s) + length es"
  by (auto simp: admitted_def length_nths simp del: length_pending_list intro!: card_mono [of "{..<length es}", simplified])

lemma recv_reads_exact:
  assumes "server_ok s" "distinct (map fst ds)" "\<forall>d \<in> set ds. sock_ok (get_socket (fst d) s) \<and> valid_ptr s (fst d)"
    "\<forall>e \<in> set (events_of s ds). ev_cid e < ME_MAX_NUM_CLIENTS" "length (pending s) + length (events_of s ds) \<le> ME_MAX_PENDING_REQUESTS"
  shows "\<exists>s' I. recv_reads ds s = Inr ((), s') \<and> server_ok s' \<and> admitted s (events_of s ds) I s' \<and>
    fs_incoming_requests (os_fifo_sequencer s') = fs_incoming_requests (os_fifo_sequencer s)"
  using assms
proof (induction ds arbitrary: s rule: recv_reads.induct)
  case 1
  then show ?case by (intro exI [of _ s] exI [of _ "{}"]) (auto simp: admitted_def bound_to_def split: option.split)
next
  case (2 p t ds)
  let ?es = "read_events s (p, t)"
  have sock: "sock_ok (get_socket p s)" "valid_ptr s p" using "2.prems"(3) by simp_all
  have es: "\<forall>e \<in> set ?es. ev_cid e < ME_MAX_NUM_CLIENTS" "length (pending s) + length ?es \<le> ME_MAX_PENDING_REQUESTS"
    using "2.prems"(4,5) by auto
  obtain s1 I where s1: "recv_requests p t (requests_of (in_bytes (get_socket p s))) s = Inr ((), s1)" "server_ok s1" "admitted s ?es I s1"
    using recv_events_exact [OF "2.prems"(1) es] by (auto simp: recv_requests_events read_events_def)
  obtain k where k: "recvCallback p t s = Inr ((), put_socket p k s1)"
    using recvCallback_run [OF sock(1), of t] s1(1) by auto
  let ?s = "put_socket p k s1"
  have frame: "get_socket q s1 = get_socket q s" "valid_ptr s1 q = valid_ptr s q" if "valid_ptr s q" for q
  proof -
    have "keeps (\<lambda>x. get_socket q x = get_socket q s) (recv_requests p t rs)" for rs
      by (induction rs) (simp_all only: recv_requests.simps keeps_ret keeps_sq keeps_recv_request_socket)
    from keepsD [OF this s1(1)] show "get_socket q s1 = get_socket q s" by simp
    show "valid_ptr s1 q = valid_ptr s q" using keepsD [OF keeps_recv_requests_valid s1(1) that] that by simp
  qed
  have other: "get_socket (fst d) ?s = get_socket (fst d) s" "valid_ptr ?s (fst d)" if "d \<in> set ds" for d
  proof -
    have d: "valid_ptr s (fst d)" "fst d \<noteq> p" using that "2.prems"(2,3) by auto
    have "valid_ptr s1 p" using frame(2) [OF sock(2)] sock(2) by simp
    then show "get_socket (fst d) ?s = get_socket (fst d) s" using d frame(1) [OF d(1)] by (simp add: get_put_socket)
    show "valid_ptr ?s (fst d)" using d frame(2) [OF d(1)] by simp
  qed
  have same: "events_of ?s ds = events_of s ds"
    using other by (simp add: events_of_def read_events_def cong: map_cong)
  have "admitted s ?es I ?s" using s1(3) by simp
  note len = length_admitted [OF this]
  have "\<forall>e \<in> set (events_of ?s ds). ev_cid e < ME_MAX_NUM_CLIENTS" using "2.prems"(4) same by simp
  moreover have "length (pending ?s) + length (events_of ?s ds) \<le> ME_MAX_PENDING_REQUESTS"
    using len "2.prems"(5) same by simp
  moreover have "\<forall>d \<in> set ds. sock_ok (get_socket (fst d) ?s) \<and> valid_ptr ?s (fst d)" using other "2.prems"(3) by simp
  moreover have "server_ok ?s" "distinct (map fst ds)" using s1(2) "2.prems"(2) by simp_all
  ultimately obtain s' J where s': "recv_reads ds ?s = Inr ((), s')" "server_ok s'" "admitted ?s (events_of s ds) J s'"
    "fs_incoming_requests (os_fifo_sequencer s') = fs_incoming_requests (os_fifo_sequencer ?s)"
    using "2.IH" [of ?s] unfolding same by blast
  have "fs_incoming_requests (os_fifo_sequencer s1) = fs_incoming_requests (os_fifo_sequencer s)"
    using keepsD [OF keeps_recv_requests_queue s1(1)] by blast
  moreover have "admitted s1 (events_of s ds) J s'" using s'(3) by simp
  note admitted_append [OF s1(3) this]
  ultimately show ?case using k s'(1,2,4) unfolding events_of_simps by (auto simp: sq_def bnd_def)
qed

section \<open>Properties\<close>

text \<open>
  C8. From the wire to the book. When several sockets have received, each at its time, their callbacks and
  the end of the poll publish, behind what the queue of the engine holds, the requests that were pending
  and exactly the requests in sequence of all buffers, each once and in the order of their receive times,
  in the order of arrival where the times are strictly increasing; and the engine then serves the queue as
  the abstract engine does, faults included, when the requests meet the conditions of the refinement. How
  requests of one read are ordered is left to \<open>std::sort\<close>, for they have the same time.
\<close>

theorem wire_to_book:
  assumes "\<And>xs. mset (srt xs) = mset xs" "\<And>xs. in_time_order (srt xs)"
    "server_ok s" "distinct (map fst ds)" "\<forall>d \<in> set ds. sock_ok (get_socket (fst d) s) \<and> valid_ptr s (fst d)"
    "\<forall>e \<in> set (events_of s ds). ev_cid e < ME_MAX_NUM_CLIENTS" "length (pending s) + length (events_of s ds) \<le> ME_MAX_PENDING_REQUESTS"
    "q_ok (fs_incoming_requests (os_fifo_sequencer s))"
    "length (pending s) + length (events_of s ds) \<le> q_room (fs_incoming_requests (os_fifo_sequencer s))"
    "engine_rel e As" "me_run e"
  shows "\<exists>s' I xs ys. sq (recv_reads ds) (recvFinishedCallback srt) s = Inr ((), s') \<and>
    (\<forall>i < length (events_of s ds). i \<in> I \<longleftrightarrow> admits s (events_of s ds) I i) \<and>
    mset xs = mset (pending s @ map ev_stamped (nths (events_of s ds) I)) \<and> in_time_order xs \<and>
    (sorted_wrt earlier (pending s @ map ev_stamped (nths (events_of s ds) I)) \<longrightarrow>
      xs = pending s @ map ev_stamped (nths (events_of s ds) I)) \<and>
    ys = q_list (fs_incoming_requests (os_fifo_sequencer s)) @ map rt_request xs \<and>
    pending s' = [] \<and> q_list (fs_incoming_requests (os_fifo_sequencer s')) = ys \<and>
    (requests_ok ys As \<longrightarrow>
      (case spec_engine ys As of
         Inl f \<Rightarrow> run_rounds (length ys) (fed_by s' e) = Inl f
       | Inr (As', ps, us) \<Rightarrow> \<exists>e'. run_rounds (length ys) (fed_by s' e) = Inr ((), e') \<and> engine_sent e ps us e' \<and>
           engine_rel e' As' \<and> q_list (me_incoming_requests e') = []))"
proof -
  have sort: "std_sort srt" using assms(1,2) by unfold_locales
  let ?q = "fs_incoming_requests (os_fifo_sequencer s)"
  obtain s1 I where s1: "recv_reads ds s = Inr ((), s1)" "server_ok s1" "admitted s (events_of s ds) I s1"
    "fs_incoming_requests (os_fifo_sequencer s1) = ?q"
    using recv_reads_exact [OF assms(3-7)] by blast
  have pend: "pending s1 = pending s @ map ev_stamped (nths (events_of s ds) I)" using s1(3) by (simp add: admitted_def)
  let ?xs = "srt (pending s1)" and ?ys = "q_list ?q @ map rt_request (srt (pending s1))"
  have "length ?xs \<le> length (pending s) + length (events_of s ds)"
    using length_admitted [OF s1(3)] std_sort.length_srt [OF sort] by simp
  then have room: "length (map rt_request ?xs) \<le> q_room ?q" using assms(9) by simp
  have "q_wf (fs_incoming_requests (os_fifo_sequencer s1))" using q_ok_wf [OF assms(8)] s1(4) by simp
  then obtain f where f: "sequenceAndPublish srt (os_fifo_sequencer s1) = Inr ((), f)" "pending_list f = []"
    "fs_incoming_requests f = fold q_push (map rt_request ?xs) ?q"
    using std_sort.sequence_run [OF sort, of "os_fifo_sequencer s1"] s1(2,4) by (auto simp: server_ok_def)
  let ?s' = "s1\<lparr>os_fifo_sequencer := f\<rparr>"
  note queue = q_push_batch(1,2) [OF assms(8) room]
  have run: "sq (recv_reads ds) (recvFinishedCallback srt) s = Inr ((), ?s')"
    using s1(1) f(1) by (simp add: sq_def bnd_def recvFinishedCallback_def zoom_def)
  have served: "case spec_engine ?ys As of
         Inl f \<Rightarrow> run_rounds (length ?ys) (fed_by ?s' e) = Inl f
       | Inr (As', ps, us) \<Rightarrow> \<exists>e'. run_rounds (length ?ys) (fed_by ?s' e) = Inr ((), e') \<and> engine_sent e ps us e' \<and>
           engine_rel e' As' \<and> q_list (me_incoming_requests e') = []" if "requests_ok ?ys As"
    using run_rounds_refine [of "fed_by ?s' e" As ?ys "length ?ys"] assms(10,11) queue f(3) that
    by (auto split: sum.splits)
  have strict: "sorted_wrt earlier (pending s1) \<Longrightarrow> ?xs = pending s1" by (rule std_sort.srt_strict [OF sort])
  show ?thesis
  proof (intro exI conjI)
    show "sq (recv_reads ds) (recvFinishedCallback srt) s = Inr ((), ?s')" by (rule run)
    show "\<forall>i < length (events_of s ds). i \<in> I \<longleftrightarrow> admits s (events_of s ds) I i" using s1(3) by (simp add: admitted_def)
    show "mset ?xs = mset (pending s @ map ev_stamped (nths (events_of s ds) I))" unfolding pend [symmetric] by (rule assms(1))
    show "in_time_order ?xs" by (rule assms(2))
    show "sorted_wrt earlier (pending s @ map ev_stamped (nths (events_of s ds) I)) \<longrightarrow>
        ?xs = pending s @ map ev_stamped (nths (events_of s ds) I)" using strict unfolding pend by blast
    show "?ys = q_list ?q @ map rt_request ?xs" by simp
    show "pending ?s' = []" "q_list (fs_incoming_requests (os_fifo_sequencer ?s')) = ?ys" using f(2,3) queue(2) by simp_all
  qed (use served in blast)
qed

definition other_request :: OMClientRequest where
  "other_request = \<lparr>om_seq_num = 1, om_me_client_request = \<lparr>req_type = Request_NEW, req_client_id = 6,
     req_ticker_id = 3, req_order_id = 4, req_side = SELL, req_price = 90, req_qty = 5\<rparr>\<rparr>"

text \<open>Two sockets, each with a request in its buffer; the second one has received first.\<close>

definition two_sockets :: OrderServer where
  "two_sockets = (server_with [])\<lparr>sv_sockets := [sock_with (bytes_of_OMClientRequest first_request),
     sock_with (bytes_of_OMClientRequest other_request)], sv_receive_sockets := [Accepted 0, Accepted 1]\<rparr>"

lemma one_request_of: "plain_request (om_me_client_request r) \<Longrightarrow> requests_of (bytes_of_OMClientRequest r) = [r]"
  using chunks_of_requests [of "[]" "[r]"] by (simp add: requests_of_def sizeof_defs OMClientRequest_of_bytes_of)

lemma two_sockets_ok:
  "server_ok two_sockets" "pending two_sockets = []" "owner two_sockets = (\<lambda>_. None)" "exp_seq two_sockets c = 1"
  "sock_ok (get_socket (Accepted 0) two_sockets)" "sock_ok (get_socket (Accepted 1) two_sockets)"
  "valid_ptr two_sockets (Accepted 0)" "valid_ptr two_sockets (Accepted 1)"
  "events_of two_sockets [(Accepted 0, 90), (Accepted 1, 77)] = [(Accepted 0, 90, first_request), (Accepted 1, 77, other_request)]"
  "fs_incoming_requests (os_fifo_sequencer two_sockets) = LFQueue_new 8 MEClientRequest_default"
proof -
  have "length ([] :: byte list) \<le> TCPBufferSize" by simp
  note ok = server_with_ok [OF this]
  show "server_ok two_sockets" using ok(1) by (simp add: two_sockets_def server_ok_def)
  show "pending two_sockets = []" "owner two_sockets = (\<lambda>_. None)" "exp_seq two_sockets c = 1"
    using ok(5-7) by (simp_all add: two_sockets_def)
  have len: "length (bytes_of_OMClientRequest first_request) \<le> TCPBufferSize" "length (bytes_of_OMClientRequest other_request) \<le> TCPBufferSize"
    by (simp_all add: sizeof_defs TCPBufferSize_def)
  note k = sock_with_ok [OF len(1)] sock_with_ok [OF len(2)]
  have get: "get_socket (Accepted 0) two_sockets = sock_with (bytes_of_OMClientRequest first_request)"
    "get_socket (Accepted 1) two_sockets = sock_with (bytes_of_OMClientRequest other_request)"
    by (simp_all add: two_sockets_def get_socket_def)
  show "sock_ok (get_socket (Accepted 0) two_sockets)" "sock_ok (get_socket (Accepted 1) two_sockets)" using k(1,4) get by simp_all
  show "valid_ptr two_sockets (Accepted 0)" "valid_ptr two_sockets (Accepted 1)" by (simp_all add: two_sockets_def)
  have "plain_request (om_me_client_request first_request)" "plain_request (om_me_client_request other_request)"
    by (simp_all add: first_request_def other_request_def plain_request_def)
  then show "events_of two_sockets [(Accepted 0, 90), (Accepted 1, 77)] = [(Accepted 0, 90, first_request), (Accepted 1, 77, other_request)]"
    using k(2,5) by (simp add: read_events_def get get(2) [unfolded One_nat_def] one_request_of)
  show "fs_incoming_requests (os_fifo_sequencer two_sockets) = LFQueue_new 8 MEClientRequest_default"
    by (simp add: two_sockets_def server_with_def OrderServer_new_def TCPServer.extend_def FIFOSequencer_new_def)
qed

lemma two_requests_served:
  defines "ys \<equiv> [om_me_client_request other_request, om_me_client_request first_request]"
  shows "\<exists>r. spec_engine ys (\<lambda>_. empty_book) = Inr r" "requests_ok ys (\<lambda>_. empty_book)"
proof -
  note eval = ys_def first_request_def other_request_def spec_process_def spec_run_defs empty_book_def Let_def limit_defs
    after_match_def full_makers_def
  show "\<exists>r. spec_engine ys (\<lambda>_. empty_book) = Inr r" by (simp add: eval)
  have "As 2 = empty_book" if "spec_process (om_me_client_request other_request) (\<lambda>_. empty_book) = Inr (As, ps, us)" for As ps us
    using that by (auto simp: spec_process_def other_request_def Let_def limit_defs map_sum_def split: sum.splits)
  then show "requests_ok ys (\<lambda>_. empty_book)"
    by (auto simp: ys_def request_ok_def add_ok_empty first_request_def split: sum.splits) (auto simp: other_request_def add_ok_empty)
qed

lemma in_time_pair:
  assumes "mset xs = mset [a, b]" "in_time_order xs" "earlier b a"
  shows "xs = [b, a]"
proof -
  have "length xs = 2" using mset_eq_length [OF assms(1)] by simp
  then obtain x y where "xs = [x, y]" by (auto simp: numeral_2_eq_2 length_Suc_conv)
  then show ?thesis using assms by (auto simp: in_time_order_def earlier_def add_eq_conv_ex)
qed

theorem wire_to_book_witness:
  "\<exists>s' e'. sq (recv_reads [(Accepted 0, 90), (Accepted 1, 77)]) (recvFinishedCallback late_first_sort) two_sockets = Inr ((), s') \<and>
    q_list (fs_incoming_requests (os_fifo_sequencer s')) =
      [om_me_client_request other_request, om_me_client_request first_request] \<and>
    run_rounds 2 (fed_by s' (engine_with [])) = Inr ((), e') \<and> q_list (me_incoming_requests e') = []"
proof -
  let ?ds = "[(Accepted 0, 90), (Accepted 1, 77)]" and ?es = "events_of two_sockets [(Accepted 0, 90), (Accepted 1, 77)]"
  note ok = two_sockets_ok
  have q: "q_ok (LFQueue_new 8 MEClientRequest_default)" "q_list (LFQueue_new 8 MEClientRequest_default) = []"
    "q_room (LFQueue_new 8 MEClientRequest_default) = 7"
    using LFQueue_new_ok [of 8 MEClientRequest_default] by simp_all
  have e: "engine_rel (engine_with []) (\<lambda>_. empty_book)" "me_run (engine_with [])"
    using engine_with_ok(1,3) [of "[]"] by simp_all
  have pend0: "length (pending two_sockets) = 0" by (simp only: ok(2)) simp
  have cid: "ev_cid (Accepted 0, 90, first_request) = 5" "ev_cid (Accepted 1, 77, other_request) = 6"
    by (simp_all add: ev_cid_def first_request_def other_request_def)
  have pre: "distinct (map fst ?ds)" "\<forall>d \<in> set ?ds. sock_ok (get_socket (fst d) two_sockets) \<and> valid_ptr two_sockets (fst d)"
    "\<forall>e \<in> set ?es. ev_cid e < ME_MAX_NUM_CLIENTS" "length (pending two_sockets) + length ?es \<le> ME_MAX_PENDING_REQUESTS"
    "q_ok (fs_incoming_requests (os_fifo_sequencer two_sockets))"
    "length (pending two_sockets) + length ?es \<le> q_room (fs_incoming_requests (os_fifo_sequencer two_sockets))"
    using ok(5-8) cid q unfolding pend0 ok(9,10) by (simp_all add: limit_defs ME_MAX_PENDING_REQUESTS_def)
  obtain s' I xs ys where run: "sq (recv_reads ?ds) (recvFinishedCallback late_first_sort) two_sockets = Inr ((), s')"
    and adm: "\<forall>i < length ?es. i \<in> I \<longleftrightarrow> admits two_sockets ?es I i"
    and xs: "mset xs = mset (pending two_sockets @ map ev_stamped (nths ?es I))" "in_time_order xs"
    and ys: "ys = q_list (fs_incoming_requests (os_fifo_sequencer two_sockets)) @ map rt_request xs"
      "q_list (fs_incoming_requests (os_fifo_sequencer s')) = ys"
    and served: "requests_ok ys (\<lambda>_. empty_book) \<longrightarrow> (case spec_engine ys (\<lambda>_. empty_book) of
         Inl f \<Rightarrow> run_rounds (length ys) (fed_by s' (engine_with [])) = Inl f
       | Inr (As', ps, us) \<Rightarrow> \<exists>e'. run_rounds (length ys) (fed_by s' (engine_with [])) = Inr ((), e') \<and>
           engine_sent (engine_with []) ps us e' \<and> engine_rel e' As' \<and> q_list (me_incoming_requests e') = [])"
    using wire_to_book [OF late_first.mset_srt late_first.srt_order ok(1) pre e] by blast
  have "0 \<in> I" "Suc 0 \<in> I"
    using adm cid ok(3,4) unfolding ok(9)
    by (auto simp: admits_def bound_to_def less_Suc_eq nths_Cons) (simp_all add: first_request_def other_request_def)
  then have "mset xs = mset [stamped 90 first_request, stamped 77 other_request]"
    using xs(1) unfolding ok(2,9) by (simp add: nths_Cons ev_stamped_def)
  then have "xs = [stamped 77 other_request, stamped 90 first_request]"
    by (rule in_time_pair [OF _ xs(2)]) (simp add: earlier_def stamped_def)
  then have ys2: "ys = [om_me_client_request other_request, om_me_client_request first_request]"
    using ys(1) q(2) by (simp add: ok(10) stamped_def)
  then have "length ys = 2" by simp
  moreover obtain As' ps us where "spec_engine ys (\<lambda>_. empty_book) = Inr (As', ps, us)"
    using two_requests_served(1) unfolding ys2 by (metis prod_cases3)
  moreover have "requests_ok ys (\<lambda>_. empty_book)" unfolding ys2 by (rule two_requests_served(2))
  ultimately obtain e' where "run_rounds 2 (fed_by s' (engine_with [])) = Inr ((), e')" "q_list (me_incoming_requests e') = []"
    using served by auto
  then show ?thesis using run ys(2) unfolding ys2 by blast
qed

end
