(* ===== verification/Server_Traffic.thy ===== *)
theory Server_Traffic
  imports Exchange_System
begin

text \<open>
  What a whole round of the order server does to what it shares with the matching engine, whatever the
  sockets deliver and however often the callbacks run: it pushes requests onto the incoming queue, and each
  request that has passed the check of the sequence numbers is either published or pending.
\<close>

section \<open>Requests accounted for\<close>

abbreviation incoming :: "OrderServer \<Rightarrow> MEClientRequest LFQueue" where
  "incoming s \<equiv> fs_incoming_requests (os_fifo_sequencer s)"

definition from_client :: "nat \<Rightarrow> MEClientRequest list \<Rightarrow> nat" where
  "from_client c rs = length (filter (\<lambda>r. unat (req_client_id r) = c) rs)"

lemma from_client_simps [simp]:
  "from_client c [] = 0"
  "from_client c (r # rs) = (if unat (req_client_id r) = c then 1 else 0) + from_client c rs"
  "from_client c (rs @ rs') = from_client c rs + from_client c rs'"
  by (simp_all add: from_client_def)

lemma from_client_mset: "mset rs = mset rs' \<Longrightarrow> from_client c rs = from_client c rs'"
  unfolding from_client_def by (metis mset_filter size_mset)

text \<open>
  The expected sequence number of a client counts its requests that were published or are pending, and
  the client of each of them has a socket.
\<close>

definition has_socket :: "OrderServer \<Rightarrow> ClientId \<Rightarrow> bool" where
  "has_socket s c \<longleftrightarrow> unat c < ME_MAX_NUM_CLIENTS \<and> owner s (unat c) \<noteq> None"

definition accounted :: "MEClientRequest list \<Rightarrow> OrderServer \<Rightarrow> bool" where
  "accounted published s \<longleftrightarrow>
     (\<forall>c < ME_MAX_NUM_CLIENTS. exp_seq s c = 1 + of_nat (from_client c (published @ map rt_request (pending s)))) \<and>
     (\<forall>r \<in> set (published @ map rt_request (pending s)). has_socket s (req_client_id r))"

text \<open>The server as it was when \<open>pub\<close> had been published and the queue was \<open>q0\<close>, some requests later.\<close>

definition later :: "MEClientRequest list \<Rightarrow> MEClientRequest LFQueue \<Rightarrow> OrderServer \<Rightarrow> OrderServer \<Rightarrow> bool" where
  "later pub q0 s0 s \<longleftrightarrow> server_ok s \<and> q_wf q0 \<and> (\<exists>rs. incoming s = fold q_push rs q0 \<and> accounted (pub @ rs) s) \<and>
     os_outgoing_responses s = os_outgoing_responses s0 \<and> nxt_out s = nxt_out s0 \<and> os_run s = os_run s0"

lemma later_put_socket [simp]: "later pub q0 s0 (put_socket p k s) = later pub q0 s0 s"
  by (cases p) (simp_all add: later_def server_ok_def accounted_def has_socket_def put_socket_def)

lemma keeps_later_on_socket [keeps_intro]: "keeps (later pub q0 s0) (on_socket p m)"
  unfolding on_socket_def by (rule keeps_zoom) simp

lemma bind_socket_sel [simp]:
  "os_cid_next_exp_seq_num (bind_socket p r s) = os_cid_next_exp_seq_num s"
  "os_fifo_sequencer (bind_socket p r s) = os_fifo_sequencer s"
  "os_outgoing_responses (bind_socket p r s) = os_outgoing_responses s"
  "os_cid_next_outgoing_seq_num (bind_socket p r s) = os_cid_next_outgoing_seq_num s"
  "alen (os_cid_tcp_socket (bind_socket p r s)) = alen (os_cid_tcp_socket s)"
  "os_run (bind_socket p r s) = os_run s"
  by (simp_all add: bind_socket_def)

lemma bind_socket_owner:
  "has_socket s c \<Longrightarrow> has_socket (bind_socket p r s) c"
  "cid_of r < ME_MAX_NUM_CLIENTS \<Longrightarrow> has_socket (bind_socket p r s) (req_client_id (om_me_client_request r))"
  by (auto simp: has_socket_def bind_socket_def)

lemma keeps_later_recv_request [keeps_intro]: "keeps (later pub q0 s0) (recv_request p t r)"
proof (rule keepsI)
  fix s a s' assume l: "later pub q0 s0 s" and run: "recv_request p t r s = Inr (a, s')"
  have ok: "server_ok s" using l by (simp add: later_def)
  note run = run [unfolded recv_request_run [OF ok]]
  have c: "cid_of r < ME_MAX_NUM_CLIENTS" using run by (auto split: if_splits)
  have bind: "server_ok (bind_socket p r s)" using ok by (simp add: server_ok_def)
  show "later pub q0 s0 s'"
  proof (cases "accepts p r s")
    case False
    then have "s' = bind_socket p r s" using run c by simp
    then show ?thesis using l bind bind_socket_owner(1) by (auto simp: later_def accounted_def)
  next
    case True
    then obtain f where f: "addClientRequest t (om_me_client_request r) (os_fifo_sequencer s) = Inr ((), f)"
      and s': "s' = (bind_socket p r s)\<lparr>os_cid_next_exp_seq_num := arr_put (cid_of r) (om_seq_num r + 1) (os_cid_next_exp_seq_num s),
        os_fifo_sequencer := f\<rparr>"
      using run c by (auto split: sum.splits)
    have add: "seq_ok f" "pending_list f = pending s @ [\<lparr>rt_recv_time = t, rt_request = om_me_client_request r\<rparr>]"
      using addClientRequest_Inr [OF _ f] ok by (simp_all add: server_ok_def)
    have "keeps (\<lambda>f. fs_incoming_requests f = q) (addClientRequest t x)" for q x
      unfolding addClientRequest_def by (intro keeps_intro keeps_wr) simp_all
    then have same: "fs_incoming_requests f = incoming s" using keepsD f by fastforce
    have seq: "om_seq_num r = exp_seq s (cid_of r)" using True by (simp add: accepts_def)
    obtain rs where rs: "incoming s = fold q_push rs q0" "accounted (pub @ rs) s" using l by (auto simp: later_def)
    have "has_socket s' d = has_socket (bind_socket p r s) d" for d by (simp add: s' has_socket_def)
    then have "accounted (pub @ rs) s'"
      using rs(2) add(2) seq c bind_socket_owner [where p = p and r = r] by (auto simp: accounted_def s')
    moreover have "server_ok s'" using bind add(1) by (simp add: server_ok_def s')
    ultimately show ?thesis using l rs(1) same by (auto simp: later_def s')
  qed
qed

lemma keeps_later_recv_loop [keeps_intro]: "keeps (later pub q0 s0) (recv_loop p t n i)"
proof (induction p t n i rule: recv_loop.induct)
  case (1 p t n i)
  show ?case
  proof (cases "i + sizeof_OMClientRequest \<le> n")
    case True
    show ?thesis using 1 [OF True] by (subst recv_loop.simps) (simp add: True keeps_intro)
  next
    case False
    then show ?thesis by (subst recv_loop.simps) (simp add: keeps_intro)
  qed
qed

lemma keeps_later_recvCallback [keeps_intro]: "keeps (later pub q0 s0) (recvCallback p t)"
  unfolding recvCallback_def by (intro keeps_intro)

lemma keeps_later_each [keeps_intro]: "keeps (later pub q0 s0) (each_sendAndRecv recvCallback k ps)"
  by (induction ps) (simp_all only: each_sendAndRecv.simps sock_sendAndRecv_def, (intro keeps_intro, assumption?)+)

lemma keeps_later_publish:
  assumes "std_sort srt"
  shows "keeps (later pub q0 s0) (recvFinishedCallback srt)"
proof (rule keepsI)
  fix s a s' assume l: "later pub q0 s0 s" and run: "recvFinishedCallback srt s = Inr (a, s')"
  obtain rs where rs: "incoming s = fold q_push rs q0" "accounted (pub @ rs) s" using l by (auto simp: later_def)
  let ?ps = "map rt_request (srt (pending s))"
  have "seq_ok (os_fifo_sequencer s)" "q_wf (incoming s)" using l rs(1) by (auto simp: later_def server_ok_def)
  from std_sort.sequence_run [OF assms this] run obtain f where
    f: "s' = s\<lparr>os_fifo_sequencer := f\<rparr>" "seq_ok f" "pending_list f = []" "fs_incoming_requests f = fold q_push ?ps (incoming s)"
    by (auto simp: recvFinishedCallback_def)
  have "from_client c ?ps = from_client c (map rt_request (pending s))" for c
    by (rule from_client_mset) (simp add: std_sort.mset_srt [OF assms])
  moreover have "set ?ps = rt_request ` set (pending s)" by (simp add: std_sort.set_srt [OF assms])
  ultimately have "accounted (pub @ rs @ ?ps) s'" using rs(2) f(1,3) by (auto simp: accounted_def has_socket_def)
  moreover have "incoming s' = fold q_push (rs @ ?ps) q0" using f(1,4) rs(1) by simp
  ultimately have "\<exists>rs. incoming s' = fold q_push rs q0 \<and> accounted (pub @ rs) s'" by blast
  then show "later pub q0 s0 s'" using l f(1,2) by (simp add: later_def server_ok_def)
qed

lemma sendAndRecv_later:
  assumes "std_sort srt" "server_ok s" "q_wf (incoming s)" "accounted pub s"
    "TCPServer_sendAndRecv recvCallback (recvFinishedCallback srt) k k' s = Inr ((), s')"
  shows "\<exists>rs. incoming s' = fold q_push rs (incoming s) \<and> accounted (pub @ rs) s' \<and> server_ok s' \<and>
    os_outgoing_responses s' = os_outgoing_responses s \<and> nxt_out s' = nxt_out s \<and> os_run s' = os_run s"
proof -
  have "keeps (later pub (incoming s) s) (TCPServer_sendAndRecv recvCallback (recvFinishedCallback srt) k k')"
    unfolding TCPServer_sendAndRecv_def by (intro keeps_intro keeps_later_publish assms(1))
  moreover have "later pub (incoming s) s s"
    using assms(2-4) by (auto simp: later_def intro: exI [of _ "[]"])
  ultimately have "later pub (incoming s) s s'" using keepsD assms(5) by fastforce
  then show ?thesis by (auto simp: later_def)
qed

text \<open>A poll changes the sockets and their lists only.\<close>

lemma poll_more:
  assumes "poll evs acs s = Inr ((), s')"
  shows "TCPServer.more s' = TCPServer.more s"
proof -
  have add: "keeps (\<lambda>s. TCPServer.more s = m) (add_receive p)" "keeps (\<lambda>s. TCPServer.more s = m) (add_send p)" for m p
    unfolding add_receive_def add_send_def by (auto intro!: keeps_wr)
  have ev: "keeps (\<lambda>s. TCPServer.more s = m) (poll_event ev)" for m ev
    unfolding poll_event_def by (intro keeps_intro add)
  have evs: "keeps (\<lambda>s. TCPServer.more s = m) (poll_events evs)" for m evs
    by (induction evs) (simp_all only: poll_events.simps, (intro keeps_intro ev, assumption?)+)
  have "keeps (\<lambda>s. TCPServer.more s = m) (accept_loop acs)" for m acs
  proof (induction acs)
    case (Cons a acs)
    show ?case unfolding accept_loop.simps by (intro keeps_intro add keeps_wr Cons.IH) simp
  qed (simp only: accept_loop.simps keeps_ret)
  then have "keeps (\<lambda>s. TCPServer.more s = m) (poll evs acs)" for m
    unfolding poll_def by (intro keeps_intro evs)
  then show ?thesis using keepsD assms by fastforce
qed

end
