(* ===== verification/Exchange_Threads.thy ===== *)
theory Exchange_Threads
  imports Server_Traffic
begin

text \<open>
  The order server and the matching engine as two threads that share two queues: requests go one way,
  responses the other. A step is a part of a round of one of the loops. The queues under the
  two threads are the subject of \<open>Queue_Threads\<close>; here a call of a queue operation is one step.
\<close>

section \<open>The two components\<close>

text \<open>
  Both components hold the queues, so a step of one is followed by an update of the other
  (\<open>share_server\<close>, \<open>share_engine\<close>). \<open>ex_taken\<close> is the request the engine has processed and not
  released yet. The other fields are the history: the requests published and released, the responses
  produced and sent.
\<close>

record exchange =
  ex_server :: OrderServer
  ex_engine :: MatchingEngine
  ex_taken :: "MEClientRequest option"
  ex_published :: "MEClientRequest list"
  ex_released :: "MEClientRequest list"
  ex_produced :: "MEClientResponse list"
  ex_replied :: "MEClientResponse list"

definition share_server :: "OrderServer \<Rightarrow> exchange \<Rightarrow> exchange" where
  "share_server s x = x\<lparr>ex_server := s, ex_engine := (ex_engine x)\<lparr>me_incoming_requests := incoming s,
     me_outgoing_ogw_responses := os_outgoing_responses s\<rparr>\<rparr>"

definition share_engine :: "MatchingEngine \<Rightarrow> exchange \<Rightarrow> exchange" where
  "share_engine e x = x\<lparr>ex_engine := e, ex_server := (ex_server x)\<lparr>
     os_fifo_sequencer := (os_fifo_sequencer (ex_server x))\<lparr>fs_incoming_requests := me_incoming_requests e\<rparr>,
     os_outgoing_responses := me_outgoing_ogw_responses e\<rparr>\<rparr>"

definition exchange_init :: "nat \<Rightarrow> nat \<Rightarrow> nat \<Rightarrow> Logger \<Rightarrow> exchange" where
  "exchange_init n m l logger =
     (let inc = LFQueue_new n MEClientRequest_default; out = LFQueue_new m MEClientResponse_default in
      \<lparr>ex_server = (OrderServer_new inc out logger)\<lparr>os_run := True\<rparr>,
       ex_engine = (MatchingEngine_new inc out (LFQueue_new l MEMarketUpdate_default))\<lparr>me_run := True\<rparr>,
       ex_taken = None, ex_published = [], ex_released = [], ex_produced = [], ex_replied = []\<rparr>)"

text \<open>
  The code does not check for room in the queues; the premises on \<open>q_room\<close> restrict the runs to those in
  which the queues are large enough. \<open>receive\<close> is a call of \<open>sendAndRecv\<close> with both callbacks, for any
  events and any answers of the kernel.
\<close>

inductive ex_step :: "(RecvTimeClientRequest list \<Rightarrow> RecvTimeClientRequest list) \<Rightarrow> exchange \<Rightarrow> exchange \<Rightarrow> bool"
  for srt where
  poll: "os_run (ex_server x) \<Longrightarrow> poll evs acs (ex_server x) = Inr ((), s) \<Longrightarrow> ex_step srt x (share_server s x)"
| receive: "os_run (ex_server x) \<Longrightarrow>
    TCPServer_sendAndRecv recvCallback (recvFinishedCallback srt) k k' (ex_server x) = Inr ((), s) \<Longrightarrow>
    incoming s = fold q_push rs (incoming (ex_server x)) \<Longrightarrow> length rs \<le> q_room (incoming (ex_server x)) \<Longrightarrow>
    ex_step srt x (share_server s x\<lparr>ex_published := ex_published x @ rs\<rparr>)"
| reply: "os_run (ex_server x) \<Longrightarrow> q_list (outgoing (ex_server x)) = r # rs \<Longrightarrow> send_one (ex_server x) = Inr (True, s) \<Longrightarrow>
    ex_step srt x (share_server s x\<lparr>ex_replied := ex_replied x @ [r]\<rparr>)"
| process: "me_run (ex_engine x) \<Longrightarrow> ex_taken x = None \<Longrightarrow> on_incoming peek (ex_engine x) = Inr (Some r, ex_engine x) \<Longrightarrow>
    processClientRequest r (ex_engine x) = Inr ((), e) \<Longrightarrow>
    me_outgoing_ogw_responses e = fold q_push ps (me_outgoing_ogw_responses (ex_engine x)) \<Longrightarrow>
    length ps \<le> q_room (me_outgoing_ogw_responses (ex_engine x)) \<Longrightarrow>
    ex_step srt x (share_engine e x\<lparr>ex_taken := Some r, ex_produced := ex_produced x @ ps\<rparr>)"
| release: "ex_taken x = Some r \<Longrightarrow> on_incoming updateReadIndex (ex_engine x) = Inr ((), e) \<Longrightarrow>
    ex_step srt x (share_engine e x\<lparr>ex_taken := None, ex_released := ex_released x @ [r]\<rparr>)"

definition ex_reachable ::
  "(RecvTimeClientRequest list \<Rightarrow> RecvTimeClientRequest list) \<Rightarrow> nat \<Rightarrow> nat \<Rightarrow> nat \<Rightarrow> Logger \<Rightarrow> exchange \<Rightarrow> bool" where
  "ex_reachable srt n m l logger x \<longleftrightarrow> (ex_step srt)\<^sup>*\<^sup>* (exchange_init n m l logger) x"

definition ex_processed :: "exchange \<Rightarrow> MEClientRequest list" where
  "ex_processed x = ex_released x @ (case ex_taken x of None \<Rightarrow> [] | Some r \<Rightarrow> [r])"

section \<open>Batches of requests\<close>

lemma spec_engine_append:
  "spec_engine (xs @ ys) As = (case spec_engine xs As of
     Inl f \<Rightarrow> Inl f
   | Inr (As', ps, us) \<Rightarrow> (case spec_engine ys As' of Inl f \<Rightarrow> Inl f
       | Inr (As'', ps', us') \<Rightarrow> Inr (As'', ps @ ps', us @ us')))"
  by (induction xs arbitrary: As) (auto split: sum.splits prod.splits)

lemma requests_ok_append:
  "requests_ok (xs @ ys) As \<longleftrightarrow> requests_ok xs As \<and>
     (case spec_engine xs As of Inl f \<Rightarrow> True | Inr (As', _) \<Rightarrow> requests_ok ys As')"
  by (induction xs arbitrary: As) (auto split: sum.splits prod.splits)

text \<open>With room, what was pushed can be told from the queue.\<close>

lemma fold_push_same:
  assumes "q_ok q" "length xs \<le> q_room q" "fold q_push xs q = fold q_push ys q"
  shows "xs = ys"
proof -
  have len: "length ys = length xs" using arg_cong [OF assms(3), of q_num_elements] by simp
  have "q_list q @ xs = q_list (fold q_push xs q)" by (rule q_push_batch(2) [OF assms(1,2), symmetric])
  also have "\<dots> = q_list q @ ys" unfolding assms(3) by (rule q_push_batch(2) [OF assms(1)]) (simp add: len assms(2))
  finally have "q_list q @ xs = q_list q @ ys" .
  then show ?thesis by simp
qed

section \<open>A reply\<close>

definition to_client :: "nat \<Rightarrow> MEClientResponse list \<Rightarrow> nat" where
  "to_client c rs = length (filter (\<lambda>r. unat (resp_client_id r) = c) rs)"

lemma to_client_simps [simp]:
  "to_client c [] = 0" "to_client c (rs @ [r]) = to_client c rs + (if unat (resp_client_id r) = c then 1 else 0)"
  by (simp_all add: to_client_def)

lemma on_socket_os: "on_socket p m s = Inr (x, s') \<Longrightarrow> os_fifo_sequencer s' = os_fifo_sequencer s \<and>
    os_outgoing_responses s' = os_outgoing_responses s \<and> os_cid_next_exp_seq_num s' = os_cid_next_exp_seq_num s \<and>
    os_cid_tcp_socket s' = os_cid_tcp_socket s \<and> os_cid_next_outgoing_seq_num s' = os_cid_next_outgoing_seq_num s \<and>
    os_run s' = os_run s"
  by (cases p) (auto simp: on_socket_def put_socket_def)

lemma send_response_os:
  assumes "send_response r s = Inr ((), s')"
  shows "os_fifo_sequencer s' = os_fifo_sequencer s \<and> updateReadIndex (os_outgoing_responses s) = Inr ((), os_outgoing_responses s') \<and>
    os_cid_next_exp_seq_num s' = os_cid_next_exp_seq_num s \<and> os_cid_tcp_socket s' = os_cid_tcp_socket s \<and> os_run s' = os_run s \<and>
    os_cid_next_outgoing_seq_num s' = arr_put (unat (resp_client_id r)) (nxt_out s (unat (resp_client_id r)) + 1) (os_cid_next_outgoing_seq_num s)"
  using assms
  by (auto simp: send_response_def Let_def on_outgoing_def arr_idx_def split: option.splits if_splits dest!: on_socket_os)

lemma send_one_os:
  assumes "q_ok (outgoing s)" "q_list (outgoing s) = r # rs" "send_one s = Inr (True, s')"
  shows "send_response r s = Inr ((), s')"
proof -
  obtain i where "getNextToRead (outgoing s) = Inr (Some i, outgoing s)" "read_slot i (outgoing s) = Inr (r, outgoing s)"
    using peek_parts [OF assms(1,2)] by blast
  then show ?thesis
    using assms(3) by (auto simp: send_one_def bnd_def sq_def on_outgoing_def zoom_def LFQueue_size_def split: if_splits sum.splits)
qed

section \<open>The invariant\<close>

definition in_step :: "exchange \<Rightarrow> bool" where
  "in_step x \<longleftrightarrow> server_ok (ex_server x) \<and> me_incoming_requests (ex_engine x) = incoming (ex_server x) \<and>
     me_outgoing_ogw_responses (ex_engine x) = outgoing (ex_server x) \<and>
     q_ok (incoming (ex_server x)) \<and> q_ok (outgoing (ex_server x))"

definition requests_flow :: "exchange \<Rightarrow> bool" where
  "requests_flow x \<longleftrightarrow> ex_published x = ex_released x @ q_list (incoming (ex_server x)) \<and>
     (\<forall>r. ex_taken x = Some r \<longrightarrow> (\<exists>rs. q_list (incoming (ex_server x)) = r # rs)) \<and> accounted (ex_published x) (ex_server x)"

definition responses_flow :: "exchange \<Rightarrow> bool" where
  "responses_flow x \<longleftrightarrow> ex_produced x = ex_replied x @ q_list (outgoing (ex_server x)) \<and>
     (\<forall>c < ME_MAX_NUM_CLIENTS. nxt_out (ex_server x) c = 1 + of_nat (to_client c (ex_replied x)))"

definition books_follow :: "exchange \<Rightarrow> bool" where
  "books_follow x \<longleftrightarrow> (requests_ok (ex_published x) (\<lambda>_. empty_book) \<longrightarrow>
     (\<exists>As us. spec_engine (ex_processed x) (\<lambda>_. empty_book) = Inr (As, ex_produced x, us) \<and> engine_rel (ex_engine x) As))"

definition pipeline :: "exchange \<Rightarrow> bool" where
  "pipeline x \<longleftrightarrow> in_step x \<and> requests_flow x \<and> responses_flow x \<and> books_follow x"

lemmas pipeline_defs = pipeline_def in_step_def requests_flow_def responses_flow_def books_follow_def

lemma pipeline_init:
  assumes "0 < n" "0 < m" "0 < l"
  shows "pipeline (exchange_init n m l logger)"
proof -
  have q: "q_ok (LFQueue_new n MEClientRequest_default)" "q_ok (LFQueue_new m MEClientResponse_default)"
    "q_ok (LFQueue_new l MEMarketUpdate_default)"
    using assms by (simp_all add: LFQueue_new_ok)
  show ?thesis
    using q MatchingEngine_new_rel [OF q_ok_wf [OF q(2)] q_ok_wf [OF q(3)]]
    by (simp add: pipeline_defs exchange_init_def Let_def ex_processed_def server_ok_def OrderServer_new_def
        TCPServer.extend_def FIFOSequencer_new_ok accounted_def engine_rel_def)
      (simp add: MatchingEngine_new_def FIFOSequencer_new_def)
qed

lemma share_server_sel [simp]:
  "ex_server (share_server s x) = s" "ex_taken (share_server s x) = ex_taken x"
  "ex_published (share_server s x) = ex_published x" "ex_released (share_server s x) = ex_released x"
  "ex_produced (share_server s x) = ex_produced x" "ex_replied (share_server s x) = ex_replied x"
  "me_incoming_requests (ex_engine (share_server s x)) = incoming s"
  "me_outgoing_ogw_responses (ex_engine (share_server s x)) = outgoing s"
  "ex_processed (share_server s x) = ex_processed x"
  by (simp_all add: share_server_def ex_processed_def)

lemma share_server_rel: "q_wf (outgoing s) \<Longrightarrow> engine_rel (ex_engine x) As \<Longrightarrow> engine_rel (ex_engine (share_server s x)) As"
  by (simp add: share_server_def engine_rel_def)

lemma share_engine_sel [simp]:
  "ex_engine (share_engine e x) = e" "ex_taken (share_engine e x) = ex_taken x"
  "ex_published (share_engine e x) = ex_published x" "ex_released (share_engine e x) = ex_released x"
  "ex_produced (share_engine e x) = ex_produced x" "ex_replied (share_engine e x) = ex_replied x"
  "incoming (ex_server (share_engine e x)) = me_incoming_requests e"
  "outgoing (ex_server (share_engine e x)) = me_outgoing_ogw_responses e"
  "pending (ex_server (share_engine e x)) = pending (ex_server x)"
  "exp_seq (ex_server (share_engine e x)) = exp_seq (ex_server x)"
  "owner (ex_server (share_engine e x)) = owner (ex_server x)"
  "nxt_out (ex_server (share_engine e x)) = nxt_out (ex_server x)"
  "server_ok (ex_server (share_engine e x)) = server_ok (ex_server x)"
  by (simp_all add: share_engine_def pending_list_def server_ok_def seq_ok_def)

lemma accounted_share_engine [simp]: "accounted rs (ex_server (share_engine e x)) = accounted rs (ex_server x)"
  by (simp add: accounted_def has_socket_def)

lemma requests_ok_prefix: "requests_ok (xs @ ys) As \<Longrightarrow> requests_ok xs As"
  by (simp add: requests_ok_append)

lemma pipeline_poll:
  assumes "pipeline x" "poll evs acs (ex_server x) = Inr ((), s)"
  shows "pipeline (share_server s x)"
proof -
  have "TCPServer.more s = TCPServer.more (ex_server x)" by (rule poll_more [OF assms(2)])
  then have same: "os_fifo_sequencer s = os_fifo_sequencer (ex_server x)" "outgoing s = outgoing (ex_server x)"
    "os_cid_next_exp_seq_num s = os_cid_next_exp_seq_num (ex_server x)" "os_cid_tcp_socket s = os_cid_tcp_socket (ex_server x)"
    "os_cid_next_outgoing_seq_num s = os_cid_next_outgoing_seq_num (ex_server x)"
    by (cases s; cases "ex_server x"; simp)+
  have "in_step (share_server s x)" "requests_flow (share_server s x)" "responses_flow (share_server s x)"
    using assms(1) by (auto simp: pipeline_defs server_ok_def accounted_def has_socket_def same)
  moreover have "books_follow (share_server s x)"
    using assms(1) share_server_rel [of s x] q_ok_wf [of "outgoing s"] by (auto simp: pipeline_defs same)
  ultimately show ?thesis by (simp add: pipeline_def)
qed

lemma pipeline_receive:
  assumes "pipeline x" "std_sort srt"
    "TCPServer_sendAndRecv recvCallback (recvFinishedCallback srt) k k' (ex_server x) = Inr ((), s)"
    "incoming s = fold q_push rs (incoming (ex_server x))" "length rs \<le> q_room (incoming (ex_server x))"
  shows "pipeline (share_server s x\<lparr>ex_published := ex_published x @ rs\<rparr>)"
proof -
  let ?x = "share_server s x\<lparr>ex_published := ex_published x @ rs\<rparr>"
  have q: "q_ok (incoming (ex_server x))" and ok: "server_ok (ex_server x)" "accounted (ex_published x) (ex_server x)"
    using assms(1) unfolding pipeline_def in_step_def requests_flow_def by blast+
  obtain rs' where rs': "incoming s = fold q_push rs' (incoming (ex_server x))" "accounted (ex_published x @ rs') s" "server_ok s"
    "outgoing s = outgoing (ex_server x)" "nxt_out s = nxt_out (ex_server x)"
    using sendAndRecv_later [OF assms(2) ok(1) q_ok_wf [OF q] ok(2) assms(3)] by blast
  have "fold q_push rs (incoming (ex_server x)) = fold q_push rs' (incoming (ex_server x))" using assms(4) rs'(1) by simp
  from fold_push_same [OF q assms(5) this] have "rs' = rs" by simp
  note push = q_push_batch(1,2) [OF q assms(5), folded assms(4)]
  have "in_step ?x" "requests_flow ?x" "responses_flow ?x"
    using assms(1) rs'(2-5) push \<open>rs' = rs\<close> by (auto simp: pipeline_defs)
  moreover have "ex_processed ?x = ex_processed x" by (simp add: ex_processed_def)
  then have "books_follow ?x"
    using assms(1) requests_ok_prefix [of "ex_published x" rs] share_server_rel [of s x] q_ok_wf [of "outgoing s"]
    by (auto simp: pipeline_defs rs'(4))
  ultimately show ?thesis by (simp add: pipeline_def)
qed

lemma pipeline_reply:
  assumes "pipeline x" "q_list (outgoing (ex_server x)) = r # rs" "send_one (ex_server x) = Inr (True, s)"
  shows "pipeline (share_server s x\<lparr>ex_replied := ex_replied x @ [r]\<rparr>)"
proof -
  let ?x = "share_server s x\<lparr>ex_replied := ex_replied x @ [r]\<rparr>"
  have q: "q_ok (outgoing (ex_server x))" using assms(1) by (simp add: pipeline_defs)
  note os = send_response_os [OF send_one_os [OF q assms(2,3)]]
  obtain q' where q': "updateReadIndex (outgoing (ex_server x)) = Inr ((), q')" "q_ok q'" "q_list q' = rs"
    using lfq.pop_ok [OF q] assms(2) by auto
  have out: "q_ok (outgoing s)" "q_list (outgoing s) = rs" using os q' by simp_all
  have "in_step ?x" "requests_flow ?x" using assms(1) os out by (simp_all add: pipeline_defs server_ok_def accounted_def has_socket_def)
  moreover have "responses_flow ?x" using assms(1,2) os out by (simp add: pipeline_defs)
  moreover have "ex_processed ?x = ex_processed x" by (simp add: ex_processed_def)
  then have "books_follow ?x" using assms(1) share_server_rel [OF q_ok_wf [OF out(1)], of x] by (auto simp: pipeline_defs)
  ultimately show ?thesis by (simp add: pipeline_def)
qed

lemma pipeline_release:
  assumes "pipeline x" "ex_taken x = Some r" "on_incoming updateReadIndex (ex_engine x) = Inr ((), e)"
  shows "pipeline (share_engine e x\<lparr>ex_taken := None, ex_released := ex_released x @ [r]\<rparr>)"
proof -
  let ?x = "share_engine e x\<lparr>ex_taken := None, ex_released := ex_released x @ [r]\<rparr>"
  obtain rs where q: "q_ok (incoming (ex_server x))" "q_list (incoming (ex_server x)) = r # rs"
    and same: "me_incoming_requests (ex_engine x) = incoming (ex_server x)"
    using assms(1,2) by (auto simp: pipeline_defs)
  obtain q' where q': "updateReadIndex (incoming (ex_server x)) = Inr ((), q')" "q_ok q'" "q_list q' = rs"
    using lfq.pop_ok [OF q(1)] q(2) by auto
  then have e: "e = (ex_engine x)\<lparr>me_incoming_requests := q'\<rparr>"
    using assms(3) same by (simp add: on_incoming_def)
  have "in_step ?x" "requests_flow ?x" "responses_flow ?x"
    using assms(1) q(2) q'(2,3) by (auto simp: pipeline_defs e)
  moreover have "ex_processed ?x = ex_processed x" using assms(2) by (simp add: ex_processed_def)
  then have "books_follow ?x" using assms(1) by (simp add: pipeline_def books_follow_def e)
  ultimately show ?thesis by (simp add: pipeline_def)
qed

lemma pipeline_process:
  assumes "pipeline x" "ex_taken x = None" "on_incoming peek (ex_engine x) = Inr (Some r, ex_engine x)"
    "processClientRequest r (ex_engine x) = Inr ((), e)"
    "me_outgoing_ogw_responses e = fold q_push ps (me_outgoing_ogw_responses (ex_engine x))"
    "length ps \<le> q_room (me_outgoing_ogw_responses (ex_engine x))"
  shows "pipeline (share_engine e x\<lparr>ex_taken := Some r, ex_produced := ex_produced x @ ps\<rparr>)"
proof -
  let ?x = "share_engine e x\<lparr>ex_taken := Some r, ex_produced := ex_produced x @ ps\<rparr>"
  have q: "q_ok (incoming (ex_server x))" "q_ok (outgoing (ex_server x))"
    and same: "me_incoming_requests (ex_engine x) = incoming (ex_server x)" "me_outgoing_ogw_responses (ex_engine x) = outgoing (ex_server x)"
    using assms(1) by (simp_all add: pipeline_defs)
  obtain rs where rs: "q_list (incoming (ex_server x)) = r # rs"
    using assms(3) lfq.front_ok [OF q(1)] same(1) by (auto simp: on_incoming_def split: list.splits)
  have inc: "me_incoming_requests e = incoming (ex_server x)"
    using assms(4) same(1) by (cases "req_type r") (auto simp: processClientRequest_def on_ticker_def)
  have out: "q_ok (me_outgoing_ogw_responses e)" "q_list (me_outgoing_ogw_responses e) = q_list (outgoing (ex_server x)) @ ps"
    using q_push_batch [OF q(2), of ps] assms(5,6) same(2) by simp_all
  have proc: "ex_processed x = ex_released x" "ex_processed ?x = ex_released x @ [r]" using assms(2) by (simp_all add: ex_processed_def)
  have "books_follow ?x"
    unfolding books_follow_def
  proof
    assume "requests_ok (ex_published ?x) (\<lambda>_. empty_book)"
    then have ok: "requests_ok (ex_published x) (\<lambda>_. empty_book)" by simp
    obtain As us where As: "spec_engine (ex_released x) (\<lambda>_. empty_book) = Inr (As, ex_produced x, us)" "engine_rel (ex_engine x) As"
      using assms(1) ok proc(1) by (auto simp: pipeline_defs)
    have "ex_published x = ex_released x @ r # rs" using assms(1) rs by (simp add: pipeline_defs)
    then have "request_ok r As" using ok As(1) by (simp add: requests_ok_append)
    from process_refines_main [OF As(2) this] assms(4)
    obtain As' ps' us' where spec: "spec_process r As = Inr (As', ps', us')" "engine_sent (ex_engine x) ps' us' e" "engine_rel e As'"
      by (cases "spec_process r As") auto
    have "ps = ps'"
      using fold_push_same [OF q(2), of ps ps'] assms(5,6) same(2) spec(2) by (simp add: engine_sent_def)
    then show "\<exists>As us. spec_engine (ex_processed ?x) (\<lambda>_. empty_book) = Inr (As, ex_produced ?x, us) \<and> engine_rel (ex_engine ?x) As"
      using As(1) spec(1,3) proc(2) by (simp add: spec_engine_append)
  qed
  moreover have "in_step ?x" "requests_flow ?x" "responses_flow ?x"
    using assms(1) q rs inc out by (auto simp: pipeline_defs)
  ultimately show ?thesis by (simp add: pipeline_def)
qed

lemma pipeline_reachable:
  assumes "ex_reachable srt n m l logger x" "std_sort srt" "0 < n" "0 < m" "0 < l"
  shows "pipeline x"
  using assms(1) unfolding ex_reachable_def
proof (induction rule: rtranclp_induct)
  case base
  show ?case by (rule pipeline_init [OF assms(3-5)])
next
  case (step x y)
  from step.hyps(2) show ?case
  proof cases
    case (poll evs acs s)
    then show ?thesis using pipeline_poll step.IH by simp
  next
    case (receive k k' s rs)
    then show ?thesis using pipeline_receive [OF step.IH assms(2)] by simp
  next
    case (reply r rs s)
    then show ?thesis using pipeline_reply step.IH by simp
  next
    case (process r e ps)
    then show ?thesis using pipeline_process step.IH by simp
  next
    case (release r e)
    then show ?thesis using pipeline_release step.IH by simp
  qed
qed

end
