(* ===== verification/Engine_Messages.thy ===== *)
theory Engine_Messages
  imports Matching_Engine
begin

text \<open>
  The messages of the engine, by type: which of their fields hold a value and which the invalid one,
  and which request each of them goes back to.
\<close>

section \<open>Well-typed messages\<close>

definition traded_side :: "Side \<Rightarrow> bool" where
  "traded_side s \<longleftrightarrow> s = BUY \<or> s = SELL"

lemma traded_side_intro [simp]: "traded_side BUY" "traded_side SELL" "s \<in> {BUY, SELL} \<Longrightarrow> traded_side s"
  by (auto simp: traded_side_def)

text \<open>
  A field that is not set holds the invalid value; ids and priorities that are set do not. The prices,
  quantities and order ids of requests are not checked by the engine, so they are related to the
  request below.
\<close>

definition response_typed :: "MEClientResponse \<Rightarrow> bool" where
  "response_typed p \<longleftrightarrow> unat (resp_ticker_id p) < ME_MAX_TICKERS \<and>
     (case resp_type p of
        ACCEPTED \<Rightarrow> traded_side (resp_side p) \<and> resp_market_order_id p \<noteq> OrderId_INVALID \<and> resp_exec_qty p = 0
      | FILLED \<Rightarrow> traded_side (resp_side p) \<and> resp_market_order_id p \<noteq> OrderId_INVALID \<and> resp_exec_qty p \<noteq> 0
      | CANCELED \<Rightarrow> traded_side (resp_side p) \<and> resp_market_order_id p \<noteq> OrderId_INVALID \<and>
          resp_exec_qty p = Qty_INVALID \<and> resp_leaves_qty p \<noteq> 0
      | CANCEL_REJECTED \<Rightarrow> resp_market_order_id p = OrderId_INVALID \<and> resp_side p = Side_INVALID \<and>
          resp_price p = Price_INVALID \<and> resp_exec_qty p = Qty_INVALID \<and> resp_leaves_qty p = Qty_INVALID
      | _ \<Rightarrow> False)"

text \<open>\<open>cancel\<close> publishes a quantity of zero and the priority, a fill the quantity and no priority.\<close>

definition update_typed :: "MEMarketUpdate \<Rightarrow> bool" where
  "update_typed u \<longleftrightarrow> unat (upd_ticker_id u) < ME_MAX_TICKERS \<and> traded_side (upd_side u) \<and>
     (case upd_type u of
        ADD \<Rightarrow> upd_order_id u \<noteq> OrderId_INVALID \<and> upd_qty u \<noteq> 0 \<and> upd_priority u \<noteq> Priority_INVALID
      | MODIFY \<Rightarrow> upd_side u = SELL \<and> upd_order_id u \<noteq> OrderId_INVALID \<and> upd_qty u \<noteq> 0 \<and> upd_priority u \<noteq> Priority_INVALID
      | CANCEL \<Rightarrow> upd_order_id u \<noteq> OrderId_INVALID \<and>
          (upd_qty u = 0 \<and> upd_priority u \<noteq> Priority_INVALID \<or>
           upd_side u = SELL \<and> upd_qty u \<noteq> 0 \<and> upd_priority u = Priority_INVALID)
      | TRADE \<Rightarrow> upd_qty u \<noteq> 0 \<and> upd_side u = BUY \<and> upd_order_id u = OrderId_INVALID \<and> upd_priority u = Priority_INVALID
      | _ \<Rightarrow> False)"

section \<open>The request a message goes back to\<close>

definition request_of :: "MEClientRequest \<Rightarrow> MEClientResponse \<Rightarrow> bool" where
  "request_of q p \<longleftrightarrow> resp_client_id p = req_client_id q \<and> resp_ticker_id p = req_ticker_id q \<and>
     resp_client_order_id p = req_order_id q"

definition new_request_of :: "MEClientRequest \<Rightarrow> MEClientResponse \<Rightarrow> bool" where
  "new_request_of q p \<longleftrightarrow> req_type q = Request_NEW \<and> request_of q p \<and> resp_side p = req_side q"

text \<open>
  The order of a response is one of the new orders, with its client, ticker, order id, side and price;
  a buy order may be filled at a lower price. The quantities are within that of the order.
\<close>

definition answers :: "MEClientRequest set \<Rightarrow> MEClientResponse \<Rightarrow> bool" where
  "answers R p \<longleftrightarrow>
     (case resp_type p of
        ACCEPTED \<Rightarrow> \<exists>q \<in> R. new_request_of q p \<and> resp_price p = req_price q \<and> resp_leaves_qty p = req_qty q
      | FILLED \<Rightarrow> \<exists>q \<in> R. new_request_of q p \<and>
          (if req_side q = BUY then sint (resp_price p) \<le> sint (req_price q) else resp_price p = req_price q) \<and>
          unat (resp_exec_qty p) + unat (resp_leaves_qty p) \<le> unat (req_qty q)
      | CANCELED \<Rightarrow> (\<exists>q \<in> R. req_type q = Request_CANCEL \<and> request_of q p) \<and>
          (\<exists>q \<in> R. new_request_of q p \<and> resp_price p = req_price q \<and> resp_leaves_qty p \<le> req_qty q)
      | CANCEL_REJECTED \<Rightarrow> \<exists>q \<in> R. req_type q = Request_CANCEL \<and> request_of q p
      | _ \<Rightarrow> False)"

text \<open>An update is about a new order with its ticker, side and price; a trade is at the price of a sell order.\<close>

definition reports :: "MEClientRequest set \<Rightarrow> MEMarketUpdate \<Rightarrow> bool" where
  "reports R u \<longleftrightarrow> (\<exists>q \<in> R. req_type q = Request_NEW \<and> req_ticker_id q = upd_ticker_id u \<and> upd_price u = req_price q \<and>
     upd_qty u \<le> req_qty q \<and> req_side q = (if upd_type u = TRADE then SELL else upd_side u))"

lemma answers_client: "answers R p \<Longrightarrow> resp_client_id p \<in> req_client_id ` R"
  by (auto simp: answers_def new_request_of_def request_of_def split: ClientResponseType.splits)

section \<open>The orders in the books\<close>

text \<open>
  An order that rests in the book of ticker \<open>t\<close> at price \<open>p\<close>: it has a quantity, an id below \<open>n\<close>, a
  priority of at most its id, and goes back to a new order.
\<close>

definition ordered :: "MEClientRequest set \<Rightarrow> nat \<Rightarrow> Side \<Rightarrow> Price \<Rightarrow> resting \<Rightarrow> bool" where
  "ordered R t s p r \<longleftrightarrow> (\<exists>q \<in> R. req_type q = Request_NEW \<and> unat (req_ticker_id q) = t \<and> req_client_id q = r_client r \<and>
     req_order_id q = r_oid r \<and> req_side q = s \<and> req_price q = p \<and> r_qty r \<le> req_qty q)"

definition rests :: "MEClientRequest set \<Rightarrow> nat \<Rightarrow> Side \<Rightarrow> OrderId \<Rightarrow> Price \<Rightarrow> resting \<Rightarrow> bool" where
  "rests R t s n p r \<longleftrightarrow> r_qty r \<noteq> 0 \<and> ordered R t s p r \<and> r_moid r < n \<and> r_prio r \<le> r_moid r"

definition level_rests :: "MEClientRequest set \<Rightarrow> nat \<Rightarrow> Side \<Rightarrow> OrderId \<Rightarrow> level \<Rightarrow> bool" where
  "level_rests R t s n l \<longleftrightarrow> snd l \<noteq> [] \<and> (\<forall>r \<in> set (snd l). rests R t s n (fst l) r)"

abbreviation all_rest :: "MEClientRequest set \<Rightarrow> nat \<Rightarrow> Side \<Rightarrow> OrderId \<Rightarrow> level list \<Rightarrow> bool" where
  "all_rest R t s n ls \<equiv> \<forall>l \<in> set ls. level_rests R t s n l"

definition index_typed :: "OrderId \<Rightarrow> abook \<Rightarrow> bool" where
  "index_typed n A \<longleftrightarrow> (\<forall>c oid mo. ab_index A (c, oid) = Some mo \<longrightarrow> mo < n \<and>
     (\<forall>r \<in> set (book_orders A). r_moid r = mo \<longrightarrow> r_client r = c \<and> r_oid r = oid))"

definition book_typed :: "MEClientRequest set \<Rightarrow> nat \<Rightarrow> OrderId \<Rightarrow> abook \<Rightarrow> bool" where
  "book_typed R t n A \<longleftrightarrow> all_rest R t SELL n (ab_asks A) \<and> all_rest R t BUY n (ab_bids A) \<and> index_typed n A \<and> 1 \<le> n"

definition fill_typed :: "MEClientRequest set \<Rightarrow> nat \<Rightarrow> OrderId \<Rightarrow> Qty \<Rightarrow> fill \<Rightarrow> bool" where
  "fill_typed R t n l f \<longleftrightarrow> rests R t SELL n (f_price f) (f_maker f) \<and> f_qty f \<noteq> 0 \<and> f_qty f \<le> r_qty (f_maker f) \<and>
     unat (f_qty f) + unat (f_leaves f) \<le> unat l"

lemma rests_mono: "rests R t s n p r \<Longrightarrow> n \<le> m \<Longrightarrow> rests R t s m p r"
  by (auto simp: rests_def intro: less_le_trans)

lemma all_rest_mono: "all_rest R t s n ls \<Longrightarrow> n \<le> m \<Longrightarrow> all_rest R t s m ls"
  using rests_mono by (fastforce simp: level_rests_def)

lemma all_rest_orders: "all_rest R t s n ls \<Longrightarrow> r \<in> set (orders_of ls) \<Longrightarrow> r_moid r < n"
  by (auto simp: orders_of_def level_rests_def rests_def)

lemma book_typed_mono: "book_typed R t n A \<Longrightarrow> n \<le> m \<Longrightarrow> book_typed R t m A"
  using all_rest_mono unfolding book_typed_def index_typed_def by (meson less_le_trans order_trans)

lemma book_typed_orders: "book_typed R t n A \<Longrightarrow> r \<in> set (book_orders A) \<Longrightarrow> r_moid r < n"
  by (auto simp: book_typed_def book_orders_def all_rest_orders)

text \<open>The index stays typed when orders go or change their quantity, and entries go.\<close>

definition same_order :: "resting \<Rightarrow> resting \<Rightarrow> bool" where
  "same_order r r' \<longleftrightarrow> r_moid r = r_moid r' \<and> r_client r = r_client r' \<and> r_oid r = r_oid r'"

lemma index_typed_less:
  assumes "index_typed n A" "\<And>k mo. ab_index B k = Some mo \<Longrightarrow> ab_index A k = Some mo"
    "\<forall>r \<in> set (book_orders B). \<exists>r' \<in> set (book_orders A). same_order r r'"
  shows "index_typed n B"
  unfolding index_typed_def
proof (intro allI impI conjI ballI)
  fix c oid mo r assume ix: "ab_index B (c, oid) = Some mo"
  have "ab_index A (c, oid) = Some mo" using assms(2) ix by blast
  then have A: "mo < n" "\<forall>r \<in> set (book_orders A). r_moid r = mo \<longrightarrow> r_client r = c \<and> r_oid r = oid"
    using assms(1) unfolding index_typed_def by blast+
  then show "mo < n" by simp
  assume "r \<in> set (book_orders B)" "r_moid r = mo"
  then show "r_client r = c" "r_oid r = oid" using assms(3) A(2) by (force simp: same_order_def)+
qed

lemma match_level_typed:
  "match_level p l rs = (l', rs', fs) \<Longrightarrow> \<forall>r \<in> set rs. rests R t SELL n p r \<Longrightarrow>
     (\<forall>r \<in> set rs'. rests R t SELL n p r) \<and> (\<forall>f \<in> set fs. fill_typed R t n l f \<and> f_price f = p) \<and> l' \<le> l \<and>
     (\<forall>r \<in> set rs'. \<exists>r' \<in> set rs. same_order r r')"
proof (induction p l rs arbitrary: l' rs' fs rule: match_level.induct)
  case (2 p l r rs)
  obtain l1 rs1 fs1 where m: "match_level p (l - r_qty r) rs = (l1, rs1, fs1)"
    by (cases "match_level p (l - r_qty r) rs")
  have r: "rests R t SELL n p r" using "2.prems"(2) by simp
  consider "l = 0" | "l \<noteq> 0" "r_qty r \<le> l" | "l \<noteq> 0" "l < r_qty r" by (meson not_le)
  then show ?case
  proof cases
    case full: 2
    have sum: "unat (l - r_qty r) + unat (r_qty r) = unat l" using full(2) by (simp add: unat_sub word_le_nat_alt)
    then have le: "l - r_qty r \<le> l" unfolding word_le_nat_alt by linarith
    then have less: "fill_typed R t n (l - r_qty r) f \<Longrightarrow> fill_typed R t n l f" for f
      by (auto simp: fill_typed_def word_le_nat_alt)
    let ?f = "\<lparr>f_maker = r, f_price = p, f_qty = r_qty r, f_leaves = l - r_qty r\<rparr>"
    have f: "fill_typed R t n l ?f" using r sum by (simp add: fill_typed_def) (simp add: rests_def)
    have out: "l' = l1" "rs' = rs1" "fs = ?f # fs1" using "2.prems"(1) full m by simp_all
    have "\<forall>r \<in> set rs. rests R t SELL n p r" using "2.prems"(2) by simp
    note IH = "2.IH" [OF full m this]
    have "l' \<le> l" using IH le out(1) order_trans by blast
    moreover have "fill_typed R t n l g \<and> f_price g = p" if "g \<in> set fs" for g
      using that IH f less out(3) by auto
    ultimately show ?thesis using IH out(2) by simp
  next
    case part: 3
    have "r_qty r - l \<le> r_qty r" "r_qty r - l \<noteq> 0"
      using part(2) by (auto intro: word_sub_le less_imp_le)
    then have "rests R t SELL n p (r\<lparr>r_qty := r_qty r - l\<rparr>)" using r by (fastforce simp: rests_def ordered_def)
    then show ?thesis
      using part "2.prems" r by (auto simp: fill_typed_def same_order_def less_imp_le not_le [symmetric])
  qed (use "2.prems" in \<open>auto simp: same_order_def\<close>)
qed simp

lemma match_asks_typed:
  "match_asks price l ls = (l', ls', fs) \<Longrightarrow> all_rest R t SELL n ls \<Longrightarrow>
     all_rest R t SELL n ls' \<and> (\<forall>f \<in> set fs. fill_typed R t n l f \<and> sint (f_price f) \<le> sint price) \<and> l' \<le> l \<and>
     (\<forall>r \<in> set (orders_of ls'). \<exists>r' \<in> set (orders_of ls). same_order r r')"
proof (induction price l ls arbitrary: l' ls' fs rule: match_asks.induct)
  case (2 price l p rs ls)
  obtain l1 rs1 fs1 where m: "match_level p l rs = (l1, rs1, fs1)" by (cases "match_level p l rs")
  obtain l2 ls2 fs2 where o: "match_asks price l1 ls = (l2, ls2, fs2)" by (cases "match_asks price l1 ls")
  have rs: "\<forall>r \<in> set rs. rests R t SELL n p r" and ls: "all_rest R t SELL n ls" using "2.prems"(2) by (simp_all add: level_rests_def)
  note lv = match_level_typed [OF m rs]
  have less: "fill_typed R t n l1 f \<Longrightarrow> fill_typed R t n l f" for f
    using lv by (auto simp: fill_typed_def word_le_nat_alt)
  show ?case
  proof (cases "l = 0 \<or> sint price < sint p")
    case True
    then show ?thesis using "2.prems" by (auto simp: same_order_def)
  next
    case False
    then have le: "sint p \<le> sint price" by simp
    show ?thesis
    proof (cases "rs1 = []")
      case True
      have out: "l' = l2" "ls' = ls2" "fs = fs1 @ fs2" using "2.prems"(1) False m o True by auto
      note IH = "2.IH" [OF False m [symmetric] refl True o ls]
      have "\<forall>r \<in> set (orders_of ls'). \<exists>r' \<in> set (orders_of ((p, rs) # ls)). same_order r r'"
        using IH out by fastforce
      then show ?thesis using IH lv le out less order_trans [of l2 l1 l] by auto
    next
      case rs1: False
      then have out: "l' = l1" "ls' = (p, rs1) # ls" "fs = fs1" using "2.prems"(1) False m by auto
      have "\<forall>r \<in> set (orders_of ls'). \<exists>r' \<in> set (orders_of ((p, rs) # ls)). same_order r r'"
        using lv out by (auto simp: same_order_def)
      then show ?thesis using lv le out ls rs1 by (auto simp: level_rests_def)
    qed
  qed
qed (simp add: same_order_def)

lemma short_id_valid: "short_id mo \<noteq> OrderId_INVALID"
proof
  assume "short_id mo = OrderId_INVALID"
  then have "unat (ucast (ucast mo :: 32 word) :: 64 word) = unat (2 ^ 64 - 1 :: 64 word)"
    by (simp only: short_id_def OrderId_INVALID_def)
  moreover have "unat (ucast (ucast mo :: 32 word) :: 64 word) < 2 ^ 32"
    using unsigned_less [of "ucast mo :: 32 word", where ?'a = nat] by (simp add: unsigned_ucast_eq take_bit_word_eq_self unsigned_take_bit_eq)
  ultimately show False by simp
qed

lemma below_valid:
  assumes "(a :: 64 word) < n"
  shows "a \<noteq> OrderId_INVALID" "a \<noteq> Priority_INVALID"
proof -
  have "unat n < 2 ^ LENGTH(64)" by (rule unsigned_less)
  then have "unat a \<noteq> 2 ^ 64 - 1" using assms by (simp add: word_less_nat_alt)
  then show "a \<noteq> OrderId_INVALID" "a \<noteq> Priority_INVALID" by (auto simp: OrderId_INVALID_def Priority_INVALID_def)
qed

section \<open>The operations\<close>

lemma fill_messages_typed:
  assumes "fill_typed R t n (req_qty q) f" "sint (f_price f) \<le> sint (req_price q)" "t < ME_MAX_TICKERS"
    "q \<in> R" "req_type q = Request_NEW" "req_side q = BUY" "unat (req_ticker_id q) = t" "mo \<noteq> OrderId_INVALID"
  shows "\<forall>p \<in> set (fill_responses (req_client_id q) (req_order_id q) (req_ticker_id q) mo f). response_typed p \<and> answers R p"
    and "\<forall>u \<in> set (fill_updates (req_ticker_id q) f). update_typed u \<and> reports R u"
proof -
  have r: "rests R t SELL n (f_price f) (f_maker f)" and f: "f_qty f \<noteq> 0" "f_qty f \<le> r_qty (f_maker f)"
      "unat (f_qty f) + unat (f_leaves f) \<le> unat (req_qty q)"
    using assms(1) by (simp_all add: fill_typed_def)
  then obtain m where m: "m \<in> R" "req_type m = Request_NEW" "unat (req_ticker_id m) = t" "req_client_id m = r_client (f_maker f)"
      "req_order_id m = r_oid (f_maker f)" "req_side m = SELL" "req_price m = f_price f" "r_qty (f_maker f) \<le> req_qty m"
    by (auto simp: rests_def ordered_def)
  have tick: "req_ticker_id m = req_ticker_id q" using m(3) assms(7) by (metis word_unat_eq_iff)
  have id: "r_moid (f_maker f) \<noteq> OrderId_INVALID" "r_prio (f_maker f) \<noteq> Priority_INVALID"
    using r below_valid(1) [of _ n] below_valid(2) [OF le_less_trans, of _ _ n] unfolding rests_def by blast+
  have sum: "unat (f_qty f) + unat (r_qty (f_maker f) - f_qty f) = unat (r_qty (f_maker f))"
    using f(2) by (simp add: unat_sub word_le_nat_alt)
  then have left: "r_qty (f_maker f) - f_qty f \<le> req_qty m" "f_qty f \<le> req_qty m"
    "unat (f_qty f) + unat (r_qty (f_maker f) - f_qty f) \<le> unat (req_qty m)"
    using m(8) by (simp_all add: word_le_nat_alt)
  have "new_request_of q (fill_responses (req_client_id q) (req_order_id q) (req_ticker_id q) mo f ! 0)"
    "new_request_of m (fill_responses (req_client_id q) (req_order_id q) (req_ticker_id q) mo f ! 1)"
    using assms m tick by (simp_all add: new_request_of_def request_of_def fill_responses_def)
  then show "\<forall>p \<in> set (fill_responses (req_client_id q) (req_order_id q) (req_ticker_id q) mo f). response_typed p \<and> answers R p"
    using assms m(1,6,7) f id left(3) by (auto simp: fill_responses_def response_typed_def answers_def)
  have "r_qty (f_maker f) - f_qty f \<noteq> 0" if "f_qty f \<noteq> r_qty (f_maker f)" using that by simp
  then have "update_typed u" if u: "u \<in> set (fill_updates (req_ticker_id q) f)" for u
    using u assms(3,7) f(1) id by (cases "f_qty f = r_qty (f_maker f)") (auto simp: fill_updates_def update_typed_def)
  moreover have "reports R u" if u: "u \<in> set (fill_updates (req_ticker_id q) f)" for u
    unfolding reports_def using u m(1,2,6-8) tick left by (intro bexI [of _ m]) (auto simp: fill_updates_def split: if_splits)
  ultimately show "\<forall>u \<in> set (fill_updates (req_ticker_id q) f). update_typed u \<and> reports R u" by blast
qed

lemma all_rest_append_at:
  "all_rest R t s n ls \<Longrightarrow> rests R t s n p r \<Longrightarrow> all_rest R t s n (append_at p r ls)"
  by (induction p r ls rule: append_at.induct) (auto simp: level_rests_def)

lemma orders_append_at: "set (orders_of (append_at p r ls)) \<subseteq> insert r (set (orders_of ls))"
  by (induction p r ls rule: append_at.induct) auto

lemma orders_split: "set (orders_of (takeWhile P ls @ (p, [r]) # dropWhile P ls)) = insert r (set (orders_of ls))"
proof -
  have "set (orders_of ls) = set (orders_of (takeWhile P ls @ dropWhile P ls))" by simp
  then show ?thesis by (auto simp: orders_of_def simp del: takeWhile_dropWhile_id)
qed

text \<open>Placing an order with the next id.\<close>

lemma place_typed:
  assumes "place side p r A = Inr A'" "book_typed R t n A" "rests R t side m p r" "side \<in> {BUY, SELL}" "r_moid r = n" "n < m"
  shows "book_typed R t m A'"
proof -
  obtain B where B: "(if level_at p (side_levels side A) = None then new_level side p r A else Inr (append_level side p r A)) = Inr B"
    "A' = B\<lparr>ab_index := (ab_index B)((r_client r, r_oid r) := Some (r_moid r))\<rparr>"
    using assms(1) by (auto simp: place_def split: if_splits sum.splits)
  have le: "n \<le> m" using assms(6) by simp
  have asks: "all_rest R t SELL m (ab_asks A)" and bids: "all_rest R t BUY m (ab_bids A)" and ix: "index_typed n A" and one: "1 \<le> n"
    using assms(2) all_rest_mono [OF _ le] unfolding book_typed_def by blast+
  have single: "level_rests R t side m (p, [r])" using assms(3) by (simp add: level_rests_def)
  have parts: "all_rest R t s m ls \<Longrightarrow> all_rest R t s m (takeWhile P ls @ l # dropWhile P ls)" if "level_rests R t s m l" for s ls l P
    using that by (auto dest: set_takeWhileD set_dropWhileD)
  have levels: "all_rest R t SELL m (ab_asks B)" "all_rest R t BUY m (ab_bids B)" "ab_index B = ab_index A"
    "set (book_orders B) \<subseteq> insert r (set (book_orders A))"
  proof -
    consider (append) "B = append_level side p r A" | (bid) "side = BUY" "B = A\<lparr>ab_bids := (p, [r]) # ab_bids A\<rparr>"
      | (ask) op where "side = SELL" "B = A\<lparr>ab_asks := takeWhile (cheaper_level p) (ab_asks A) @ (p, [r]) # dropWhile (cheaper_level p) (ab_asks A),
          ab_open := op\<rparr>"
      using B(1) assms(4) by (auto simp: new_level_def Let_def split: if_splits)
    then have "all_rest R t SELL m (ab_asks B) \<and> all_rest R t BUY m (ab_bids B) \<and> ab_index B = ab_index A \<and>
      set (book_orders B) \<subseteq> insert r (set (book_orders A))"
    proof cases
      case append
      then show ?thesis
        using asks bids assms(3,4) all_rest_append_at [of _ R t side m p r] orders_append_at [of p r]
        by (cases "side = BUY") (auto simp: append_level_def book_orders_def dest!: subsetD [OF orders_append_at])
    next
      case bid
      then show ?thesis using asks bids single by (auto simp: book_orders_def)
    next
      case ask
      then show ?thesis
        using bids parts [OF single asks [folded ask(1)], of "cheaper_level p"] orders_split [of "cheaper_level p" "ab_asks A" p r]
        by (auto simp: book_orders_def)
    qed
    then show "all_rest R t SELL m (ab_asks B)" "all_rest R t BUY m (ab_bids B)" "ab_index B = ab_index A"
      "set (book_orders B) \<subseteq> insert r (set (book_orders A))" by blast+
  qed
  have "index_typed m A'"
    unfolding index_typed_def
  proof (intro allI impI conjI ballI)
    fix c oid mo x assume look: "ab_index A' (c, oid) = Some mo"
    have old: "mo < n \<and> (\<forall>r \<in> set (book_orders A). r_moid r = mo \<longrightarrow> r_client r = c \<and> r_oid r = oid)"
      if "(c, oid) \<noteq> (r_client r, r_oid r)"
      using look B(2) levels(3) that ix unfolding index_typed_def by auto
    have here: "mo = n" if "(c, oid) = (r_client r, r_oid r)" using look B(2) that assms(5) by auto
    show "mo < m"
    proof (cases "(c, oid) = (r_client r, r_oid r)")
      case False
      then show ?thesis using old less_trans [OF _ assms(6)] by blast
    qed (use here assms(6) in simp)
    assume x: "x \<in> set (book_orders A')" "r_moid x = mo"
    then have mem: "x = r \<or> x \<in> set (book_orders A)" using B(2) levels(4) by (auto simp: book_orders_def)
    have "r_client x = c \<and> r_oid x = oid"
    proof (cases "(c, oid) = (r_client r, r_oid r)")
      case True
      have "x \<notin> set (book_orders A)" using book_typed_orders [OF assms(2), of x] x(2) here [OF True] by blast
      then show ?thesis using mem True by simp
    next
      case False
      have "x \<noteq> r" using old [OF False] x(2) assms(5) by blast
      then show ?thesis using old [OF False] mem x(2) by blast
    qed
    then show "r_client x = c" "r_oid x = oid" by blast+
  qed
  then show ?thesis using levels(1,2) B(2) one le by (simp add: book_typed_def)
qed

lemma forget_less: "fold forget rs ix k = Some mo \<Longrightarrow> ix k = Some mo"
proof (induction rs arbitrary: ix)
  case (Cons r rs)
  from Cons.IH [of "forget r ix"] Cons.prems show ?case by (simp add: forget_def split: if_splits)
qed simp

lemma spec_match_typed:
  assumes "spec_match side price qty A = (l, A', fs)" "book_typed R t n A"
  shows "book_typed R t n A' \<and> (\<forall>f \<in> set fs. fill_typed R t n qty f \<and> sint (f_price f) \<le> sint price \<and> side = BUY) \<and> l \<le> qty"
proof (cases "side = BUY")
  case True
  obtain ls where m: "match_asks price qty (ab_asks A) = (l, ls, fs)" "A' = after_match A ls fs"
    using assms(1) True by (auto simp: spec_match_def split: prod.splits)
  have "all_rest R t SELL n (ab_asks A)" using assms(2) by (simp add: book_typed_def)
  note spec = match_asks_typed [OF m(1) this]
  have same: "ab_asks A' = ls" "ab_bids A' = ab_bids A" "ab_index A' = fold forget (full_makers fs) (ab_index A)"
    using m(2) by (simp_all add: after_match_def)
  have "index_typed n A'"
  proof (rule index_typed_less)
    show "index_typed n A" using assms(2) by (simp add: book_typed_def)
    show "ab_index A k = Some mo" if "ab_index A' k = Some mo" for k mo using that forget_less unfolding same(3) by blast
    show "\<forall>r \<in> set (book_orders A'). \<exists>r' \<in> set (book_orders A). same_order r r'"
      using spec by (auto simp: book_orders_def same same_order_def)
  qed
  then show ?thesis using spec same assms(2) True by (auto simp: book_typed_def)
qed (use assms in \<open>simp add: spec_match_def\<close>)

lemma next_priority:
  assumes "book_typed R t n A" "side \<in> {BUY, SELL}"
  shows "spec_priority side p A \<le> n"
proof (cases "level_at p (side_levels side A)")
  case None
  then show ?thesis using assms(1) by (simp add: spec_priority_def book_typed_def)
next
  case (Some rs)
  have "level_at p ls = Some rs \<Longrightarrow> (p, rs) \<in> set ls" for ls by (induction ls) (auto split: if_splits)
  then have "(p, rs) \<in> set (side_levels side A)" using Some by blast
  then have "level_rests R t side n (p, rs)" using assms by (auto simp: side_levels_def book_typed_def)
  then have "rests R t side n p (last rs)" by (simp add: level_rests_def)
  then have "r_prio (last rs) < n" by (auto simp: rests_def)
  from inc_le [OF this] show ?thesis using Some by (simp add: spec_priority_def add.commute)
qed

lemma empty_book_typed [simp]: "book_typed R t (ab_next empty_book) empty_book"
  by (simp add: book_typed_def empty_book_def index_typed_def)

lemma place_next: "place side p r A = Inr A' \<Longrightarrow> ab_next A' = ab_next A"
  by (auto simp: place_def new_level_def append_level_def Let_def split: if_splits sum.splits)

lemma spec_add_typed:
  assumes "spec_add (req_client_id q) (req_order_id q) (req_ticker_id q) (req_side q) (req_price q) (req_qty q) A = Inr (A', ps, us)"
    "book_typed R t (ab_next A) A" "ab_next A \<noteq> - 1" "t < ME_MAX_TICKERS" "req_side q \<in> {BUY, SELL}"
    "q \<in> R" "req_type q = Request_NEW" "unat (req_ticker_id q) = t"
  shows "book_typed R t (ab_next A') A' \<and> (\<forall>p \<in> set ps. response_typed p \<and> answers R p) \<and> (\<forall>u \<in> set us. update_typed u \<and> reports R u)"
proof -
  let ?c = "req_client_id q" and ?oid = "req_order_id q" and ?t = "req_ticker_id q" and ?mo = "ab_next A"
  obtain l B fs where m: "spec_match (req_side q) (req_price q) (req_qty q) (A\<lparr>ab_next := ?mo + 1\<rparr>) = (l, B, fs)"
    by (cases "spec_match (req_side q) (req_price q) (req_qty q) (A\<lparr>ab_next := ?mo + 1\<rparr>)")
  have "book_typed R t ?mo (A\<lparr>ab_next := ?mo + 1\<rparr>)"
    using assms(2) by (simp add: book_typed_def index_typed_def book_orders_def)
  note typed = spec_match_typed [OF m this]
  have keep: "ab_next B = ?mo + 1" using spec_match_keeps(1) [OF m] by simp
  have less: "?mo < ?mo + 1" using word_less_succ [OF assms(3)] .
  note valid = below_valid [OF less]
  have fills: "\<forall>p \<in> set (concat (map (fill_responses ?c ?oid ?t (short_id ?mo)) fs)). response_typed p \<and> answers R p"
    "\<forall>u \<in> set (concat (map (fill_updates ?t) fs)). update_typed u \<and> reports R u"
    using typed fill_messages_typed [of R t ?mo q _ "short_id ?mo"] assms(4,6-8) short_id_valid by fastforce+
  let ?acc = "\<lparr>resp_type = ACCEPTED, resp_client_id = ?c, resp_ticker_id = ?t, resp_client_order_id = ?oid,
    resp_market_order_id = ?mo, resp_side = req_side q, resp_price = req_price q, resp_exec_qty = 0, resp_leaves_qty = req_qty q\<rparr>"
  have acc: "response_typed ?acc" "answers R ?acc"
    using assms(4-8) valid(1) by (auto simp: response_typed_def answers_def new_request_of_def request_of_def)
  show ?thesis
  proof (cases "l = 0")
    case True
    have "book_typed R t (?mo + 1) B" using typed less book_typed_mono by (meson less_imp_le)
    moreover have "A' = B" "ps = ?acc # concat (map (fill_responses ?c ?oid ?t (short_id ?mo)) fs)"
      "us = concat (map (fill_updates ?t) fs)" using True assms(1) m by (simp_all add: spec_add_def Let_def)
    ultimately show ?thesis using keep fills acc by simp
  next
    case False
    let ?prio = "spec_priority (req_side q) (req_price q) B"
    let ?r = "\<lparr>r_client = ?c, r_oid = ?oid, r_moid = ?mo, r_qty = l, r_prio = ?prio\<rparr>"
    let ?add = "\<lparr>upd_type = ADD, upd_order_id = ?mo, upd_ticker_id = ?t, upd_side = req_side q, upd_price = req_price q,
      upd_qty = l, upd_priority = ?prio\<rparr>"
    have out: "place (req_side q) (req_price q) ?r B = Inr A'" "ps = ?acc # concat (map (fill_responses ?c ?oid ?t (short_id ?mo)) fs)"
      "us = concat (map (fill_updates ?t) fs) @ [?add]"
      using False assms(1) m by (auto simp: spec_add_def Let_def split: sum.splits)
    have prio: "?prio \<le> ?mo" using next_priority typed assms(5) by blast
    have "ordered R t (req_side q) (req_price q) ?r" unfolding ordered_def using assms(6-8) typed by (intro bexI [of _ q]) simp_all
    then have "rests R t (req_side q) (?mo + 1) (req_price q) ?r" using False less prio by (simp add: rests_def)
    from place_typed [OF out(1) _ this assms(5) _ less] have "book_typed R t (?mo + 1) A'" using typed by simp
    moreover have "update_typed ?add" "reports R ?add"
      using False assms(4-8) typed valid(1) below_valid(2) [OF le_less_trans [OF prio less]]
      by (auto simp: update_typed_def reports_def)
    ultimately show ?thesis using out(2,3) fills acc keep place_next [OF out(1)] by simp
  qed
qed

lemma find_in_typed: "find_in side mo ls = Some (s, p, r) \<Longrightarrow> all_rest R t side n ls \<Longrightarrow>
    s = side \<and> rests R t side n p r \<and> r \<in> set (orders_of ls) \<and> r_moid r = mo"
proof -
  let ?xs = "concat (map (\<lambda>(p, rs). map (\<lambda>r. (side, p, r)) rs) ls)"
  assume "find_in side mo ls = Some (s, p, r)" and rest: "all_rest R t side n ls"
  then have "r_moid r = mo" "(s, p, r) \<in> set ?xs" by (auto simp: find_in_def find_Some_iff dest: nth_mem)
  moreover from this(2) obtain rs where rs: "s = side" "(p, rs) \<in> set ls" "r \<in> set rs" by auto
  moreover have "level_rests R t side n (p, rs)" using rs(2) rest by blast
  moreover have "r \<in> set (orders_of ls)" using rs(2,3) unfolding orders_of_def by force
  ultimately show ?thesis by (simp add: level_rests_def)
qed

lemma all_rest_without: "all_rest R t s n ls \<Longrightarrow> all_rest R t s n (without mo ls)"
  by (auto simp: level_rests_def without_def)

lemma orders_without: "set (orders_of (without mo ls)) \<subseteq> set (orders_of ls)"
  by (auto simp: orders_of_def without_def)

lemma remove_typed:
  assumes "remove_order mo r A = Inr B" "book_typed R t n A"
  shows "book_typed R t n B \<and> ab_next B = ab_next A"
proof -
  have B: "ab_asks B = without mo (ab_asks A)" "ab_bids B = without mo (ab_bids A)" "ab_index B = forget r (ab_index A)" "ab_next B = ab_next A"
    using assms(1) by (auto simp: remove_order_def split: if_splits)
  have "index_typed n B"
  proof (rule index_typed_less)
    show "index_typed n A" using assms(2) by (simp add: book_typed_def)
    show "ab_index A k = Some m" if "ab_index B k = Some m" for k m using that forget_less [of "[r]"] by (simp add: B(3))
    show "\<forall>x \<in> set (book_orders B). \<exists>r' \<in> set (book_orders A). same_order x r'"
      using orders_without by (fastforce simp: book_orders_def B(1,2) same_order_def)
  qed
  then show ?thesis using assms(2) all_rest_without unfolding book_typed_def B by blast
qed

lemma spec_cancel_typed:
  assumes "spec_cancel (req_client_id q) (req_order_id q) (req_ticker_id q) A = Inr (A', ps, us)" "book_typed R t (ab_next A) A"
    "t < ME_MAX_TICKERS" "q \<in> R" "req_type q = Request_CANCEL" "unat (req_ticker_id q) = t"
  shows "book_typed R t (ab_next A') A' \<and> (\<forall>p \<in> set ps. response_typed p \<and> answers R p) \<and> (\<forall>u \<in> set us. update_typed u \<and> reports R u)"
proof -
  let ?c = "req_client_id q" and ?oid = "req_order_id q" and ?t = "req_ticker_id q" and ?n = "ab_next A"
  have rejected: "response_typed (cancel_rejected ?c ?oid ?t)" "answers R (cancel_rejected ?c ?oid ?t)"
    using assms(3-6) by (auto simp: response_typed_def answers_def cancel_rejected_def request_of_def)
  consider (rejected) "A' = A" "ps = [cancel_rejected ?c ?oid ?t]" "us = []"
    | (found) mo side p r where "ab_index A (?c, ?oid) = Some mo" "find_order mo A = Some (side, p, r)" "remove_order mo r A = Inr A'"
      "ps = [\<lparr>resp_type = CANCELED, resp_client_id = ?c, resp_ticker_id = ?t, resp_client_order_id = ?oid,
         resp_market_order_id = mo, resp_side = side, resp_price = p, resp_exec_qty = Qty_INVALID, resp_leaves_qty = r_qty r\<rparr>]"
      "us = [\<lparr>upd_type = CANCEL, upd_order_id = mo, upd_ticker_id = ?t, upd_side = side, upd_price = p, upd_qty = 0,
         upd_priority = r_prio r\<rparr>]"
    using assms(1) by (auto simp: spec_cancel_def split: if_splits option.splits sum.splits)
  then show ?thesis
  proof cases
    case rejected
    then show ?thesis using assms(2) \<open>response_typed (cancel_rejected ?c ?oid ?t)\<close> \<open>answers R (cancel_rejected ?c ?oid ?t)\<close> by simp
  next
    case found
    have "traded_side side \<and> rests R t side ?n p r \<and> r \<in> set (book_orders A) \<and> r_moid r = mo"
      using found(2) assms(2) find_in_typed [of SELL mo "ab_asks A" side p r R t ?n] find_in_typed [of BUY mo "ab_bids A" side p r R t ?n]
      by (auto simp: find_order_def book_typed_def book_orders_def split: option.splits)
    then have r: "traded_side side" "rests R t side ?n p r" "r \<in> set (book_orders A)" "r_moid r = mo" by blast+
    have mine: "r_client r = ?c" "r_oid r = ?oid"
      using assms(2) found(1) r(3,4) unfolding book_typed_def index_typed_def by blast+
    obtain m where m: "m \<in> R" "req_type m = Request_NEW" "req_ticker_id m = ?t" "req_client_id m = ?c" "req_order_id m = ?oid"
        "req_side m = side" "req_price m = p" "r_qty r \<le> req_qty m"
      using r(2) mine assms(6) unfolding rests_def ordered_def by (metis word_unat_eq_iff)
    have ids: "mo \<noteq> OrderId_INVALID" "r_prio r \<noteq> Priority_INVALID" "r_qty r \<noteq> 0"
      using r(2) below_valid(1) [of mo ?n] below_valid(2) [OF le_less_trans, of "r_prio r" mo ?n] unfolding rests_def r(4) by blast+
    have "response_typed p' \<and> answers R p'" if "p' \<in> set ps" for p'
      using that found(4) ids r(1) assms(3-6) m by (auto simp: response_typed_def answers_def new_request_of_def request_of_def)
    moreover have "update_typed u \<and> reports R u" if "u \<in> set us" for u
      using that found(5) ids r(1) assms(3,6) m by (auto simp: update_typed_def reports_def)
    ultimately show ?thesis using remove_typed [OF found(3) assms(2)] by simp
  qed
qed

lemma spec_process_typed:
  assumes "spec_process q As = Inr (As', ps, us)" "request_ok q As" "\<forall>i. book_typed R i (ab_next (As i)) (As i)" "q \<in> R"
  shows "(\<forall>i. book_typed R i (ab_next (As' i)) (As' i)) \<and> (\<forall>p \<in> set ps. response_typed p \<and> answers R p) \<and>
    (\<forall>u \<in> set us. update_typed u \<and> reports R u)"
proof -
  let ?i = "unat (req_ticker_id q)"
  have t: "?i < ME_MAX_TICKERS" using assms(1) by (simp add: spec_process_def Let_def split: if_splits)
  show ?thesis
  proof (cases "req_type q")
    case Request_NEW
    obtain B where B: "spec_add (req_client_id q) (req_order_id q) (req_ticker_id q) (req_side q) (req_price q)
        (req_qty q) (As ?i) = Inr (B, ps, us)" "As' = As(?i := B)"
      using assms(1) t Request_NEW by (auto simp: spec_process_def Let_def map_sum_def split: sum.splits)
    have ok: "req_side q \<in> {BUY, SELL}" "ab_next (As ?i) \<noteq> - 1" using assms(2) t Request_NEW by (simp_all add: request_ok_def add_ok_def)
    have "book_typed R ?i (ab_next (As ?i)) (As ?i)" using assms(3) by blast
    from spec_add_typed [OF B(1) this ok(2) t ok(1) assms(4) Request_NEW refl] show ?thesis using assms(3) B(2) by simp
  next
    case Request_CANCEL
    obtain B where B: "spec_cancel (req_client_id q) (req_order_id q) (req_ticker_id q) (As ?i) = Inr (B, ps, us)" "As' = As(?i := B)"
      using assms(1) t Request_CANCEL by (auto simp: spec_process_def Let_def map_sum_def split: sum.splits)
    have "book_typed R ?i (ab_next (As ?i)) (As ?i)" using assms(3) by blast
    from spec_cancel_typed [OF B(1) this t assms(4) Request_CANCEL refl] show ?thesis using assms(3) B(2) by simp
  qed (use assms(1) t in \<open>simp_all add: spec_process_def Let_def\<close>)
qed

lemma spec_engine_typed:
  assumes "spec_engine rs As = Inr (As', ps, us)" "requests_ok rs As" "\<forall>i. book_typed R i (ab_next (As i)) (As i)" "set rs \<subseteq> R"
  shows "(\<forall>p \<in> set ps. response_typed p \<and> answers R p) \<and> (\<forall>u \<in> set us. update_typed u \<and> reports R u)"
  using assms
proof (induction rs arbitrary: As ps us)
  case (Cons r rs)
  obtain As1 ps1 us1 where one: "spec_process r As = Inr (As1, ps1, us1)"
    using Cons.prems(1) by (auto split: sum.splits)
  obtain ps2 us2 where two: "spec_engine rs As1 = Inr (As', ps2, us2)" "ps = ps1 @ ps2" "us = us1 @ us2"
    using Cons.prems(1) one by (auto split: sum.splits)
  have "request_ok r As" "requests_ok rs As1" "r \<in> R" "set rs \<subseteq> R" using Cons.prems(2,4) one by simp_all
  note typed = spec_process_typed [OF one this(1) Cons.prems(3) this(3)]
  have "\<forall>i. book_typed R i (ab_next (As1 i)) (As1 i)" using typed by blast
  note rest = Cons.IH [OF two(1) \<open>requests_ok rs As1\<close> this \<open>set rs \<subseteq> R\<close>]
  show ?case
  proof (intro conjI ballI)
    fix p assume "p \<in> set ps"
    then show "response_typed p" "answers R p" using typed rest unfolding two(2) set_append by blast+
  next
    fix u assume "u \<in> set us"
    then show "update_typed u" "reports R u" using typed rest unfolding two(3) set_append by blast+
  qed
qed simp

text \<open>For an engine that starts with empty books.\<close>

lemma engine_messages:
  assumes "spec_engine rs (\<lambda>_. empty_book) = Inr (As', ps, us)" "requests_ok rs (\<lambda>_. empty_book)"
  shows "(\<forall>p \<in> set ps. response_typed p \<and> answers (set rs) p) \<and> (\<forall>u \<in> set us. update_typed u \<and> reports (set rs) u)"
  by (rule spec_engine_typed [OF assms]) simp_all

section \<open>Properties\<close>

text \<open>
  C25. The messages of an engine that starts with empty books are well-typed and go back to the requests.
  A response is an acceptance, a fill, a cancellation or a rejection: an acceptance repeats the client,
  ticker, order id, side, price and quantity of a new order; a fill is of a new order, for a quantity that
  is not zero and within that of the order together with what is left, at the price of a sell order and
  at the limit of a buy order or below; a cancellation is of a new order and asked for by a cancel
  request, a rejection by a cancel request, with all but its ids invalid. The market order ids of the
  others are valid. An update adds, modifies, cancels or trades on the ticker of a new order, at its
  price; quantities, ids and priorities are set or invalid as the kind of update has it.
\<close>

theorem engine_messages_typed:
  assumes "engine_rel e (\<lambda>_. empty_book)" "q_ok (me_incoming_requests e)" "me_run e"
    "requests_ok (q_list (me_incoming_requests e)) (\<lambda>_. empty_book)" "length (q_list (me_incoming_requests e)) \<le> n"
    "run_rounds n e = Inr ((), e')"
  shows "\<exists>ps us. engine_sent e ps us e' \<and>
    (\<forall>p \<in> set ps. response_typed p \<and> answers (set (q_list (me_incoming_requests e))) p) \<and>
    (\<forall>u \<in> set us. update_typed u \<and> reports (set (q_list (me_incoming_requests e))) u)"
proof -
  obtain As ps us where run: "spec_engine (q_list (me_incoming_requests e)) (\<lambda>_. empty_book) = Inr (As, ps, us)" "engine_sent e ps us e'"
    using run_rounds_refine [OF assms(1-3) refl assms(4,5)] assms(6) by (auto split: sum.splits)
  from engine_messages [OF run(1) assms(4)] show ?thesis using run(2) by blast
qed

theorem engine_messages_typed_witness:
  "\<exists>e'. run_rounds 5 (engine_with crossing_pair) = Inr ((), e') \<and> length (q_list (me_outgoing_ogw_responses e')) = 4 \<and>
     (\<forall>p \<in> set (q_list (me_outgoing_ogw_responses e')). response_typed p \<and> answers (set crossing_pair) p) \<and>
     length (q_list (me_outgoing_md_updates e')) = 3 \<and>
     (\<forall>u \<in> set (q_list (me_outgoing_md_updates e')). update_typed u \<and> reports (set crossing_pair) u)"
proof -
  note e = engine_with_ok [OF crossing_pair_length]
  obtain As rs us where run: "spec_engine crossing_pair (\<lambda>_. empty_book) = Inr (As, rs, us)"
      "map resp_type rs = [ACCEPTED, ACCEPTED, FILLED, FILLED]" "map upd_type us = [ADD, TRADE, CANCEL]"
    using crossing_pair_spec by (elim exE conjE)
  have len: "length rs = 4" "length us = 3" using arg_cong [OF run(2), of length] arg_cong [OF run(3), of length] by simp_all
  have pre: "requests_ok (q_list (me_incoming_requests (engine_with crossing_pair))) (\<lambda>_. empty_book)"
    "length (q_list (me_incoming_requests (engine_with crossing_pair))) \<le> 5"
    unfolding e(4) using crossing_pair_ok by (simp_all add: crossing_pair_def)
  obtain e' where e': "run_rounds 5 (engine_with crossing_pair) = Inr ((), e')"
      "engine_sent (engine_with crossing_pair) rs us e'"
    using run_rounds_refine [OF e(1-3) refl pre] unfolding e(4) run(1) by auto
  obtain ps us' where typed: "engine_sent (engine_with crossing_pair) ps us' e'"
      "\<forall>p \<in> set ps. response_typed p \<and> answers (set crossing_pair) p"
      "\<forall>u \<in> set us'. update_typed u \<and> reports (set crossing_pair) u"
    using engine_messages_typed [OF e(1-3) pre e'(1)] unfolding e(4) by blast
  have "length ps = 4" "length us' = 3"
    using typed(1) e'(2) len q_num_push_all [of _ "me_outgoing_ogw_responses (engine_with crossing_pair)"]
      q_num_push_all [of _ "me_outgoing_md_updates (engine_with crossing_pair)"]
    unfolding engine_sent_def by (metis add_left_cancel)+
  moreover have "q_list (me_outgoing_ogw_responses e') = ps" "q_list (me_outgoing_md_updates e') = us'"
    using typed(1) q_push_batch(2) [OF e(5), of ps] q_push_batch(2) [OF e(6), of us'] e(7-10) calculation
    by (simp_all add: engine_sent_def)
  ultimately show ?thesis using e'(1) typed(2,3) by auto
qed

end
