(* ===== verification/Server_Rounds.thy ===== *)
theory Server_Rounds
  imports Server_Traffic
begin

text \<open>
  Calls of \<open>sendAndRecv\<close> of the order server: a socket that delivers requests in sequence, and sockets
  that deliver nothing.
\<close>

section \<open>Sockets that are read\<close>

lemma sv_lists_put_socket [simp]:
  "sv_send_sockets (put_socket p k s) = sv_send_sockets s" "sv_receive_sockets (put_socket p k s) = sv_receive_sockets s"
  by (cases p; simp add: put_socket_def)+

lemma keeps_recv_requests_lists: "keeps (\<lambda>s. sv_send_sockets s = ss) (recv_requests p t rs)"
proof -
  have "keeps (\<lambda>s. sv_send_sockets s = ss) (recv_request p t r)" for r
    unfolding recv_request_def Let_def by (intro keeps_intro keeps_wr keeps_zoom) simp_all
  then show ?thesis by (induction rs) (simp_all only: recv_requests.simps keeps_ret keeps_sq)
qed

lemma read_requests:
  assumes ok: "server_ok s" "valid_ptr s p" "sock_ok (get_socket p s)" "has_recv_callback p"
    and bytes: "in_bytes (get_socket p s) = []" "kernel_fits (get_socket p s) (fst (k p))" "ra_data (fst (k p)) \<noteq> []"
      "requests_of (ra_data (fst (k p))) = rs"
    and seq: "c < ME_MAX_NUM_CLIENTS" "in_sequence p c rs s" "length (pending s) + length rs \<le> ME_MAX_PENDING_REQUESTS"
  shows "\<exists>s'. each_sendAndRecv recvCallback k [p] s = Inr (True, s') \<and> server_ok s' \<and> incoming s' = incoming s \<and>
    pending s' = pending s @ map (stamped (kernel_time (ra_cmsgs (fst (k p))))) rs \<and> sv_send_sockets s' = sv_send_sockets s \<and>
    valid_ptr s' p \<and> (rs \<noteq> [] \<longrightarrow> owner s' c = Some p)"
proof -
  define t where "t = kernel_time (ra_cmsgs (fst (k p)))"
  obtain k1 where k1: "recv_part (fst (k p)) (get_socket p s) = Inr (Some t, k1)" "sock_ok k1"
      "in_bytes k1 = ra_data (fst (k p))"
    using recv_part_run [OF ok(3) bytes(2)] bytes(1,3) by (auto simp: t_def)
  let ?s1 = "put_socket p k1 s"
  have g1: "get_socket p ?s1 = k1" using ok(2) by (simp add: get_put_socket)
  have "server_ok ?s1" "in_sequence p c rs ?s1" "pending ?s1 = pending s"
    using ok(1) seq(2) by (simp_all add: in_sequence_def server_ok_def)
  then obtain s2 where s2: "recv_requests p t rs ?s1 = Inr ((), s2)" "took p t rs ?s1 s2"
    using recv_requests_in_sequence [OF _ seq(1)] seq(3) by fastforce
  obtain k2 where k2: "recvCallback p t ?s1 = Inr ((), put_socket p k2 s2)" "sock_ok k2"
    using recvCallback_run [of p ?s1 t] k1(2,3) g1 bytes(4) s2(1) by auto
  obtain k3 where k3: "send_part (snd (k p)) k2 = Inr ((), k3)" using send_part_run [OF k2(2)] by blast
  have v: "valid_ptr (put_socket p k2 s2) p" using keepsD [OF keeps_recv_requests_valid s2(1)] ok(2) by simp
  have sends: "sv_send_sockets s2 = sv_send_sockets s" using keepsD [OF keeps_recv_requests_lists s2(1)] by simp
  have same: "incoming s2 = incoming s" using keepsD [OF keeps_recv_requests_queue s2(1)] by simp
  have "each_sendAndRecv recvCallback k [p] s = Inr (True, put_socket p k3 (put_socket p k2 s2))"
    using k1(1) k2(1) k3 v s2(1) ok(4)
    by (simp add: sock_sendAndRecv_def on_socket_def bnd_def sq_def zoom_def get_put_socket)
  moreover have "owner s2 c = Some p" if "rs \<noteq> []"
    using s2(2) seq(2) that by (cases rs) (auto simp: took_def in_sequence_def)
  moreover have "valid_ptr (put_socket p k3 (put_socket p k2 s2)) p" using v by (cases p) (simp_all add: put_socket_def)
  ultimately show ?thesis
    using s2(2) sends same by (intro exI [of _ "put_socket p k3 (put_socket p k2 s2)"]) (simp add: took_def t_def)
qed

lemma receive_requests:
  assumes sort: "std_sort srt" and ok: "server_ok s" "valid_ptr s p" "sock_ok (get_socket p s)" "has_recv_callback p"
    and lists: "sv_receive_sockets s = [p]" "sv_send_sockets s = []"
    and bytes: "in_bytes (get_socket p s) = []" "kernel_fits (get_socket p s) (fst (k p))" "ra_data (fst (k p)) \<noteq> []"
      "requests_of (ra_data (fst (k p))) = rs"
    and seq: "c < ME_MAX_NUM_CLIENTS" "in_sequence p c rs s" "pending s = []" "length rs \<le> ME_MAX_PENDING_REQUESTS"
    and queue: "q_wf (incoming s)"
  shows "\<exists>s'. TCPServer_sendAndRecv recvCallback (recvFinishedCallback srt) k k' s = Inr ((), s') \<and>
    incoming s' = fold q_push (map rt_request (srt (map (stamped (kernel_time (ra_cmsgs (fst (k p))))) rs))) (incoming s) \<and>
    valid_ptr s' p \<and> (rs \<noteq> [] \<longrightarrow> owner s' c = Some p)"
proof -
  have "length (pending s) + length rs \<le> ME_MAX_PENDING_REQUESTS" using seq(3,4) by simp
  then obtain s3 where one: "each_sendAndRecv recvCallback k [p] s = Inr (True, s3)" "server_ok s3" "incoming s3 = incoming s"
      "pending s3 = map (stamped (kernel_time (ra_cmsgs (fst (k p))))) rs" "sv_send_sockets s3 = []"
      "valid_ptr s3 p" "rs \<noteq> [] \<longrightarrow> owner s3 c = Some p"
    using read_requests [where k = k and p = p, OF ok bytes seq(1,2)] seq(3) lists(2) by auto
  then obtain f where f: "sequenceAndPublish srt (os_fifo_sequencer s3) = Inr ((), f)"
    "fs_incoming_requests f = fold q_push (map rt_request (srt (pending s3))) (incoming s)"
    using std_sort.sequence_run [OF sort, of "os_fifo_sequencer s3"] queue by (fastforce simp: server_ok_def)
  have "TCPServer_sendAndRecv recvCallback (recvFinishedCallback srt) k k' s = Inr ((), s3\<lparr>os_fifo_sequencer := f\<rparr>)"
    using one(1,5) f(1) lists(1)
    by (simp add: TCPServer_sendAndRecv_def bnd_def sq_def when_do_def recvFinishedCallback_def zoom_def)
  moreover have "valid_ptr (s3\<lparr>os_fifo_sequencer := f\<rparr>) p" using one(6) by (cases p) simp_all
  ultimately show ?thesis using f(2) one(4,7) by auto
qed

section \<open>Sockets that deliver nothing\<close>

definition quiet :: "OrderServer \<Rightarrow> OrderServer \<Rightarrow> bool" where
  "quiet s s' \<longleftrightarrow> TCPServer.more s' = TCPServer.more s \<and> sv_send_sockets s' = sv_send_sockets s \<and>
     (\<forall>q. valid_ptr s' q = valid_ptr s q) \<and> (\<forall>q. valid_ptr s q \<longrightarrow> in_bytes (get_socket q s') = in_bytes (get_socket q s))"

lemma more_put_socket [simp]: "TCPServer.more (put_socket p k s) = TCPServer.more s"
  by (cases p; simp add: put_socket_def)

lemma idle_pass:
  assumes "sv_ok s" "\<forall>p \<in> set ps. valid_ptr s p \<and> ra_data (fst (k p)) = []"
  shows "\<exists>s'. each_sendAndRecv cb k ps s = Inr (False, s') \<and> sv_ok s' \<and> quiet s s'"
  using assms
proof (induction ps arbitrary: s)
  case Nil
  then show ?case by (simp add: quiet_def)
next
  case (Cons p ps)
  have p: "valid_ptr s p" "ra_data (fst (k p)) = []" "sock_ok (get_socket p s)"
    using Cons.prems get_socket_ok by auto
  obtain k1 where k1: "send_part (snd (k p)) (get_socket p s) = Inr ((), k1)" "sock_ok k1" "in_bytes k1 = in_bytes (get_socket p s)"
    using send_part_run [OF p(3)] by blast
  have recv: "on_socket p (recv_part (fst (k p))) s = Inr (None, s)"
    using p(2) by (cases p) (simp_all add: on_socket_def zoom_def recv_part_def get_socket_def put_socket_def)
  let ?s1 = "put_socket p k1 s"
  have "sock_sendAndRecv cb (fst (k p)) (snd (k p)) p s = Inr (False, ?s1)"
    using recv k1(1) by (simp add: sock_sendAndRecv_def bnd_def sq_def on_socket_def zoom_def)
  moreover have "sv_ok ?s1" using put_socket_ok [OF Cons.prems(1) k1(2)] .
  moreover have "quiet s ?s1" using p(1) k1(3) by (simp add: quiet_def get_put_socket)
  moreover obtain s2 where "each_sendAndRecv cb k ps ?s1 = Inr (False, s2)" "sv_ok s2" "quiet ?s1 s2"
    using Cons.IH [of ?s1] Cons.prems(2) \<open>sv_ok ?s1\<close> by auto
  ultimately show ?case by (auto simp: bnd_def quiet_def)
qed

section \<open>Two kernels\<close>

text \<open>One that delivers nothing, and one that delivers the same bytes on every socket.\<close>

definition silent :: kernel where
  "silent = (\<lambda>_. (\<lparr>ra_data = [], ra_cmsgs = []\<rparr>, 0))"

definition delivers :: "byte list \<Rightarrow> kernel" where
  "delivers bs = (\<lambda>_. (\<lparr>ra_data = bs, ra_cmsgs = []\<rparr>, 0))"

lemma first_request_delivered:
  "requests_of (ra_data (fst (delivers (bytes_of_OMClientRequest first_request) p))) = [first_request]"
  "length (ra_data (fst (delivers (bytes_of_OMClientRequest first_request) p))) = sizeof_OMClientRequest"
proof -
  have "chunks (bytes_of_OMClientRequest first_request) = [bytes_of_OMClientRequest first_request]"
    using chunks_of_requests [of "[]" "[first_request]"] by (simp add: sizeof_defs)
  then show "requests_of (ra_data (fst (delivers (bytes_of_OMClientRequest first_request) p))) = [first_request]"
    by (simp add: delivers_def requests_of_def OMClientRequest_of_bytes_of first_request_def plain_request_def)
qed (simp add: delivers_def sizeof_defs)

end
