(* ===== verification/Exchange_Properties.thy ===== *)
theory Exchange_Properties
  imports Exchange_Threads Engine_Messages Server_Rounds
begin

text \<open>
  What the two threads of the exchange do to each other's queues, and whom the replies are for.
\<close>

section \<open>Whom the replies are for\<close>

lemma known_has_socket: "known_client s r = has_socket s (resp_client_id r)"
  by (simp add: known_client_def has_socket_def)

lemma pipeline_typed:
  assumes "pipeline x" "requests_ok (ex_published x) (\<lambda>_. empty_book)"
  shows "\<forall>r \<in> set (ex_produced x). response_typed r \<and> has_socket (ex_server x) (resp_client_id r)"
proof -
  obtain As us where run: "spec_engine (ex_processed x) (\<lambda>_. empty_book) = Inr (As, ex_produced x, us)"
    using assms by (auto simp: pipeline_defs)
  have split: "ex_published x = ex_released x @ q_list (incoming (ex_server x))"
    and head: "\<And>r. ex_taken x = Some r \<Longrightarrow> \<exists>rs. q_list (incoming (ex_server x)) = r # rs"
    and acc: "accounted (ex_published x) (ex_server x)"
    using assms(1) by (auto simp: pipeline_def requests_flow_def)
  have "\<exists>rs. ex_published x = ex_processed x @ rs"
    using split head by (cases "ex_taken x") (auto simp: ex_processed_def)
  then obtain rs where rs: "ex_published x = ex_processed x @ rs" by blast
  have "requests_ok (ex_processed x) (\<lambda>_. empty_book)" using assms(2) requests_ok_prefix rs by simp
  note engine_messages [OF run this]
  moreover have "\<forall>r \<in> set (ex_processed x). has_socket (ex_server x) (req_client_id r)"
    using acc rs by (auto simp: accounted_def)
  ultimately show ?thesis using answers_client by fastforce
qed

section \<open>The engine alone serves what was published\<close>

text \<open>The engine does not touch the sockets.\<close>

definition same_sockets :: "exchange \<Rightarrow> exchange \<Rightarrow> bool" where
  "same_sockets x y \<longleftrightarrow> os_run (ex_server y) = os_run (ex_server x) \<and> owner (ex_server y) = owner (ex_server x) \<and> (\<forall>p. valid_ptr (ex_server y) p = valid_ptr (ex_server x) p)"

lemma same_sockets_share: "same_sockets x (share_engine e x)"
proof -
  have "valid_ptr (ex_server (share_engine e x)) p = valid_ptr (ex_server x) p" for p by (cases p) (simp_all add: share_engine_def)
  moreover have "os_run (ex_server (share_engine e x)) = os_run (ex_server x)" by (simp add: share_engine_def)
  ultimately show ?thesis by (simp add: same_sockets_def)
qed

lemma same_sockets_trans: "same_sockets x y \<Longrightarrow> same_sockets y z \<Longrightarrow> same_sockets x z"
  by (simp add: same_sockets_def)

lemma same_sockets_history [simp]:
  "same_sockets x (y\<lparr>ex_taken := t, ex_released := rs\<rparr>) = same_sockets x y"
  "same_sockets x (y\<lparr>ex_taken := t, ex_produced := ps\<rparr>) = same_sockets x y"
  by (simp_all add: same_sockets_def)

definition served :: "exchange \<Rightarrow> exchange \<Rightarrow> MEClientResponse list \<Rightarrow> bool" where
  "served x y ps \<longleftrightarrow> ex_published y = ex_published x \<and> ex_taken y = None \<and> ex_released y = ex_published x \<and>
     ex_produced y = ps \<and> ex_replied y = ex_replied x \<and> same_sockets x y"

lemma serve_one:
  assumes inv: "pipeline x" "ex_taken x = None" "me_run (ex_engine x)" "requests_ok (ex_published x) (\<lambda>_. empty_book)"
    and next_request: "q_list (incoming (ex_server x)) = r # rs"
    and spec: "spec_engine (ex_released x @ [r]) (\<lambda>_. empty_book) = Inr (As', ex_produced x @ ps, us')"
    and room: "length ps \<le> q_room (outgoing (ex_server x))"
  shows "\<exists>y. (ex_step srt)\<^sup>*\<^sup>* x y \<and> ex_taken y = None \<and> me_run (ex_engine y) \<and> ex_published y = ex_published x \<and>
    ex_released y = ex_released x @ [r] \<and> ex_produced y = ex_produced x @ ps \<and> ex_replied y = ex_replied x \<and>
    q_room (outgoing (ex_server y)) = q_room (outgoing (ex_server x)) - length ps \<and> same_sockets x y"
proof -
  let ?e = "ex_engine x"
  have q: "q_ok (incoming (ex_server x))" "q_ok (outgoing (ex_server x))" and same: "me_incoming_requests ?e = incoming (ex_server x)"
      "me_outgoing_ogw_responses ?e = outgoing (ex_server x)"
    using inv(1) by (simp_all add: pipeline_defs)
  have proc: "ex_processed x = ex_released x" using inv(2) by (simp add: ex_processed_def)
  obtain As us where As: "spec_engine (ex_released x) (\<lambda>_. empty_book) = Inr (As, ex_produced x, us)" "engine_rel ?e As"
    using inv(1,4) proc by (auto simp: pipeline_defs)
  obtain us1 where one: "spec_process r As = Inr (As', ps, us1)"
    using spec As(1) by (auto simp: spec_engine_append split: sum.splits)
  have "ex_published x = ex_released x @ r # rs" using inv(1) next_request by (simp add: pipeline_defs)
  then have "request_ok r As" using inv(4) As(1) by (simp add: requests_ok_append)
  from process_refines_main [OF As(2) this] one obtain e where e: "processClientRequest r ?e = Inr ((), e)"
    "engine_sent ?e ps us1 e" "me_incoming_requests e = me_incoming_requests ?e" "me_run e = me_run ?e" by auto
  let ?y = "share_engine e x\<lparr>ex_taken := Some r, ex_produced := ex_produced x @ ps\<rparr>"
  have "on_incoming peek ?e = Inr (Some r, ?e)"
    using lfq.front_ok [OF q(1)] next_request same(1) by (simp add: on_incoming_def zoom_def)
  then have step1: "ex_step srt x ?y"
    using inv(2,3) e(1,2) room same(2) by (auto simp: engine_sent_def intro!: ex_step.process)
  obtain q' where "updateReadIndex (incoming (ex_server x)) = Inr ((), q')"
    using lfq.pop_ok [OF q(1)] next_request by auto
  then have upd: "on_incoming updateReadIndex e = Inr ((), e\<lparr>me_incoming_requests := q'\<rparr>)"
    using same(1) e(3) by (simp add: on_incoming_def zoom_def)
  let ?z = "share_engine (e\<lparr>me_incoming_requests := q'\<rparr>) ?y\<lparr>ex_taken := None, ex_released := ex_released x @ [r]\<rparr>"
  have "ex_step srt ?y ?z"
    using ex_step.release [of ?y r "e\<lparr>me_incoming_requests := q'\<rparr>" srt] upd by simp
  then have "(ex_step srt)\<^sup>*\<^sup>* x ?z" using step1 by (meson rtranclp.rtrancl_into_rtrancl rtranclp.rtrancl_refl)
  moreover have "q_room (me_outgoing_ogw_responses e) = q_room (outgoing (ex_server x)) - length ps"
    using q_push_batch(3) [OF q(2) room] e(2) same(2) by (simp add: engine_sent_def)
  moreover have "same_sockets x ?z"
    using same_sockets_trans [of x ?y, OF _ same_sockets_share] same_sockets_share [of x e] by simp
  ultimately show ?thesis using inv(3) e(4) by (intro exI [of _ ?z]) simp
qed

lemma pipeline_steps: "(ex_step srt)\<^sup>*\<^sup>* x y \<Longrightarrow> std_sort srt \<Longrightarrow> pipeline x \<Longrightarrow> pipeline y"
  by (induction rule: rtranclp_induct)
    (auto elim!: ex_step.cases intro: pipeline_poll pipeline_receive pipeline_reply pipeline_process pipeline_release)

lemma serve_all:
  assumes "std_sort srt" "pipeline x" "ex_taken x = None" "me_run (ex_engine x)"
    "requests_ok (ex_published x) (\<lambda>_. empty_book)"
    "spec_engine (ex_published x) (\<lambda>_. empty_book) = Inr (As, ps, us)"
    "length ps \<le> length (ex_produced x) + q_room (outgoing (ex_server x))"
  shows "\<exists>y. (ex_step srt)\<^sup>*\<^sup>* x y \<and> served x y ps"
  using assms(2-)
proof (induction "length (q_list (incoming (ex_server x)))" arbitrary: x)
  case 0
  have "q_list (incoming (ex_server x)) = []" using 0(1) by (metis length_0_conv)
  then have "ex_published x = ex_released x" using 0(2) by (simp add: pipeline_defs)
  then have "served x x ps"
    using 0(2,3,5,6) by (auto simp: served_def same_sockets_def pipeline_defs ex_processed_def)
  then show ?case by blast
next
  case (Suc n)
  obtain r rs where list: "q_list (incoming (ex_server x)) = r # rs" using Suc.hyps(2) by (metis length_Suc_conv)
  have split: "ex_published x = (ex_released x @ [r]) @ rs" using Suc.prems(1) list by (simp add: pipeline_defs)
  obtain As1 ps1 us1 As2 ps2 us2 where one: "spec_engine (ex_released x @ [r]) (\<lambda>_. empty_book) = Inr (As1, ps1, us1)"
      "spec_engine rs As1 = Inr (As2, ps2, us2)" "ps = ps1 @ ps2"
    using Suc.prems(5) unfolding split spec_engine_append [of "ex_released x @ [r]" rs]
    by (auto split: sum.splits)
  obtain As0 us0 where "spec_engine (ex_released x) (\<lambda>_. empty_book) = Inr (As0, ex_produced x, us0)"
    using Suc.prems(1,2,4) by (auto simp: pipeline_defs ex_processed_def)
  then obtain ps' where ps': "ps1 = ex_produced x @ ps'"
    using one(1) by (auto simp: spec_engine_append split: sum.splits)
  have "length ps' \<le> q_room (outgoing (ex_server x))" using Suc.prems(6) one(3) ps' by simp
  from serve_one [OF Suc.prems(1-4) list one(1) [unfolded ps'] this, of srt]
  obtain y where y: "(ex_step srt)\<^sup>*\<^sup>* x y" "ex_taken y = None" "me_run (ex_engine y)" "ex_published y = ex_published x"
    "ex_released y = ex_released x @ [r]" "ex_produced y = ex_produced x @ ps'" "ex_replied y = ex_replied x"
    "q_room (outgoing (ex_server y)) = q_room (outgoing (ex_server x)) - length ps'" "same_sockets x y" by blast
  have inv: "pipeline y" by (rule pipeline_steps [OF y(1) assms(1) Suc.prems(1)])
  have "q_list (incoming (ex_server y)) = rs" using inv y(4,5) split by (simp add: pipeline_defs)
  then have "n = length (q_list (incoming (ex_server y)))" using Suc.hyps(2) list by simp
  moreover have "length ps \<le> length (ex_produced y) + q_room (outgoing (ex_server y))"
    using Suc.prems(6) y(6,8) ps' one(3) by simp
  ultimately obtain z where "(ex_step srt)\<^sup>*\<^sup>* y z" "served y z ps"
    using Suc.hyps(1) [of y] inv y(2-4) Suc.prems(4,5) by auto
  then show ?case using y(1,4,7) same_sockets_trans [OF y(9)] by (auto simp: served_def intro: rtranclp_trans)
qed

section \<open>A first round\<close>

text \<open>An exchange that has accepted one connection, and what \<open>first_request\<close> becomes in it.\<close>

definition a_logger :: Logger where
  "a_logger = \<lparr>lg_file = [], lg_queue = LFQueue_new 8 (Log_CHAR (CHR 0x00)), lg_running = True\<rparr>"

definition one_connection :: exchange where
  "one_connection = (let x = exchange_init 8 8 8 a_logger in
     share_server ((ex_server x)\<lparr>sv_sockets := [TCPSocket_new\<lparr>ts_socket_fd := 7\<rparr>], sv_receive_sockets := [Accepted 0]\<rparr>) x)"

lemma one_connection_reachable: "(ex_step srt)\<^sup>*\<^sup>* (exchange_init 8 8 8 a_logger) one_connection"
proof -
  let ?x = "exchange_init 8 8 8 a_logger"
  have "poll [\<lparr>ev_socket = Listener, ev_in = True, ev_out = False, ev_err = False\<rparr>]
      [\<lparr>ac_fd = 7, ac_configured = True, ac_added = True\<rparr>] (ex_server ?x) =
    Inr ((), (ex_server ?x)\<lparr>sv_sockets := [TCPSocket_new\<lparr>ts_socket_fd := 7\<rparr>], sv_receive_sockets := [Accepted 0]\<rparr>)"
    by (simp add: poll_def poll_event_def bnd_def sq_def when_do_def events_size_def add_receive_def ASSERT_def
        exchange_init_def Let_def OrderServer_new_def TCPServer_new_def TCPServer.extend_def)
  moreover have "os_run (ex_server ?x)" by (simp add: exchange_init_def Let_def)
  ultimately have "ex_step srt ?x one_connection"
    unfolding one_connection_def Let_def by (rule ex_step.poll [rotated])
  then show ?thesis by blast
qed

abbreviation the_request :: MEClientRequest where
  "the_request \<equiv> om_me_client_request first_request"

lemma one_connection_server:
  defines "s \<equiv> ex_server one_connection"
  shows "server_ok s" "valid_ptr s (Accepted 0)" "sock_ok (get_socket (Accepted 0) s)"
    "in_bytes (get_socket (Accepted 0) s) = []" "ts_next_rcv_valid_index (get_socket (Accepted 0) s) = 0"
    "sv_receive_sockets s = [Accepted 0]" "sv_send_sockets s = []" "pending s = []" "owner s 5 = None" "exp_seq s 5 = 1"
    "incoming s = LFQueue_new 8 MEClientRequest_default" "os_run s"
  using TCPSocket_new_ok(1,2)
  by (simp_all add: s_def one_connection_def exchange_init_def Let_def OrderServer_new_def TCPServer_new_def TCPServer.extend_def
      server_ok_def FIFOSequencer_new_ok get_socket_def arr_fill_def)
    (simp_all add: sock_ok_def in_bytes_def FIFOSequencer_new_def TCPSocket_new_def)

lemma the_request_ok: "requests_ok [the_request] (\<lambda>_. empty_book)"
  by (auto simp: request_ok_def first_request_def add_ok_empty split: sum.split)

lemma the_request_spec:
  "\<exists>As p us. spec_engine [the_request] (\<lambda>_. empty_book) = Inr (As, [p], us) \<and> resp_type p = ACCEPTED \<and> resp_client_id p = 5"
  by (simp add: first_request_def spec_process_def spec_run_defs empty_book_def Let_def limit_defs after_match_def full_makers_def)

lemma example_published:
  "\<exists>x. ex_reachable stable_sort 8 8 8 a_logger x \<and> ex_published x = [the_request] \<and> ex_released x = [] \<and> ex_produced x = [] \<and>
    ex_taken x = None \<and> me_run (ex_engine x) \<and> q_room (outgoing (ex_server x)) = 7 \<and>
    valid_ptr (ex_server x) (Accepted 0) \<and> owner (ex_server x) 5 = Some (Accepted 0) \<and> os_run (ex_server x)"
proof -
  let ?k = "delivers (bytes_of_OMClientRequest first_request)" and ?x = one_connection
  note s = one_connection_server
  note bytes = first_request_delivered [where p = "Accepted 0"]
  have fits: "kernel_fits (get_socket (Accepted 0) (ex_server ?x)) (fst (?k (Accepted 0)))" "ra_data (fst (?k (Accepted 0))) \<noteq> []"
    using s(5) bytes(2) by (auto simp: kernel_fits_def sizeof_defs TCPBufferSize_def simp flip: length_greater_0_conv)
  have cb: "has_recv_callback (Accepted 0)" by simp
  have seq: "in_sequence (Accepted 0) 5 [first_request] (ex_server ?x)"
    using s(9,10) by (simp add: in_sequence_def first_request_def)
  have bounds: "5 < ME_MAX_NUM_CLIENTS" "length [first_request] \<le> ME_MAX_PENDING_REQUESTS"
    by (simp_all add: limit_defs ME_MAX_PENDING_REQUESTS_def)
  have q: "q_ok (incoming (ex_server ?x))" "1 \<le> q_room (incoming (ex_server ?x))"
    using LFQueue_new_ok [of 8 MEClientRequest_default] by (simp_all add: s(11))
  obtain s' where s': "TCPServer_sendAndRecv recvCallback (recvFinishedCallback stable_sort) ?k ?k (ex_server ?x) = Inr ((), s')"
      "incoming s' = fold q_push [the_request] (incoming (ex_server ?x))" and own: "valid_ptr s' (Accepted 0)" "owner s' 5 = Some (Accepted 0)"
    using receive_requests [where k = ?k and p = "Accepted 0" and k' = ?k, OF stable.std_sort_axioms s(1-3) cb s(6,7,4) fits bytes(1) bounds(1) seq s(8) bounds(2) q_ok_wf [OF q(1)]]
    by (auto simp: stamped_def stable_sort_def)
  let ?y = "share_server s' ?x\<lparr>ex_published := ex_published ?x @ [the_request]\<rparr>"
  have "ex_step stable_sort ?x ?y" using ex_step.receive [OF s(12) s'] q(2) by simp
  then have reach: "ex_reachable stable_sort 8 8 8 a_logger ?y"
    using one_connection_reachable unfolding ex_reachable_def by (meson rtranclp.rtrancl_into_rtrancl)
  have inv: "pipeline ?x"
    using pipeline_steps [OF one_connection_reachable stable.std_sort_axioms] pipeline_init by simp
  then have "accounted (ex_published ?x) (ex_server ?x)" unfolding pipeline_def requests_flow_def by blast
  from sendAndRecv_later [OF stable.std_sort_axioms s(1) q_ok_wf [OF q(1)] this s'(1)]
  have "outgoing s' = outgoing (ex_server ?x)" and run: "os_run s'" using s(12) by blast+
  moreover have "q_room (outgoing (ex_server ?x)) = 7"
    by (simp add: one_connection_def exchange_init_def Let_def OrderServer_new_def TCPServer.extend_def LFQueue_new_def
      q_room_def q_cap_def)
  ultimately have "me_run (ex_engine ?y)" "q_room (outgoing (ex_server ?y)) = 7" "ex_released ?y = []" "ex_produced ?y = []" "ex_taken ?y = None"
    "ex_published ?y = [the_request]"
    by (simp_all add: one_connection_def exchange_init_def Let_def share_server_def)
  moreover have "valid_ptr (ex_server ?y) (Accepted 0)" "owner (ex_server ?y) 5 = Some (Accepted 0)" "os_run (ex_server ?y)"
    using own run by simp_all
  ultimately show ?thesis using reach by blast
qed

lemma example_served:
  "\<exists>x p. ex_reachable stable_sort 8 8 8 a_logger x \<and> ex_published x = [the_request] \<and> ex_released x = [the_request] \<and>
    ex_produced x = [p] \<and> ex_replied x = [] \<and> ex_taken x = None \<and> resp_type p = ACCEPTED \<and> resp_client_id p = 5 \<and>
    valid_ptr (ex_server x) (Accepted 0) \<and> owner (ex_server x) 5 = Some (Accepted 0) \<and> os_run (ex_server x)"
proof -
  obtain x where x: "ex_reachable stable_sort 8 8 8 a_logger x" "ex_published x = [the_request]" "ex_released x = []"
      "ex_produced x = []" "ex_taken x = None" "me_run (ex_engine x)" "q_room (outgoing (ex_server x)) = 7"
      "valid_ptr (ex_server x) (Accepted 0)" "owner (ex_server x) 5 = Some (Accepted 0)" "os_run (ex_server x)"
    using example_published by blast
  have inv: "pipeline x" using pipeline_reachable [OF x(1) stable.std_sort_axioms] by simp
  obtain As p us where p: "spec_engine [the_request] (\<lambda>_. empty_book) = Inr (As, [p], us)" "resp_type p = ACCEPTED" "resp_client_id p = 5"
    using the_request_spec by blast
  obtain y where y: "(ex_step stable_sort)\<^sup>*\<^sup>* x y" "served x y [p]"
    using serve_all [OF stable.std_sort_axioms inv x(5,6), of As "[p]" us] x(2,4,7) the_request_ok p(1) by auto
  have "ex_reachable stable_sort 8 8 8 a_logger y"
    using x(1) y(1) unfolding ex_reachable_def by (rule rtranclp_trans)
  moreover have "ex_replied x = []" using inv x(4) by (simp add: pipeline_defs)
  moreover have same: "same_sockets x y" using y(2) by (simp add: served_def)
  then have "valid_ptr (ex_server y) (Accepted 0)" using x(8) unfolding same_sockets_def by blast
  moreover have "owner (ex_server y) 5 = Some (Accepted 0)" "os_run (ex_server y)" using same x(9,10) by (simp_all add: same_sockets_def)
  ultimately show ?thesis using y(2) p(2,3) x(2) unfolding served_def by metis
qed

section \<open>Properties\<close>

text \<open>
  C5. The exchange as two threads, in every interleaving of their calls: no request and no response is lost,
  doubled or reordered between them. What was published is what was released and what waits; the next
  sequence number expected of a client is one more than the number of its requests, and the next one sent to
  it one more than the number of replies to it; and while the requests are such as the books can hold,
  the replies sent and waiting are the ones the abstract engine gives to the requests taken so far, and the
  books are the abstract ones. Hypotheses: the contract of \<open>std::sort\<close>, and queues of some capacity; that
  they have room is part of the steps.
\<close>

theorem exchange_pipeline:
  assumes "ex_reachable srt n m l logger x" "\<And>xs. mset (srt xs) = mset xs" "\<And>xs. in_time_order (srt xs)" "0 < n" "0 < m" "0 < l"
  shows "ex_published x = ex_released x @ q_list (incoming (ex_server x)) \<and>
    (\<forall>c < ME_MAX_NUM_CLIENTS.
       exp_seq (ex_server x) c = 1 + of_nat (from_client c (ex_published x @ map rt_request (pending (ex_server x)))) \<and>
       nxt_out (ex_server x) c = 1 + of_nat (to_client c (ex_replied x))) \<and>
    (requests_ok (ex_published x) (\<lambda>_. empty_book) \<longrightarrow>
      (\<exists>As us. spec_engine (ex_processed x) (\<lambda>_. empty_book) =
         Inr (As, ex_replied x @ q_list (outgoing (ex_server x)), us) \<and> engine_rel (ex_engine x) As))"
proof -
  have "std_sort srt" using assms(2,3) by unfold_locales
  from pipeline_reachable [OF assms(1) this assms(4-6)] show ?thesis by (auto simp: pipeline_defs accounted_def)
qed

theorem exchange_pipeline_witness:
  "\<exists>x r As us. ex_reachable stable_sort 8 8 8 a_logger x \<and> ex_released x = [the_request] \<and> q_list (incoming (ex_server x)) = [] \<and>
     exp_seq (ex_server x) 5 = 2 + of_nat (from_client 5 (map rt_request (pending (ex_server x)))) \<and> nxt_out (ex_server x) 5 = 1 \<and>
     q_list (outgoing (ex_server x)) = [r] \<and> resp_type r = ACCEPTED \<and>
     spec_engine [the_request] (\<lambda>_. empty_book) = Inr (As, [r], us) \<and> engine_rel (ex_engine x) As"
proof -
  obtain x p where x: "ex_reachable stable_sort 8 8 8 a_logger x" "ex_published x = [the_request]" "ex_released x = [the_request]"
      "ex_produced x = [p]" "ex_replied x = []" "resp_type p = ACCEPTED" "ex_taken x = None"
    using example_served by blast
  have "pipeline x" using pipeline_reachable [OF x(1) stable.std_sort_axioms] by simp
  then have out: "q_list (outgoing (ex_server x)) = [p]" using x(4,5) by (simp add: pipeline_defs)
  have c: "5 < ME_MAX_NUM_CLIENTS" "unat (req_client_id the_request) = 5" by (simp_all add: limit_defs first_request_def)
  have proc: "ex_processed x = [the_request]" using x(3,7) by (simp add: ex_processed_def)
  note main = exchange_pipeline [OF x(1) stable.mset_srt stable.srt_order, simplified, unfolded proc out x(2,3,5)]
  show ?thesis
    using main c the_request_ok x(1,3,6) out by (intro exI [of _ x] exI [of _ p]) (auto simp: add.assoc)
qed

text \<open>
  C13. Whatever the engine has to say, \<open>run\<close> can send: every response in the queue is for a client below
  \<open>ME_MAX_NUM_CLIENTS\<close> whose socket is known, so that \<open>Don't have a TCPSocket for Client_id\<close> is not
  reached; the owner of a resting order that trades is no exception.
\<close>

theorem replies_have_sockets:
  assumes "ex_reachable srt n m l logger x" "\<And>xs. mset (srt xs) = mset xs" "\<And>xs. in_time_order (srt xs)" "0 < n" "0 < m" "0 < l"
    "requests_ok (ex_published x) (\<lambda>_. empty_book)"
  shows "\<forall>r \<in> set (q_list (outgoing (ex_server x))). response_typed r \<and> known_client (ex_server x) r"
proof -
  have "std_sort srt" using assms(2,3) by unfold_locales
  note inv = pipeline_reachable [OF assms(1) this assms(4-6)]
  then have "ex_produced x = ex_replied x @ q_list (outgoing (ex_server x))" by (simp add: pipeline_defs)
  then show ?thesis using pipeline_typed [OF inv assms(7)] by (auto simp: known_has_socket)
qed

theorem replies_have_sockets_witness:
  "\<exists>x r. ex_reachable stable_sort 8 8 8 a_logger x \<and> r \<in> set (q_list (outgoing (ex_server x))) \<and> resp_type r = ACCEPTED \<and>
     known_client (ex_server x) r"
proof -
  obtain x p where x: "ex_reachable stable_sort 8 8 8 a_logger x" "ex_published x = [the_request]" "ex_produced x = [p]"
      "ex_replied x = []" "resp_type p = ACCEPTED"
    using example_served by blast
  have "pipeline x" using pipeline_reachable [OF x(1) stable.std_sort_axioms] by simp
  then have "q_list (outgoing (ex_server x)) = [p]" using x(3,4) by (simp add: pipeline_defs)
  then show ?thesis
    using replies_have_sockets [OF x(1) stable.mset_srt stable.srt_order] x(1,2,5) the_request_ok by auto
qed

text \<open>
  C14. No request is stuck that the abstract engine can serve. From every reachable state in which the engine
  is running and between two requests, and under the conditions that the abstract engine serves all
  published requests, which meet the conditions of the refinement, without a fault, and that the queue has
  room for their responses, the engine thread alone can get to a state in which all of them are released
  and their responses are the replies sent so far and what is in the queue.
\<close>

theorem exchange_serves:
  assumes "ex_reachable srt n m l logger x" "\<And>xs. mset (srt xs) = mset xs" "\<And>xs. in_time_order (srt xs)" "0 < n" "0 < m" "0 < l"
    "ex_taken x = None" "me_run (ex_engine x)" "requests_ok (ex_published x) (\<lambda>_. empty_book)"
    "spec_engine (ex_published x) (\<lambda>_. empty_book) = Inr (As, ps, us)"
    "length ps \<le> length (ex_produced x) + q_room (outgoing (ex_server x))"
  shows "\<exists>y. (ex_step srt)\<^sup>*\<^sup>* x y \<and> q_list (incoming (ex_server y)) = [] \<and> ex_released y = ex_published x \<and>
    ex_replied y = ex_replied x \<and> ps = ex_replied y @ q_list (outgoing (ex_server y))"
proof -
  have sort: "std_sort srt" using assms(2,3) by unfold_locales
  note inv = pipeline_reachable [OF assms(1) this assms(4-6)]
  obtain y where y: "(ex_step srt)\<^sup>*\<^sup>* x y" "served x y ps" using serve_all [OF sort inv assms(7-11)] by blast
  then show ?thesis
    using pipeline_steps [OF y(1) sort inv] by (intro exI [of _ y]) (simp add: served_def pipeline_defs)
qed

theorem exchange_serves_witness:
  "\<exists>x y. ex_reachable stable_sort 8 8 8 a_logger x \<and> ex_released x = [] \<and> (ex_step stable_sort)\<^sup>*\<^sup>* x y \<and>
     ex_released y = [the_request]"
proof -
  obtain x where x: "ex_reachable stable_sort 8 8 8 a_logger x" "ex_published x = [the_request]" "ex_released x = []"
      "ex_produced x = []" "ex_taken x = None" "me_run (ex_engine x)" "q_room (outgoing (ex_server x)) = 7"
    using example_published by blast
  obtain As p us where "spec_engine [the_request] (\<lambda>_. empty_book) = Inr (As, [p], us)" using the_request_spec by blast
  then show ?thesis
    using exchange_serves [OF x(1) stable.mset_srt stable.srt_order _ _ _ x(5,6), of As "[p]" us] x the_request_ok by auto
qed

end
