(* ===== verification/Exchange_Wire.thy ===== *)
theory Exchange_Wire
  imports Exchange_Properties
begin

text \<open>
  What reaches the clients of the exchange: the bytes that have left on each socket and those that wait in its
  buffer, against the frames of the replies the order server has sent.
\<close>

section \<open>The bytes of a socket\<close>

definition traffic :: "TCPSocket \<Rightarrow> byte list" where
  "traffic k = ts_wire k @ out_bytes k"

text \<open>A buffer of the right size, filled up to an offset inside.\<close>

definition out_ok :: "TCPSocket \<Rightarrow> bool" where
  "out_ok k \<longleftrightarrow> alen (ts_outbound_data k) = TCPBufferSize \<and> ts_next_send_valid_index k \<le> TCPBufferSize"

lemma out_bytes_upd [simp]:
  "out_bytes (k\<lparr>ts_inbound_data := a\<rparr>) = out_bytes k" "out_bytes (k\<lparr>ts_next_rcv_valid_index := n\<rparr>) = out_bytes k"
  "out_bytes (k\<lparr>ts_wire := w\<rparr>) = out_bytes k" "out_bytes (k\<lparr>ts_next_send_valid_index := 0\<rparr>) = []"
  by (simp_all add: out_bytes_def slice_def)

lemma recv_part_traffic: "recv_part a k = Inr (t, k') \<Longrightarrow> out_ok k \<Longrightarrow> out_ok k' \<and> traffic k' = traffic k"
  by (auto simp: recv_part_def sq_def bnd_def traffic_def out_ok_def split: if_splits)

lemma keep_rest_traffic: "keep_rest i k = Inr (u, k') \<Longrightarrow> out_ok k \<Longrightarrow> out_ok k' \<and> traffic k' = traffic k"
  by (auto simp: keep_rest_def sq_def bnd_def traffic_def out_ok_def)

lemma send_part_traffic: "send_part n k = Inr (u, k') \<Longrightarrow> out_ok k \<Longrightarrow> out_ok k' \<and> prefix (traffic k') (traffic k)"
  by (auto simp: send_part_def sq_def bnd_def traffic_def out_ok_def take_is_prefix out_bytes_def [symmetric])

lemma TCPSocket_send_traffic:
  assumes "TCPSocket_send bs k = Inr (u, k')" "out_ok k"
  shows "out_ok k' \<and> traffic k' = traffic k @ bs"
  using assms
  by (auto simp: TCPSocket_send_def memcpy_def traffic_def out_ok_def out_bytes_def slice_blit_append split: if_splits)

section \<open>A round of the server takes bytes off the buffers only\<close>

text \<open>
  The server as it was in \<open>s0\<close>, some steps later: what a socket had to send is still there or on the wire, but for a tail that
  the kernel did not take, and every client has kept its socket.
\<close>

definition drained :: "OrderServer \<Rightarrow> OrderServer \<Rightarrow> bool" where
  "drained s0 s \<longleftrightarrow> (\<forall>p. valid_ptr s p = valid_ptr s0 p) \<and> (\<forall>c. owner s0 c \<noteq> None \<longrightarrow> owner s c = owner s0 c) \<and>
     (\<forall>p. valid_ptr s0 p \<longrightarrow> out_ok (get_socket p s) \<and> prefix (traffic (get_socket p s)) (traffic (get_socket p s0)))"

lemma drained_put_socket:
  assumes "drained s0 s" "valid_ptr s p \<Longrightarrow> out_ok k \<and> prefix (traffic k) (traffic (get_socket p s))"
  shows "drained s0 (put_socket p k s)"
proof -
  have "get_socket q (put_socket p k s) = (if q = p then k else get_socket q s)" if "valid_ptr s q" for q
    using that by (cases p; cases q) (auto simp: get_socket_def put_socket_def nth_list_update)
  then show ?thesis
    using assms unfolding drained_def by (auto intro: prefix_order.trans)
qed

lemma keeps_drained_on_socket:
  assumes "\<And>k a k'. m k = Inr (a, k') \<Longrightarrow> out_ok k \<Longrightarrow> out_ok k' \<and> prefix (traffic k') (traffic k)"
  shows "keeps (drained s0) (on_socket p m)"
  unfolding on_socket_def
proof (rule keeps_zoom)
  fix s a k assume d: "drained s0 s" and m: "m (get_socket p s) = Inr (a, k)"
  have "out_ok (get_socket p s)" if "valid_ptr s p" using d that by (auto simp: drained_def)
  then show "drained s0 (put_socket p k s)" using drained_put_socket [OF d] assms [OF m] by blast
qed

lemma drained_frame [simp]:
  "drained s0 (s\<lparr>os_cid_next_exp_seq_num := e\<rparr>) = drained s0 s" "drained s0 (s\<lparr>os_fifo_sequencer := f\<rparr>) = drained s0 s"
proof -
  have "valid_ptr (s\<lparr>os_cid_next_exp_seq_num := e\<rparr>) p = valid_ptr s p" "valid_ptr (s\<lparr>os_fifo_sequencer := f\<rparr>) p = valid_ptr s p" for p
    by (cases p; simp)+
  then show "drained s0 (s\<lparr>os_cid_next_exp_seq_num := e\<rparr>) = drained s0 s" "drained s0 (s\<lparr>os_fifo_sequencer := f\<rparr>) = drained s0 s"
    by (simp_all add: drained_def)
qed

lemma drained_bind:
  assumes "drained s0 s" "owner s c = None"
  shows "drained s0 (s\<lparr>os_cid_tcp_socket := arr_put c v (os_cid_tcp_socket s)\<rparr>)"
proof -
  have "valid_ptr (s\<lparr>os_cid_tcp_socket := a\<rparr>) p = valid_ptr s p" for a p by (cases p) simp_all
  then show ?thesis using assms by (auto simp: drained_def)
qed

lemma keeps_drained_recv_request: "keeps (drained s0) (recv_request p t r)"
proof (rule keepsI)
  fix s a s' assume d: "drained s0 s" and run: "recv_request p t r s = Inr (a, s')"
  then show "drained s0 s'"
    by (auto simp: recv_request_def Let_def arr_idx_def when_do_def drained_bind split: if_splits)
qed

lemma keeps_drained_recv_loop: "keeps (drained s0) (recv_loop p t n i)"
proof (induction p t n i rule: recv_loop.induct)
  case (1 p t n i)
  show ?case
  proof (cases "i + sizeof_OMClientRequest \<le> n")
    case True
    show ?thesis using 1 [OF True] keeps_drained_recv_request by (subst recv_loop.simps) (simp add: True keeps_intro)
  next
    case False
    then show ?thesis by (subst recv_loop.simps) (simp add: keeps_intro)
  qed
qed

lemma keeps_drained_each: "keeps (drained s0) (each_sendAndRecv recvCallback k ps)"
proof -
  have recv: "keeps (drained s0) (on_socket p (recv_part a))" "keeps (drained s0) (on_socket p (keep_rest i))"
    "keeps (drained s0) (on_socket p (send_part n))" for p a i n
    by (rule keeps_drained_on_socket; auto dest: recv_part_traffic keep_rest_traffic send_part_traffic)+
  have "keeps (drained s0) (recvCallback p t)" for p t
    unfolding recvCallback_def by (intro keeps_intro keeps_drained_recv_loop recv)
  then have sock: "keeps (drained s0) (sock_sendAndRecv recvCallback a n p)" for a n p
    unfolding sock_sendAndRecv_def by (intro keeps_intro recv)
  show ?thesis by (induction ps) (simp_all only: each_sendAndRecv.simps, (intro keeps_intro sock, assumption?)+)
qed

lemma sendAndRecv_drained:
  assumes "TCPServer_sendAndRecv recvCallback (recvFinishedCallback srt) k k' s = Inr ((), s')"
    "\<forall>p. valid_ptr s p \<longrightarrow> out_ok (get_socket p s)"
  shows "drained s s'"
proof -
  have "keeps (drained s) (recvFinishedCallback srt)"
    unfolding recvFinishedCallback_def by (rule keeps_zoom) simp
  then have "keeps (drained s) (TCPServer_sendAndRecv recvCallback (recvFinishedCallback srt) k k')"
    unfolding TCPServer_sendAndRecv_def by (intro keeps_intro keeps_drained_each)
  moreover have "drained s s" using assms(2) by (simp add: drained_def)
  ultimately show ?thesis using keepsD assms(1) by fastforce
qed

section \<open>A poll adds fresh sockets\<close>

definition polled :: "OrderServer \<Rightarrow> OrderServer \<Rightarrow> bool" where
  "polled s0 s \<longleftrightarrow> sv_listener_socket s = sv_listener_socket s0 \<and>
     (\<exists>ks. sv_sockets s = sv_sockets s0 @ ks \<and> (\<forall>k \<in> set ks. out_ok k \<and> traffic k = []))"

lemma fresh_socket: "out_ok (TCPSocket_new\<lparr>ts_socket_fd := fd\<rparr>)" "traffic (TCPSocket_new\<lparr>ts_socket_fd := fd\<rparr>) = []"
  by (simp_all add: TCPSocket_new_def out_ok_def traffic_def out_bytes_def slice_def)

lemma poll_polled:
  assumes "poll evs acs s = Inr ((), s')"
  shows "polled s s'"
proof -
  have add: "keeps (polled s) (add_receive p)" "keeps (polled s) (add_send p)" for p
    unfolding add_receive_def add_send_def by (auto intro!: keeps_wr simp: polled_def)
  have ev: "keeps (polled s) (poll_event ev)" for ev
    unfolding poll_event_def by (intro keeps_intro add)
  have evs: "keeps (polled s) (poll_events evs)" for evs
    by (induction evs) (simp_all only: poll_events.simps, (intro keeps_intro ev, assumption?)+)
  have new: "polled s (t\<lparr>sv_sockets := sv_sockets t @ [TCPSocket_new\<lparr>ts_socket_fd := fd\<rparr>]\<rparr>)" if "polled s t" for t fd
    using that fresh_socket unfolding polled_def by auto
  have "keeps (polled s) (accept_loop acs)" for acs
  proof (induction acs)
    case (Cons a acs)
    show ?case unfolding accept_loop.simps by (intro keeps_intro add keeps_wr new Cons.IH)
  qed (simp only: accept_loop.simps keeps_ret)
  then have "keeps (polled s) (poll evs acs)" unfolding poll_def by (intro keeps_intro evs)
  moreover have "polled s s" by (simp add: polled_def)
  ultimately show ?thesis using keepsD assms by fastforce
qed

lemma polled_socket:
  assumes "polled s s'" "valid_ptr s' p"
  shows "if valid_ptr s p then get_socket p s' = get_socket p s
    else out_ok (get_socket p s') \<and> traffic (get_socket p s') = []"
proof (cases p)
  case (Accepted i)
  obtain ks where ks: "sv_sockets s' = sv_sockets s @ ks" "\<forall>k \<in> set ks. out_ok k \<and> traffic k = []"
    using assms(1) by (auto simp: polled_def)
  show ?thesis
  proof (cases "i < length (sv_sockets s)")
    case False
    then have "get_socket p s' \<in> set ks" using assms(2) ks(1) Accepted by (simp add: get_socket_def nth_append)
    then show ?thesis using False ks(2) Accepted by simp
  qed (use ks(1) Accepted in \<open>simp add: get_socket_def nth_append\<close>)
qed (use assms(1) in \<open>simp add: polled_def get_socket_def\<close>)

section \<open>A reply is a frame\<close>

lemma frames_snoc:
  "frames nxt (rs @ [r]) = frames nxt rs @ [(unat (resp_client_id r),
     le_bytes 8 (nxt (unat (resp_client_id r)) + of_nat (to_client (unat (resp_client_id r)) rs)) @ bytes_of_MEClientResponse r)]"
  by (induction rs arbitrary: nxt) (auto simp: Let_def to_client_def add.assoc)

lemma frames_clients: "fst ` set (frames nxt rs) = (\<lambda>r. unat (resp_client_id r)) ` set rs"
  by (induction rs arbitrary: nxt) (auto simp: Let_def)

lemma stream_to_append [simp]: "stream_to own p (fs @ gs) = stream_to own p fs @ stream_to own p gs"
  by (simp add: stream_to_def)

lemma stream_to_cong: "(\<And>c. c \<in> fst ` set fs \<Longrightarrow> own c = own' c) \<Longrightarrow> stream_to own p fs = stream_to own' p fs"
  unfolding stream_to_def by (rule arg_cong [of _ _ "\<lambda>xs. concat (map snd xs)"]) (force intro: filter_cong)

lemma on_socket_traffic:
  assumes "on_socket p (TCPSocket_send bs) s = Inr (u, s')" "\<forall>q. valid_ptr s q \<longrightarrow> out_ok (get_socket q s)"
  shows "(\<forall>q. valid_ptr s' q = valid_ptr s q) \<and> (\<forall>q. valid_ptr s q \<longrightarrow> out_ok (get_socket q s') \<and>
    traffic (get_socket q s') = traffic (get_socket q s) @ (if q = p then bs else []))"
proof -
  obtain k where k: "TCPSocket_send bs (get_socket p s) = Inr ((), k)" "s' = put_socket p k s"
    using assms(1) by (auto simp: on_socket_def)
  have "get_socket q s' = (if q = p then k else get_socket q s)" if "valid_ptr s q" for q
    using that unfolding k(2) by (cases p; cases q) (auto simp: get_socket_def put_socket_def nth_list_update)
  moreover have "valid_ptr s' q = valid_ptr s q" for q unfolding k(2) by (cases p; cases q) (simp_all add: put_socket_def)
  ultimately show ?thesis using assms(2) TCPSocket_send_traffic [OF k(1)] by auto
qed

lemma send_response_traffic:
  assumes run: "send_response r s = Inr ((), s')" and ok: "\<forall>q. valid_ptr s q \<longrightarrow> out_ok (get_socket q s)"
  defines "c \<equiv> unat (resp_client_id r)"
  shows "owner s c \<noteq> None \<and> c < alen (os_cid_next_outgoing_seq_num s) \<and> (\<forall>q. valid_ptr s' q = valid_ptr s q) \<and>
    (\<forall>q. valid_ptr s q \<longrightarrow> out_ok (get_socket q s') \<and> traffic (get_socket q s') =
      traffic (get_socket q s) @ stream_to (owner s) q [(c, le_bytes 8 (nxt_out s c) @ bytes_of_MEClientResponse r)])"
proof -
  obtain p s1 s2 q' where p: "owner s c = Some p" "c < alen (os_cid_next_outgoing_seq_num s)"
    and s1: "on_socket p (TCPSocket_send (le_bytes 8 (nxt_out s c))) s = Inr ((), s1)"
    and s2: "on_socket p (TCPSocket_send (bytes_of_MEClientResponse r)) s1 = Inr ((), s2)"
    and s': "s' = s2\<lparr>os_outgoing_responses := q', os_cid_next_outgoing_seq_num :=
       arr_put c (nxt_out s c + 1) (os_cid_next_outgoing_seq_num s2)\<rparr>"
    using run by (auto simp: send_response_def Let_def on_outgoing_def arr_idx_def c_def split: option.splits if_splits)
  have same: "get_socket q s' = get_socket q s2" "valid_ptr s' q = valid_ptr s2 q" for q
    unfolding s' by (cases q; simp add: get_socket_def)+
  note t1 = on_socket_traffic [OF s1 ok]
  then have "\<forall>q. valid_ptr s1 q \<longrightarrow> out_ok (get_socket q s1)" by blast
  note t2 = on_socket_traffic [OF s2 this]
  show ?thesis using t1 t2 p by (auto simp: same)
qed

section \<open>The invariant\<close>

definition wire_ok :: "exchange \<Rightarrow> bool" where
  "wire_ok x \<longleftrightarrow> (\<forall>p. valid_ptr (ex_server x) p \<longrightarrow> out_ok (get_socket p (ex_server x)) \<and>
       subseq (traffic (get_socket p (ex_server x))) (stream_to (owner (ex_server x)) p (frames (\<lambda>_. 1) (ex_replied x)))) \<and>
     (\<forall>r \<in> set (ex_replied x). owner (ex_server x) (unat (resp_client_id r)) \<noteq> None)"

lemma wire_init: "wire_ok (exchange_init n m l logger)"
proof -
  show ?thesis
    using fresh_socket [of "- 1"]
    by (auto simp: wire_ok_def exchange_init_def Let_def OrderServer_new_def TCPServer_new_def TCPServer.extend_def get_socket_def
        TCPSocket_new_def out_ok_def traffic_def out_bytes_def slice_def elim: valid_ptr.elims)
qed

lemma wire_poll:
  assumes "wire_ok x" "poll evs acs (ex_server x) = Inr ((), s)"
  shows "wire_ok (share_server s x)"
proof -
  have "TCPServer.more s = TCPServer.more (ex_server x)" by (rule poll_more [OF assms(2)])
  then have own: "owner s = owner (ex_server x)" by (cases s; cases "ex_server x"; simp)
  note p = polled_socket [OF poll_polled [OF assms(2)]]
  have "out_ok (get_socket q s) \<and>
      subseq (traffic (get_socket q s)) (stream_to (owner (ex_server x)) q (frames (\<lambda>_. 1) (ex_replied x)))" if "valid_ptr s q" for q
    using p [OF that] assms(1) unfolding wire_ok_def by (cases "valid_ptr (ex_server x) q") simp_all
  then show ?thesis using assms(1) by (simp add: wire_ok_def own)
qed

lemma wire_receive:
  assumes "wire_ok x" "TCPServer_sendAndRecv recvCallback (recvFinishedCallback srt) k k' (ex_server x) = Inr ((), s)"
  shows "wire_ok (share_server s x\<lparr>ex_published := ps\<rparr>)"
proof -
  have ok: "\<forall>p. valid_ptr (ex_server x) p \<longrightarrow> out_ok (get_socket p (ex_server x))" using assms(1) by (simp add: wire_ok_def)
  note d = sendAndRecv_drained [OF assms(2) ok]
  have own: "owner s (unat (resp_client_id r)) = owner (ex_server x) (unat (resp_client_id r))" if "r \<in> set (ex_replied x)" for r
    using d assms(1) that by (auto simp: drained_def wire_ok_def)
  then have "stream_to (owner s) p (frames (\<lambda>_. 1) (ex_replied x)) = stream_to (owner (ex_server x)) p (frames (\<lambda>_. 1) (ex_replied x))" for p
    by (intro stream_to_cong) (auto simp: frames_clients)
  moreover have "subseq (traffic (get_socket p s)) (stream_to (owner (ex_server x)) p (frames (\<lambda>_. 1) (ex_replied x)))"
    if "valid_ptr s p" for p
  proof (rule subseq_order.order_trans)
    show "subseq (traffic (get_socket p s)) (traffic (get_socket p (ex_server x)))"
      using d that by (simp add: drained_def prefix_imp_subseq)
    show "subseq (traffic (get_socket p (ex_server x))) (stream_to (owner (ex_server x)) p (frames (\<lambda>_. 1) (ex_replied x)))"
      using d that assms(1) by (simp add: drained_def wire_ok_def)
  qed
  ultimately show ?thesis using d assms(1) own by (simp add: wire_ok_def drained_def)
qed

lemma wire_reply:
  assumes "wire_ok x" "pipeline x" "q_list (outgoing (ex_server x)) = r # rs" "send_one (ex_server x) = Inr (True, s)"
  shows "wire_ok (share_server s x\<lparr>ex_replied := ex_replied x @ [r]\<rparr>)"
proof -
  let ?s = "ex_server x" and ?c = "unat (resp_client_id r)"
  have q: "q_ok (outgoing ?s)" and len: "alen (os_cid_next_outgoing_seq_num ?s) = ME_MAX_NUM_CLIENTS"
    and nxt: "\<And>c. c < ME_MAX_NUM_CLIENTS \<Longrightarrow> nxt_out ?s c = 1 + of_nat (to_client c (ex_replied x))"
    using assms(2) by (simp_all add: pipeline_defs server_ok_def)
  have ok: "\<forall>p. valid_ptr ?s p \<longrightarrow> out_ok (get_socket p ?s)" using assms(1) by (simp add: wire_ok_def)
  note one = send_one_os [OF q assms(3,4)]
  note t = send_response_traffic [OF one ok] and os = send_response_os [OF one]
  have "nxt_out ?s ?c = 1 + of_nat (to_client ?c (ex_replied x))" using t nxt len by simp
  then show ?thesis
    using assms(1) t os by (auto simp: wire_ok_def frames_snoc intro!: list_emb_append_mono)
qed

lemma wire_reachable:
  assumes "ex_reachable srt n m l logger x" "std_sort srt" "0 < n" "0 < m" "0 < l"
  shows "wire_ok x"
  using assms(1) unfolding ex_reachable_def
proof (induction rule: rtranclp_induct)
  case base
  show ?case by (rule wire_init)
next
  case (step x y)
  have inv: "pipeline x" by (rule pipeline_steps [OF step.hyps(1) assms(2) pipeline_init [OF assms(3-5)]])
  have engine: "wire_ok (share_engine e x\<lparr>ex_taken := t, ex_produced := ps\<rparr>)" "wire_ok (share_engine e x\<lparr>ex_taken := t, ex_released := rs\<rparr>)" for e t ps rs
  proof -
    have "get_socket p (ex_server (share_engine e x)) = get_socket p (ex_server x)" for p
      by (cases p) (simp_all add: share_engine_def get_socket_def)
    then show "wire_ok (share_engine e x\<lparr>ex_taken := t, ex_produced := ps\<rparr>)" "wire_ok (share_engine e x\<lparr>ex_taken := t, ex_released := rs\<rparr>)"
      using step.IH same_sockets_share [of x e] by (simp_all add: wire_ok_def same_sockets_def)
  qed
  from step.hyps(2) show ?case
  proof cases
    case (poll evs acs s)
    then show ?thesis using wire_poll step.IH by simp
  next
    case (receive k k' s rs)
    then show ?thesis using wire_receive step.IH by simp
  next
    case (reply r rs s)
    then show ?thesis using wire_reply step.IH inv by simp
  qed (simp_all add: engine)
qed

text \<open>A reply goes out when its client has a socket with room for a frame.\<close>

lemma reply_enabled:
  assumes "q_ok (outgoing s)" "q_list (outgoing s) = r # rs" "owner s (unat (resp_client_id r)) = Some p" "valid_ptr s p"
    "unat (resp_client_id r) < ME_MAX_NUM_CLIENTS" "server_ok s" "out_ok (get_socket p s)"
    "length (out_bytes (get_socket p s)) + frame_size \<le> TCPBufferSize"
  shows "\<exists>s'. send_one s = Inr (True, s')"
proof -
  let ?c = "unat (resp_client_id r)"
  have send: "\<exists>k'. TCPSocket_send bs k = Inr ((), k') \<and> out_ok k' \<and> length (out_bytes k') = length (out_bytes k) + length bs"
    if "out_ok k" "length (out_bytes k) + length bs \<le> TCPBufferSize" for bs k
    using that by (simp add: TCPSocket_send_def memcpy_def bnd_def sq_def out_ok_def)
  obtain k1 where k1: "TCPSocket_send (le_bytes 8 (nxt_out s ?c)) (get_socket p s) = Inr ((), k1)" "out_ok k1"
      "length (out_bytes k1) = length (out_bytes (get_socket p s)) + 8"
    using send [OF assms(7), of "le_bytes 8 (nxt_out s ?c)"] assms(8) by (auto simp: frame_size_def)
  obtain k2 where k2: "TCPSocket_send (bytes_of_MEClientResponse r) k1 = Inr ((), k2)"
    using send [OF k1(2), of "bytes_of_MEClientResponse r"] k1(3) assms(8) by (auto simp: frame_size_def)
  let ?s1 = "put_socket p k1 s" and ?s2 = "put_socket p k2 (put_socket p k1 s)"
  have "on_socket p (TCPSocket_send (le_bytes 8 (nxt_out s ?c))) s = Inr ((), ?s1)"
    "on_socket p (TCPSocket_send (bytes_of_MEClientResponse r)) ?s1 = Inr ((), ?s2)"
    using k1(1) k2 assms(4) by (simp_all add: on_socket_def get_put_socket)
  moreover obtain q where "updateReadIndex (outgoing s) = Inr ((), q)" using lfq.pop_ok [OF assms(1)] assms(2) by auto
  then have "on_outgoing updateReadIndex ?s2 = Inr ((), ?s2\<lparr>os_outgoing_responses := q\<rparr>)" by (simp add: on_outgoing_def)
  ultimately have "\<exists>s'. send_response r s = Inr ((), s')"
    using assms(3,5,6) by (simp add: send_response_def Let_def bnd_def sq_def arr_idx_def server_ok_def)
  then obtain s' where s': "send_response r s = Inr ((), s')" by blast
  obtain i where "getNextToRead (outgoing s) = Inr (Some i, outgoing s)" "read_slot i (outgoing s) = Inr (r, outgoing s)"
    using peek_parts [OF assms(1,2)] by blast
  then have "on_outgoing getNextToRead s = Inr (Some i, s)" "on_outgoing (read_slot i) s = Inr (r, s)"
    by (simp_all add: on_outgoing_def zoom_def)
  moreover have "on_outgoing LFQueue_size s = Inr (q_num_elements (outgoing s), s)"
    by (simp add: on_outgoing_def zoom_def LFQueue_size_def)
  moreover have "q_num_elements (outgoing s) \<noteq> 0" using assms(2) by (metis length_q_list list.size(3) list.distinct(1) length_0_conv)
  ultimately have "send_one s = Inr (True, s')" using s' by (simp add: send_one_def bnd_Inr sq_Inr)
  then show ?thesis by blast
qed

section \<open>Properties\<close>

text \<open>
  C9. What goes out to the clients, in every interleaving of the two threads and for any answers of the kernel: the
  bytes that have left on a socket and those in its buffer are, but for bytes the kernel did not take, the frames of the replies
  to the clients of that socket in the order of the replies, each the client's next number, counted from one, and the
  packed response; no byte is doubled, reordered or sent to another socket. And the replies are the first responses of the abstract engine
  to the requests taken so far, while those are such as the books can hold.
\<close>

theorem wire_carries_replies:
  assumes "ex_reachable srt n m l logger x" "\<And>xs. mset (srt xs) = mset xs" "\<And>xs. in_time_order (srt xs)" "0 < n" "0 < m" "0 < l"
    "valid_ptr (ex_server x) p"
  shows "subseq (ts_wire (get_socket p (ex_server x)) @ out_bytes (get_socket p (ex_server x)))
      (stream_to (owner (ex_server x)) p (frames (\<lambda>_. 1) (ex_replied x))) \<and>
    (requests_ok (ex_published x) (\<lambda>_. empty_book) \<longrightarrow>
      (\<exists>As ps us. spec_engine (ex_processed x) (\<lambda>_. empty_book) = Inr (As, ps, us) \<and> prefix (ex_replied x) ps))"
proof -
  have sort: "std_sort srt" using assms(2,3) by unfold_locales
  have "wire_ok x" by (rule wire_reachable [OF assms(1) sort assms(4-6)])
  moreover have "pipeline x" by (rule pipeline_reachable [OF assms(1) sort assms(4-6)])
  ultimately show ?thesis using assms(7) by (auto simp: wire_ok_def traffic_def pipeline_defs)
qed

text \<open>The first reply to the first client.\<close>

theorem wire_carries_replies_witness:
  "\<exists>x r. ex_reachable stable_sort 8 8 8 a_logger x \<and> ex_replied x = [r] \<and> resp_type r = ACCEPTED \<and>
     ts_wire (get_socket (Accepted 0) (ex_server x)) @ out_bytes (get_socket (Accepted 0) (ex_server x)) =
       le_bytes 8 (1 :: 64 word) @ bytes_of_MEClientResponse r"
proof -
  obtain x r where x: "ex_reachable stable_sort 8 8 8 a_logger x" "ex_produced x = [r]" "ex_replied x = []" "resp_type r = ACCEPTED"
      "resp_client_id r = 5" "valid_ptr (ex_server x) (Accepted 0)" "owner (ex_server x) 5 = Some (Accepted 0)" "os_run (ex_server x)"
    using example_served by blast
  let ?s = "ex_server x"
  have empty: "traffic (get_socket (Accepted 0) ?s) = []"
    using wire_carries_replies [OF x(1) stable.mset_srt stable.srt_order _ _ _ x(6)] x(3)
    by (auto simp: traffic_def dest: list_emb_Nil2)
  have inv: "pipeline x" and ok: "\<forall>p. valid_ptr ?s p \<longrightarrow> out_ok (get_socket p ?s)"
    using pipeline_reachable [OF x(1) stable.std_sort_axioms] wire_reachable [OF x(1) stable.std_sort_axioms]
    by (simp_all add: wire_ok_def)
  then have q: "q_ok (outgoing ?s)" "q_list (outgoing ?s) = [r]" "server_ok ?s" using x(2,3) by (simp_all add: pipeline_defs)
  have c: "unat (resp_client_id r) = 5" using x(5) by simp
  have own: "owner ?s (unat (resp_client_id r)) = Some (Accepted 0)" "unat (resp_client_id r) < ME_MAX_NUM_CLIENTS"
    using x(7) by (simp_all add: c limit_defs)
  have "length (out_bytes (get_socket (Accepted 0) ?s)) + frame_size \<le> TCPBufferSize"
    using empty by (simp add: traffic_def frame_size_def sizeof_defs TCPBufferSize_def)
  then obtain s where s: "send_one ?s = Inr (True, s)"
    using reply_enabled [OF q(1,2) own(1) x(6) own(2) q(3)] ok x(6) by blast
  let ?y = "share_server s x\<lparr>ex_replied := ex_replied x @ [r]\<rparr>"
  have "ex_step stable_sort x ?y" by (rule ex_step.reply [OF x(8) q(2) s])
  then have "ex_reachable stable_sort 8 8 8 a_logger ?y" using x(1) unfolding ex_reachable_def by simp
  moreover have "nxt_out ?s 5 = 1" using inv x(3) by (simp add: pipeline_defs limit_defs)
  then have "traffic (get_socket (Accepted 0) s) = le_bytes 8 (1 :: 64 word) @ bytes_of_MEClientResponse r"
    using send_response_traffic [OF send_one_os [OF q(1,2) s] ok] x(6,7) empty by (simp add: c)
  ultimately show ?thesis using x(3,4) by (intro exI [of _ ?y] exI [of _ r]) (simp add: traffic_def)
qed

end
