(* ===== verification/Epoll_Events.thy ===== *)
theory Epoll_Events
  imports Server_Rounds
begin

unbundle bit_operations_syntax

text \<open>
  What the server asks \<open>epoll\<close> for and what it can be told: \<open>addToEpollList\<close> of
  \<open>low-latency-components/tcp_server.h\<close> and the masks of the events. The masks are those of
  \<open><sys/epoll.h>\<close>.
\<close>

section \<open>Registering a socket\<close>

definition EPOLLIN :: "32 word" where "EPOLLIN = 0x001"
definition EPOLLOUT :: "32 word" where "EPOLLOUT = 0x004"
definition EPOLLERR :: "32 word" where "EPOLLERR = 0x008"
definition EPOLLHUP :: "32 word" where "EPOLLHUP = 0x010"
definition EPOLLET :: "32 word" where "EPOLLET = 0x80000000"

lemmas epoll_defs = EPOLLIN_def EPOLLOUT_def EPOLLERR_def EPOLLHUP_def EPOLLET_def

definition registered :: "32 word" where
  "registered = EPOLLET OR EPOLLIN"

text \<open>\<open>epoll_ctl\<close> is the answer of the kernel to \<open>EPOLL_CTL_ADD\<close> with a descriptor, a mask and the socket.\<close>

definition addToEpollList :: "(int \<Rightarrow> 32 word \<Rightarrow> sock_ptr \<Rightarrow> int) \<Rightarrow> sock_ptr \<Rightarrow> 'a TCPServer_scheme \<Rightarrow> bool" where
  "addToEpollList epoll_ctl p s = (epoll_ctl (ts_socket_fd (get_socket p s)) registered p = 0)"

text \<open>The three tests of \<open>poll\<close> on the mask of an event.\<close>

definition event_of :: "sock_ptr \<Rightarrow> 32 word \<Rightarrow> epoll_event" where
  "event_of p w = \<lparr>ev_socket = p, ev_in = (w AND EPOLLIN \<noteq> 0), ev_out = (w AND EPOLLOUT \<noteq> 0),
     ev_err = (w AND (EPOLLERR OR EPOLLHUP) \<noteq> 0)\<rparr>"

text \<open>\<open>epoll_wait\<close> reports what was asked for, and errors and hang-ups unasked.\<close>

definition reportable :: "32 word \<Rightarrow> bool" where
  "reportable w \<longleftrightarrow> w AND NOT (registered OR EPOLLERR OR EPOLLHUP) = 0"

lemma not_reported: "reportable w \<Longrightarrow> w AND EPOLLOUT = 0"
proof -
  assume "reportable w"
  then have zero: "w AND NOT (registered OR EPOLLERR OR EPOLLHUP) = 0" by (simp add: reportable_def)
  have "EPOLLOUT = NOT (registered OR EPOLLERR OR EPOLLHUP) AND EPOLLOUT"
    by (simp add: registered_def epoll_defs)
  then have "w AND EPOLLOUT = (w AND NOT (registered OR EPOLLERR OR EPOLLHUP)) AND EPOLLOUT"
    by (metis and.assoc)
  also have "\<dots> = 0" unfolding zero by simp
  finally show ?thesis .
qed

section \<open>The list of sockets to send on\<close>

definition sends_to :: "sock_ptr list \<Rightarrow> 'a TCPServer_scheme \<Rightarrow> bool" where
  "sends_to ss s \<longleftrightarrow> sv_send_sockets s = ss"

lemma sends_to_upd [simp]:
  "sends_to ss (s\<lparr>sv_receive_sockets := rs\<rparr>) = sends_to ss s" "sends_to ss (s\<lparr>sv_sockets := ks\<rparr>) = sends_to ss s"
  "sends_to ss (put_socket p k s) = sends_to ss s"
  by (cases p; simp add: sends_to_def put_socket_def)+

lemma keeps_sends_to [keeps_intro]: "keeps (sends_to ss) (add_receive p)" "keeps (sends_to ss) (on_socket p m)"
  unfolding add_receive_def on_socket_def by (auto intro!: keeps_wr keeps_zoom)

lemma keeps_sends_to_event: "\<not> ev_out ev \<Longrightarrow> keeps (sends_to ss) (poll_event ev)"
  unfolding poll_event_def by (cases "ev_in ev \<and> ev_socket ev = Listener") (simp_all add: keeps_intro)

lemma keeps_sends_to_events: "\<forall>ev \<in> set evs. \<not> ev_out ev \<Longrightarrow> keeps (sends_to ss) (poll_events evs)"
  by (induction evs) (simp_all add: keeps_ret keeps_bnd keeps_sends_to_event)

lemma keeps_sends_to_accept [keeps_intro]: "keeps (sends_to ss) (accept_loop acs)"
proof (induction acs)
  case (Cons a acs)
  show ?case unfolding accept_loop.simps by (intro keeps_intro keeps_wr Cons.IH) simp
qed (simp only: accept_loop.simps keeps_ret)

lemma keeps_sends_to_recv [keeps_intro]: "keeps (sends_to ss) (recv_request p t r)"
  unfolding recv_request_def Let_def by (intro keeps_intro keeps_wr keeps_zoom) (simp_all add: sends_to_def)

lemma keeps_sends_to_recv_loop [keeps_intro]: "keeps (sends_to ss) (recv_loop p t n i)"
proof (induction p t n i rule: recv_loop.induct)
  case (1 p t n i)
  show ?case
    by (cases "i + sizeof_OMClientRequest \<le> n") (subst recv_loop.simps, simp add: 1 keeps_intro)+
qed

lemma keeps_sends_to_callbacks [keeps_intro]:
  "keeps (sends_to ss) (recvCallback p t)" "keeps (sends_to ss) (recvFinishedCallback srt)"
  unfolding recvCallback_def recvFinishedCallback_def
  by (intro keeps_intro) (intro keeps_zoom, simp add: sends_to_def)

lemma keeps_sends_to_each [keeps_intro]: "keeps (sends_to ss) (each_sendAndRecv recvCallback k ps)"
  by (induction ps) (simp_all only: each_sendAndRecv.simps sock_sendAndRecv_def, (intro keeps_intro, assumption?)+)

section \<open>Properties\<close>

text \<open>
  C39. The server never asks to be told when a socket can be written to, so it is never told: whatever
  events \<open>epoll_wait\<close> reports of the registered ones, no socket gets into \<open>send_sockets_\<close>, and the
  second pass of \<open>sendAndRecv\<close> does nothing, whatever the sockets would have done in it.
\<close>

theorem send_pass_is_idle:
  fixes s :: OrderServer
  assumes "sv_send_sockets s = []" "\<forall>(p, w) \<in> set ws. reportable w"
    "sq (poll (map (\<lambda>(p, w). event_of p w) ws) acs) (TCPServer_sendAndRecv recvCallback (recvFinishedCallback srt) k k') s = Inr ((), s')"
  shows "sv_send_sockets s' = [] \<and>
    sq (poll (map (\<lambda>(p, w). event_of p w) ws) acs) (TCPServer_sendAndRecv recvCallback (recvFinishedCallback srt) k k'') s = Inr ((), s')"
proof -
  let ?poll = "poll (map (\<lambda>(p, w). event_of p w) ws) acs :: (OrderServer, unit) prog"
  have "\<forall>ev \<in> set (map (\<lambda>(p, w). event_of p w) ws). \<not> ev_out ev"
    using assms(2) not_reported by (auto simp: event_of_def)
  then have poll: "keeps (sends_to []) ?poll"
    unfolding poll_def by (intro keeps_intro keeps_sends_to_events)
  obtain s1 where s1: "?poll s = Inr ((), s1)"
      "TCPServer_sendAndRecv recvCallback (recvFinishedCallback srt) k k' s1 = Inr ((), s')"
    using assms(3) by (auto simp: sq_def bnd_def split: sum.splits)
  have 1: "sends_to [] s1" using keepsD [OF poll s1(1)] assms(1) by (simp add: sends_to_def)
  obtain b s2 where s2: "each_sendAndRecv recvCallback k (sv_receive_sockets s1) s1 = Inr (b, s2)"
    using s1(2) by (auto simp: TCPServer_sendAndRecv_def bnd_def split: sum.splits)
  have 2: "sends_to [] s2" by (rule keepsD [OF keeps_sends_to_each s2 1])
  obtain s3 where s3: "when_do b (recvFinishedCallback srt) s2 = Inr ((), s3)"
    using s1(2) s2 by (auto simp: TCPServer_sendAndRecv_def bnd_def sq_def split: sum.splits)
  have "keeps (sends_to []) (when_do b (recvFinishedCallback srt))" by (intro keeps_intro)
  from keepsD [OF this s3 2] have 3: "sends_to [] s3" .
  have "TCPServer_sendAndRecv recvCallback (recvFinishedCallback srt) k k0 s1 = Inr ((), s3)" for k0
    using s2 s3 3 by (simp add: TCPServer_sendAndRecv_def bnd_def sq_def sends_to_def)
  then show ?thesis using s1 3 by (simp add: sq_def bnd_def sends_to_def)
qed

theorem send_pass_is_idle_witness:
  "\<exists>s'. sq (poll (map (\<lambda>(p, w). event_of p w) [(Accepted 0, EPOLLIN)]) [])
      (TCPServer_sendAndRecv recvCallback (recvFinishedCallback stable_sort) silent
        (delivers (bytes_of_OMClientRequest first_request))) (server_with []) = Inr ((), s') \<and> sv_send_sockets s' = []"
proof -
  let ?ws = "[(Accepted 0, EPOLLIN)]" and ?s = "server_with []"
  have "length ([] :: byte list) \<le> TCPBufferSize" by simp
  note ok = server_with_ok [OF this]
  have lists: "sv_receive_sockets ?s = [Accepted 0]" "sv_send_sockets ?s = []"
    by (simp_all add: server_with_def OrderServer_new_def TCPServer_new_def TCPServer.extend_def)
  have rep: "\<forall>(p, w) \<in> set ?ws. reportable w" by (simp add: reportable_def registered_def epoll_defs)
  have "poll (map (\<lambda>(p, w). event_of p w) ?ws) [] ?s = Inr ((), ?s)"
    using lists by (simp add: poll_def poll_event_def event_of_def epoll_defs events_size_def bnd_def sq_def when_do_def add_receive_def)
  moreover obtain s' where "TCPServer_sendAndRecv recvCallback (recvFinishedCallback stable_sort) silent silent ?s = Inr ((), s')"
  proof -
    obtain s1 where "each_sendAndRecv recvCallback silent [Accepted 0] ?s = Inr (False, s1)" "quiet ?s s1"
      using idle_pass [OF ok(8), of "[Accepted 0]" silent recvCallback] ok(3) by (auto simp: silent_def)
    then show thesis using that lists by (simp add: TCPServer_sendAndRecv_def bnd_def sq_def when_do_def quiet_def)
  qed
  ultimately have "sq (poll (map (\<lambda>(p, w). event_of p w) ?ws) [])
      (TCPServer_sendAndRecv recvCallback (recvFinishedCallback stable_sort) silent silent) ?s = Inr ((), s')"
    by (simp only: sq_def bnd_def sum.case prod.case)
  from send_pass_is_idle [OF lists(2) rep this] show ?thesis by blast
qed

end
