(* ===== verification/Book_Accounts.thy ===== *)
theory Book_Accounts
  imports Book_Properties
begin

text \<open>
  What the messages of a book say, taken together: how a subscriber follows the book from the market
  updates, and the quantities that the responses account for.
\<close>

section \<open>The book as a subscriber sees it\<close>

type_synonym quote = "Side \<times> Price \<times> Qty \<times> Priority"

definition quote_of :: "Side \<Rightarrow> Price \<Rightarrow> resting \<Rightarrow> OrderId \<times> quote" where
  "quote_of side p r = (r_moid r, side, p, r_qty r, r_prio r)"

definition quotes :: "Side \<Rightarrow> level list \<Rightarrow> (OrderId \<times> quote) list" where
  "quotes side ls = concat (map (\<lambda>(p, rs). map (quote_of side p) rs) ls)"

definition depth :: "abook \<Rightarrow> OrderId \<Rightarrow> quote option" where
  "depth A = map_of (quotes SELL (ab_asks A) @ quotes BUY (ab_bids A))"

text \<open>A subscriber keeps the open orders of each ticker and applies the updates in order.\<close>

definition apply_update :: "MEMarketUpdate \<Rightarrow> (OrderId \<Rightarrow> quote option) \<Rightarrow> OrderId \<Rightarrow> quote option" where
  "apply_update u D =
     (case upd_type u of
        ADD \<Rightarrow> D(upd_order_id u \<mapsto> (upd_side u, upd_price u, upd_qty u, upd_priority u))
      | MODIFY \<Rightarrow> D(upd_order_id u \<mapsto> (upd_side u, upd_price u, upd_qty u, upd_priority u))
      | CANCEL \<Rightarrow> D(upd_order_id u := None)
      | _ \<Rightarrow> D)"

definition feed :: "MEMarketUpdate \<Rightarrow> (nat \<Rightarrow> OrderId \<Rightarrow> quote option) \<Rightarrow> nat \<Rightarrow> OrderId \<Rightarrow> quote option" where
  "feed u Ds = (let i = unat (upd_ticker_id u) in Ds(i := apply_update u (Ds i)))"

lemma quotes_simps [simp]:
  "quotes side [] = []" "quotes side ((p, rs) # ls) = map (quote_of side p) rs @ quotes side ls"
  "quotes side (ls @ ms) = quotes side ls @ quotes side ms"
  by (simp_all add: quotes_def)

lemma orders_of_append [simp]: "orders_of (ls @ ms) = orders_of ls @ orders_of ms"
  by (simp add: orders_of_def)

lemma fst_quotes [simp]: "map fst (quotes side ls) = map r_moid (orders_of ls)"
  by (induction ls) (auto simp: quote_of_def orders_of_def)

lemma set_fst_quotes: "fst ` set (quotes side ls) = r_moid ` set (orders_of ls)"
  by (metis fst_quotes list.set_map)

lemma quote_of_key [simp]: "fst (quote_of side p r) = r_moid r"
  by (simp add: quote_of_def)

lemma fst_quote_list [simp]: "map fst (map (quote_of side p) rs) = map r_moid rs"
  by simp

section \<open>Quantities\<close>

definition total :: "resting list \<Rightarrow> nat" where
  "total rs = sum_list (map (\<lambda>r. unat (r_qty r)) rs)"

definition open_qty :: "abook \<Rightarrow> nat" where
  "open_qty A = total (book_orders A)"

text \<open>The quantities that a list of responses accepts, executes (once for each party) and cancels.\<close>

definition sum_of :: "ClientResponseType \<Rightarrow> (MEClientResponse \<Rightarrow> Qty) \<Rightarrow> MEClientResponse list \<Rightarrow> nat" where
  "sum_of ty q ps = sum_list (map (\<lambda>p. unat (q p)) (filter (\<lambda>p. resp_type p = ty) ps))"

abbreviation accepted_qty :: "MEClientResponse list \<Rightarrow> nat" where "accepted_qty \<equiv> sum_of ACCEPTED resp_leaves_qty"
abbreviation executed_qty :: "MEClientResponse list \<Rightarrow> nat" where "executed_qty \<equiv> sum_of FILLED resp_exec_qty"
abbreviation cancelled_qty :: "MEClientResponse list \<Rightarrow> nat" where "cancelled_qty \<equiv> sum_of CANCELED resp_leaves_qty"

lemma total_simps [simp]: "total [] = 0" "total (r # rs) = unat (r_qty r) + total rs" "total (rs @ rs') = total rs + total rs'"
  by (simp_all add: total_def)

lemma sum_of_simps [simp]:
  "sum_of ty q [] = 0" "sum_of ty q (p # ps) = (if resp_type p = ty then unat (q p) else 0) + sum_of ty q ps"
  "sum_of ty q (ps @ ps') = sum_of ty q ps + sum_of ty q ps'"
  by (simp_all add: sum_of_def)

lemma sum_of_fills [simp]:
  "accepted_qty (concat (map (fill_responses c oid t mo) fs)) = 0"
  "executed_qty (concat (map (fill_responses c oid t mo) fs)) = 2 * filled fs"
  "cancelled_qty (concat (map (fill_responses c oid t mo) fs)) = 0"
  by (induction fs) (simp_all add: fill_responses_def)

section \<open>Matching\<close>

lemma match_level_accounts:
  assumes "match_level p l rs = (l', rs', fs)" "distinct (map r_moid rs @ map fst M)"
  shows "fold apply_update (concat (map (fill_updates t) fs)) (map_of (map (quote_of SELL p) rs @ M)) =
      map_of (map (quote_of SELL p) rs' @ M) \<and>
    total rs = total rs' + filled fs \<and> unat l = unat l' + filled fs \<and> r_moid ` set rs' \<subseteq> r_moid ` set rs \<and> distinct (map r_moid rs')"
  using assms
proof (induction p l rs arbitrary: l' rs' fs rule: match_level.induct)
  case (2 p l r rs)
  obtain l1 rs1 fs1 where m: "match_level p (l - r_qty r) rs = (l1, rs1, fs1)" by (cases "match_level p (l - r_qty r) rs")
  have key: "r_moid r \<notin> dom (map_of (map (quote_of SELL p) rs @ M))"
    using 2(3) by (auto simp: dom_map_of_conv_image_fst image_iff)
  consider "l = 0" | "l \<noteq> 0" "r_qty r \<le> l" | "l \<noteq> 0" "\<not> r_qty r \<le> l" by blast
  then show ?case
  proof cases
    case 1
    then show ?thesis using 2(2,3) by auto
  next
    case full: 2
    have q: "unat (l - r_qty r) = unat l - unat (r_qty r)" "unat (r_qty r) \<le> unat l"
      using full(2) by (simp_all add: unat_sub word_le_nat_alt)
    have "apply_update u (map_of (map (quote_of SELL p) (r # rs) @ M)) = map_of (map (quote_of SELL p) (r # rs) @ M)"
      if "upd_type u = TRADE" for u using that by (simp add: apply_update_def)
    moreover have "(map_of (map (quote_of SELL p) (r # rs) @ M))(r_moid r := None) = map_of (map (quote_of SELL p) rs @ M)"
      using key by (auto simp: quote_of_def fun_eq_iff)
    ultimately have one: "fold apply_update (fill_updates t \<lparr>f_maker = r, f_price = p, f_qty = r_qty r, f_leaves = l - r_qty r\<rparr>)
        (map_of (map (quote_of SELL p) (r # rs) @ M)) = map_of (map (quote_of SELL p) rs @ M)"
      by (simp add: fill_updates_def) (simp add: apply_update_def)
    have out: "l' = l1" "rs' = rs1" "fs = \<lparr>f_maker = r, f_price = p, f_qty = r_qty r, f_leaves = l - r_qty r\<rparr> # fs1"
      using 2(2) full m by auto
    have "distinct (map r_moid rs @ map fst M)" using 2(3) by simp
    note IH = 2(1) [OF full m this]
    have "fold apply_update (concat (map (fill_updates t) fs)) (map_of (map (quote_of SELL p) (r # rs) @ M)) =
        map_of (map (quote_of SELL p) rs' @ M)"
      unfolding out list.map(2) [of "fill_updates t"] concat.simps fold_append comp_apply one using IH by blast
    moreover have "total (r # rs) = total rs' + filled fs \<and> unat l = unat l' + filled fs \<and>
        r_moid ` set rs' \<subseteq> r_moid ` set (r # rs) \<and> distinct (map r_moid rs')"
      using IH out q by auto
    ultimately show ?thesis by (rule conjI)
  next
    case part: 3
    then have "\<not> l = r_qty r" "unat l < unat (r_qty r)" by (auto simp: word_le_nat_alt not_le)
    moreover from this have "unat (r_qty r - l) = unat (r_qty r) - unat l" by (simp add: unat_sub word_le_nat_alt)
    ultimately show ?thesis
      using part 2(2,3) by (auto simp: fill_updates_def apply_update_def quote_of_def fun_eq_iff)
  qed
qed auto

lemma match_asks_accounts:
  assumes "match_asks price l ls = (l', ls', fs)" "distinct (map r_moid (orders_of ls) @ map fst M)"
  shows "fold apply_update (concat (map (fill_updates t) fs)) (map_of (quotes SELL ls @ M)) = map_of (quotes SELL ls' @ M) \<and>
    total (orders_of ls) = total (orders_of ls') + filled fs \<and> unat l = unat l' + filled fs"
  using assms
proof (induction price l ls arbitrary: l' ls' fs rule: match_asks.induct)
  case (2 price l p rs ls)
  obtain l1 rs1 fs1 where m: "match_level p l rs = (l1, rs1, fs1)" by (cases "match_level p l rs")
  obtain l2 ls2 fs2 where n: "match_asks price l1 ls = (l2, ls2, fs2)" by (cases "match_asks price l1 ls")
  show ?case
  proof (cases "l = 0 \<or> sint price < sint p")
    case True
    then show ?thesis using 2(2) by auto
  next
    case False
    have "distinct (map r_moid rs @ map fst (quotes SELL ls @ M))"
      using 2(3) by (auto simp: orders_of_def)
    note lv = match_level_accounts [OF m this, of t]
    have rest: "distinct (map r_moid (orders_of ls) @ map fst M)" using 2(3) by (auto simp: orders_of_def)
    show ?thesis
    proof (cases "rs1 = []")
      case True
      then have out: "l' = l2" "ls' = ls2" "fs = fs1 @ fs2" using 2(2) False m n by auto
      then show ?thesis using 2(1) [OF False m [symmetric] refl True n rest] lv True by (simp add: orders_of_def)
    next
      case rs1: False
      then have out: "l' = l1" "ls' = (p, rs1) # ls" "fs = fs1" using 2(2) False m by auto
      then show ?thesis using lv by (simp add: orders_of_def)
    qed
  qed
qed simp

section \<open>Placing and removing\<close>

lemma map_of_insert:
  assumes "k \<notin> fst ` set (xs @ ys)"
  shows "map_of (xs @ (k, v) # ys) = (map_of (xs @ ys))(k \<mapsto> v)"
  using assms by (induction xs) (auto simp: fun_eq_iff)

lemma append_at_accounts:
  "level_at p ls \<noteq> None \<Longrightarrow> \<exists>xs ys. quotes side ls = xs @ ys \<and>
     quotes side (append_at p r ls) = xs @ quote_of side p r # ys \<and> total (orders_of (append_at p r ls)) = total (orders_of ls) + unat (r_qty r)"
proof (induction p r ls rule: append_at.induct)
  case (2 p r q rs ls)
  show ?case
  proof (cases "q = p")
    case True
    show ?thesis
      by (rule exI [of _ "map (quote_of side p) rs"], rule exI [of _ "quotes side ls"]) (simp add: True orders_of_def)
  next
    case False
    then obtain xs ys where "quotes side ls = xs @ ys" "quotes side (append_at p r ls) = xs @ quote_of side p r # ys"
        "total (orders_of (append_at p r ls)) = total (orders_of ls) + unat (r_qty r)"
      using 2 by auto
    then show ?thesis using False
      by (intro exI [of _ "map (quote_of side q) rs @ xs"] exI [of _ ys]) (simp add: orders_of_def)
  qed
qed simp

text \<open>An order is put somewhere into the list of quotes of its side.\<close>

definition inserted :: "Side \<Rightarrow> Price \<Rightarrow> resting \<Rightarrow> level list \<Rightarrow> level list \<Rightarrow> bool" where
  "inserted side p r ls ls' \<longleftrightarrow> (\<exists>xs ys. quotes side ls = xs @ ys \<and> quotes side ls' = xs @ quote_of side p r # ys) \<and>
     total (orders_of ls') = total (orders_of ls) + unat (r_qty r)"

lemma new_level_inserted:
  assumes "new_level side p r A = Inr A'" "side \<in> {BUY, SELL}"
  shows "inserted side p r (side_levels side A) (side_levels side A')"
    "side = BUY \<Longrightarrow> ab_asks A' = ab_asks A" "side = SELL \<Longrightarrow> ab_bids A' = ab_bids A"
proof -
  let ?low = "takeWhile (cheaper_level p) (ab_asks A)" and ?high = "dropWhile (cheaper_level p) (ab_asks A)"
  have split: "quotes s (ab_asks A) = quotes s ?low @ quotes s ?high" "total (orders_of (ab_asks A)) = total (orders_of ?low) + total (orders_of ?high)" for s
    using quotes_simps(3) [of s ?low ?high] total_simps(3) [of "orders_of ?low" "orders_of ?high"]
    by (simp_all only: takeWhile_dropWhile_id orders_of_append [symmetric])
  have new: "if side = BUY then ab_bids A' = (p, [r]) # ab_bids A \<and> ab_asks A' = ab_asks A
      else ab_asks A' = ?low @ (p, [r]) # ?high \<and> ab_bids A' = ab_bids A"
    using assms(1) by (auto simp: new_level_def Let_def split: if_splits)
  show "inserted side p r (side_levels side A) (side_levels side A')"
  proof (cases "side = BUY")
    case True
    have "\<exists>xs ys. Q = xs @ ys \<and> z # Q = xs @ z # ys" for z and Q :: "(OrderId \<times> quote) list"
      by (rule exI [of _ "[]"]) simp
    then show ?thesis using new True by (simp add: inserted_def side_levels_def)
  next
    case False
    then show ?thesis
      using new split unfolding inserted_def side_levels_def
      by (intro conjI exI [of _ "quotes side ?low"] exI [of _ "quotes side ?high"]) (auto simp: orders_of_def)
  qed
qed (use assms in \<open>auto simp: new_level_def Let_def split: if_splits\<close>)

lemma append_level_inserted:
  assumes "level_at p (side_levels side A) \<noteq> None"
  shows "inserted side p r (side_levels side A) (side_levels side (append_level side p r A))"
    "side = BUY \<Longrightarrow> ab_asks (append_level side p r A) = ab_asks A" "side = SELL \<Longrightarrow> ab_bids (append_level side p r A) = ab_bids A"
proof -
  have "side_levels side (append_level side p r A) = append_at p r (side_levels side A)"
    by (simp add: append_level_def side_levels_def)
  then show "inserted side p r (side_levels side A) (side_levels side (append_level side p r A))"
    unfolding inserted_def using append_at_accounts [OF assms, of side r] by auto
qed (simp_all add: append_level_def)

lemma place_accounts:
  assumes "place side p r A = Inr A'" "side \<in> {BUY, SELL}" "r_moid r \<notin> r_moid ` set (book_orders A)"
  shows "depth A' = (depth A)(r_moid r \<mapsto> (side, p, r_qty r, r_prio r)) \<and> open_qty A' = open_qty A + unat (r_qty r)"
proof -
  obtain B where B: "(if level_at p (side_levels side A) = None then new_level side p r A else Inr (append_level side p r A)) = Inr B"
      "ab_asks A' = ab_asks B" "ab_bids A' = ab_bids B"
    using assms(1) by (auto simp: place_def split: if_splits sum.splits)
  have ins: "inserted side p r (side_levels side A) (side_levels side B)" "side = BUY \<Longrightarrow> ab_asks B = ab_asks A"
      "side = SELL \<Longrightarrow> ab_bids B = ab_bids A"
    using B(1) new_level_inserted [OF _ assms(2), of p r A B] append_level_inserted [of p side A r]
    by (auto split: if_splits)
  obtain xs ys where q: "quotes side (side_levels side A) = xs @ ys" "quotes side (side_levels side B) = xs @ (r_moid r, side, p, r_qty r, r_prio r) # ys"
    "total (orders_of (side_levels side B)) = total (orders_of (side_levels side A)) + unat (r_qty r)"
    using ins(1) unfolding inserted_def quote_of_def by blast
  show ?thesis
  proof (cases "side = BUY")
    case True
    then have d: "depth A = map_of ((quotes SELL (ab_asks A) @ xs) @ ys)"
      "depth A' = map_of ((quotes SELL (ab_asks A) @ xs) @ (r_moid r, (side, p, r_qty r, r_prio r)) # ys)"
      using q(1,2) B(2,3) ins(2) by (simp_all add: depth_def side_levels_def)
    have keys: "fst ` set ((quotes SELL (ab_asks A) @ xs) @ ys) = r_moid ` set (book_orders A)"
    proof -
      have "(quotes SELL (ab_asks A) @ xs) @ ys = quotes SELL (ab_asks A) @ quotes BUY (ab_bids A)"
        using q(1) True by (simp add: side_levels_def)
      then show ?thesis by (simp only: set_append image_Un set_fst_quotes book_orders_def)
    qed
    show ?thesis
      unfolding d(2) map_of_insert [OF assms(3) [folded keys]] d(1) [symmetric]
      using q(3) B(2,3) ins(2) True by (simp add: open_qty_def book_orders_def side_levels_def)
  next
    case False
    then have side: "side = SELL" using assms(2) by simp
    then have d: "depth A = map_of (xs @ (ys @ quotes BUY (ab_bids A)))"
      "depth A' = map_of (xs @ (r_moid r, (side, p, r_qty r, r_prio r)) # (ys @ quotes BUY (ab_bids A)))"
      using q(1,2) B(2,3) ins(3) by (simp_all add: depth_def side_levels_def)
    have keys: "fst ` set (xs @ (ys @ quotes BUY (ab_bids A))) = r_moid ` set (book_orders A)"
    proof -
      have "xs @ (ys @ quotes BUY (ab_bids A)) = quotes SELL (ab_asks A) @ quotes BUY (ab_bids A)"
        using q(1) side by (simp add: side_levels_def)
      then show ?thesis by (simp only: set_append image_Un set_fst_quotes book_orders_def)
    qed
    show ?thesis
      unfolding d(2) map_of_insert [OF assms(3) [folded keys]] d(1) [symmetric]
      using q(3) B(2,3) ins(3) side by (simp add: open_qty_def book_orders_def side_levels_def)
  qed
qed

lemma without_accounts:
  "quotes side (without mo ls) = filter (\<lambda>q. fst q \<noteq> mo) (quotes side ls)"
  "orders_of (without mo ls) = filter (\<lambda>r. r_moid r \<noteq> mo) (orders_of ls)"
  by (induction ls) (auto simp: without_def orders_of_def filter_map o_def)

lemma map_of_delete: "map_of (filter (\<lambda>q. fst q \<noteq> k) xs) = (map_of xs)(k := None)"
  by (induction xs) (auto simp: fun_eq_iff)

lemma total_remove:
  "distinct (map r_moid rs) \<Longrightarrow> r \<in> set rs \<Longrightarrow> total rs = total (filter (\<lambda>x. r_moid x \<noteq> r_moid r) rs) + unat (r_qty r)"
proof (induction rs)
  case (Cons x rs)
  show ?case
  proof (cases "x = r")
    case True
    then have "r_moid r \<notin> r_moid ` set rs" using Cons.prems(1) by simp
    then have "\<forall>y \<in> set rs. r_moid y \<noteq> r_moid r" by (auto simp: image_iff)
    then have "filter (\<lambda>y. r_moid y \<noteq> r_moid r) rs = rs" by simp
    then show ?thesis using True by simp
  next
    case False
    then have "r_moid x \<noteq> r_moid r" using Cons.prems by force
    then show ?thesis using False Cons by simp
  qed
qed simp

lemma find_order_in: "find_order mo A = Some (s, p, r) \<Longrightarrow> r \<in> set (book_orders A) \<and> r_moid r = mo"
  by (fastforce simp: find_order_def find_in_def find_Some_iff book_orders_def orders_of_def split: option.splits dest!: nth_mem)

lemma remove_accounts:
  assumes "remove_order mo x A = Inr A'" "distinct (map r_moid (book_orders A))" "r \<in> set (book_orders A)" "r_moid r = mo"
  shows "depth A' = (depth A)(mo := None) \<and> open_qty A = open_qty A' + unat (r_qty r)"
proof -
  have A': "ab_asks A' = without mo (ab_asks A)" "ab_bids A' = without mo (ab_bids A)"
    using assms(1) by (auto simp: remove_order_def split: if_splits)
  have "depth A' = map_of (filter (\<lambda>q. fst q \<noteq> mo) (quotes SELL (ab_asks A) @ quotes BUY (ab_bids A)))"
    by (simp add: depth_def A' without_accounts(1))
  then have "depth A' = (depth A)(mo := None)" unfolding map_of_delete by (simp add: depth_def)
  moreover have "book_orders A' = filter (\<lambda>x. r_moid x \<noteq> r_moid r) (book_orders A)"
    by (simp add: book_orders_def A' without_accounts(2) assms(4))
  then have "open_qty A = open_qty A' + unat (r_qty r)"
    using total_remove [OF assms(2,3)] by (simp add: open_qty_def)
  ultimately show ?thesis by blast
qed

section \<open>The operations of a book\<close>

text \<open>What a request to the book of ticker \<open>t\<close> changes, in the eyes of the subscribers and in quantities.\<close>

definition accounts :: "TickerId \<Rightarrow> abook \<Rightarrow> MEClientResponse list \<Rightarrow> MEMarketUpdate list \<Rightarrow> abook \<Rightarrow> bool" where
  "accounts t A ps us A' \<longleftrightarrow> (\<forall>u \<in> set us. upd_ticker_id u = t) \<and> fold apply_update us (depth A) = depth A' \<and>
     open_qty A + accepted_qty ps = open_qty A' + executed_qty ps + cancelled_qty ps"

lemma spec_match_accounts:
  assumes "spec_match side price qty A = (l, A', fs)" "distinct (map r_moid (book_orders A))"
  shows "fold apply_update (concat (map (fill_updates t) fs)) (depth A) = depth A' \<and> open_qty A = open_qty A' + filled fs \<and>
    unat qty = unat l + filled fs"
proof (cases "side = BUY")
  case True
  obtain l1 ls fs1 where m: "match_asks price qty (ab_asks A) = (l1, ls, fs1)" by (cases "match_asks price qty (ab_asks A)")
  then have out: "l = l1" "fs = fs1" "ab_asks A' = ls" "ab_bids A' = ab_bids A"
    using assms(1) True by (auto simp: spec_match_def after_match_def)
  have "distinct (map r_moid (orders_of (ab_asks A)) @ map fst (quotes BUY (ab_bids A)))"
    using assms(2) by (simp add: book_orders_def)
  from match_asks_accounts [OF m this, of t] show ?thesis by (simp add: depth_def open_qty_def book_orders_def out)
next
  case False
  then show ?thesis using assms(1) by (simp add: spec_match_def)
qed

lemma fill_updates_ticker: "\<forall>u \<in> set (concat (map (fill_updates t) fs)). upd_ticker_id u = t"
  by (auto simp: fill_updates_def)

lemma spec_add_accounts:
  assumes "spec_add c oid t side price qty A = Inr (A', ps, us)" "ab_wf A" "side \<in> {BUY, SELL}"
  shows "accounts t A ps us A'"
proof -
  let ?A1 = "A\<lparr>ab_next := ab_next A + 1\<rparr>"
  obtain l B fs where m: "spec_match side price qty ?A1 = (l, B, fs)" by (cases "spec_match side price qty ?A1")
  have wf: "distinct (map r_moid (book_orders ?A1))" "\<forall>r \<in> set (book_orders A). r_moid r < ab_next A"
    using assms(2) by (simp_all add: ab_wf_def book_orders_def)
  note acc = spec_match_accounts [OF m wf(1), of t]
  have same: "depth ?A1 = depth A" "open_qty ?A1 = open_qty A" by (simp_all add: depth_def open_qty_def book_orders_def)
  show ?thesis
  proof (cases "l = 0")
    case True
    then show ?thesis
      using assms(1) m acc same fill_updates_ticker [of t fs] by (auto simp: accounts_def spec_add_def Let_def)
  next
    case False
    let ?r = "\<lparr>r_client = c, r_oid = oid, r_moid = ab_next A, r_qty = l, r_prio = spec_priority side price B\<rparr>"
    have out: "place side price ?r B = Inr A'" "us = concat (map (fill_updates t) fs) @
         [\<lparr>upd_type = ADD, upd_order_id = ab_next A, upd_ticker_id = t, upd_side = side,
           upd_price = price, upd_qty = l, upd_priority = spec_priority side price B\<rparr>]"
      "accepted_qty ps = unat qty" "executed_qty ps = 2 * filled fs" "cancelled_qty ps = 0"
      using assms(1) m False by (auto simp: spec_add_def Let_def split: sum.splits)
    have "r_moid ` set (book_orders B) \<subseteq> r_moid ` set (book_orders A)"
      using spec_match_keeps(3) [OF m] by (simp add: book_orders_def)
    then have "r_moid ?r \<notin> r_moid ` set (book_orders B)" using wf(2) by force
    from place_accounts [OF out(1) assms(3) this]
    show ?thesis using acc same out(2-5) fill_updates_ticker [of t fs] by (simp add: accounts_def) (simp add: apply_update_def)
  qed
qed

lemma spec_cancel_accounts:
  assumes "spec_cancel c oid t A = Inr (A', ps, us)" "ab_wf A"
  shows "accounts t A ps us A'"
proof (cases "A' = A \<and> ps = [cancel_rejected c oid t] \<and> us = []")
  case True
  then show ?thesis by (simp add: accounts_def cancel_rejected_def)
next
  case False
  then obtain mo side p r where f: "find_order mo A = Some (side, p, r)" "remove_order mo r A = Inr A'"
      "ps = [\<lparr>resp_type = CANCELED, resp_client_id = c, resp_ticker_id = t,
         resp_client_order_id = oid, resp_market_order_id = mo, resp_side = side,
         resp_price = p, resp_exec_qty = Qty_INVALID, resp_leaves_qty = r_qty r\<rparr>]"
      "us = [\<lparr>upd_type = CANCEL, upd_order_id = mo, upd_ticker_id = t, upd_side = side,
         upd_price = p, upd_qty = 0, upd_priority = r_prio r\<rparr>]"
    using assms(1) by (auto simp: spec_cancel_def split: if_splits option.splits sum.splits)
  have "distinct (map r_moid (book_orders A))" using assms(2) by (simp add: ab_wf_def)
  from remove_accounts [OF f(2) this, of r] find_order_in [OF f(1)]
  have "depth A' = (depth A)(mo := None) \<and> open_qty A = open_qty A' + unat (r_qty r)" by blast
  then show ?thesis by (simp add: accounts_def f(3,4) apply_update_def)
qed

end
