(* ===== verification/Engine_Accounts.thy ===== *)
theory Engine_Accounts
  imports Book_Accounts Engine_Messages
begin

text \<open>
  What the messages of the engine say, taken together: the market updates are enough to follow the books,
  and the responses account for every quantity.
\<close>

section \<open>The engine\<close>

definition all_open :: "abooks \<Rightarrow> nat" where
  "all_open As = (\<Sum>i < ME_MAX_TICKERS. open_qty (As i))"

definition depths :: "abooks \<Rightarrow> nat \<Rightarrow> OrderId \<Rightarrow> quote option" where
  "depths As = (\<lambda>i. depth (As i))"

lemma feed_one:
  assumes "\<forall>u \<in> set us. unat (upd_ticker_id u) = i"
  shows "fold feed us Ds = Ds(i := fold apply_update us (Ds i))"
  using assms by (induction us arbitrary: Ds) (auto simp: feed_def Let_def)

lemma process_accounts:
  assumes "spec_process r As = Inr (As', ps, us)" "request_ok r As" "\<forall>i < ME_MAX_TICKERS. ab_wf (As i)"
  shows "fold feed us (depths As) = depths As' \<and>
    all_open As + accepted_qty ps = all_open As' + executed_qty ps + cancelled_qty ps"
proof -
  let ?i = "unat (req_ticker_id r)"
  have i: "?i < ME_MAX_TICKERS" using assms(1) by (simp add: spec_process_def Let_def split: if_splits)
  then have wf: "ab_wf (As ?i)" using assms(3) by blast
  obtain B where B: "As' = As(?i := B)" "accounts (req_ticker_id r) (As ?i) ps us B"
  proof (cases "req_type r")
    case Request_NEW
    obtain B where B: "spec_add (req_client_id r) (req_order_id r) (req_ticker_id r) (req_side r) (req_price r)
        (req_qty r) (As ?i) = Inr (B, ps, us)" "As' = As(?i := B)"
      using assms(1) i Request_NEW by (auto simp: spec_process_def Let_def map_sum_def split: sum.splits)
    have "req_side r \<in> {BUY, SELL}" using assms(2) i Request_NEW by (simp add: request_ok_def add_ok_def)
    then show ?thesis using that [OF B(2) spec_add_accounts [OF B(1) wf]] by blast
  next
    case Request_CANCEL
    obtain B where B: "spec_cancel (req_client_id r) (req_order_id r) (req_ticker_id r) (As ?i) = Inr (B, ps, us)"
        "As' = As(?i := B)"
      using assms(1) i Request_CANCEL by (auto simp: spec_process_def Let_def map_sum_def split: sum.splits)
    show ?thesis using that [OF B(2) spec_cancel_accounts [OF B(1) wf]] .
  qed (use assms(1) i in \<open>simp_all add: spec_process_def Let_def\<close>)
  have "\<forall>u \<in> set us. unat (upd_ticker_id u) = ?i" using B(2) by (simp add: accounts_def)
  then have "fold feed us (depths As) = depths As'"
    using feed_one [of us ?i "depths As"] B by (simp add: accounts_def depths_def fun_eq_iff)
  moreover have "all_open As + open_qty B = all_open As' + open_qty (As ?i)"
    using i unfolding all_open_def B(1)
    by (simp add: sum.remove [of "{..<ME_MAX_TICKERS}" ?i])
  ultimately show ?thesis using B(2) by (simp add: accounts_def)
qed

lemma engine_rel_ab_wf: "engine_rel e As \<Longrightarrow> i < ME_MAX_TICKERS \<Longrightarrow> ab_wf (As i)"
  using book_rep_wf by (auto simp: engine_rel_def book_rel_def)

lemma engine_accounts:
  assumes "engine_rel e As" "requests_ok rs As" "spec_engine rs As = Inr (As', ps, us)"
  shows "fold feed us (depths As) = depths As' \<and>
    all_open As + accepted_qty ps = all_open As' + executed_qty ps + cancelled_qty ps"
  using assms
proof (induction rs arbitrary: e As ps us)
  case (Cons r rs)
  obtain As1 ps1 us1 where one: "spec_process r As = Inr (As1, ps1, us1)" using Cons.prems(3) by (auto split: sum.splits)
  obtain ps2 us2 where two: "spec_engine rs As1 = Inr (As', ps2, us2)" "ps = ps1 @ ps2" "us = us1 @ us2"
    using Cons.prems(3) one by (auto split: sum.splits)
  have ok: "request_ok r As" "requests_ok rs As1" using Cons.prems(2) one by simp_all
  obtain e1 where e1: "engine_rel e1 As1" using process_refines_main [OF Cons.prems(1) ok(1)] one by auto
  have "\<forall>i < ME_MAX_TICKERS. ab_wf (As i)" using engine_rel_ab_wf [OF Cons.prems(1)] by blast
  from process_accounts [OF one ok(1) this] Cons.IH [OF e1 ok(2) two(1)] show ?case by (simp add: two(2,3))
qed simp

lemma no_depth [simp]: "depths (\<lambda>_. empty_book) = (\<lambda>_ _. None)" "all_open (\<lambda>_. empty_book) = 0"
  by (simp_all add: depths_def depth_def empty_book_def all_open_def open_qty_def book_orders_def fun_eq_iff)

lemma engine_run_accounts:
  assumes "engine_rel e (\<lambda>_. empty_book)" "q_ok (me_incoming_requests e)" "me_run e"
    "requests_ok (q_list (me_incoming_requests e)) (\<lambda>_. empty_book)" "length (q_list (me_incoming_requests e)) \<le> n"
    "run_rounds n e = Inr ((), e')"
  shows "\<exists>As ps us. spec_engine (q_list (me_incoming_requests e)) (\<lambda>_. empty_book) = Inr (As, ps, us) \<and>
    engine_rel e' As \<and> engine_sent e ps us e' \<and> fold feed us (\<lambda>_ _. None) = depths As \<and>
    accepted_qty ps = all_open As + executed_qty ps + cancelled_qty ps"
proof -
  obtain As ps us where run: "spec_engine (q_list (me_incoming_requests e)) (\<lambda>_. empty_book) = Inr (As, ps, us)"
      "engine_sent e ps us e'" "engine_rel e' As"
    using run_rounds_refine [OF assms(1-3) refl assms(4,5)] assms(6) by (auto split: sum.splits)
  then show ?thesis using engine_accounts [OF assms(1,4) run(1)] by auto
qed

text \<open>A sell order of ten that a buy order of four hits.\<close>

definition partial_pair :: "MEClientRequest list" where
  "partial_pair = [new_order 1 7 3 SELL 100 10, new_order 2 8 3 BUY 100 4]"

lemma partial_pair_spec:
  "\<exists>As ps us. spec_engine partial_pair (\<lambda>_. empty_book) = Inr (As, ps, us) \<and> accepted_qty ps = 14 \<and> executed_qty ps = 8 \<and>
     cancelled_qty ps = 0 \<and> map upd_type us = [ADD, TRADE, MODIFY] \<and> depths As 3 = [1 \<mapsto> (SELL, 100, 6, 1)]"
  by (simp add: partial_pair_def new_order_def spec_process_def spec_run_defs empty_book_def Let_def limit_defs after_match_def
      full_makers_def fill_responses_def fill_updates_def depths_def depth_def quote_of_def)

lemma partial_pair_ok: "requests_ok partial_pair (\<lambda>_. empty_book)" "length partial_pair < 8" "length partial_pair \<le> 5"
  by (simp_all add: partial_pair_def new_order_def spec_process_def spec_run_defs empty_book_def Let_def limit_defs
      request_ok_def add_ok_def slot_ok_def after_match_def full_makers_def)

lemma partial_pair_engine:
  "\<exists>e'. engine_rel (engine_with partial_pair) (\<lambda>_. empty_book) \<and> q_ok (me_incoming_requests (engine_with partial_pair)) \<and>
     me_run (engine_with partial_pair) \<and> requests_ok (q_list (me_incoming_requests (engine_with partial_pair))) (\<lambda>_. empty_book) \<and>
     length (q_list (me_incoming_requests (engine_with partial_pair))) \<le> 5 \<and>
     q_list (me_incoming_requests (engine_with partial_pair)) = partial_pair \<and>
     run_rounds 5 (engine_with partial_pair) = Inr ((), e')"
proof -
  note e = engine_with_ok [OF partial_pair_ok(2)]
  obtain As ps us where "spec_engine partial_pair (\<lambda>_. empty_book) = Inr (As, ps, us)" using partial_pair_spec by blast
  then show ?thesis using run_rounds_refine [OF e(1-4) partial_pair_ok(1,3)] e partial_pair_ok by auto
qed

section \<open>Properties\<close>

text \<open>
  C6. The market data is complete: a subscriber that starts with nothing and applies the updates of the
  engine in order (it inserts what is added or modified, drops what is cancelled and ignores the trades)
  has at the end exactly the open orders of every book: identifier, side, price, remaining quantity and
  priority.
\<close>

theorem market_data_follows_books:
  assumes "engine_rel e (\<lambda>_. empty_book)" "q_ok (me_incoming_requests e)" "me_run e"
    "requests_ok (q_list (me_incoming_requests e)) (\<lambda>_. empty_book)" "length (q_list (me_incoming_requests e)) \<le> n"
    "run_rounds n e = Inr ((), e')"
  shows "\<exists>As ps us. spec_engine (q_list (me_incoming_requests e)) (\<lambda>_. empty_book) = Inr (As, ps, us) \<and>
    engine_rel e' As \<and> engine_sent e ps us e' \<and> fold feed us (\<lambda>_ _. None) = depths As"
  using engine_run_accounts [OF assms] by blast

theorem market_data_follows_books_witness:
  "\<exists>e' As ps us. run_rounds 5 (engine_with partial_pair) = Inr ((), e') \<and> engine_rel e' As \<and>
     engine_sent (engine_with partial_pair) ps us e' \<and> map upd_type us = [ADD, TRADE, MODIFY] \<and>
     fold feed us (\<lambda>_ _. None) 3 = [1 \<mapsto> (SELL, 100, 6, 1)]"
proof -
  obtain e' where e: "engine_rel (engine_with partial_pair) (\<lambda>_. empty_book)" "q_ok (me_incoming_requests (engine_with partial_pair))"
     "me_run (engine_with partial_pair)" "requests_ok (q_list (me_incoming_requests (engine_with partial_pair))) (\<lambda>_. empty_book)"
     "length (q_list (me_incoming_requests (engine_with partial_pair))) \<le> 5"
     "run_rounds 5 (engine_with partial_pair) = Inr ((), e')" "q_list (me_incoming_requests (engine_with partial_pair)) = partial_pair"
    using partial_pair_engine by blast
  obtain As ps us where run: "spec_engine partial_pair (\<lambda>_. empty_book) = Inr (As, ps, us)"
      "map upd_type us = [ADD, TRADE, MODIFY]" "depths As 3 = [1 \<mapsto> (SELL, 100, 6, 1)]"
    using partial_pair_spec by (elim exE conjE)
  have "engine_rel e' As" "engine_sent (engine_with partial_pair) ps us e'" "fold feed us (\<lambda>_ _. None) = depths As"
    using market_data_follows_books [OF e(1-6)] run(1) e(7) by auto
  then show ?thesis using run e(6) by (intro exI [of _ e'] exI [of _ As] exI [of _ ps] exI [of _ us]) simp
qed

text \<open>
  C7. No quantity is lost or made up: over a run of the engine the quantity of the accepted orders is what is
  still open in the books, plus what was filled, counted once for each party of a trade, plus what was
  cancelled, all as the responses report it.
\<close>

theorem quantities_add_up:
  assumes "engine_rel e (\<lambda>_. empty_book)" "q_ok (me_incoming_requests e)" "me_run e"
    "requests_ok (q_list (me_incoming_requests e)) (\<lambda>_. empty_book)" "length (q_list (me_incoming_requests e)) \<le> n"
    "run_rounds n e = Inr ((), e')"
  shows "\<exists>As ps us. spec_engine (q_list (me_incoming_requests e)) (\<lambda>_. empty_book) = Inr (As, ps, us) \<and>
    engine_rel e' As \<and> engine_sent e ps us e' \<and> accepted_qty ps = all_open As + executed_qty ps + cancelled_qty ps"
  using engine_run_accounts [OF assms] by blast

theorem quantities_add_up_witness:
  "\<exists>e' As ps us. run_rounds 5 (engine_with partial_pair) = Inr ((), e') \<and> engine_rel e' As \<and>
     engine_sent (engine_with partial_pair) ps us e' \<and> accepted_qty ps = 14 \<and> executed_qty ps = 8 \<and> all_open As = 6"
proof -
  obtain e' where e: "engine_rel (engine_with partial_pair) (\<lambda>_. empty_book)" "q_ok (me_incoming_requests (engine_with partial_pair))"
     "me_run (engine_with partial_pair)" "requests_ok (q_list (me_incoming_requests (engine_with partial_pair))) (\<lambda>_. empty_book)"
     "length (q_list (me_incoming_requests (engine_with partial_pair))) \<le> 5"
     "run_rounds 5 (engine_with partial_pair) = Inr ((), e')" "q_list (me_incoming_requests (engine_with partial_pair)) = partial_pair"
    using partial_pair_engine by blast
  obtain As ps us where run: "spec_engine partial_pair (\<lambda>_. empty_book) = Inr (As, ps, us)"
      "accepted_qty ps = 14" "executed_qty ps = 8" "cancelled_qty ps = 0"
    using partial_pair_spec by (elim exE conjE)
  have "engine_rel e' As" "engine_sent (engine_with partial_pair) ps us e'" "accepted_qty ps = all_open As + executed_qty ps + cancelled_qty ps"
    using quantities_add_up [OF e(1-6)] run(1) e(7) by auto
  then show ?thesis using run e(6) by (intro exI [of _ e'] exI [of _ As] exI [of _ ps] exI [of _ us]) simp
qed

end
