(* ===== verification/Log_Calls.thy ===== *)
theory Log_Calls
  imports Logging
begin

text \<open>
  Every call of \<open>Logger::log\<close> in the sources, with its line, its format and the number of its
  arguments. A call with as many arguments as its format has holes pushes elements and returns
  (\<open>log_run\<close>), so the models of the other components leave their log calls out; the one call that is
  different is modelled where it is made.
\<close>

abbreviation nl :: string where
  "nl \<equiv> [CHR 0x0A]"

type_synonym log_call = "nat \<times> string \<times> nat"

definition main_cpp_logs :: "log_call list" where
  "main_cpp_logs =
     [(223, ''%:% %() % Starting Matching Engine ... '' @ nl, 4),
      (230, ''%:% %() % Sleeping for a few milliseconds ...'' @ nl, 4)]"

definition tcp_server_h_logs :: "log_call list" where
  "tcp_server_h_logs =
     [(77, ''%:% %() % EPOLL-IN listener_socket: %.'' @ nl, 5),
      (86, ''%:% %() % EPOLL-IN socket: %.'' @ nl, 5),
      (101, ''%:% %() % EPOLL-OUT socket: %.'' @ nl, 5),
      (116, ''%:% %() % EPOLL-ERR socket: % '' @ nl, 5),
      (132, ''%:% %() % have_new_connection'' @ nl, 4),
      (150, ''%:% %() % accepted socket: %.'' @ nl, 5)]"

definition tcp_socket_h_logs :: "log_call list" where
  "tcp_socket_h_logs =
     [(84, ''%:% %() % read socket: %, len: %, utime: %, k-time: %, diff: %.'' @ nl, 9),
      (106, ''%:% %() % send socket:% len:%'' @ nl, 6)]"

definition mcast_socket_h_logs :: "log_call list" where
  "mcast_socket_h_logs =
     [(50, ''%:% %() % read socket: %, len: %'' @ nl, 6),
      (63, ''%:% %() % send socket: % , len: %'' @ nl, 6)]"

definition socket_utils_h_logs :: "log_call list" where
  "socket_utils_h_logs =
     [(126, ''%:% %() % cfg: % '' @ nl, 5)]"

definition order_server_h_logs :: "log_call list" where
  "order_server_h_logs =
     [(21, ''%:% %() % %.'' @ nl, 4),
      (31, ''%:% %() % Processing cid: %, seq: % %. '' @ nl, 7),
      (49, ''%:% %() % Received socket: %, len: %, rx: %. '' @ nl, 7),
      (59, ''%:% %() % Received: % '' @ nl, 5),
      (69, ''%:% %() % Received ClientRequest from Client_id: % on different socket: %. Expected: %. '' @ nl, 7),
      (81, ''%:% %() % Incorrect sequence number. Client_id: %, SeqNum expected: %, received: %. '' @ nl, 7)]"

definition fifo_sequencer_h_logs :: "log_call list" where
  "fifo_sequencer_h_logs =
     [(31, ''%:% %() % Processing: % requests. '' @ nl, 5),
      (41, ''%:% %() % Writing RX: %, Req: %. '' @ nl, 6)]"

definition matching_engine_h_logs :: "log_call list" where
  "matching_engine_h_logs =
     [(55, ''%:% %() % Sending: %. '' @ nl @ ''.'', 5),
      (65, ''%:% %() % Sending: %. '' @ nl, 5),
      (75, ''%:% %() %. '' @ nl, 4),
      (80, ''%:% %() % Processing %. '' @ nl, 5)]"

definition me_order_book_cpp_logs :: "log_call list" where
  "me_order_book_cpp_logs =
     [(17, ''%:% %() % OrderBook'' @ nl @ ''%'' @ nl, 5)]"

text \<open>The calls whose number of arguments differs from the number of holes.\<close>

definition mismatched :: "log_call list \<Rightarrow> log_call list" where
  "mismatched cs = filter (\<lambda>(line, s, n). holes s \<noteq> n) cs"

section \<open>Properties\<close>

text \<open>
  Of all log calls of the program one has the wrong number of arguments: the first one of
  \<open>OrderServer::run\<close>, on line 21, with five holes and four arguments.
\<close>

theorem log_calls_arity:
  "mismatched (main_cpp_logs @ tcp_server_h_logs @ tcp_socket_h_logs @ mcast_socket_h_logs @ socket_utils_h_logs @ fifo_sequencer_h_logs @ matching_engine_h_logs @ me_order_book_cpp_logs) = [] \<and>
   map (\<lambda>(line, s, n). (line, holes s, n)) (mismatched order_server_h_logs) = [(21, 5, 4)]"
  by code_simp

end
