(* ===== verification/Queue_Threads.thy ===== *)
theory Queue_Threads
  imports Lock_Free_Queue
begin

text \<open>
  The queue under two threads, one writing and one reading, as a step relation: each load or store of
  an index, of the counter or of a slot is one step (the indices and the counter are atomics with the
  default, sequentially consistent order). A reader either checks \<open>size()\<close> after \<open>getNextToRead()\<close>, as
  \<open>Logger::flushQueue\<close> and \<open>OrderServer::run\<close> do, or does not, as \<open>MatchingEngine::run\<close>.
\<close>

section \<open>Two threads on one queue\<close>

text \<open>The writer: idle, the slot written, the write index updated (and the counter not yet).\<close>

datatype 'a writer = W_idle | W_stored 'a | W_indexed

text \<open>
  The reader: idle; \<open>getNextToRead\<close> has returned a slot; the element is in use; the read index is
  updated; \<open>ASSERT(num_elements_ != 0)\<close> has passed (and the counter is not yet lowered), or failed.
\<close>

datatype 'a reader = R_idle | R_seen | R_got 'a | R_indexed | R_asserted | R_failed

text \<open>\<open>th_written\<close> and \<open>th_read\<close> are the elements published and released so far.\<close>

record 'a threads =
  th_queue :: "'a LFQueue"
  th_writer :: "'a writer"
  th_reader :: "'a reader"
  th_written :: "'a list"
  th_read :: "'a list"

definition threads_init :: "nat \<Rightarrow> 'a \<Rightarrow> 'a threads" where
  "threads_init n d = \<lparr>th_queue = LFQueue_new n d, th_writer = W_idle, th_reader = R_idle, th_written = [], th_read = []\<rparr>"

text \<open>
  The writer does not check for room; the first rule asks for it, so that what is proved here is about
  queues that are large enough. \<open>chk\<close>: the reader checks \<open>size()\<close>.
\<close>

inductive step :: "bool \<Rightarrow> 'a threads \<Rightarrow> 'a threads \<Rightarrow> bool" for chk where
  store: "th_writer s = W_idle \<Longrightarrow> length (th_written s) + 1 < length (th_read s) + q_cap (th_queue s) \<Longrightarrow>
    write_slot (q_next_write_index (th_queue s)) x (th_queue s) = Inr ((), q) \<Longrightarrow>
    step chk s (s\<lparr>th_queue := q, th_writer := W_stored x\<rparr>)"
| write_index: "th_writer s = W_stored x \<Longrightarrow>
    next_index (q_next_write_index (th_queue s)) (th_queue s) = Inr i \<Longrightarrow>
    step chk s (s\<lparr>th_queue := (th_queue s)\<lparr>q_next_write_index := i\<rparr>, th_writer := W_indexed,
      th_written := th_written s @ [x]\<rparr>)"
| count_up: "th_writer s = W_indexed \<Longrightarrow>
    step chk s (s\<lparr>th_queue := (th_queue s)\<lparr>q_num_elements := q_num_elements (th_queue s) + 1\<rparr>, th_writer := W_idle\<rparr>)"
| see: "th_reader s = R_idle \<Longrightarrow> getNextToRead (th_queue s) = Inr (Some i, q) \<Longrightarrow>
    step chk s (s\<lparr>th_reader := R_seen\<rparr>)"
| use_slot: "th_reader s = R_seen \<Longrightarrow> \<not> chk \<or> q_num_elements (th_queue s) \<noteq> 0 \<Longrightarrow>
    read_slot (q_next_read_index (th_queue s)) (th_queue s) = Inr (x, q) \<Longrightarrow>
    step chk s (s\<lparr>th_reader := R_got x\<rparr>)"
| give_up: "th_reader s = R_seen \<Longrightarrow> chk \<Longrightarrow> q_num_elements (th_queue s) = 0 \<Longrightarrow> step chk s (s\<lparr>th_reader := R_idle\<rparr>)"
| read_index: "th_reader s = R_got x \<Longrightarrow>
    next_index (q_next_read_index (th_queue s)) (th_queue s) = Inr i \<Longrightarrow>
    step chk s (s\<lparr>th_queue := (th_queue s)\<lparr>q_next_read_index := i\<rparr>, th_reader := R_indexed, th_read := th_read s @ [x]\<rparr>)"
| assert_ok: "th_reader s = R_indexed \<Longrightarrow> q_num_elements (th_queue s) \<noteq> 0 \<Longrightarrow>
    step chk s (s\<lparr>th_reader := R_asserted\<rparr>)"
| assert_fails: "th_reader s = R_indexed \<Longrightarrow> q_num_elements (th_queue s) = 0 \<Longrightarrow>
    step chk s (s\<lparr>th_reader := R_failed\<rparr>)"
| count_down: "th_reader s = R_asserted \<Longrightarrow>
    step chk s (s\<lparr>th_queue := (th_queue s)\<lparr>q_num_elements := q_num_elements (th_queue s) - 1\<rparr>, th_reader := R_idle\<rparr>)"

definition reachable :: "bool \<Rightarrow> nat \<Rightarrow> 'a \<Rightarrow> 'a threads \<Rightarrow> bool" where
  "reachable chk n d s \<longleftrightarrow> (step chk)\<^sup>*\<^sup>* (threads_init n d) s"

lemma reachable_init: "reachable chk n d (threads_init n d)"
  by (simp add: reachable_def)

lemma reachable_step: "reachable chk n d s \<Longrightarrow> step chk s s' \<Longrightarrow> reachable chk n d s'"
  unfolding reachable_def by (rule rtranclp.rtrancl_into_rtrancl)

lemma reachable_induct [consumes 1, case_names init step]:
  assumes "reachable chk n d s" "P (threads_init n d)" "\<And>s s'. P s \<Longrightarrow> step chk s s' \<Longrightarrow> P s'"
  shows "P s"
  using assms(1) unfolding reachable_def by (induction rule: rtranclp_induct) (auto intro: assms(2,3))

section \<open>The invariant\<close>

text \<open>Elements counted twice or not yet: the writer is behind, or the reader is.\<close>

definition uncounted :: "'a threads \<Rightarrow> nat" where
  "uncounted s = (if th_writer s = W_indexed then 1 else 0)"

definition overcounted :: "'a threads \<Rightarrow> nat" where
  "overcounted s = (if th_reader s \<in> {R_indexed, R_asserted, R_failed} then 1 else 0)"

definition threads_inv :: "nat \<Rightarrow> 'a threads \<Rightarrow> bool" where
  "threads_inv n s \<longleftrightarrow> (let q = th_queue s; W = length (th_written s); R = length (th_read s) in
     q_cap q = n \<and> 0 < n \<and> R \<le> W \<and> W < R + n \<and>
     q_next_write_index q = W mod n \<and> q_next_read_index q = R mod n \<and>
     (\<forall>k. R \<le> k \<and> k < W \<longrightarrow> aget (q_store q) (k mod n) = th_written s ! k) \<and>
     th_read s = take R (th_written s) \<and>
     q_num_elements q + uncounted s + R = W + overcounted s \<and>
     (case th_writer s of W_stored x \<Rightarrow> W + 1 < R + n \<and> aget (q_store q) (W mod n) = x | _ \<Rightarrow> True) \<and>
     (case th_reader s of R_seen \<Rightarrow> R < W | R_got x \<Rightarrow> R < W \<and> x = th_written s ! R
      | R_asserted \<Rightarrow> q_num_elements q \<noteq> 0 | _ \<Rightarrow> True))"

lemma threads_inv_init: "0 < n \<Longrightarrow> threads_inv n (threads_init n d)"
  by (simp add: threads_inv_def threads_init_def LFQueue_new_def uncounted_def overcounted_def q_cap_def Let_def)

lemma mod_eq_window: "(R::nat) \<le> j \<Longrightarrow> j \<le> k \<Longrightarrow> k < R + n \<Longrightarrow> j mod n = k mod n \<Longrightarrow> j = k"
  using mod_add_ne [of "j - R" "k - R" n R] by (cases "j = k") (auto simp: less_diff_conv2 diff_less_mono)

lemma threads_inv_step:
  assumes "threads_inv n s" "step chk s s'"
  shows "threads_inv n s'"
  using assms(2,1)
proof cases
  case (store x q)
  let ?W = "length (th_written s)" and ?q = "th_queue s"
  have q: "q = ?q\<lparr>q_store := arr_put (?W mod n) x (q_store ?q)\<rparr>"
    using store(4) assms(1) by (auto simp: write_slot_def threads_inv_def Let_def)
  have keep: "k mod n \<noteq> ?W mod n" if "length (th_read s) \<le> k" "k < ?W" for k
    using mod_eq_window [of "length (th_read s)" k ?W n] that store(3) assms(1) by (auto simp: threads_inv_def Let_def)
  show ?thesis
    using assms(1) keep store(2,3) unfolding store(1) q
    by (auto simp: threads_inv_def Let_def q_cap_def uncounted_def overcounted_def split: reader.splits)
next
  case (write_index x i)
  then show ?thesis using assms(1)
    by (auto simp: threads_inv_def Let_def q_cap_def uncounted_def overcounted_def next_index_def mod_Suc_eq
        nth_append less_Suc_eq split: reader.splits)
next
  case count_up
  then show ?thesis using assms(1)
    by (auto simp: threads_inv_def Let_def q_cap_def uncounted_def overcounted_def split: reader.splits)
next
  case (see i q)
  then have "length (th_read s) \<noteq> length (th_written s)"
    using assms(1) by (auto simp: threads_inv_def Let_def getNextToRead_def split: if_splits)
  then show ?thesis using see assms(1)
    by (auto simp: threads_inv_def Let_def uncounted_def overcounted_def split: writer.splits)
next
  case (use_slot x q)
  then show ?thesis using assms(1)
    by (auto simp: threads_inv_def Let_def uncounted_def overcounted_def read_slot_def arr_idx_def
        split: writer.splits if_splits)
next
  case give_up
  then show ?thesis using assms(1)
    by (auto simp: threads_inv_def Let_def uncounted_def overcounted_def split: writer.splits)
next
  case (read_index x i)
  then show ?thesis using assms(1)
    by (auto simp: threads_inv_def Let_def q_cap_def uncounted_def overcounted_def next_index_def mod_Suc_eq
        take_Suc_conv_app_nth split: writer.splits)
next
  case assert_ok
  then show ?thesis using assms(1)
    by (auto simp: threads_inv_def Let_def uncounted_def overcounted_def split: writer.splits)
next
  case assert_fails
  then show ?thesis using assms(1)
    by (auto simp: threads_inv_def Let_def uncounted_def overcounted_def split: writer.splits)
next
  case count_down
  then show ?thesis using assms(1)
    by (auto simp: threads_inv_def Let_def q_cap_def uncounted_def overcounted_def split: writer.splits)
qed


lemma reachable_inv: "reachable chk n d s \<Longrightarrow> 0 < n \<Longrightarrow> threads_inv n s"
proof (induction rule: reachable_induct)
  case init
  then show ?case by (rule threads_inv_init)
next
  case (step s s')
  then show ?case by (blast intro: threads_inv_step)
qed

text \<open>A reader that has checked the counter finds it positive until it lowers it itself.\<close>

definition reader_safe :: "'a threads \<Rightarrow> bool" where
  "reader_safe s \<longleftrightarrow> (case th_reader s of R_got x \<Rightarrow> q_num_elements (th_queue s) \<noteq> 0
     | R_indexed \<Rightarrow> q_num_elements (th_queue s) \<noteq> 0 | R_failed \<Rightarrow> False | _ \<Rightarrow> True)"

lemma reader_safe_step: "step True s s' \<Longrightarrow> reader_safe s \<Longrightarrow> reader_safe s'"
  by (cases rule: step.cases, assumption)
    (auto simp: reader_safe_def write_slot_def split: reader.splits)

lemma reachable_reader_safe: "reachable True n d s \<Longrightarrow> reader_safe s"
proof (induction rule: reachable_induct)
  case init
  then show ?case by (simp add: reader_safe_def threads_init_def)
next
  case (step s s')
  then show ?case by (blast intro: reader_safe_step)
qed

section \<open>Properties\<close>

text \<open>
  C11. The queue is first-in first-out between two threads, whether or not the reader checks \<open>size()\<close>: in
  every interleaving on a queue with room, what the reader has released is a prefix of what the writer
  has published, the element it holds is the next one, and the counter differs from the number of
  elements between the indices by the operations under way only.
\<close>

theorem threads_fifo:
  assumes "reachable chk n d s" "0 < n"
  shows "th_read s = take (length (th_read s)) (th_written s) \<and>
    (\<forall>x. th_reader s = R_got x \<longrightarrow> length (th_read s) < length (th_written s) \<and> x = th_written s ! length (th_read s)) \<and>
    q_num_elements (th_queue s) + uncounted s + length (th_read s) = length (th_written s) + overcounted s"
  using reachable_inv [OF assms] by (auto simp: threads_inv_def Let_def)

text \<open>
  C15. A reader that checks \<open>size()\<close> before it takes an element never fails the assertion of
  \<open>updateReadIndex\<close>.
\<close>

theorem checked_reader_safe:
  assumes "reachable True n d s"
  shows "th_reader s \<noteq> R_failed"
  using reachable_reader_safe [OF assms] by (auto simp: reader_safe_def)

definition one_written :: "nat \<Rightarrow> 'a \<Rightarrow> 'a \<Rightarrow> 'a LFQueue" where
  "one_written n d x = (LFQueue_new n d)\<lparr>q_store := arr_put 0 x (q_store (LFQueue_new n d))\<rparr>"

text \<open>
  C32. A reader that does not check \<open>size()\<close>, as the loop of the matching engine, can end the process:
  the writer publishes the index of the first element, the reader takes and releases it, and its
  assertion sees the counter still at 0.
\<close>

theorem unchecked_reader_fails:
  assumes "2 \<le> n"
  shows "\<exists>s. reachable False n d s \<and> th_reader s = R_failed \<and> th_written s = [x] \<and> th_read s = [x]"
proof -
  let ?q = "one_written n d x"
  let ?s1 = "(threads_init n d)\<lparr>th_queue := ?q, th_writer := W_stored x\<rparr>"
  let ?s2 = "?s1\<lparr>th_queue := ?q\<lparr>q_next_write_index := 1\<rparr>, th_writer := W_indexed, th_written := [x]\<rparr>"
  let ?s3 = "?s2\<lparr>th_reader := R_seen\<rparr>" and ?s4 = "?s2\<lparr>th_reader := R_got x\<rparr>"
  let ?s5 = "?s4\<lparr>th_queue := ?q\<lparr>q_next_write_index := 1, q_next_read_index := 1\<rparr>, th_reader := R_indexed, th_read := [x]\<rparr>"
  note defs = threads_init_def one_written_def LFQueue_new_def q_cap_def
  have s1: "step False (threads_init n d) ?s1"
    using step.store [of "threads_init n d" x ?q False] assms by (simp add: defs write_slot_def bnd_def sq_def)
  have s2: "step False ?s1 ?s2"
    using step.write_index [of ?s1 x 1 False] assms by (simp add: defs next_index_def)
  have s3: "step False ?s2 ?s3"
    using step.see [of ?s2 0 "th_queue ?s2" False] by (simp add: defs getNextToRead_def)
  have s4: "step False ?s3 ?s4"
    using step.use_slot [of ?s3 False x "th_queue ?s3"] assms by (simp add: defs read_slot_def bnd_def)
  have s5: "step False ?s4 ?s5"
    using step.read_index [of ?s4 x 1 False] assms by (simp add: defs next_index_def)
  have s6: "step False ?s5 (?s5\<lparr>th_reader := R_failed\<rparr>)"
    by (rule step.assert_fails) (simp_all add: defs)
  note more = reachable_step
  have "reachable False n d (?s5\<lparr>th_reader := R_failed\<rparr>)"
    by (rule more [OF more [OF more [OF more [OF more [OF more [OF reachable_init s1] s2] s3] s4] s5] s6])
  then show ?thesis by (intro exI [of _ "?s5\<lparr>th_reader := R_failed\<rparr>"]) (simp add: threads_init_def)
qed

theorem unchecked_reader_fails_witness:
  "\<exists>s. reachable False 8 (0::nat) s \<and> th_reader s = R_failed \<and> th_written s = [7] \<and> th_read s = [7]"
  by (rule unchecked_reader_fails) simp

text \<open>One element is published, and taken by either reader.\<close>

lemma one_published:
  assumes "2 \<le> n"
  shows "\<exists>s1 s2 s3. step chk (threads_init n d) s1 \<and> step chk s1 s2 \<and> step chk s2 s3 \<and>
    th_reader s1 = R_idle \<and> th_reader s2 = R_idle \<and> th_reader s3 = R_idle \<and>
    th_written s3 = [x] \<and> th_read s3 = [] \<and> th_writer s3 = W_idle \<and>
    th_queue s3 = (one_written n d x)\<lparr>q_next_write_index := 1, q_num_elements := 1\<rparr>"
proof -
  let ?q = "one_written n d x"
  let ?s1 = "(threads_init n d)\<lparr>th_queue := ?q, th_writer := W_stored x\<rparr>"
  let ?s2 = "?s1\<lparr>th_queue := ?q\<lparr>q_next_write_index := 1\<rparr>, th_writer := W_indexed, th_written := [x]\<rparr>"
  let ?s3 = "?s2\<lparr>th_queue := ?q\<lparr>q_next_write_index := 1, q_num_elements := 1\<rparr>, th_writer := W_idle\<rparr>"
  note defs = threads_init_def one_written_def LFQueue_new_def q_cap_def
  have "step chk (threads_init n d) ?s1"
    using step.store [of "threads_init n d" x ?q chk] assms by (simp add: defs write_slot_def bnd_def sq_def)
  moreover have "step chk ?s1 ?s2"
    using step.write_index [of ?s1 x 1 chk] assms by (simp add: defs next_index_def)
  moreover have "step chk ?s2 ?s3" using step.count_up [of ?s2 chk] by (simp add: defs)
  ultimately show ?thesis
    by (intro exI [of _ ?s1] exI [of _ ?s2] exI [of _ ?s3]) (simp add: threads_init_def)
qed

lemma one_passes:
  assumes "2 \<le> n"
  shows "\<exists>s. reachable chk n d s \<and> th_reader s = R_got x \<and> th_written s = [x] \<and> th_read s = [] \<and> th_writer s = W_idle"
proof -
  obtain s1 s2 s3 where s: "step chk (threads_init n d) s1" "step chk s1 s2" "step chk s2 s3" "th_reader s3 = R_idle"
    "th_written s3 = [x]" "th_read s3 = []" "th_writer s3 = W_idle"
    "th_queue s3 = (one_written n d x)\<lparr>q_next_write_index := 1, q_num_elements := 1\<rparr>"
    using one_published [OF assms, of chk d x] by blast
  let ?s4 = "s3\<lparr>th_reader := R_seen\<rparr>" and ?s5 = "s3\<lparr>th_reader := R_got x\<rparr>"
  have s4: "step chk s3 ?s4"
    using step.see [OF s(4), of 0 "th_queue s3" chk] s(8) by (simp add: getNextToRead_def one_written_def LFQueue_new_def)
  have s5: "step chk ?s4 ?s5"
    using step.use_slot [of ?s4 chk x "th_queue s3"] assms s(8)
    by (simp add: read_slot_def bnd_def one_written_def LFQueue_new_def)
  note more = reachable_step
  have "reachable chk n d ?s5"
    by (rule more [OF more [OF more [OF more [OF more [OF reachable_init s(1)] s(2)] s(3)] s4] s5])
  then show ?thesis using s by (intro exI [of _ ?s5]) simp
qed

theorem threads_fifo_witness:
  "\<exists>s. reachable False 8 (0::nat) s \<and> th_reader s = R_got 7 \<and> th_written s ! length (th_read s) = 7"
proof -
  obtain s where s: "reachable False 8 (0::nat) s" "th_reader s = R_got 7"
    using one_passes [of 8 False 0 7] by auto
  then show ?thesis using threads_fifo [OF s(1)] by auto
qed

theorem checked_reader_safe_witness:
  "\<exists>s. reachable True 8 (0::nat) s \<and> th_written s = [7] \<and> th_reader s \<noteq> R_failed"
proof -
  obtain s where s: "reachable True 8 (0::nat) s" "th_written s = [7]"
    using one_passes [of 8 True 0 7] by auto
  then show ?thesis using checked_reader_safe [OF s(1)] by auto
qed

end
