(* ===== verification/Queue_Progress.thy ===== *)
theory Queue_Progress
  imports Queue_Threads
begin

text \<open>
  Liveness of the queue between two threads. An execution is an infinite sequence of states, each a
  step from the one before or the same; it is fair when neither thread is held up forever while it
  can go on. In a fair execution every published element is released, unless the reader's assertion fails.
\<close>

section \<open>Fair executions\<close>

definition execution :: "bool \<Rightarrow> nat \<Rightarrow> 'a \<Rightarrow> (nat \<Rightarrow> 'a threads) \<Rightarrow> bool" where
  "execution chk n d \<sigma> \<longleftrightarrow> \<sigma> 0 = threads_init n d \<and> (\<forall>i. \<sigma> (Suc i) = \<sigma> i \<or> step chk (\<sigma> i) (\<sigma> (Suc i)))"

definition reader_can :: "bool \<Rightarrow> 'a threads \<Rightarrow> bool" where
  "reader_can chk s \<longleftrightarrow> (\<exists>s'. step chk s s' \<and> th_reader s' \<noteq> th_reader s)"

text \<open>A writer that has begun to publish an element goes on; when it writes the next one is up to it.\<close>

definition fair :: "bool \<Rightarrow> (nat \<Rightarrow> 'a threads) \<Rightarrow> bool" where
  "fair chk \<sigma> \<longleftrightarrow>
     (\<forall>i. \<exists>j\<ge>i. th_reader (\<sigma> (Suc j)) \<noteq> th_reader (\<sigma> j) \<or> \<not> reader_can chk (\<sigma> j)) \<and>
     (\<forall>i. \<exists>j\<ge>i. th_writer (\<sigma> (Suc j)) \<noteq> th_writer (\<sigma> j) \<or> th_writer (\<sigma> j) = W_idle)"

lemma execution_reachable: "execution chk n d \<sigma> \<Longrightarrow> reachable chk n d (\<sigma> i)"
proof (induction i)
  case 0
  then show ?case by (simp add: execution_def reachable_init)
next
  case (Suc i)
  then have "\<sigma> (Suc i) = \<sigma> i \<or> step chk (\<sigma> i) (\<sigma> (Suc i))" by (simp add: execution_def)
  then show ?case using Suc reachable_step by fastforce
qed

section \<open>What a step changes\<close>

lemma step_extends:
  assumes "step chk s s'"
  shows "\<exists>xs. th_written s' = th_written s @ xs" "\<exists>xs. th_read s' = th_read s @ xs"
  using assms by (cases, auto)+

lemma execution_extends:
  assumes "execution chk n d \<sigma>" "i \<le> j"
  shows "\<exists>xs. th_written (\<sigma> j) = th_written (\<sigma> i) @ xs" "\<exists>xs. th_read (\<sigma> j) = th_read (\<sigma> i) @ xs"
proof -
  have "(\<exists>xs. th_written (\<sigma> j) = th_written (\<sigma> i) @ xs) \<and> (\<exists>xs. th_read (\<sigma> j) = th_read (\<sigma> i) @ xs)"
    using assms(2)
  proof (induction rule: dec_induct)
    case (step k)
    have "\<sigma> (Suc k) = \<sigma> k \<or> Queue_Threads.step chk (\<sigma> k) (\<sigma> (Suc k))" using assms(1) by (simp add: execution_def)
    then show ?case using step.IH step_extends [of chk "\<sigma> k" "\<sigma> (Suc k)"] by fastforce
  qed simp
  then show "\<exists>xs. th_written (\<sigma> j) = th_written (\<sigma> i) @ xs" "\<exists>xs. th_read (\<sigma> j) = th_read (\<sigma> i) @ xs" by blast+
qed

text \<open>While something is published and not released, the reader is never stuck.\<close>

lemma reader_not_stuck:
  assumes inv: "threads_inv n s" and pending: "length (th_read s) < length (th_written s)" and "th_reader s \<noteq> R_failed"
  shows "reader_can chk s"
proof (cases "th_reader s")
  case R_idle
  let ?R = "length (th_read s)" and ?W = "length (th_written s)"
  have "?R mod n \<noteq> ?W mod n" using mod_eq_window [of ?R ?R ?W n] inv pending by (auto simp: threads_inv_def Let_def)
  then have "getNextToRead (th_queue s) = Inr (Some (?R mod n), th_queue s)"
    using inv by (simp add: threads_inv_def Let_def getNextToRead_def)
  from step.see [OF R_idle this, of chk] R_idle show ?thesis by (auto simp: reader_can_def)
next
  case R_seen
  have "read_slot (q_next_read_index (th_queue s)) (th_queue s) =
      Inr (aget (q_store (th_queue s)) (q_next_read_index (th_queue s)), th_queue s)"
    using inv by (auto simp: read_slot_def bnd_def threads_inv_def Let_def q_cap_def)
  from step.use_slot [OF R_seen _ this, of chk] step.give_up [OF R_seen, of chk] R_seen show ?thesis
    by (cases "\<not> chk \<or> q_num_elements (th_queue s) \<noteq> 0") (auto simp: reader_can_def)
next
  case (R_got x)
  have "next_index (q_next_read_index (th_queue s)) (th_queue s) = Inr ((q_next_read_index (th_queue s) + 1) mod n)"
    using inv by (auto simp: next_index_def threads_inv_def Let_def q_cap_def)
  from step.read_index [OF R_got this, of chk] R_got show ?thesis by (auto simp: reader_can_def)
next
  case R_indexed
  from step.assert_ok [OF R_indexed, of chk] step.assert_fails [OF R_indexed, of chk] R_indexed show ?thesis
    by (cases "q_num_elements (th_queue s) = 0") (auto simp: reader_can_def)
next
  case R_asserted
  from step.count_down [OF R_asserted, of chk] R_asserted show ?thesis by (auto simp: reader_can_def)
qed (use assms(3) in simp)

text \<open>How far the reader is from releasing an element, when the counter stays positive.\<close>

fun rank :: "'a reader \<Rightarrow> nat" where
  "rank R_indexed = 4"
| "rank R_asserted = 3"
| "rank R_idle = 2"
| "rank R_seen = 1"
| "rank (R_got x) = 0"
| "rank R_failed = 0"

lemma reader_step_rank:
  assumes "step chk s s'" "q_num_elements (th_queue s) \<noteq> 0" "th_read s' = th_read s" "th_reader s' \<noteq> th_reader s"
  shows "rank (th_reader s') < rank (th_reader s)"
  using assms by cases auto

lemma no_endless_descent:
  fixes \<mu> :: "nat \<Rightarrow> nat"
  assumes "\<And>j. t \<le> j \<Longrightarrow> \<mu> (Suc j) \<le> \<mu> j" "\<And>i. t \<le> i \<Longrightarrow> \<exists>j\<ge>i. \<mu> (Suc j) < \<mu> j"
  shows False
proof -
  have mono: "\<mu> j \<le> \<mu> i" if "t \<le> i" "i \<le> j" for i j
    using that(2) by (induction rule: dec_induct) (auto intro: order_trans [OF assms(1)] simp: that(1) order_trans [OF that(1)])
  have "\<forall>i\<ge>t. \<mu> i \<noteq> m" for m
  proof (induction m rule: less_induct)
    case (less m)
    show ?case
    proof (intro allI impI notI)
      fix i assume i: "t \<le> i" "\<mu> i = m"
      obtain j where j: "i \<le> j" "\<mu> (Suc j) < \<mu> j" using assms(2) [OF i(1)] by blast
      have "\<mu> (Suc j) < m" using j(2) mono [OF i(1) j(1)] i(2) by simp
      from less [OF this] j(1) i(1) show False by (auto dest: spec [of _ "Suc j"])
    qed
  qed
  then show False by blast
qed

text \<open>An element that waits forever is counted from some time on, since the writer finishes what it began.\<close>

lemma step_publishes:
  assumes "step chk s s'" "th_writer s' = W_indexed" "th_writer s \<noteq> W_indexed"
  shows "length (th_written s') = Suc (length (th_written s))"
  using assms by cases auto

lemma pending_counted:
  assumes ex: "execution chk n d \<sigma>" and n: "0 < n" and fair: "fair chk \<sigma>"
    and pending: "length (th_read (\<sigma> i)) < length (th_written (\<sigma> i))"
    and stuck: "\<And>j. i \<le> j \<Longrightarrow> th_read (\<sigma> j) = th_read (\<sigma> i)"
  shows "\<exists>t\<ge>i. \<forall>j\<ge>t. q_num_elements (th_queue (\<sigma> j)) \<noteq> 0"
proof -
  let ?R = "length (th_read (\<sigma> i))" and ?W = "\<lambda>j. length (th_written (\<sigma> j))"
  have grows: "?W j \<le> ?W k" if "j \<le> k" for j k using execution_extends(1) [OF ex that] by auto
  have count: "?W j \<le> q_num_elements (th_queue (\<sigma> j)) + uncounted (\<sigma> j) + ?R" if "i \<le> j" for j
    using reachable_inv [OF execution_reachable [OF ex] n, of j] stuck [OF that] by (auto simp: threads_inv_def Let_def)
  show ?thesis
  proof (cases "\<exists>t\<ge>i. ?R + 2 \<le> ?W t")
    case True
    then obtain t where t: "i \<le> t" "?R + 2 \<le> ?W t" by blast
    have "q_num_elements (th_queue (\<sigma> j)) \<noteq> 0" if "t \<le> j" for j
      using count [of j] grows [OF that] t that by (auto simp: uncounted_def split: if_splits)
    then show ?thesis using t(1) by blast
  next
    case False
    then have same: "?W j = ?R + 1" if "i \<le> j" for j using grows [OF that] pending that by force
    obtain t where t: "i \<le> t" "th_writer (\<sigma> t) \<noteq> W_indexed"
    proof -
      obtain j where "i \<le> j" "th_writer (\<sigma> (Suc j)) \<noteq> th_writer (\<sigma> j) \<or> th_writer (\<sigma> j) = W_idle"
        using fair unfolding fair_def by blast
      then show ?thesis using that [of j] that [of "Suc j"] by fastforce
    qed
    have "th_writer (\<sigma> j) \<noteq> W_indexed" if "t \<le> j" for j
      using that
    proof (induction rule: dec_induct)
      case (step k)
      have "\<sigma> (Suc k) = \<sigma> k \<or> Queue_Threads.step chk (\<sigma> k) (\<sigma> (Suc k))" using ex by (simp add: execution_def)
      then show ?case using step.IH step_publishes [of chk "\<sigma> k" "\<sigma> (Suc k)"] same [of k] same [of "Suc k"] t(1) step.hyps
        by fastforce
    qed (use t in simp)
    then have "q_num_elements (th_queue (\<sigma> j)) \<noteq> 0" if "t \<le> j" for j
      using count [of j] same [of j] t(1) that by (auto simp: uncounted_def)
    then show ?thesis using t(1) by blast
  qed
qed

lemma reader_advances:
  assumes ex: "execution chk n d \<sigma>" and n: "0 < n" and fair: "fair chk \<sigma>"
    and pending: "length (th_read (\<sigma> i)) < length (th_written (\<sigma> i))"
    and safe: "\<And>j. i \<le> j \<Longrightarrow> th_reader (\<sigma> j) \<noteq> R_failed"
  shows "\<exists>j\<ge>i. length (th_read (\<sigma> i)) < length (th_read (\<sigma> j))"
proof (rule ccontr)
  assume none: "\<not> ?thesis"
  have stuck: "th_read (\<sigma> j) = th_read (\<sigma> i)" if "i \<le> j" for j
    using execution_extends(2) [OF ex that] none that by fastforce
  obtain t where t: "i \<le> t" "\<And>j. t \<le> j \<Longrightarrow> q_num_elements (th_queue (\<sigma> j)) \<noteq> 0"
    using pending_counted [OF ex n fair pending stuck] by blast
  have move: "\<sigma> (Suc j) = \<sigma> j \<or> step chk (\<sigma> j) (\<sigma> (Suc j))" for j using ex by (simp add: execution_def)
  have descends: "rank (th_reader (\<sigma> (Suc j))) < rank (th_reader (\<sigma> j))"
    if "t \<le> j" "th_reader (\<sigma> (Suc j)) \<noteq> th_reader (\<sigma> j)" for j
    using reader_step_rank [of chk "\<sigma> j" "\<sigma> (Suc j)"] move [of j] that t stuck [of j] stuck [of "Suc j"] by fastforce
  show False
  proof (rule no_endless_descent [of t "\<lambda>j. rank (th_reader (\<sigma> j))"])
    fix j assume j: "t \<le> j"
    show "rank (th_reader (\<sigma> (Suc j))) \<le> rank (th_reader (\<sigma> j))"
      using descends [OF j] by (cases "th_reader (\<sigma> (Suc j)) = th_reader (\<sigma> j)") auto
    obtain k where k: "j \<le> k" "th_reader (\<sigma> (Suc k)) \<noteq> th_reader (\<sigma> k) \<or> \<not> reader_can chk (\<sigma> k)"
      using fair unfolding fair_def by blast
    have "length (th_read (\<sigma> k)) < length (th_written (\<sigma> k))"
      using execution_extends(1) [OF ex, of i k] pending stuck [of k] j k(1) t(1) by auto
    then have "reader_can chk (\<sigma> k)"
      using reader_not_stuck [OF reachable_inv [OF execution_reachable [OF ex] n]] safe [of k] j k(1) t(1) by simp
    then show "\<exists>k\<ge>j. rank (th_reader (\<sigma> (Suc k))) < rank (th_reader (\<sigma> k))"
      using descends [of k] k j by auto
  qed
qed

section \<open>Properties\<close>

text \<open>
  C12. In a fair execution of a writer and a reader that checks \<open>size()\<close> before it reads, every published
  element is released some time later, in its place in the order of publication. Of a reader that does
  not check, as \<open>MatchingEngine::run\<close>, this holds unless its assertion in \<open>updateReadIndex\<close> fails first.
\<close>

theorem published_is_released:
  assumes "execution chk n d \<sigma>" "fair chk \<sigma>" "0 < n" "k < length (th_written (\<sigma> i))"
  shows "(\<exists>j\<ge>i. k < length (th_read (\<sigma> j)) \<and> th_read (\<sigma> j) ! k = th_written (\<sigma> i) ! k) \<or>
    \<not> chk \<and> (\<exists>j\<ge>i. th_reader (\<sigma> j) = R_failed)"
proof (cases "\<exists>j\<ge>i. th_reader (\<sigma> j) = R_failed")
  case True
  moreover have "\<not> chk"
  proof
    assume chk
    obtain j where j: "th_reader (\<sigma> j) = R_failed" using True by blast
    have "reader_safe (\<sigma> j)"
      using reachable_reader_safe [of n d "\<sigma> j"] execution_reachable [OF assms(1), of j] \<open>chk\<close> by simp
    then show False using j by (simp add: reader_safe_def)
  qed
  ultimately show ?thesis by blast
next
  case False
  have "\<exists>j\<ge>i. k < length (th_read (\<sigma> j))"
  proof (rule ccontr)
    assume none: "\<not> ?thesis"
    have "\<exists>j\<ge>i. m \<le> length (th_read (\<sigma> j))" for m
    proof (induction m)
      case (Suc m)
      then obtain j where j: "i \<le> j" "m \<le> length (th_read (\<sigma> j))" by blast
      have "length (th_read (\<sigma> j)) < length (th_written (\<sigma> j))"
        using execution_extends(1) [OF assms(1) j(1)] assms(4) none j(1) by fastforce
      from reader_advances [OF assms(1,3,2) this] obtain j' where "j \<le> j'" "length (th_read (\<sigma> j)) < length (th_read (\<sigma> j'))"
        using False j(1) by auto
      then show ?case using j by (intro exI [of _ j']) auto
    qed auto
    from this [of "Suc k"] none show False by auto
  qed
  then obtain j where j: "i \<le> j" "k < length (th_read (\<sigma> j))" by blast
  have "th_read (\<sigma> j) = take (length (th_read (\<sigma> j))) (th_written (\<sigma> j))"
    using reachable_inv [OF execution_reachable [OF assms(1)] assms(3), of j] by (simp add: threads_inv_def Let_def)
  then have "th_read (\<sigma> j) ! k = th_written (\<sigma> j) ! k" using j(2) by (metis nth_take)
  moreover have "th_written (\<sigma> j) ! k = th_written (\<sigma> i) ! k"
    using execution_extends(1) [OF assms(1) j(1)] assms(4) by (auto simp: nth_append)
  ultimately show ?thesis using j by auto
qed

text \<open>A finite run to a state where both threads rest is the start of a fair execution.\<close>

lemma finite_run_fair:
  assumes "reachable chk n d s" "(step chk)\<^sup>*\<^sup>* s t" "\<not> reader_can chk t" "th_writer t = W_idle"
  shows "\<exists>\<sigma> i. execution chk n d \<sigma> \<and> fair chk \<sigma> \<and> \<sigma> i = s"
proof -
  obtain k f where f: "f 0 = threads_init n d" "f k = s" "\<forall>i<k. step chk (f i) (f (Suc i))"
    using assms(1) unfolding reachable_def by (auto simp: rtranclp_power relpowp_fun_conv)
  obtain m g where g: "g 0 = s" "g m = t" "\<forall>i<m. step chk (g i) (g (Suc i))"
    using assms(2) by (auto simp: rtranclp_power relpowp_fun_conv)
  let ?\<sigma> = "\<lambda>i. if i \<le> k then f i else g (min (i - k) m)"
  have "?\<sigma> (Suc i) = ?\<sigma> i \<or> step chk (?\<sigma> i) (?\<sigma> (Suc i))" for i
  proof -
    consider "i < k" | "i = k" | "k < i" "i - k < m" | "k < i" "m \<le> i - k" by linarith
    then show ?thesis
    proof cases
      case 2
      then show ?thesis using f(2) g by (cases m) auto
    next
      case 3
      then show ?thesis using g(3) by (simp add: min_def Suc_diff_le)
    qed (use f(3) in \<open>auto simp: min_def\<close>)
  qed
  then have "execution chk n d ?\<sigma>" using f(1) by (simp add: execution_def)
  moreover have "?\<sigma> j = t" if "k + m < j" for j using that g(2) by simp
  then have "fair chk ?\<sigma>"
    unfolding fair_def using assms(3,4) g(2) by (intro conjI allI; rule_tac x = "k + m + Suc i" in exI) simp_all
  ultimately show ?thesis using f(2) by (intro exI [of _ ?\<sigma>] exI [of _ k]) simp
qed

theorem published_is_released_witness:
  "\<exists>\<sigma> i. execution True 8 (0::nat) \<sigma> \<and> fair True \<sigma> \<and> th_written (\<sigma> i) = [7] \<and> th_read (\<sigma> i) = [] \<and>
     (\<exists>j\<ge>i. 0 < length (th_read (\<sigma> j)) \<and> th_read (\<sigma> j) ! 0 = 7)"
proof -
  obtain s where s: "reachable True 8 (0::nat) s" "th_reader s = R_got 7" "th_written s = [7]" "th_read s = []" "th_writer s = W_idle"
    using one_passes [of 8 True 0 7] by auto
  have inv: "threads_inv 8 s" using reachable_inv [OF s(1)] by simp
  have num: "q_num_elements (th_queue s) \<noteq> 0" using reachable_reader_safe [OF s(1)] s(2) by (simp add: reader_safe_def)
  let ?i = "(q_next_read_index (th_queue s) + 1) mod 8"
  let ?t1 = "s\<lparr>th_queue := (th_queue s)\<lparr>q_next_read_index := ?i\<rparr>, th_reader := R_indexed, th_read := [7]\<rparr>"
  let ?t2 = "?t1\<lparr>th_reader := R_asserted\<rparr>"
  let ?t3 = "?t2\<lparr>th_queue := (th_queue ?t2)\<lparr>q_num_elements := q_num_elements (th_queue ?t2) - 1\<rparr>, th_reader := R_idle\<rparr>"
  have "next_index (q_next_read_index (th_queue s)) (th_queue s) = Inr ?i"
    using inv by (simp add: next_index_def threads_inv_def Let_def q_cap_def)
  from step.read_index [OF s(2) this, of True] s(4) have 1: "step True s ?t1" by simp
  have 2: "step True ?t1 ?t2" using step.assert_ok [of ?t1 True] num by simp
  have 3: "step True ?t2 ?t3" by (rule step.count_down) simp
  have path: "(step True)\<^sup>*\<^sup>* s ?t3" using 1 2 3 by (meson converse_rtranclp_into_rtranclp rtranclp.rtrancl_refl)
  then have "reachable True 8 0 ?t3" using s(1) unfolding reachable_def by (rule rtranclp_trans [rotated])
  from reachable_inv [OF this] s(3) have "q_next_write_index (th_queue ?t3) = q_next_read_index (th_queue ?t3)"
    by (simp add: threads_inv_def Let_def)
  then have "\<not> reader_can True ?t3"
    unfolding reader_can_def by (auto elim!: step.cases simp: getNextToRead_def)
  then obtain \<sigma> i where \<sigma>: "execution True 8 (0::nat) \<sigma>" "fair True \<sigma>" "\<sigma> i = s"
    using finite_run_fair [OF s(1) path] s(5) by auto
  from published_is_released [OF \<sigma>(1,2), of 0 i] s(3,4) \<sigma> show ?thesis by auto
qed

end
