(* ===== verification/Logger_Shutdown.thy ===== *)
theory Logger_Shutdown
  imports Queue_Progress Logging
begin

text \<open>
  The destructor of the logger (\<open>logging.h\<close>) against the thread that runs \<open>flushQueue\<close>: the owner logs,
  then waits for the queue to drain, clears \<open>running_\<close>, joins the thread and closes the file. The queue
  between them is the one of \<open>Queue_Threads\<close>, with a reader that checks \<open>size()\<close>.
\<close>

section \<open>The owner and the flusher\<close>

text \<open>Where \<open>flushQueue\<close> is: at the test of \<open>running_\<close>, in the loop over the queue, or returned.\<close>

datatype flusher = F_test | F_loop | F_done

text \<open>The owner logs, or is in the destructor: at its loop, before \<open>running_ = false\<close>, at \<open>join\<close>, or through.\<close>

datatype owner = O_logging | O_waiting | O_stopping | O_joining | O_done

record log_sys =
  ls_threads :: "LogElement threads"
  ls_file :: string
  ls_running :: bool
  ls_flusher :: flusher
  ls_owner :: owner

definition log_init :: "nat \<Rightarrow> log_sys" where
  "log_init n = \<lparr>ls_threads = threads_init n (Log_CHAR (CHR 0x00)), ls_file = [], ls_running = True,
     ls_flusher = F_test, ls_owner = O_logging\<rparr>"

text \<open>
  \<open>flush\<close> is a step of the reader: it writes an element into the file when it takes it, and leaves the
  loop when \<open>size()\<close> is 0; \<open>drained\<close> leaves it when there is no next element. The pauses are left out.
\<close>

inductive log_step :: "(LogElement \<Rightarrow> string) \<Rightarrow> log_sys \<Rightarrow> log_sys \<Rightarrow> bool" for rend where
  push: "ls_owner s = O_logging \<Longrightarrow> step True (ls_threads s) t \<Longrightarrow> th_reader t = th_reader (ls_threads s) \<Longrightarrow>
    log_step rend s (s\<lparr>ls_threads := t\<rparr>)"
| destroy: "ls_owner s = O_logging \<Longrightarrow> th_writer (ls_threads s) = W_idle \<Longrightarrow> log_step rend s (s\<lparr>ls_owner := O_waiting\<rparr>)"
| emptied: "ls_owner s = O_waiting \<Longrightarrow> q_num_elements (th_queue (ls_threads s)) = 0 \<Longrightarrow>
    log_step rend s (s\<lparr>ls_owner := O_stopping\<rparr>)"
| stop: "ls_owner s = O_stopping \<Longrightarrow> log_step rend s (s\<lparr>ls_running := False, ls_owner := O_joining\<rparr>)"
| join: "ls_owner s = O_joining \<Longrightarrow> ls_flusher s = F_done \<Longrightarrow> log_step rend s (s\<lparr>ls_owner := O_done\<rparr>)"
| test: "ls_flusher s = F_test \<Longrightarrow> log_step rend s (s\<lparr>ls_flusher := (if ls_running s then F_loop else F_done)\<rparr>)"
| drained: "ls_flusher s = F_loop \<Longrightarrow> th_reader (ls_threads s) = R_idle \<Longrightarrow>
    getNextToRead (th_queue (ls_threads s)) = Inr (None, q) \<Longrightarrow> log_step rend s (s\<lparr>ls_flusher := F_test\<rparr>)"
| flush: "ls_flusher s = F_loop \<Longrightarrow> step True (ls_threads s) t \<Longrightarrow> th_reader t \<noteq> th_reader (ls_threads s) \<Longrightarrow>
    log_step rend s (s\<lparr>ls_threads := t,
      ls_file := ls_file s @ (case th_reader t of R_got x \<Rightarrow> rend x | _ \<Rightarrow> []),
      ls_flusher := (if th_reader (ls_threads s) = R_seen \<and> th_reader t = R_idle then F_test else F_loop)\<rparr>)"

definition log_reachable :: "(LogElement \<Rightarrow> string) \<Rightarrow> nat \<Rightarrow> log_sys \<Rightarrow> bool" where
  "log_reachable rend n s \<longleftrightarrow> (log_step rend)\<^sup>*\<^sup>* (log_init n) s"

section \<open>The invariant\<close>

definition log_inv :: "(LogElement \<Rightarrow> string) \<Rightarrow> log_sys \<Rightarrow> bool" where
  "log_inv rend s \<longleftrightarrow>
     ls_file s = concat (map rend (th_read (ls_threads s))) @ (case th_reader (ls_threads s) of R_got x \<Rightarrow> rend x | _ \<Rightarrow> []) \<and>
     (ls_flusher s \<noteq> F_loop \<longrightarrow> th_reader (ls_threads s) = R_idle) \<and>
     (ls_running s \<longleftrightarrow> ls_owner s \<in> {O_logging, O_waiting, O_stopping}) \<and>
     (ls_flusher s = F_done \<longrightarrow> \<not> ls_running s) \<and>
     (ls_owner s \<noteq> O_logging \<longrightarrow> th_writer (ls_threads s) = W_idle) \<and>
     (ls_owner s \<in> {O_stopping, O_joining, O_done} \<longrightarrow>
       th_read (ls_threads s) = th_written (ls_threads s) \<and> th_reader (ls_threads s) = R_idle) \<and>
     (ls_owner s = O_done \<longrightarrow> ls_flusher s = F_done)"

lemma log_step_threads: "log_step rend s s' \<Longrightarrow> ls_threads s' = ls_threads s \<or> step True (ls_threads s) (ls_threads s')"
  by (cases rule: log_step.cases) auto

text \<open>A step of the reader in detail: it does not touch the writer, and releases what it holds.\<close>

lemma reader_step:
  assumes "step chk t t'" "th_reader t' \<noteq> th_reader t"
  shows "th_writer t' = th_writer t" "th_written t' = th_written t"
    "th_read t' = th_read t @ (case th_reader t of R_got x \<Rightarrow> [x] | _ \<Rightarrow> [])"
    "(case th_reader t' of R_got x \<Rightarrow> th_reader t = R_seen | _ \<Rightarrow> True)"
    "th_reader t' = R_idle \<Longrightarrow> th_reader t = R_seen \<or> th_reader t = R_asserted"
  using assms by (cases, auto)+

lemma writer_step:
  assumes "step chk t t'" "th_reader t' = th_reader t"
  shows "th_read t' = th_read t"
  using assms by cases auto

lemma all_read_when_empty:
  assumes "threads_inv n t" "reader_safe t" "th_writer t = W_idle" "q_num_elements (th_queue t) = 0"
  shows "th_read t = th_written t" "th_reader t = R_idle"
proof -
  have "length (th_read t) = length (th_written t)" "th_read t = take (length (th_read t)) (th_written t)"
    using assms by (auto simp: threads_inv_def Let_def uncounted_def overcounted_def split: if_splits)
  then show "th_read t = th_written t" by simp
  then show "th_reader t = R_idle"
    using assms by (cases "th_reader t") (auto simp: threads_inv_def Let_def reader_safe_def uncounted_def overcounted_def)
qed

lemma nothing_to_read:
  assumes "threads_inv n t" "th_read t = th_written t"
  shows "getNextToRead (th_queue t) = Inr (None, th_queue t)"
  using assms by (simp add: threads_inv_def Let_def getNextToRead_def)

lemma nothing_counted:
  assumes "threads_inv n t" "th_writer t = W_idle" "th_reader t = R_idle" "getNextToRead (th_queue t) = Inr (None, q)"
  shows "q_num_elements (th_queue t) = 0"
proof -
  have "length (th_read t) = length (th_written t)"
    using mod_eq_window [of "length (th_read t)" "length (th_read t)" "length (th_written t)" n] assms
    by (auto simp: threads_inv_def Let_def getNextToRead_def split: if_splits)
  then show ?thesis using assms by (simp add: threads_inv_def Let_def uncounted_def overcounted_def)
qed

lemma rests_when_drained:
  assumes "threads_inv n t" "th_read t = th_written t" "th_reader t = R_idle" "step chk t t'"
  shows "th_reader t' = R_idle"
  using assms(4,3) nothing_to_read [OF assms(1,2)] by cases auto

lemma log_reachable_inv:
  assumes "log_reachable rend n s" "0 < n"
  shows "log_inv rend s \<and> reachable True n (Log_CHAR (CHR 0x00)) (ls_threads s)"
  using assms(1) unfolding log_reachable_def
proof (induction rule: rtranclp_induct)
  case base
  show ?case using reachable_init [of True n "Log_CHAR (CHR 0x00)"] by (simp add: log_init_def log_inv_def) (simp add: threads_init_def)
next
  case (step s s')
  let ?t = "ls_threads s"
  have reach: "reachable True n (Log_CHAR (CHR 0x00)) (ls_threads s')"
    using log_step_threads [OF step.hyps(2)] step.IH reachable_step by fastforce
  have safe: "reader_safe ?t" using reachable_reader_safe [of n "Log_CHAR (CHR 0x00)" ?t] step.IH by simp
  have tinv: "threads_inv n ?t" using reachable_inv [of True n "Log_CHAR (CHR 0x00)" ?t] step.IH assms(2) by simp
  from step.hyps(2) have "log_inv rend s'"
  proof cases
    case (push t)
    then show ?thesis using step.IH writer_step [OF push(3,4)] by (auto simp: log_inv_def)
  next
    case emptied
    then show ?thesis using step.IH all_read_when_empty [OF tinv safe] by (auto simp: log_inv_def)
  next
    case (flush t)
    note r = reader_step [OF flush(3,4)]
    have "\<not> (th_read ?t = th_written ?t \<and> th_reader ?t = R_idle)"
      using rests_when_drained [OF tinv _ _ flush(3)] flush(4) by auto
    then show ?thesis using step.IH flush r by (auto simp: log_inv_def split: reader.splits if_splits)
  qed (use step.IH in \<open>auto simp: log_inv_def split: reader.splits if_splits\<close>)
  then show ?case using reach by blast
qed

section \<open>The destructor returns\<close>

definition log_execution :: "(LogElement \<Rightarrow> string) \<Rightarrow> nat \<Rightarrow> (nat \<Rightarrow> log_sys) \<Rightarrow> bool" where
  "log_execution rend n \<sigma> \<longleftrightarrow> \<sigma> 0 = log_init n \<and> (\<forall>i. \<sigma> (Suc i) = \<sigma> i \<or> log_step rend (\<sigma> i) (\<sigma> (Suc i)))"

definition flusher_moves :: "log_sys \<Rightarrow> log_sys \<Rightarrow> bool" where
  "flusher_moves s s' \<longleftrightarrow> (ls_flusher s', th_reader (ls_threads s')) \<noteq> (ls_flusher s, th_reader (ls_threads s))"

definition flusher_can :: "(LogElement \<Rightarrow> string) \<Rightarrow> log_sys \<Rightarrow> bool" where
  "flusher_can rend s \<longleftrightarrow> (\<exists>s'. log_step rend s s' \<and> flusher_moves s s')"

definition owner_can :: "(LogElement \<Rightarrow> string) \<Rightarrow> log_sys \<Rightarrow> bool" where
  "owner_can rend s \<longleftrightarrow> (\<exists>s'. log_step rend s s' \<and> ls_owner s' \<noteq> ls_owner s)"

text \<open>Neither the flusher nor the owner in its destructor is held up forever.\<close>

definition log_fair :: "(LogElement \<Rightarrow> string) \<Rightarrow> (nat \<Rightarrow> log_sys) \<Rightarrow> bool" where
  "log_fair rend \<sigma> \<longleftrightarrow>
     (\<forall>i. \<exists>j\<ge>i. flusher_moves (\<sigma> j) (\<sigma> (Suc j)) \<or> \<not> flusher_can rend (\<sigma> j)) \<and>
     (\<forall>i. \<exists>j\<ge>i. ls_owner (\<sigma> (Suc j)) \<noteq> ls_owner (\<sigma> j) \<or> \<not> owner_can rend (\<sigma> j))"

lemma log_execution_reachable: "log_execution rend n \<sigma> \<Longrightarrow> log_reachable rend n (\<sigma> i)"
proof (induction i)
  case 0
  then show ?case by (simp add: log_execution_def log_reachable_def)
next
  case (Suc i)
  then have "\<sigma> (Suc i) = \<sigma> i \<or> log_step rend (\<sigma> i) (\<sigma> (Suc i))" by (simp add: log_execution_def)
  then show ?case using Suc unfolding log_reachable_def by (auto intro: rtranclp.rtrancl_into_rtrancl)
qed

text \<open>
  What is left to do in the destructor. While elements are counted, each step of the flusher brings the
  next release nearer; then the owner has to move, and after it the flusher has to see \<open>running_\<close>.
\<close>

definition flush_work :: "log_sys \<Rightarrow> nat" where
  "flush_work s = (let t = ls_threads s in
     if q_num_elements (th_queue t) = 0 then 0
     else 6 * (length (th_written t) - length (th_read t)) + rank (th_reader t) + (if ls_flusher s = F_test then 1 else 0))"

definition destructor_work :: "log_sys \<Rightarrow> nat" where
  "destructor_work s =
     (case ls_owner s of
        O_logging \<Rightarrow> 0
      | O_waiting \<Rightarrow> 5 + flush_work s
      | O_stopping \<Rightarrow> 4
      | O_joining \<Rightarrow> (case ls_flusher s of F_loop \<Rightarrow> 3 | F_test \<Rightarrow> 2 | F_done \<Rightarrow> 1)
      | O_done \<Rightarrow> 0)"

text \<open>The states of the destructor, with what is known of them.\<close>

definition deleting :: "(LogElement \<Rightarrow> string) \<Rightarrow> nat \<Rightarrow> log_sys \<Rightarrow> bool" where
  "deleting rend n s \<longleftrightarrow> log_inv rend s \<and> threads_inv n (ls_threads s) \<and> reader_safe (ls_threads s) \<and> ls_owner s \<noteq> O_logging"

lemma deleting_intro:
  "log_reachable rend n s \<Longrightarrow> 0 < n \<Longrightarrow> ls_owner s \<noteq> O_logging \<Longrightarrow> deleting rend n s"
  using log_reachable_inv [of rend n s] reachable_inv [of True n _ "ls_threads s"] reachable_reader_safe [of n _ "ls_threads s"]
  by (auto simp: deleting_def)

text \<open>A step of the reader while elements are counted.\<close>

lemma flush_step_work:
  assumes "threads_inv n t" "reader_safe t" "step True t t'" "th_reader t' \<noteq> th_reader t" "q_num_elements (th_queue t) \<noteq> 0"
  shows "\<not> (th_reader t = R_seen \<and> th_reader t' = R_idle) \<and>
    6 * (length (th_written t') - length (th_read t')) + rank (th_reader t') <
    6 * (length (th_written t) - length (th_read t)) + rank (th_reader t)"
  using assms(3)
proof cases
  case (read_index x i)
  then have "length (th_read t) < length (th_written t)" using assms(1) by (simp add: threads_inv_def Let_def)
  then show ?thesis using read_index by (auto simp: Suc_diff_Suc)
qed (use assms in \<open>auto simp: reader_safe_def\<close>)

lemma step_work:
  assumes del: "deleting rend n s" and st: "log_step rend s s'"
  shows "destructor_work s' \<le> destructor_work s \<and> (ls_owner s' \<noteq> ls_owner s \<longrightarrow> destructor_work s' < destructor_work s) \<and>
    (flusher_moves s s' \<and> (ls_owner s = O_waiting \<and> q_num_elements (th_queue (ls_threads s)) \<noteq> 0 \<or> ls_owner s = O_joining) \<longrightarrow>
       destructor_work s' < destructor_work s)"
  using st
proof cases
  case (flush t)
  have busy: "\<not> (th_read (ls_threads s) = th_written (ls_threads s) \<and> th_reader (ls_threads s) = R_idle)"
    using rests_when_drained [OF _ _ _ flush(3)] flush(4) del by (auto simp: deleting_def)
  have waiting: "ls_owner s = O_waiting" and idle: "th_writer (ls_threads s) = W_idle"
    using busy del by (cases "ls_owner s"; simp add: deleting_def log_inv_def)+
  have counted: "q_num_elements (th_queue (ls_threads s)) \<noteq> 0"
    using all_read_when_empty [of n "ls_threads s"] idle del busy by (auto simp: deleting_def)
  have "\<not> (th_reader (ls_threads s) = R_seen \<and> th_reader t = R_idle)"
    "6 * (length (th_written t) - length (th_read t)) + rank (th_reader t) <
    6 * (length (th_written (ls_threads s)) - length (th_read (ls_threads s))) + rank (th_reader (ls_threads s))"
    using flush_step_work [OF _ _ flush(3,4) counted, of n] del by (simp_all add: deleting_def)
  then show ?thesis using flush waiting counted by (auto simp: destructor_work_def flush_work_def Let_def)
next
  case (drained q)
  have "q_num_elements (th_queue (ls_threads s)) = 0"
  proof (rule nothing_counted [OF _ _ drained(3,4)])
    show "threads_inv n (ls_threads s)" "th_writer (ls_threads s) = W_idle"
      using del by (simp_all add: deleting_def log_inv_def)
  qed
  with drained show ?thesis using del
    by (auto simp: deleting_def destructor_work_def flush_work_def Let_def log_inv_def split: owner.splits)
qed (use del in \<open>auto simp: deleting_def destructor_work_def flush_work_def Let_def log_inv_def flusher_moves_def split: owner.splits flusher.splits\<close>)

text \<open>Somebody can always go on, and the work gets less when they do.\<close>

lemma flusher_not_stuck:
  assumes "deleting rend n s"
    "ls_owner s = O_waiting \<and> q_num_elements (th_queue (ls_threads s)) \<noteq> 0 \<or> ls_owner s = O_joining \<and> ls_flusher s \<noteq> F_done"
  shows "flusher_can rend s"
proof (cases "ls_flusher s")
  case F_test
  have "flusher_moves s (s\<lparr>ls_flusher := (if ls_running s then F_loop else F_done)\<rparr>)" using F_test by (simp add: flusher_moves_def)
  then show ?thesis using log_step.test [OF F_test, of rend] unfolding flusher_can_def by blast
next
  case F_loop
  let ?t = "ls_threads s"
  show ?thesis
  proof (cases "th_read ?t = th_written ?t \<and> th_reader ?t = R_idle")
    case True
    then have "getNextToRead (th_queue ?t) = Inr (None, th_queue ?t)"
      using nothing_to_read assms(1) by (auto simp: deleting_def)
    from log_step.drained [OF F_loop _ this, of rend] True F_loop show ?thesis
      by (force simp: flusher_can_def flusher_moves_def)
  next
    case False
    have "\<exists>t. step True ?t t \<and> th_reader t \<noteq> th_reader ?t"
    proof (cases "th_read ?t = th_written ?t")
      case True
      then have "th_reader ?t = R_indexed \<or> th_reader ?t = R_asserted"
        using False assms(1)
        by (cases "th_reader ?t") (auto simp: deleting_def reader_safe_def threads_inv_def Let_def)
      then show ?thesis
        using step.assert_ok [of ?t True] step.assert_fails [of ?t True] step.count_down [of ?t True] by fastforce
    next
      case False
      moreover have "th_read ?t = take (length (th_read ?t)) (th_written ?t)" "length (th_read ?t) \<le> length (th_written ?t)"
        using assms(1) by (simp_all add: deleting_def threads_inv_def Let_def)
      ultimately have "length (th_read ?t) < length (th_written ?t)" by (metis le_neq_implies_less order_refl take_all)
      moreover have "threads_inv n ?t" "th_reader ?t \<noteq> R_failed" using assms(1) by (auto simp: deleting_def reader_safe_def)
      ultimately show ?thesis using reader_not_stuck [of n ?t True] by (simp add: reader_can_def)
    qed
    then obtain t where t: "step True ?t t" "th_reader t \<noteq> th_reader ?t" by blast
    from log_step.flush [OF F_loop t, of rend] t(2) show ?thesis by (force simp: flusher_can_def flusher_moves_def)
  qed
qed (use assms in \<open>auto simp: deleting_def log_inv_def\<close>)

lemma flush_work_0:
  assumes "deleting rend n s"
  shows "flush_work s = 0 \<longleftrightarrow> q_num_elements (th_queue (ls_threads s)) = 0"
  using assms
  by (cases "th_reader (ls_threads s)") (auto simp: deleting_def flush_work_def Let_def reader_safe_def threads_inv_def)

lemma owner_not_stuck:
  assumes "ls_owner s = O_waiting \<and> q_num_elements (th_queue (ls_threads s)) = 0 \<or> ls_owner s = O_stopping \<or>
    ls_owner s = O_joining \<and> ls_flusher s = F_done"
  shows "owner_can rend s"
  using assms log_step.emptied [of s rend] log_step.stop [of s rend] log_step.join [of s rend]
  by (force simp: owner_can_def)

text \<open>While the destructor has not returned, the work gets less some time later.\<close>

lemma flusher_hands_over:
  assumes ex: "log_execution rend n \<sigma>" and fair: "log_fair rend \<sigma>"
    and del: "\<And>k. j \<le> k \<Longrightarrow> deleting rend n (\<sigma> k) \<and> ls_owner (\<sigma> k) \<noteq> O_done"
    and same: "\<And>k. j \<le> k \<Longrightarrow> destructor_work (\<sigma> k) = destructor_work (\<sigma> j)"
  shows "\<exists>m\<ge>j. ls_owner (\<sigma> m) = O_waiting \<and> q_num_elements (th_queue (ls_threads (\<sigma> m))) = 0 \<or>
    ls_owner (\<sigma> m) = O_stopping \<or> ls_owner (\<sigma> m) = O_joining \<and> ls_flusher (\<sigma> m) = F_done"
proof (rule ccontr)
  assume none: "\<not> ?thesis"
  have busy: "ls_owner (\<sigma> m) = O_waiting \<and> q_num_elements (th_queue (ls_threads (\<sigma> m))) \<noteq> 0 \<or>
      ls_owner (\<sigma> m) = O_joining \<and> ls_flusher (\<sigma> m) \<noteq> F_done" if "j \<le> m" for m
    using none del [OF that] that by (cases "ls_owner (\<sigma> m)") (auto simp: deleting_def)
  obtain m where m: "j \<le> m" "flusher_moves (\<sigma> m) (\<sigma> (Suc m)) \<or> \<not> flusher_can rend (\<sigma> m)"
    using fair unfolding log_fair_def by blast
  have d: "deleting rend n (\<sigma> m)" using del [OF m(1)] by simp
  have "flusher_moves (\<sigma> m) (\<sigma> (Suc m))" using flusher_not_stuck [OF d busy [OF m(1)]] m(2) by blast
  moreover from this have "log_step rend (\<sigma> m) (\<sigma> (Suc m))"
    using ex by (auto simp: flusher_moves_def log_execution_def) metis+
  ultimately have "destructor_work (\<sigma> (Suc m)) < destructor_work (\<sigma> m)" using step_work [OF d] busy [OF m(1)] by blast
  then show False using same [of m] same [of "Suc m"] m(1) by simp
qed

lemma work_decreases:
  assumes ex: "log_execution rend n \<sigma>" and fair: "log_fair rend \<sigma>"
    and del: "\<And>k. j \<le> k \<Longrightarrow> deleting rend n (\<sigma> k) \<and> ls_owner (\<sigma> k) \<noteq> O_done"
  shows "\<exists>k\<ge>j. destructor_work (\<sigma> (Suc k)) < destructor_work (\<sigma> k)"
proof (rule ccontr)
  assume const: "\<not> ?thesis"
  let ?\<mu> = "\<lambda>k. destructor_work (\<sigma> k)"
  have same: "?\<mu> k = ?\<mu> j \<and> ls_owner (\<sigma> k) = ls_owner (\<sigma> j)" if "j \<le> k" for k
    using that
  proof (induction rule: dec_induct)
    case (step m)
    have "\<sigma> (Suc m) = \<sigma> m \<or> log_step rend (\<sigma> m) (\<sigma> (Suc m))" using ex by (simp add: log_execution_def)
    then show ?case using step step_work [of rend n "\<sigma> m" "\<sigma> (Suc m)"] del [of m] const by fastforce
  qed simp
  obtain m where m: "j \<le> m" "ls_owner (\<sigma> m) = O_waiting \<and> q_num_elements (th_queue (ls_threads (\<sigma> m))) = 0 \<or>
      ls_owner (\<sigma> m) = O_stopping \<or> ls_owner (\<sigma> m) = O_joining \<and> ls_flusher (\<sigma> m) = F_done"
    using flusher_hands_over [OF ex fair del] same by blast
  have "owner_can rend (\<sigma> k)" if "m \<le> k" for k
  proof (rule owner_not_stuck)
    have "?\<mu> k = ?\<mu> m" "ls_owner (\<sigma> k) = ls_owner (\<sigma> m)"
      using same [of k] same [of m] m(1) that by simp_all
    moreover have "deleting rend n (\<sigma> k)" using del [of k] m(1) that by simp
    moreover have "flush_work (\<sigma> m) = 0" if "q_num_elements (th_queue (ls_threads (\<sigma> m))) = 0"
      using that by (simp add: flush_work_def Let_def)
    ultimately show "ls_owner (\<sigma> k) = O_waiting \<and> q_num_elements (th_queue (ls_threads (\<sigma> k))) = 0 \<or>
        ls_owner (\<sigma> k) = O_stopping \<or> ls_owner (\<sigma> k) = O_joining \<and> ls_flusher (\<sigma> k) = F_done"
      using m(2) flush_work_0 [of rend n "\<sigma> k"] by (auto simp: destructor_work_def split: flusher.splits)
  qed
  moreover obtain k where "m \<le> k" "ls_owner (\<sigma> (Suc k)) \<noteq> ls_owner (\<sigma> k) \<or> \<not> owner_can rend (\<sigma> k)"
    using fair unfolding log_fair_def by blast
  ultimately show False using same [of k] same [of "Suc k"] m(1) by auto
qed

lemma destructor_returns:
  assumes ex: "log_execution rend n \<sigma>" and n: "0 < n" and fair: "log_fair rend \<sigma>" and start: "ls_owner (\<sigma> i) \<noteq> O_logging"
  shows "\<exists>j\<ge>i. ls_owner (\<sigma> j) = O_done"
proof (rule ccontr)
  assume none: "\<not> ?thesis"
  have move: "\<sigma> (Suc j) = \<sigma> j \<or> log_step rend (\<sigma> j) (\<sigma> (Suc j))" for j using ex by (simp add: log_execution_def)
  have "ls_owner (\<sigma> j) \<noteq> O_logging" if "i \<le> j" for j
    using that
  proof (induction rule: dec_induct)
    case (step k)
    then show ?case using move [of k] by (auto elim: log_step.cases)
  qed (rule start)
  then have del: "deleting rend n (\<sigma> j) \<and> ls_owner (\<sigma> j) \<noteq> O_done" if "i \<le> j" for j
    using deleting_intro [OF log_execution_reachable [OF ex] n] none that by blast
  show False
  proof (rule no_endless_descent [of i "\<lambda>j. destructor_work (\<sigma> j)"])
    fix j assume j: "i \<le> j"
    show "destructor_work (\<sigma> (Suc j)) \<le> destructor_work (\<sigma> j)"
      using move [of j] step_work [of rend n "\<sigma> j" "\<sigma> (Suc j)"] del [OF j] by auto
    show "\<exists>k\<ge>j. destructor_work (\<sigma> (Suc k)) < destructor_work (\<sigma> k)"
      using work_decreases [OF ex fair, of j] del j by auto
  qed
qed

section \<open>Properties\<close>

text \<open>
  C26. The destructor of the logger loses nothing and returns: when the loop over \<open>size()\<close> has ended, every
  element that was ever logged has been rendered into the file, in order; the assertion of the flusher does not
  fail; and in a fair execution the destructor comes to its end.
\<close>

theorem logger_deleted:
  assumes "log_execution rend n \<sigma>" "log_fair rend \<sigma>" "0 < n" "ls_owner (\<sigma> i) \<noteq> O_logging"
  shows "\<exists>j\<ge>i. ls_owner (\<sigma> j) = O_done \<and> ls_flusher (\<sigma> j) = F_done \<and> th_reader (ls_threads (\<sigma> j)) \<noteq> R_failed \<and>
    ls_file (\<sigma> j) = concat (map rend (th_written (ls_threads (\<sigma> j))))"
proof -
  obtain j where j: "i \<le> j" "ls_owner (\<sigma> j) = O_done" using destructor_returns [OF assms(1,3,2,4)] by blast
  have "log_inv rend (\<sigma> j)" using log_reachable_inv [OF log_execution_reachable [OF assms(1)] assms(3)] by blast
  then show ?thesis using j by (intro exI [of _ j]) (auto simp: log_inv_def)
qed

text \<open>Every reachable state goes on in a fair execution: the two threads take turns.\<close>

definition turn :: "(LogElement \<Rightarrow> string) \<Rightarrow> nat \<Rightarrow> log_sys \<Rightarrow> log_sys \<Rightarrow> bool" where
  "turn rend i s s' \<longleftrightarrow>
     (if even i then (if flusher_can rend s then log_step rend s s' \<and> flusher_moves s s' else s' = s)
      else (if owner_can rend s then log_step rend s s' \<and> ls_owner s' \<noteq> ls_owner s else s' = s))"

lemma fair_continuation:
  assumes "log_reachable rend n s"
  shows "\<exists>\<sigma> k. log_execution rend n \<sigma> \<and> log_fair rend \<sigma> \<and> \<sigma> k = s"
proof -
  obtain k f where f: "f 0 = log_init n" "f k = s" "\<forall>i<k. log_step rend (f i) (f (Suc i))"
    using assms unfolding log_reachable_def by (auto simp: rtranclp_power relpowp_fun_conv)
  have "\<exists>s'. turn rend i s s'" for i s unfolding turn_def flusher_can_def owner_can_def by (cases "even i") (simp_all only: if_True if_False, metis+)
  then obtain g where g: "g 0 = s" "\<And>i. turn rend i (g i) (g (Suc i))"
    using dependent_nat_choice [of "\<lambda>i x. i = 0 \<longrightarrow> x = s" "\<lambda>i x y. turn rend i x y"] by auto
  let ?\<sigma> = "\<lambda>i. if i \<le> k then f i else g (i - k)"
  have late: "?\<sigma> (k + i) = g i" for i using f(2) g(1) by simp
  have "?\<sigma> (Suc i) = ?\<sigma> i \<or> log_step rend (?\<sigma> i) (?\<sigma> (Suc i))" for i
  proof (cases "i < k")
    case False
    then obtain m where "i = k + m" by (metis le_add_diff_inverse not_le)
    then show ?thesis using late [of m] late [of "Suc m"] g(2) [of m] by (auto simp: turn_def split: if_splits)
  qed (use f(3) in simp)
  then have "log_execution rend n ?\<sigma>" using f(1) by (simp add: log_execution_def)
  moreover have "log_fair rend ?\<sigma>"
    unfolding log_fair_def
  proof (intro conjI allI)
    fix i
    have flusher: "flusher_moves (?\<sigma> (k + 2 * i)) (?\<sigma> (k + Suc (2 * i))) \<or> \<not> flusher_can rend (?\<sigma> (k + 2 * i))"
      using g(2) [of "2 * i"] unfolding late by (auto simp: turn_def split: if_splits)
    then show "\<exists>j\<ge>i. flusher_moves (?\<sigma> j) (?\<sigma> (Suc j)) \<or> \<not> flusher_can rend (?\<sigma> j)"
      by (intro exI [of _ "k + 2 * i"]) simp
    have owner: "ls_owner (?\<sigma> (k + Suc (Suc (2 * i)))) \<noteq> ls_owner (?\<sigma> (k + Suc (2 * i))) \<or> \<not> owner_can rend (?\<sigma> (k + Suc (2 * i)))"
      using g(2) [of "Suc (2 * i)"] unfolding late by (auto simp: turn_def split: if_splits)
    then show "\<exists>j\<ge>i. ls_owner (?\<sigma> (Suc j)) \<noteq> ls_owner (?\<sigma> j) \<or> \<not> owner_can rend (?\<sigma> j)"
      by (intro exI [of _ "k + Suc (2 * i)"]) simp
  qed
  ultimately show ?thesis using f(2) by (intro exI [of _ ?\<sigma>] exI [of _ k]) simp
qed

theorem logger_deleted_witness:
  "\<exists>\<sigma> i j. log_execution (\<lambda>x. [CHR ''a'']) 8 \<sigma> \<and> ls_owner (\<sigma> i) = O_waiting \<and>
     th_written (ls_threads (\<sigma> i)) = [Log_INTEGER 5] \<and> i \<le> j \<and> ls_owner (\<sigma> j) = O_done"
proof -
  let ?rend = "\<lambda>x :: LogElement. [CHR ''a'']" and ?i = "log_init 8"
  obtain s1 s2 s3 where s: "step True (threads_init 8 (Log_CHAR (CHR 0x00))) s1" "step True s1 s2" "step True s2 s3"
    "th_reader s1 = R_idle" "th_reader s2 = R_idle" "th_reader s3 = R_idle" "th_written s3 = [Log_INTEGER 5]" "th_writer s3 = W_idle"
    using one_published [of 8 True "Log_CHAR (CHR 0x00)" "Log_INTEGER 5"] by auto
  let ?l = "\<lambda>t. ?i\<lparr>ls_threads := t\<rparr>"
  have "log_step ?rend ?i (?l s1)" "log_step ?rend (?l s1) (?l s2)" "log_step ?rend (?l s2) (?l s3)"
    using log_step.push [of ?i s1 ?rend] log_step.push [of "?l s1" s2 ?rend] log_step.push [of "?l s2" s3 ?rend] s
    by (simp_all add: log_init_def) (simp_all add: threads_init_def)
  moreover have "log_step ?rend (?l s3) ((?l s3)\<lparr>ls_owner := O_waiting\<rparr>)"
    using s(8) by (intro log_step.destroy) (simp_all add: log_init_def)
  ultimately have "log_reachable ?rend 8 ((?l s3)\<lparr>ls_owner := O_waiting\<rparr>)"
    unfolding log_reachable_def by (meson rtranclp.rtrancl_into_rtrancl rtranclp.rtrancl_refl)
  then obtain \<sigma> i where \<sigma>: "log_execution ?rend 8 \<sigma>" "log_fair ?rend \<sigma>" "\<sigma> i = (?l s3)\<lparr>ls_owner := O_waiting\<rparr>"
    using fair_continuation by blast
  then obtain j where "i \<le> j" "ls_owner (\<sigma> j) = O_done" using logger_deleted [OF \<sigma>(1,2), of i] by auto
  then show ?thesis using \<sigma> s(7) by (intro exI [of _ \<sigma>] exI [of _ i] exI [of _ j]) simp
qed

end
