(* ===== verification/Book_Printing.thy ===== *)
theory Book_Printing
  imports Matching_Engine
begin

text \<open>
  The renderings of orders, levels and books (\<open>me_order.cpp\<close>, \<open>me_order.h\<close>, \<open>MEOrderBook::toString\<close>),
  which follow the pointers of the rings, and the destructors that call them. The text of a book is
  compared with a rendering of the abstract book; on an open ask ring it ends in a null dereference,
  and with it the destructor of the book.
\<close>

section \<open>Rendering\<close>

text \<open>\<open>%ns\<close> and \<open>%-ns\<close> of \<open>sprintf\<close>. The texts put into \<open>buf\<close> are far shorter than its 4096 characters.\<close>

definition pad_left :: "nat \<Rightarrow> string \<Rightarrow> string" where
  "pad_left n s = replicate (n - length s) (CHR '' '') @ s"

definition pad_right :: "nat \<Rightarrow> string \<Rightarrow> string" where
  "pad_right n s = s @ replicate (n - length s) (CHR '' '')"

abbreviation newline :: string where
  "newline \<equiv> [CHR 0x0A]"

text \<open>\<open>p ? p -> field : invalid\<close>, for the neighbours of an order and of a level.\<close>

definition order_id_at :: "order_ptr \<Rightarrow> (MEOrderBook, OrderId) prog" where
  "order_id_at p = (if p = None then ret OrderId_INVALID else rd_ord p o_market_order_id)"

definition level_price_at :: "level_ptr \<Rightarrow> (MEOrderBook, Price) prog" where
  "level_price_at p = (if p = None then ret Price_INVALID else rd_lvl p l_price)"

definition MEOrder_toString :: "order_ptr \<Rightarrow> (MEOrderBook, string) prog" where
  "MEOrder_toString p =
     bnd (rd_ord p (\<lambda>x. x)) (\<lambda>x.
     bnd (order_id_at (o_prev_order x)) (\<lambda>prev.
     bnd (order_id_at (o_next_order x)) (\<lambda>next.
     ret ('' MEOrder '' @ '' [ ''
       @ '' Ticker: '' @ tickerIdToString (o_ticker_id x)
       @ '' Client_order_id: '' @ clientIdToString (o_client_id x)
       @ '' Order_Id: '' @ orderIdToString (o_client_order_id x)
       @ '' Market_order_id: '' @ orderIdToString (o_market_order_id x)
       @ '' Side: '' @ sideToString (o_side x)
       @ '' Price: '' @ priceToString (o_price x)
       @ '' Qty: '' @ qtyToString (o_qty x)
       @ '' Priority: '' @ priorityToString (o_priority x)
       @ '' Prev: '' @ orderIdToString prev
       @ '' Next: '' @ orderIdToString next
       @ '' ] ''))))"

definition MEOrdersAtPrice_toString :: "level_ptr \<Rightarrow> (MEOrderBook, string) prog" where
  "MEOrdersAtPrice_toString p =
     bnd (rd_lvl p (\<lambda>l. l)) (\<lambda>l.
     bnd (if l_first_me_order l = None then ret ''null'' else MEOrder_toString (l_first_me_order l)) (\<lambda>first.
     bnd (level_price_at (l_prev_entry l)) (\<lambda>prev.
     bnd (level_price_at (l_next_entry l)) (\<lambda>next.
     ret (''MEOrdersAtPrice: '' @ '' [ ''
       @ '' Side: '' @ sideToString (l_side l)
       @ '' Price: '' @ priceToString (l_price l)
       @ '' First ME Order: '' @ first
       @ '' Prev: '' @ priceToString prev
       @ '' Next: '' @ priceToString next
       @ '' ] '')))))"

section \<open>The book\<close>

text \<open>
  The two \<open>for\<close> loops of the lambda \<open>printer\<close> go around the orders of a level and leave when the next
  one is the first; \<open>body\<close> is what they do with each. On a damaged ring they may run forever.
\<close>

partial_function (option) order_loop ::
  "(MEOrder \<Rightarrow> 'a \<Rightarrow> MEOrderBook \<Rightarrow> fault + 'a \<times> MEOrderBook) \<Rightarrow> order_ptr \<Rightarrow> MEOrderBook \<Rightarrow> order_ptr \<Rightarrow> 'a \<Rightarrow>
    (fault + 'a) option"
where
  "order_loop body first b o_itr acc =
     (case rd_ord o_itr (\<lambda>x. x) b of
        Inl e \<Rightarrow> Some (Inl e)
      | Inr r \<Rightarrow>
          (case body (fst r) acc b of
             Inl e \<Rightarrow> Some (Inl e)
           | Inr r' \<Rightarrow>
               if o_next_order (fst r) = first then Some (Inr (fst r'))
               else order_loop body first b (o_next_order (fst r)) (fst r')))"

text \<open>A loop that only reads the book, as a computation on it.\<close>

definition looping :: "(MEOrderBook \<Rightarrow> (fault + 'a) option) \<Rightarrow> (MEOrderBook, 'a) prog" where
  "looping l b = (case l b of None \<Rightarrow> Inl Diverge | Some (Inl e) \<Rightarrow> Inl e | Some (Inr a) \<Rightarrow> Inr (a, b))"

definition count_order :: "MEOrder \<Rightarrow> Qty \<times> nat \<Rightarrow> (MEOrderBook, Qty \<times> nat) prog" where
  "count_order x acc = ret (fst acc + o_qty x, snd acc + 1)"

definition print_order :: "bool \<Rightarrow> MEOrder \<Rightarrow> string \<Rightarrow> (MEOrderBook, string) prog" where
  "print_order detailed x str =
     (if detailed then
        bnd (order_id_at (o_prev_order x)) (\<lambda>prev.
        bnd (order_id_at (o_next_order x)) (\<lambda>next.
        ret (str @ ''[oid:'' @ orderIdToString (o_market_order_id x) @ '' q:'' @ qtyToString (o_qty x)
          @ '' p:'' @ orderIdToString prev @ '' n:'' @ orderIdToString next @ ''] '')))
      else ret str)"

text \<open>The lambda \<open>printer\<close>: the text of a level and the last price.\<close>

definition printer :: "bool \<Rightarrow> level_ptr \<Rightarrow> Side \<Rightarrow> Price \<Rightarrow> bool \<Rightarrow> (MEOrderBook, string \<times> Price) prog" where
  "printer detailed itr side last_price sanity_check =
     bnd (rd_lvl itr (\<lambda>l. l)) (\<lambda>l.
     bnd (looping (\<lambda>b. order_loop count_order (l_first_me_order l) b (l_first_me_order l) (0, 0))) (\<lambda>(qty, num_orders).
     bnd (rd_lvl (l_prev_entry l) l_price) (\<lambda>prev.
     bnd (rd_lvl (l_next_entry l) l_price) (\<lambda>next.
     bnd (looping (\<lambda>b. order_loop (print_order detailed) (l_first_me_order l) b (l_first_me_order l) [])) (\<lambda>orders.
     sq (when_do (sanity_check \<and>
           (side = SELL \<and> sint last_price \<ge> sint (l_price l) \<or> side = BUY \<and> sint last_price \<le> sint (l_price l)))
          (bnd (MEOrdersAtPrice_toString itr) (\<lambda>_.
           FATAL ''Bids/Asks not sorted by ascending/descending prices last:'')))
    (ret ('' <px:'' @ pad_left 3 (priceToString (l_price l)) @ '' p:'' @ pad_left 3 (priceToString prev)
          @ '' n:'' @ pad_left 3 (priceToString next) @ ''> '' @ pad_right 3 (priceToString (l_price l))
          @ '' @ '' @ pad_right 5 (qtyToString qty) @ ''('' @ pad_right 4 (decimal num_orders) @ '')''
          @ orders @ newline,
        if sanity_check then l_price l else last_price)))))))"

text \<open>The loop over the levels of one side; \<open>label\<close> is \<open>ASKS L:\<close> or \<open>BIDS L:\<close>.\<close>

partial_function (option) side_loop ::
  "string \<Rightarrow> Side \<Rightarrow> bool \<Rightarrow> bool \<Rightarrow> level_ptr \<Rightarrow> MEOrderBook \<Rightarrow> level_ptr \<Rightarrow> nat \<Rightarrow> Price \<Rightarrow> string \<Rightarrow>
    (fault + string) option"
where
  "side_loop label side detailed validity_check best b itr count last_price ss =
     (if itr = None then Some (Inr ss)
      else
        (case rd_lvl itr l_next_entry b of
           Inl e \<Rightarrow> Some (Inl e)
         | Inr r \<Rightarrow>
             (case printer detailed itr side last_price validity_check b of
                Inl e \<Rightarrow> Some (Inl e)
              | Inr r' \<Rightarrow>
                  side_loop label side detailed validity_check best b
                    (if fst r = best then None else fst r) (count + 1) (snd (fst r'))
                    (ss @ label @ decimal count @ '' => '' @ fst (fst r')))))"

definition print_side :: "string \<Rightarrow> Side \<Rightarrow> bool \<Rightarrow> bool \<Rightarrow> Price \<Rightarrow> (MEOrderBook, string) prog" where
  "print_side label side detailed validity_check last_price =
     bnd (rd (best_at side)) (\<lambda>best.
     looping (\<lambda>b. side_loop label side detailed validity_check best b best 0 last_price []))"

definition Price_MIN :: Price where "Price_MIN = 2 ^ 63"
definition Price_MAX :: Price where "Price_MAX = 2 ^ 63 - 1"

definition MEOrderBook_toString :: "bool \<Rightarrow> bool \<Rightarrow> (MEOrderBook, string) prog" where
  "MEOrderBook_toString detailed validity_check =
     bnd (rd ob_ticker_id) (\<lambda>ticker_id.
     bnd (print_side ''ASKS L:'' SELL detailed validity_check Price_MIN) (\<lambda>asks.
     bnd (print_side ''BIDS L:'' BUY detailed validity_check Price_MAX) (\<lambda>bids.
     ret (''Ticker:'' @ tickerIdToString ticker_id @ newline @ asks
       @ newline @ ''                          X'' @ newline @ newline @ bids))))"

section \<open>The text of an abstract book\<close>

text \<open>An element of a ring with its two neighbours.\<close>

definition with_neighbours :: "'a list \<Rightarrow> ('a \<times> 'a \<times> 'a) list" where
  "with_neighbours xs = zip xs (zip (last xs # butlast xs) (rotate1 xs))"

definition order_text :: "resting \<times> resting \<times> resting \<Rightarrow> string" where
  "order_text = (\<lambda>(r, prev, next). ''[oid:'' @ orderIdToString (r_moid r) @ '' q:'' @ qtyToString (r_qty r)
     @ '' p:'' @ orderIdToString (r_moid prev) @ '' n:'' @ orderIdToString (r_moid next) @ ''] '')"

definition level_text :: "bool \<Rightarrow> level \<times> level \<times> level \<Rightarrow> string" where
  "level_text detailed = (\<lambda>((p, os), prev, next).
     '' <px:'' @ pad_left 3 (priceToString p) @ '' p:'' @ pad_left 3 (priceToString (fst prev))
     @ '' n:'' @ pad_left 3 (priceToString (fst next)) @ ''> '' @ pad_right 3 (priceToString p)
     @ '' @ '' @ pad_right 5 (qtyToString (sum_list (map r_qty os))) @ ''('' @ pad_right 4 (decimal (length os)) @ '')''
     @ (if detailed then concat (map order_text (with_neighbours os)) else []) @ newline)"

fun numbered :: "string \<Rightarrow> nat \<Rightarrow> string list \<Rightarrow> string" where
  "numbered label k [] = []"
| "numbered label k (t # ts) = label @ decimal k @ '' => '' @ t @ numbered label (k + 1) ts"

text \<open>
  Only the asks are printed, because \<open>bids_at_price_\<close> is never set. The check of the order of the
  prices fails on the lowest price there is, and an open ring is left through \<open>nullptr\<close>.
\<close>

definition spec_toString :: "bool \<Rightarrow> bool \<Rightarrow> TickerId \<Rightarrow> abook \<Rightarrow> fault + string" where
  "spec_toString detailed validity_check ticker_id A =
     (if validity_check \<and> ab_asks A \<noteq> [] \<and> fst (hd (ab_asks A)) = Price_MIN
      then Inl (Fatal ''Bids/Asks not sorted by ascending/descending prices last:'')
      else if ab_open A then Inl Null_deref
      else Inr (''Ticker:'' @ tickerIdToString ticker_id @ newline
        @ numbered ''ASKS L:'' 0 (map (level_text detailed) (with_neighbours (ab_asks A)))
        @ newline @ ''                          X'' @ newline @ newline))"

section \<open>Rings and their neighbours\<close>

lemma path_links: "path h p as q \<Longrightarrow> as \<noteq> [] \<Longrightarrow> map h as = map Some (tl as) @ [q]"
proof (induction as arbitrary: p)
  case (Cons a as)
  then show ?case by (cases as) auto
qed simp

lemma ring_nexts:
  assumes "ring nxt prv xs (Some (hd xs))"
  shows "map nxt xs = map Some (rotate1 xs)"
  using path_links [of nxt "Some (hd xs)" xs "Some (hd xs)"] assms by (simp add: ring_def rotate1_hd_tl)

lemma ring_prevs:
  assumes "ring nxt prv xs e"
  shows "map prv xs = map Some (last xs # butlast xs)"
proof -
  have "map prv (rev xs) = map Some (tl (rev xs)) @ [Some (last xs)]"
    using path_links [of prv "Some (last xs)" "rev xs" "Some (last xs)"] assms by (simp add: ring_def)
  then have "rev (map prv xs) = rev (Some (last xs) # map Some (butlast xs))"
    by (simp add: rev_map butlast_rev [symmetric]) (metis butlast_rev rev_map rev_rev_ident)
  then show ?thesis by (simp only: rev_is_rev_conv list.map)
qed

lemma map_Some_the: "map h xs = map Some ys \<Longrightarrow> map (\<lambda>i. the (h i)) xs = ys"
proof -
  assume "map h xs = map Some ys"
  then have "map the (map h xs) = map the (map Some ys)" by (rule arg_cong)
  then show ?thesis by (simp add: o_def)
qed

lemma map_Some_in: "map h xs = map Some ys \<Longrightarrow> x \<in> set xs \<Longrightarrow> \<exists>y \<in> set ys. h x = Some y"
  by (metis (no_types, lifting) image_iff image_set)

lemma ring_prev_in: "ring nxt prv xs e \<Longrightarrow> x \<in> set xs \<Longrightarrow> \<exists>p \<in> set xs. prv x = Some p"
  using map_Some_in [OF ring_prevs] ring_nonempty by (metis in_set_butlastD last_in_set set_ConsD)

lemma ring_next_in: "ring nxt prv xs (Some (hd xs)) \<Longrightarrow> x \<in> set xs \<Longrightarrow> \<exists>n \<in> set xs. nxt x = Some n"
  using map_Some_in [OF ring_nexts] by (metis set_rotate1)

lemma with_neighbours_map:
  assumes "ring nxt prv xs (Some (hd xs))"
  shows "with_neighbours (map v xs) = map (\<lambda>i. (v i, v (the (prv i)), v (the (nxt i)))) xs"
proof -
  have ne: "xs \<noteq> []" using assms by (simp add: ring_def)
  have "with_neighbours (map v xs) = zip (map v xs) (zip (map v (last xs # butlast xs)) (map v (rotate1 xs)))"
    using ne by (simp add: with_neighbours_def last_map map_butlast rotate1_map)
  also have "\<dots> = zip (map v xs) (zip (map (\<lambda>i. v (the (prv i))) xs) (map (\<lambda>i. v (the (nxt i))) xs))"
    unfolding map_Some_the [OF ring_nexts [OF assms], symmetric] map_Some_the [OF ring_prevs [OF assms], symmetric]
    by (simp add: o_def)
  also have "\<dots> = map (\<lambda>i. (v i, v (the (prv i)), v (the (nxt i)))) xs"
    by (induction xs) simp_all
  finally show ?thesis .
qed

section \<open>The loops\<close>

lemma looping_Inr: "l b = Some (Inr a) \<Longrightarrow> looping l b = Inr (a, b)"
  by (simp add: looping_def)

lemma looping_Inl: "l b = Some (Inl e) \<Longrightarrow> looping l b = Inl e"
  by (simp add: looping_def)

lemma order_loop_run:
  assumes "path (onext b) (Some (hd xs)) (as @ xs) (Some f)" "f \<notin> set (tl xs)" "xs \<noteq> []" "as = []"
    "\<And>x. x \<in> set xs \<Longrightarrow> x < ocap b" "\<And>x acc. x \<in> set xs \<Longrightarrow> body (od b x) acc b = Inr (g x acc, b)"
  shows "order_loop body (Some f) b (Some (hd xs)) acc = Some (Inr (fold g xs acc))"
  using assms
proof (induction xs arbitrary: acc)
  case (Cons x xs)
  note step = Cons.prems(5) [of x] Cons.prems(6) [of x]
  show ?case
  proof (cases xs)
    case Nil
    then show ?thesis using Cons.prems(1,4) step by (subst order_loop.simps) (simp add: rd_ord_run)
  next
    case (Cons y ys)
    then have "order_loop body (Some f) b (Some (hd xs)) (g x acc) = Some (Inr (fold g xs (g x acc)))"
      using Cons.prems by (intro Cons.IH) auto
    moreover have "onext b x = Some (hd xs)" "y \<noteq> f" using Cons Cons.prems(1,2,4) by auto
    ultimately show ?thesis using Cons step by (subst order_loop.simps) (simp add: rd_ord_run)
  qed
qed simp

lemma order_loop_ring:
  assumes "level_orders_ok b i xs" "set xs \<subseteq> {..<ocap b}" "\<And>x acc. x \<in> set xs \<Longrightarrow> body (od b x) acc b = Inr (g x acc, b)"
  shows "looping (\<lambda>b'. order_loop body (l_first_me_order (lv b i)) b' (l_first_me_order (lv b i)) acc) b =
    Inr (fold g xs acc, b)"
proof (rule looping_Inr)
  have ok: "xs \<noteq> []" "l_first_me_order (lv b i) = Some (hd xs)" "ring (onext b) (oprev b) xs (Some (hd xs))"
    using assms(1) by (simp_all add: level_orders_ok_def)
  have "hd xs \<notin> set (tl xs)" using ring_distinct [OF ok(3)] by (cases xs) auto
  then show "order_loop body (l_first_me_order (lv b i)) b (l_first_me_order (lv b i)) acc = Some (Inr (fold g xs acc))"
    unfolding ok(2) using ok assms(2,3) by (intro order_loop_run [of b xs "[]"]) (auto simp: ring_def)
qed

lemma fold_count: "fold (\<lambda>x (q, n). (q + f x, Suc n)) xs (q, n) = (q + sum_list (map f xs), n + length xs)"
  for q :: "'a::len word" and n :: nat
  by (induction xs arbitrary: q n) (simp_all add: add.assoc)

lemma fold_print: "fold (\<lambda>x s. s @ f x) xs s = s @ concat (map f xs)"
  by (induction xs arbitrary: s) simp_all

section \<open>One level\<close>

lemma order_id_at_run: "x < ocap b \<Longrightarrow> order_id_at (Some x) b = Inr (moid b x, b)"
  by (simp add: order_id_at_def rd_ord_run moid_def)

lemma level_price_at_run: "i < lcap b \<Longrightarrow> level_price_at (Some i) b = Inr (lprice b i, b)"
  by (simp add: level_price_at_def rd_lvl_run)

lemma print_order_run:
  assumes "oprev b x = Some p" "onext b x = Some n" "p < ocap b" "n < ocap b"
  shows "print_order detailed (od b x) acc b = Inr (acc @ (if detailed then order_text
    (rest_of (od b x), rest_of (od b p), rest_of (od b n)) else []), b)"
  using assms by (simp add: print_order_def bnd_def order_id_at_run order_text_def moid_def)

definition level_view :: "MEOrderBook \<Rightarrow> (nat \<Rightarrow> nat list) \<Rightarrow> nat \<Rightarrow> level" where
  "level_view b Q i = (lprice b i, map (\<lambda>x. rest_of (od b x)) (Q i))"

lemma print_orders_run:
  assumes "level_orders_ok b i xs" "set xs \<subseteq> {..<ocap b}"
  shows "looping (\<lambda>b'. order_loop count_order (l_first_me_order (lv b i)) b' (l_first_me_order (lv b i)) (0, 0)) b =
      Inr ((sum_list (map (\<lambda>x. o_qty (od b x)) xs), length xs), b)"
    "looping (\<lambda>b'. order_loop (print_order detailed) (l_first_me_order (lv b i)) b' (l_first_me_order (lv b i)) []) b =
      Inr (if detailed then concat (map order_text (with_neighbours (map (\<lambda>x. rest_of (od b x)) xs))) else [], b)"
proof -
  have ring: "ring (onext b) (oprev b) xs (Some (hd xs))" using assms(1) by (simp add: level_orders_ok_def)
  show "looping (\<lambda>b'. order_loop count_order (l_first_me_order (lv b i)) b' (l_first_me_order (lv b i)) (0, 0)) b =
      Inr ((sum_list (map (\<lambda>x. o_qty (od b x)) xs), length xs), b)"
    using order_loop_ring [OF assms, of count_order "\<lambda>x (q, n). (q + o_qty (od b x), Suc n)" "(0, 0)"]
      fold_count [of "\<lambda>x. o_qty (od b x)" xs 0 0]
    by (simp add: count_order_def case_prod_unfold)
  let ?t = "\<lambda>x. if detailed then order_text (rest_of (od b x), rest_of (od b (the (oprev b x))), rest_of (od b (the (onext b x)))) else []"
  have body: "print_order detailed (od b x) acc b = Inr (acc @ ?t x, b)" if "x \<in> set xs" for x acc
    using print_order_run ring_prev_in [OF ring that] ring_next_in [OF ring that] assms(2) by fastforce
  have "concat (map ?t xs) =
      (if detailed then concat (map order_text (with_neighbours (map (\<lambda>x. rest_of (od b x)) xs))) else [])"
    by (simp add: with_neighbours_map [OF ring] o_def)
  then show "looping (\<lambda>b'. order_loop (print_order detailed) (l_first_me_order (lv b i)) b' (l_first_me_order (lv b i)) []) b =
      Inr (if detailed then concat (map order_text (with_neighbours (map (\<lambda>x. rest_of (od b x)) xs))) else [], b)"
    using order_loop_ring [OF assms, of "print_order detailed" "\<lambda>x s. s @ ?t x" "[]"] body by (simp add: fold_print)
qed

lemma printer_run:
  assumes "book_inv b L B Q op" "i \<in> set (L @ B)" "lprev b i = Some p" "p < lcap b"
  shows "lnext b i = None \<Longrightarrow> printer detailed (Some i) SELL lp check b = Inl Null_deref"
    and "lnext b i = Some n \<Longrightarrow> n < lcap b \<Longrightarrow> \<not> (check \<and> sint lp \<ge> sint (lprice b i)) \<Longrightarrow>
      printer detailed (Some i) SELL lp check b =
        Inr ((level_text detailed (level_view b Q i, level_view b Q p, level_view b Q n),
              if check then lprice b i else lp), b)"
    and "lnext b i = Some n \<Longrightarrow> n < lcap b \<Longrightarrow> check \<and> sint lp \<ge> sint (lprice b i) \<Longrightarrow>
      printer detailed (Some i) SELL lp check b =
        Inl (Fatal ''Bids/Asks not sorted by ascending/descending prices last:'')"
proof -
  note lev = book_inv_level [OF assms(1,2)]
  have "orders_ok b (L @ B) Q" using assms(1) by (simp add: book_inv_def)
  from orders_live(2) [OF this assms(2)] have caps: "set (Q i) \<subseteq> {..<ocap b}" by auto
  note loops = print_orders_run [OF lev(3) caps]
  note run = printer_def bnd_def sq_def rd_lvl_run [OF lev(1)] rd_lvl_run loops
  show "printer detailed (Some i) SELL lp check b = Inl Null_deref" if "lnext b i = None"
    using that assms(3,4) by (simp add: run)
  show "printer detailed (Some i) SELL lp check b =
      Inr ((level_text detailed (level_view b Q i, level_view b Q p, level_view b Q n),
            if check then lprice b i else lp), b)"
    if "lnext b i = Some n" "n < lcap b" "\<not> (check \<and> sint lp \<ge> sint (lprice b i))"
    using that assms(3,4) by (simp add: run when_do_def level_text_def level_view_def o_def)
  have order: "\<exists>s. MEOrder_toString (Some x) b = Inr (s, b)" if x: "x \<in> set (Q i)" for x
  proof -
    have "ring (onext b) (oprev b) (Q i) (Some (hd (Q i)))" using lev(3) by (simp add: level_orders_ok_def)
    then obtain p' n' where "oprev b x = Some p'" "onext b x = Some n'" "p' < ocap b" "n' < ocap b"
      using ring_prev_in [OF _ x] ring_next_in [OF _ x] caps by (metis lessThan_iff subsetD)
    moreover have "x < ocap b" using x caps by auto
    ultimately show ?thesis by (simp add: MEOrder_toString_def bnd_def rd_ord_run order_id_at_run)
  qed
  have "Q i \<noteq> []" "l_first_me_order (lv b i) = Some (hd (Q i))" using lev(3) by (simp_all add: level_orders_ok_def)
  then obtain s where "MEOrder_toString (l_first_me_order (lv b i)) b = Inr (s, b)" "l_first_me_order (lv b i) \<noteq> None"
    using order [of "hd (Q i)"] by auto
  then show "printer detailed (Some i) SELL lp check b =
      Inl (Fatal ''Bids/Asks not sorted by ascending/descending prices last:'')"
    if "lnext b i = Some n" "n < lcap b" "check \<and> sint lp \<ge> sint (lprice b i)"
    using that assms(3,4)
    by (simp add: run when_do_def MEOrdersAtPrice_toString_def level_price_at_run)
qed

section \<open>The book\<close>

definition ask_text :: "MEOrderBook \<Rightarrow> (nat \<Rightarrow> nat list) \<Rightarrow> bool \<Rightarrow> nat \<Rightarrow> string" where
  "ask_text b Q detailed i =
     level_text detailed (level_view b Q i, level_view b Q (the (lprev b i)), level_view b Q (the (lnext b i)))"

lemma side_loop_run:
  assumes "book_inv b L B Q op" "L = cs @ ks" "ks \<noteq> []" "check \<Longrightarrow> sint lp < sint (lprice b (hd ks))"
  shows "side_loop label SELL detailed check (Some (hd L)) b (Some (hd ks)) k lp ss =
    Some (if op then Inl Null_deref else Inr (ss @ numbered label k (map (ask_text b Q detailed) ks)))"
  using assms(2-)
proof (induction ks arbitrary: cs k lp ss)
  case (Cons i ks)
  have links: "links_ok b L B op" using assms(1) by (simp add: book_inv_def)
  then have ring: "ring (lnext b) (lprev b) (cs @ i # ks) (ask_end L op)" and sorted: "sorted_wrt (below b) L"
    and caps: "\<forall>j \<in> set L. j < lcap b" and dist: "distinct L"
    using Cons.prems(1) by (auto simp: links_ok_def)
  have i: "i \<in> set (L @ B)" "i < lcap b" using Cons.prems(1) caps by auto
  obtain p where p: "lprev b i = Some p" "p < lcap b"
    using ring_prev_in [OF ring, of i] caps Cons.prems(1) by auto
  note print = printer_run [OF assms(1) i(1) p, where detailed = detailed and lp = lp and check = check]
  have nx: "lnext b i = (case ks of [] \<Rightarrow> ask_end L op | j # _ \<Rightarrow> Some j)" by (rule ring_next [OF ring])
  have ok: "\<not> (check \<and> sint lp \<ge> sint (lprice b i))" using Cons.prems(3) by auto
  show ?case
  proof (cases ks)
    case Nil
    show ?thesis
    proof (cases op)
      case True
      then show ?thesis
        using nx Nil print(1) i(2) by (subst side_loop.simps) (simp add: ask_end_def rd_lvl_run)
    next
      case False
      then have n: "lnext b i = Some (hd L)" "hd L < lcap b"
        using nx Nil caps Cons.prems(1) by (auto simp: ask_end_def hd_append)
      show ?thesis
        using print(2) [OF n ok] False n i(2) Nil p
        by (subst side_loop.simps) (simp add: rd_lvl_run side_loop.simps [of _ _ _ _ _ _ None] ask_text_def)
    qed
  next
    case (Cons j js)
    then have n: "lnext b i = Some j" "j < lcap b" "j \<noteq> hd L"
      using nx caps Cons.prems(1) dist by (auto simp: hd_append split: if_splits)
    have "sint (lprice b i) < sint (lprice b j)"
      using sorted Cons.prems(1) Cons by (auto simp: sorted_wrt_append below_def)
    then have "side_loop label SELL detailed check (Some (hd L)) b (Some (hd ks)) (Suc k) (if check then lprice b i else lp)
        (ss @ label @ decimal k @ '' => '' @ ask_text b Q detailed i) =
      Some (if op then Inl Null_deref else Inr ((ss @ label @ decimal k @ '' => '' @ ask_text b Q detailed i) @
        numbered label (Suc k) (map (ask_text b Q detailed) ks)))"
      using Cons Cons.prems(1) by (intro Cons.IH [of "cs @ [i]"]) auto
    then show ?thesis
      using print(2) [OF n(1,2) ok] n i(2) p Cons
      by (subst side_loop.simps) (simp add: rd_lvl_run ask_text_def)
  qed
qed simp

lemma side_loop_low:
  assumes "book_inv b L B Q op" "L \<noteq> []" "lprice b (hd L) = Price_MIN"
  shows "side_loop label SELL detailed True (Some (hd L)) b (Some (hd L)) k Price_MIN ss =
    Some (Inl (Fatal ''Bids/Asks not sorted by ascending/descending prices last:''))"
proof -
  obtain i ks where L: "L = [] @ i # ks" using assms(2) by (cases L) auto
  have links: "links_ok b L B op" using assms(1) by (simp add: book_inv_def)
  then have ring: "ring (lnext b) (lprev b) ([] @ i # ks) (ask_end L op)" and caps: "\<forall>j \<in> set L. j < lcap b"
    and op: "op \<Longrightarrow> ks \<noteq> []" using L by (auto simp: links_ok_def)
  have i: "i \<in> set (L @ B)" "i < lcap b" using L caps by auto
  obtain p where p: "lprev b i = Some p" "p < lcap b" using ring_prev_in [OF ring, of i] caps L by auto
  have "lnext b i = (case ks of [] \<Rightarrow> ask_end L op | j # _ \<Rightarrow> Some j)" by (rule ring_next [OF ring])
  then obtain n where "lnext b i = Some n" "n < lcap b"
    using op caps L by (cases op; cases ks) (auto simp: ask_end_def)
  then show ?thesis
    using printer_run(3) [OF assms(1) i(1) p, of n True Price_MIN detailed] assms(3) L i(2)
    by (subst side_loop.simps) (simp add: rd_lvl_run)
qed

lemma ask_texts:
  assumes "book_inv b L B Q False" "L \<noteq> []"
  shows "map (ask_text b Q detailed) L = map (level_text detailed) (with_neighbours (view b Q L))"
proof -
  have "ring (lnext b) (lprev b) L (Some (hd L))"
    using assms by (simp add: book_inv_def links_ok_def ask_end_def)
  moreover have "view b Q L = map (level_view b Q) L" by (simp add: view_def level_view_def)
  ultimately show ?thesis
    using with_neighbours_map [of "lnext b" "lprev b" L "level_view b Q"] by (simp add: ask_text_def)
qed

lemma toString_run:
  assumes "book_rel b A"
  shows "MEOrderBook_toString detailed validity_check b =
    map_sum id (\<lambda>s. (s, b)) (spec_toString detailed validity_check (ob_ticker_id b) A)"
proof -
  obtain L B Q where rep: "book_rep b A L B Q" using assms by (auto simp: book_rel_def)
  then have inv: "book_inv b L B Q (ab_open A)" and asks: "ab_asks A = view b Q L" by (simp_all add: book_rep_def)
  then have best: "ob_bids_at_price b = None" "ob_asks_at_price b = (if L = [] then None else Some (hd L))"
    and op: "ab_open A \<Longrightarrow> 2 \<le> length L" by (simp_all add: book_inv_def links_ok_def)
  have bids: "print_side l BUY detailed validity_check p b = Inr ([], b)" for l p
    by (simp add: print_side_def bnd_def best_at_def best looping_def side_loop.simps)
  have none: "print_side l SELL detailed validity_check p b = Inr ([], b)" if "L = []" for l p
    using that by (simp add: print_side_def bnd_def best_at_def best looping_def side_loop.simps)
  have some: "print_side l SELL detailed validity_check p b =
      looping (\<lambda>b'. side_loop l SELL detailed validity_check (Some (hd L)) b' (Some (hd L)) 0 p []) b" if "L \<noteq> []" for l p
    using that by (simp add: print_side_def bnd_def best_at_def best)
  have low: "fst (hd (ab_asks A)) = lprice b (hd L)" if "L \<noteq> []" using that asks by (simp add: view_def hd_map)
  show ?thesis
  proof (cases "L = []")
    case True
    then have "ab_asks A = []" "\<not> ab_open A" using asks op by auto
    then show ?thesis
      using none [OF True] bids by (simp add: MEOrderBook_toString_def bnd_def spec_toString_def with_neighbours_def)
  next
    case False
    note print = some [OF False, of "''ASKS L:''" Price_MIN]
    show ?thesis
    proof (cases "validity_check \<and> lprice b (hd L) = Price_MIN")
      case True
      then have "print_side ''ASKS L:'' SELL detailed validity_check Price_MIN b =
          Inl (Fatal ''Bids/Asks not sorted by ascending/descending prices last:'')"
        using print side_loop_low [OF inv False, of "''ASKS L:''" detailed 0 "[]"] by (simp add: looping_def)
      then show ?thesis
        using True low [OF False] False asks by (simp add: MEOrderBook_toString_def bnd_def spec_toString_def)
    next
      case other: False
      have "sint Price_MIN \<le> sint (lprice b (hd L))"
        using sint_greater_eq [of "lprice b (hd L)"] by (simp add: Price_MIN_def)
      then have "validity_check \<Longrightarrow> sint Price_MIN < sint (lprice b (hd L))"
        using other by (metis order_le_less signed_word_eqI)
      then have "print_side ''ASKS L:'' SELL detailed validity_check Price_MIN b =
          (if ab_open A then Inl Null_deref else Inr (numbered ''ASKS L:'' 0 (map (ask_text b Q detailed) L), b))"
        using print side_loop_run [OF inv, of "[]" L validity_check Price_MIN "''ASKS L:''" detailed 0 "[]"] False
        by (simp add: looping_def)
      then show ?thesis
        using other low [OF False] False asks bids ask_texts [of b L B Q detailed] inv
        by (cases "ab_open A") (simp_all add: MEOrderBook_toString_def bnd_def spec_toString_def)
    qed
  qed
qed

section \<open>Properties\<close>

text \<open>
  C30. The rendering of a book is that of the book it stands for: the levels in ascending price order with
  their neighbours' prices, total quantity and number of orders, and the orders in time order; no bid
  is ever shown. With the check of the prices it ends the process for a lowest ask of the smallest
  price, and on an open ask ring it dereferences \<open>nullptr\<close>. It does not change the book.
\<close>

theorem toString_refines:
  assumes "book_rel b A"
  shows "MEOrderBook_toString detailed validity_check b =
    map_sum id (\<lambda>s. (s, b)) (spec_toString detailed validity_check (ob_ticker_id b) A)"
  by (rule toString_run [OF assms])

theorem toString_refines_witness:
  "\<exists>c. add 1 7 0 SELL 100 10 (fresh_ctx 0 8 8) = Inr ((), c) \<and>
     MEOrderBook_toString True True (cx_book c) = Inr (''Ticker:'' @ tickerIdToString (ob_ticker_id (cx_book c)) @ newline
       @ ''ASKS L:0 =>  <px:100 p:100 n:100> 100 @ 10   (1   )[oid:1 q:10 p:1 n:1] '' @ newline
       @ newline @ ''                          X'' @ newline @ newline, cx_book c)"
proof -
  obtain c where c: "add 1 7 0 SELL 100 10 (fresh_ctx 0 8 8) = Inr ((), c)" "book_rel (cx_book c) (one_ask 1 7 100 10)"
    using one_ask_run [of 8 8 10 1 7 0 100] by (auto simp: ids_in_range_def limit_defs)
  have three: "replicate 3 x = [x, x, x]" for x :: char by (simp add: numeral_3_eq_3)
  show ?thesis
    using c(1) toString_refines [OF c(2), of True True]
    by (simp add: spec_toString_def one_ask_def Price_MIN_def with_neighbours_def level_text_def order_text_def
        pad_left_def pad_right_def priceToString_def qtyToString_def orderIdToString_def Price_INVALID_def Qty_INVALID_def
        OrderId_INVALID_def to_string_signed_def to_string_unsigned_def to_string_int_def decimal.simps digit_char_def char_of_def bit_0 three)
qed

end
