(* ===== verification/Engine_Shutdown.thy ===== *)
theory Engine_Shutdown
  imports Book_Printing
begin

text \<open>
  The destructors of the book and of the matching engine (\<open>me_order_book.cpp\<close>, \<open>matching_engine.cpp\<close>):
  every book logs its rendering on the way out, so the engine can only be taken down when no ask ring
  is open.
\<close>

section \<open>Destructors\<close>

text \<open>\<open>~MEOrderBook\<close>; the result is the text it logs. The prices are checked, the orders are not listed.\<close>

definition MEOrderBook_delete :: "(MEOrderBook, string) prog" where
  "MEOrderBook_delete =
     bnd (MEOrderBook_toString False True) (\<lambda>text.
     sq (wr (\<lambda>b. b\<lparr>ob_bids_at_price := None, ob_asks_at_price := None,
           ob_cid_oid_to_order := (ob_cid_oid_to_order b)\<lparr>aget :=
             (\<lambda>c. arr_fill (alen (aget (ob_cid_oid_to_order b) c)) None)\<rparr>\<rparr>))
    (ret text))"

text \<open>\<open>~MatchingEngine\<close>, without the pause and the pointers it clears; the result are the texts of the books.\<close>

fun delete_books :: "nat list \<Rightarrow> (MatchingEngine, string list) prog" where
  "delete_books [] = ret []"
| "delete_books (i # is) =
     bnd (on_ticker i (on_book MEOrderBook_delete)) (\<lambda>text.
     bnd (delete_books is) (\<lambda>texts. ret (text # texts)))"

definition MatchingEngine_delete :: "(MatchingEngine, string list) prog" where
  "MatchingEngine_delete =
     sq (wr (\<lambda>e. e\<lparr>me_run := False\<rparr>))
    (bnd (rd (\<lambda>e. alen (me_ticker_order_book e))) (\<lambda>n. delete_books [0..<n]))"

section \<open>When they return\<close>

definition printable :: "abook \<Rightarrow> bool" where
  "printable A \<longleftrightarrow> \<not> ab_open A \<and> (ab_asks A \<noteq> [] \<longrightarrow> fst (hd (ab_asks A)) \<noteq> Price_MIN)"

lemma MEOrderBook_delete_run:
  assumes "book_rel b A"
  shows "(\<exists>text b'. MEOrderBook_delete b = Inr (text, b')) \<longleftrightarrow> printable A"
  using toString_run [OF assms, of False True]
  by (auto simp: MEOrderBook_delete_def bnd_def sq_def spec_toString_def printable_def)

lemma delete_book_run:
  assumes "book_rel (aget (me_ticker_order_book e) i) A"
  shows "(\<exists>text e'. on_ticker i (on_book MEOrderBook_delete) e = Inr (text, e')) \<longleftrightarrow> printable A"
  using MEOrderBook_delete_run [OF assms] by (auto simp: on_ticker_def on_book_def)

lemma delete_book_others:
  "on_ticker i (on_book MEOrderBook_delete) e = Inr (text, e') \<Longrightarrow> j \<noteq> i \<Longrightarrow>
    aget (me_ticker_order_book e') j = aget (me_ticker_order_book e) j"
  by (auto simp: on_ticker_def put_ctx_def)

lemma delete_books_run:
  assumes "distinct ks" "\<And>i. i \<in> set ks \<Longrightarrow> book_rel (aget (me_ticker_order_book e) i) (As i)"
  shows "(\<exists>texts e'. delete_books ks e = Inr (texts, e')) \<longleftrightarrow> (\<forall>i \<in> set ks. printable (As i))"
  using assms
proof (induction ks arbitrary: e)
  case (Cons i ks)
  have rest: "(\<exists>texts e''. delete_books ks e' = Inr (texts, e'')) \<longleftrightarrow> (\<forall>i \<in> set ks. printable (As i))"
    if "on_ticker i (on_book MEOrderBook_delete) e = Inr (str, e')" for str e'
    using Cons.prems delete_book_others [OF that] by (intro Cons.IH) (auto; metis)+
  have "(\<exists>texts e'. delete_books (i # ks) e = Inr (texts, e')) \<longleftrightarrow>
      (\<exists>text e'. on_ticker i (on_book MEOrderBook_delete) e = Inr (text, e') \<and> (\<exists>texts e''. delete_books ks e' = Inr (texts, e'')))"
    by auto
  also have "\<dots> \<longleftrightarrow> (\<exists>text e'. on_ticker i (on_book MEOrderBook_delete) e = Inr (text, e')) \<and> (\<forall>i \<in> set ks. printable (As i))"
    using rest by blast
  also have "\<dots> \<longleftrightarrow> (\<forall>j \<in> set (i # ks). printable (As j))"
    using delete_book_run [of e i "As i"] Cons.prems(2) [of i] by simp
  finally show ?case .
qed simp

text \<open>The texts of the books, when none faults.\<close>

definition book_text :: "TickerId \<Rightarrow> abook \<Rightarrow> string" where
  "book_text ticker_id A = (case spec_toString False True ticker_id A of Inl _ \<Rightarrow> [] | Inr s \<Rightarrow> s)"

lemma delete_books_texts:
  assumes "distinct ks" "\<And>i. i \<in> set ks \<Longrightarrow> book_rel (aget (me_ticker_order_book e) i) (As i) \<and> printable (As i)"
  shows "\<exists>e'. delete_books ks e =
    Inr (map (\<lambda>i. book_text (ob_ticker_id (aget (me_ticker_order_book e) i)) (As i)) ks, e') \<and> me_run e' = me_run e"
  using assms
proof (induction ks arbitrary: e)
  case (Cons i ks)
  let ?b = "aget (me_ticker_order_book e) i"
  have "book_rel ?b (As i)" "printable (As i)" using Cons.prems(2) by simp_all
  then have "\<exists>b'. MEOrderBook_delete ?b = Inr (book_text (ob_ticker_id ?b) (As i), b')"
    using toString_run [of ?b "As i" False True]
    by (auto simp: MEOrderBook_delete_def bnd_def sq_def spec_toString_def printable_def book_text_def)
  then obtain e1 where e1: "on_ticker i (on_book MEOrderBook_delete) e = Inr (book_text (ob_ticker_id ?b) (As i), e1)"
    "me_run e1 = me_run e"
    by (auto simp: on_ticker_def on_book_def put_ctx_def)
  have same: "aget (me_ticker_order_book e1) j = aget (me_ticker_order_book e) j" if "j \<in> set ks" for j
    using delete_book_others [OF e1(1), of j] Cons.prems(1) that by auto
  then have "\<exists>e'. delete_books ks e1 =
      Inr (map (\<lambda>i. book_text (ob_ticker_id (aget (me_ticker_order_book e1) i)) (As i)) ks, e') \<and> me_run e' = me_run e1"
    using Cons.prems by (intro Cons.IH) auto
  moreover have "map (\<lambda>i. book_text (ob_ticker_id (aget (me_ticker_order_book e1) i)) (As i)) ks =
      map (\<lambda>i. book_text (ob_ticker_id (aget (me_ticker_order_book e) i)) (As i)) ks"
    using same by (intro map_cong) auto
  ultimately show ?case using e1 by (auto simp: bnd_def)
qed simp

section \<open>Properties\<close>

text \<open>
  C31. The engine can be destroyed, by the signal handler of the program say, exactly when no book has an
  open ask ring and none offers at the smallest price: otherwise the rendering that a book logs in its
  destructor ends the process. So after two asks at rising prices the exchange no longer shuts down.
\<close>

theorem engine_shutdown:
  assumes "engine_rel e As"
  shows "(\<exists>texts e'. MatchingEngine_delete e = Inr (texts, e')) \<longleftrightarrow>
    (\<forall>i < ME_MAX_TICKERS. \<not> ab_open (As i) \<and> (ab_asks (As i) \<noteq> [] \<longrightarrow> fst (hd (ab_asks (As i))) \<noteq> Price_MIN))"
proof -
  have "(\<exists>texts e'. delete_books [0..<ME_MAX_TICKERS] (e\<lparr>me_run := False\<rparr>) = Inr (texts, e')) \<longleftrightarrow>
      (\<forall>i \<in> set [0..<ME_MAX_TICKERS]. printable (As i))"
    using assms by (intro delete_books_run) (simp_all add: engine_rel_def)
  then show ?thesis
    using assms by (simp add: MatchingEngine_delete_def printable_def bnd_def sq_def engine_rel_def Ball_def)
qed

theorem engine_shutdown_witness:
  "\<exists>c. sq (add 1 1 0 SELL 100 10) (add 1 2 0 SELL 101 10) (ctx_of 0 (engine_with [])) = Inr ((), c) \<and>
     (\<exists>r. MatchingEngine_delete (engine_with []) = Inr r) \<and> \<not> (\<exists>r. MatchingEngine_delete (put_ctx 0 c (engine_with [])) = Inr r)"
proof -
  note e = engine_with_ok [of "[]"]
  have "ctx_of 0 (engine_with []) = fresh_ctx 0 8 8"
    by (simp add: ctx_of_def engine_with_def MatchingEngine_new_def fresh_ctx_def)
  then obtain c where c: "sq (add 1 1 0 SELL 100 10) (add 1 2 0 SELL 101 10) (ctx_of 0 (engine_with [])) = Inr ((), c)"
    "wf_queues c" "book_rel (cx_book c) (two_asks 1 1 100 10 1 2 101 10)"
    using two_asks_run [of 8 8 10 10 1 1 1 2 100 101 0]
    by (auto simp: ids_in_range_def limit_defs priceToIndex_def)
  have "engine_rel (put_ctx 0 c (engine_with [])) ((\<lambda>_. empty_book)(0 := two_asks 1 1 100 10 1 2 101 10))"
    using c(2,3) e(1) by (auto simp: engine_rel_def put_ctx_def wf_queues_def)
  from engine_shutdown [OF this] have "\<not> (\<exists>texts e'. MatchingEngine_delete (put_ctx 0 c (engine_with [])) = Inr (texts, e'))"
    by (auto simp: two_asks_def limit_defs)
  moreover have "\<exists>texts e'. MatchingEngine_delete (engine_with []) = Inr (texts, e')"
    using engine_shutdown [OF e(1)] by (simp add: empty_book_def)
  ultimately show ?thesis using c(1) by auto
qed

end
