(* ===== verification/Thread_Utils.thy ===== *)
theory Thread_Utils
  imports Logging
begin

text \<open>
  \<open>thread_utils.h\<close> and the functions of \<open>time_utils.h\<close>. The start of a thread is a step relation: the
  new thread runs a lambda that reads what it has captured by reference, and the store it reads from
  loses these objects as the creator returns and goes on.
\<close>

section \<open>setThreadCore\<close>

text \<open>\<open>setaffinity\<close> is \<open>pthread_setaffinity_np\<close> of the running thread on a set of cores.\<close>

definition setThreadCore :: "(int set \<Rightarrow> int) \<Rightarrow> int \<Rightarrow> bool" where
  "setThreadCore setaffinity core_id =
     (let cpu_set = {}; cpu_set = insert core_id cpu_set in setaffinity cpu_set = 0)"

section \<open>createAndStartThread\<close>

text \<open>
  What the lambda of the new thread has captured by reference: the parameter \<open>core_id\<close>, and through the
  reference parameters the objects that \<open>name\<close>, \<open>func\<close> and \<open>args\<close> are bound to. \<open>None\<close>: the lifetime
  of the object has ended. \<open>'a\<close> are the values of arguments, \<open>'b\<close> what the function gives.
\<close>

record ('a, 'b) captured =
  cp_core_id :: "int option"
  cp_name :: "string option"
  cp_func :: "('a list \<Rightarrow> 'b) option"
  cp_args :: "'a option list"

definition captures :: "int \<Rightarrow> string \<Rightarrow> ('a list \<Rightarrow> 'b) \<Rightarrow> 'a list \<Rightarrow> ('a, 'b) captured" where
  "captures core_id name func args =
     \<lparr>cp_core_id = Some core_id, cp_name = Some name, cp_func = Some func, cp_args = map Some args\<rparr>"

text \<open>The parameter ends with the call, the temporaries with the statement the call is in.\<close>

definition end_of_call :: "('a, 'b) captured \<Rightarrow> ('a, 'b) captured" where
  "end_of_call m = m\<lparr>cp_core_id := None\<rparr>"

definition end_of_statement :: "('a, 'b) captured \<Rightarrow> ('a, 'b) captured" where
  "end_of_statement m = m\<lparr>cp_name := None, cp_func := None, cp_args := map (\<lambda>_. None) (cp_args m)\<rparr>"

text \<open>
  The points of the lambda: its check, \<open>setThreadCore\<close>, the name and the core id of either message, and
  the call. \<open>Dangling\<close> is what a read of an object past its lifetime gives.
\<close>

datatype 'b lambda_pc = At_check | At_pin | At_failed_name | At_failed_core | At_set_name | At_set_core | At_call
  | Called 'b | Exited | Dangling

fun running :: "'b lambda_pc \<Rightarrow> bool" where
  "running (Called v) = False"
| "running Exited = False"
| "running Dangling = False"
| "running pc = True"

datatype cerr = Cerr_text string | Cerr_int int

definition reading :: "'v option \<Rightarrow> cerr list \<Rightarrow> ('v \<Rightarrow> 'b lambda_pc \<times> cerr list) \<Rightarrow> 'b lambda_pc \<times> cerr list" where
  "reading x out k = (case x of None \<Rightarrow> (Dangling, out) | Some v \<Rightarrow> k v)"

text \<open>One read of a captured object and what follows it; \<open>cerr\<close> is kept without the id of the thread.\<close>

fun lambda_step :: "(int set \<Rightarrow> int) \<Rightarrow> ('a, 'b) captured \<Rightarrow> 'b lambda_pc \<Rightarrow> cerr list \<Rightarrow> 'b lambda_pc \<times> cerr list" where
  "lambda_step setaffinity m At_check out =
     reading (cp_core_id m) out (\<lambda>core_id. (if core_id \<ge> 0 then At_pin else At_set_name, out))"
| "lambda_step setaffinity m At_pin out =
     reading (cp_core_id m) out (\<lambda>core_id. (if \<not> setThreadCore setaffinity core_id then At_failed_name else At_set_name, out))"
| "lambda_step setaffinity m At_failed_name out =
     reading (cp_name m) out (\<lambda>name.
       (At_failed_core, out @ [Cerr_text ''Failed to set core affinity for '', Cerr_text name, Cerr_text '' to '']))"
| "lambda_step setaffinity m At_failed_core out =
     reading (cp_core_id m) out (\<lambda>core_id. (Exited, out @ [Cerr_int core_id]))"
| "lambda_step setaffinity m At_set_name out =
     reading (cp_name m) out (\<lambda>name.
       (At_set_core, out @ [Cerr_text ''Set core affinity for '', Cerr_text name, Cerr_text '' to '']))"
| "lambda_step setaffinity m At_set_core out =
     reading (cp_core_id m) out (\<lambda>core_id. (At_call, out @ [Cerr_int core_id]))"
| "lambda_step setaffinity m At_call out =
     reading (cp_func m) out (\<lambda>func. reading (those (cp_args m)) out (\<lambda>args. (Called (func args), out)))"
| "lambda_step setaffinity m pc out = (pc, out)"

datatype creator = Cr_sleeping | Cr_returned | Cr_continued

record ('a, 'b) starting =
  st_creator :: creator
  st_captured :: "('a, 'b) captured"
  st_thread :: "'b lambda_pc"
  st_cerr :: "cerr list"

definition starting_init :: "int \<Rightarrow> string \<Rightarrow> ('a list \<Rightarrow> 'b) \<Rightarrow> 'a list \<Rightarrow> ('a, 'b) starting" where
  "starting_init core_id name func args =
     \<lparr>st_creator = Cr_sleeping, st_captured = captures core_id name func args, st_thread = At_check, st_cerr = []\<rparr>"

text \<open>
  The creator sleeps, returns, and goes on behind the statement of the call, the thread takes its steps
  meanwhile, in any order; \<open>exit\<close> in the thread ends them both.
\<close>

inductive start_step :: "(int set \<Rightarrow> int) \<Rightarrow> ('a, 'b) starting \<Rightarrow> ('a, 'b) starting \<Rightarrow> bool"
  for setaffinity where
  pause_over: "st_creator s = Cr_sleeping \<Longrightarrow> st_thread s \<noteq> Exited \<Longrightarrow>
    start_step setaffinity s (s\<lparr>st_creator := Cr_returned, st_captured := end_of_call (st_captured s)\<rparr>)"
| goes_on: "st_creator s = Cr_returned \<Longrightarrow> st_thread s \<noteq> Exited \<Longrightarrow>
    start_step setaffinity s (s\<lparr>st_creator := Cr_continued, st_captured := end_of_statement (st_captured s)\<rparr>)"
| thread: "running (st_thread s) \<Longrightarrow>
    lambda_step setaffinity (st_captured s) (st_thread s) (st_cerr s) = (pc, out) \<Longrightarrow>
    start_step setaffinity s (s\<lparr>st_thread := pc, st_cerr := out\<rparr>)"

abbreviation start_steps :: "(int set \<Rightarrow> int) \<Rightarrow> ('a, 'b) starting \<Rightarrow> ('a, 'b) starting \<Rightarrow> bool" where
  "start_steps setaffinity \<equiv> (start_step setaffinity)\<^sup>*\<^sup>*"

text \<open>What the store holds, as far as the creator has come.\<close>

definition captured_at :: "creator \<Rightarrow> ('a, 'b) captured \<Rightarrow> ('a, 'b) captured" where
  "captured_at cr m = (case cr of Cr_sleeping \<Rightarrow> m | Cr_returned \<Rightarrow> end_of_call m
     | Cr_continued \<Rightarrow> end_of_statement (end_of_call m))"

definition set_text :: "string \<Rightarrow> cerr list" where
  "set_text name = [Cerr_text ''Set core affinity for '', Cerr_text name, Cerr_text '' to '']"

definition failed_text :: "string \<Rightarrow> cerr list" where
  "failed_text name = [Cerr_text ''Failed to set core affinity for '', Cerr_text name, Cerr_text '' to '']"

definition pinned :: "(int set \<Rightarrow> int) \<Rightarrow> int \<Rightarrow> bool" where
  "pinned setaffinity core_id \<longleftrightarrow> core_id < 0 \<or> setaffinity {core_id} = 0"

fun thread_ok :: "(int set \<Rightarrow> int) \<Rightarrow> int \<Rightarrow> string \<Rightarrow> 'b \<Rightarrow> 'b lambda_pc \<Rightarrow> cerr list \<Rightarrow> bool" where
  "thread_ok sa c n v At_check out = (out = [])"
| "thread_ok sa c n v At_pin out = (out = [] \<and> c \<ge> 0)"
| "thread_ok sa c n v At_failed_name out = (out = [] \<and> \<not> pinned sa c)"
| "thread_ok sa c n v At_failed_core out = (out = failed_text n \<and> \<not> pinned sa c)"
| "thread_ok sa c n v At_set_name out = (out = [] \<and> pinned sa c)"
| "thread_ok sa c n v At_set_core out = (out = set_text n \<and> pinned sa c)"
| "thread_ok sa c n v At_call out = (out = set_text n @ [Cerr_int c] \<and> pinned sa c)"
| "thread_ok sa c n v (Called u) out = (u = v \<and> out = set_text n @ [Cerr_int c] \<and> pinned sa c)"
| "thread_ok sa c n v Exited out = (out = failed_text n @ [Cerr_int c] \<and> \<not> pinned sa c)"
| "thread_ok sa c n v Dangling out = True"

lemma those_Some [simp]: "those (map Some xs) = Some xs"
  by (induction xs) simp_all

lemma captures_sel [simp]:
  "cp_core_id (captures c n f xs) = Some c" "cp_name (captures c n f xs) = Some n"
  "cp_func (captures c n f xs) = Some f" "cp_args (captures c n f xs) = map Some xs"
  by (simp_all add: captures_def)

lemma end_of_sel [simp]:
  "cp_core_id (end_of_call m) = None" "cp_name (end_of_call m) = cp_name m"
  "cp_func (end_of_call m) = cp_func m" "cp_args (end_of_call m) = cp_args m"
  "cp_core_id (end_of_statement m) = cp_core_id m" "cp_name (end_of_statement m) = None" "cp_func (end_of_statement m) = None"
  by (simp_all add: end_of_call_def end_of_statement_def)

lemma captured_at_sel:
  "cp_core_id (captured_at cr (captures c n f xs)) = (if cr = Cr_sleeping then Some c else None)"
  "cp_name (captured_at cr (captures c n f xs)) = (if cr = Cr_continued then None else Some n)"
  "cp_func (captured_at cr (captures c n f xs)) = (if cr = Cr_continued then None else Some f)"
  "cr \<noteq> Cr_continued \<Longrightarrow> cp_args (captured_at cr (captures c n f xs)) = map Some xs"
  by (cases cr; simp add: captured_at_def)+

text \<open>A step of the thread on what is left of the store: right, or \<open>Dangling\<close>, and never that in the pause.\<close>

lemma lambda_step_ok:
  assumes "thread_ok sa c n (f xs) pc out" "lambda_step sa (captured_at cr (captures c n f xs)) pc out = (pc', out')"
  shows "thread_ok sa c n (f xs) pc' out'" "cr = Cr_sleeping \<Longrightarrow> pc' = Dangling \<Longrightarrow> pc = Dangling"
    "cr = Cr_continued \<Longrightarrow> running pc \<Longrightarrow> pc' = Dangling"
  using assms by (cases pc; auto simp: reading_def captured_at_sel pinned_def set_text_def failed_text_def setThreadCore_def
    split: if_splits option.splits)+

definition start_ok :: "(int set \<Rightarrow> int) \<Rightarrow> int \<Rightarrow> string \<Rightarrow> ('a list \<Rightarrow> 'b) \<Rightarrow> 'a list \<Rightarrow> ('a, 'b) starting \<Rightarrow> bool" where
  "start_ok sa c n f xs s \<longleftrightarrow> st_captured s = captured_at (st_creator s) (captures c n f xs) \<and>
     thread_ok sa c n (f xs) (st_thread s) (st_cerr s) \<and> (st_creator s = Cr_sleeping \<longrightarrow> st_thread s \<noteq> Dangling)"

lemma start_steps_ok: "start_steps sa (starting_init c n f xs) s \<Longrightarrow> start_ok sa c n f xs s"
proof (induction rule: rtranclp_induct)
  case base
  then show ?case by (simp add: start_ok_def starting_init_def captured_at_def)
next
  case (step s s')
  from step.hyps(2) step.IH show ?case
    by cases (auto simp: start_ok_def captured_at_def dest: lambda_step_ok lambda_step_ok(2) [where cr = Cr_sleeping, unfolded captured_at_def, simplified])
qed

text \<open>Left alone in the pause, the thread comes to its end; once the creator has gone on, it is lost.\<close>

lemma thread_steps:
  assumes "running pc" "lambda_step sa m pc out = (pc', out')"
    "start_steps sa \<lparr>st_creator = cr, st_captured = m, st_thread = pc', st_cerr = out'\<rparr> t"
  shows "start_steps sa \<lparr>st_creator = cr, st_captured = m, st_thread = pc, st_cerr = out\<rparr> t"
proof (rule converse_rtranclp_into_rtranclp [OF _ assms(3)])
  show "start_step sa \<lparr>st_creator = cr, st_captured = m, st_thread = pc, st_cerr = out\<rparr>
      \<lparr>st_creator = cr, st_captured = m, st_thread = pc', st_cerr = out'\<rparr>"
    using start_step.thread [of "\<lparr>st_creator = cr, st_captured = m, st_thread = pc, st_cerr = out\<rparr>" sa pc' out'] assms(1,2)
    by simp
qed

fun pc_rank :: "'b lambda_pc \<Rightarrow> nat" where
  "pc_rank At_check = 5"
| "pc_rank At_pin = 4"
| "pc_rank At_failed_name = 2"
| "pc_rank At_failed_core = 1"
| "pc_rank At_set_name = 3"
| "pc_rank At_set_core = 2"
| "pc_rank At_call = 1"
| "pc_rank pc = 0"

lemma lambda_step_rank: "running pc \<Longrightarrow> lambda_step sa m pc out = (pc', out') \<Longrightarrow> pc_rank pc' < pc_rank pc"
  by (cases pc) (auto simp: reading_def split: option.splits if_splits)

lemma thread_ends:
  "\<exists>pc' out'. start_steps sa \<lparr>st_creator = cr, st_captured = m, st_thread = pc, st_cerr = out\<rparr>
     \<lparr>st_creator = cr, st_captured = m, st_thread = pc', st_cerr = out'\<rparr> \<and> \<not> running pc'"
proof (induction "pc_rank pc" arbitrary: pc out rule: less_induct)
  case less
  show ?case
  proof (cases "running pc")
    case False
    then show ?thesis by blast
  next
    case True
    obtain pc1 out1 where one: "lambda_step sa m pc out = (pc1, out1)" by fastforce
    from less [OF lambda_step_rank [OF True one]] show ?thesis using thread_steps [OF True one] by blast
  qed
qed

corollary thread_ends_in:
  "\<exists>s'. start_steps sa s s' \<and> st_creator s' = st_creator s \<and> \<not> running (st_thread s')"
proof (cases s)
  case (fields cr m pc out)
  with thread_ends [of sa cr m pc out] show ?thesis by auto
qed

lemma creator_goes_on:
  assumes "st_thread s \<noteq> Exited"
  shows "\<exists>s'. start_steps sa s s' \<and> st_creator s' = Cr_continued \<and> st_thread s' = st_thread s"
proof (cases "st_creator s")
  case Cr_continued
  then show ?thesis by blast
next
  case Cr_returned
  from start_step.goes_on [OF this assms, of sa] show ?thesis
    by (intro exI [of _ "s\<lparr>st_creator := Cr_continued, st_captured := end_of_statement (st_captured s)\<rparr>"]) auto
next
  case Cr_sleeping
  let ?s1 = "s\<lparr>st_creator := Cr_returned, st_captured := end_of_call (st_captured s)\<rparr>"
  have "start_step sa s ?s1" using Cr_sleeping assms by (rule start_step.pause_over)
  moreover have "start_step sa ?s1 (?s1\<lparr>st_creator := Cr_continued, st_captured := end_of_statement (st_captured ?s1)\<rparr>)"
    by (rule start_step.goes_on) (simp_all add: assms)
  ultimately show ?thesis
    by (intro exI [of _ "?s1\<lparr>st_creator := Cr_continued, st_captured := end_of_statement (st_captured ?s1)\<rparr>"]) auto
qed

section \<open>The time\<close>

text \<open>\<open>now\<close> is what the system clock shows, in nanoseconds since the epoch.\<close>

definition getCurrentNanos :: "64 word \<Rightarrow> 64 word" where
  "getCurrentNanos now = now"

text \<open>\<open>ctime\<close> is the text it returned, \<open>None\<close> for a null pointer; its last character is overwritten.\<close>

definition getCurrentTimeStr :: "string option \<Rightarrow> (string, string) prog" where
  "getCurrentTimeStr ctime =
     (case ctime of
        None \<Rightarrow> fail Null_deref
      | Some t \<Rightarrow>
          sq (wr (\<lambda>_. t))
         (sq (wr (\<lambda>s. if s \<noteq> [] then s[length s - 1 := CHR 0x00] else s))
         (rd (\<lambda>s. s))))"

text \<open>The NUL in place of the newline ends the time where \<open>log\<close> copies it, and nowhere else.\<close>

lemma time_string:
  assumes "CHR 0x00 \<notin> set t"
  shows "getCurrentTimeStr (Some (t @ [CHR 0x0A])) s = Inr (t @ [CHR 0x00], t @ [CHR 0x00])"
    "arg_elems (Str (t @ [CHR 0x00])) = map Log_CHAR t"
  using assms by (auto simp: getCurrentTimeStr_def bnd_def sq_def takeWhile_append)

section \<open>Properties\<close>

text \<open>
  C40. Whether a thread starts well depends on time. While the creator is in its pause, no read of the
  new thread fails, and left alone it calls the function with its arguments or, when it cannot be
  pinned, ends the process; if it has called, in whatever order, it was with the right function and
  arguments and pinned where a core was asked for. But as long as it has done neither, the creator can
  go on, and then the thread has lost: its next step, whichever it is, reads an object whose lifetime
  has ended, for \<open>createAndStartThread\<close> captures by reference and waits for a second only, not for the
  thread.
\<close>

theorem thread_start_race:
  assumes "start_steps setaffinity (starting_init core_id name func args) s"
  shows "(st_thread s = Called v \<longrightarrow> v = func args \<and> (core_id < 0 \<or> setaffinity {core_id} = 0)) \<and>
    (st_thread s = Exited \<longrightarrow> 0 \<le> core_id \<and> setaffinity {core_id} \<noteq> 0) \<and>
    (st_creator s = Cr_sleeping \<longrightarrow> st_thread s \<noteq> Dangling \<and>
      (\<exists>s'. start_steps setaffinity s s' \<and> st_thread s' \<in> {Called (func args), Exited})) \<and>
    (running (st_thread s) \<longrightarrow> (\<exists>s'. start_steps setaffinity s s' \<and> st_thread s' = st_thread s \<and> st_creator s' = Cr_continued)) \<and>
    (running (st_thread s) \<and> st_creator s = Cr_continued \<longrightarrow>
      (\<exists>s'. start_step setaffinity s s') \<and> (\<forall>s'. start_step setaffinity s s' \<longrightarrow> st_thread s' = Dangling))"
proof -
  have ok: "start_ok setaffinity core_id name func args s" using start_steps_ok [OF assms] .
  then have "st_thread s = Called v \<longrightarrow> v = func args \<and> (core_id < 0 \<or> setaffinity {core_id} = 0)"
    "st_thread s = Exited \<longrightarrow> 0 \<le> core_id \<and> setaffinity {core_id} \<noteq> 0"
    by (auto simp: start_ok_def pinned_def)
  moreover have "st_thread s \<noteq> Dangling \<and> (\<exists>s'. start_steps setaffinity s s' \<and> st_thread s' \<in> {Called (func args), Exited})"
    if pause: "st_creator s = Cr_sleeping"
  proof -
    obtain s' where s': "start_steps setaffinity s s'" "st_creator s' = Cr_sleeping" "\<not> running (st_thread s')"
      using thread_ends_in [of setaffinity s] pause by auto
    have "start_ok setaffinity core_id name func args s'" using start_steps_ok [OF rtranclp_trans [OF assms s'(1)]] .
    with s'(2,3) have "st_thread s' \<in> {Called (func args), Exited}"
      by (cases "st_thread s'") (auto simp: start_ok_def)
    with s'(1) ok pause show ?thesis by (auto simp: start_ok_def)
  qed
  moreover have "\<exists>s'. start_steps setaffinity s s' \<and> st_thread s' = st_thread s \<and> st_creator s' = Cr_continued"
    if "running (st_thread s)"
    using creator_goes_on [of s setaffinity] that by (cases "st_thread s") auto
  moreover have "(\<exists>s'. start_step setaffinity s s') \<and> (\<forall>s'. start_step setaffinity s s' \<longrightarrow> st_thread s' = Dangling)"
    if run: "running (st_thread s) \<and> st_creator s = Cr_continued"
  proof (intro conjI allI impI)
    show "\<exists>s'. start_step setaffinity s s'"
      using run by (metis start_step.thread surj_pair)
    show "st_thread s' = Dangling" if "start_step setaffinity s s'" for s'
      using that
    proof cases
      case (thread pc out)
      from lambda_step_ok(3) [of setaffinity core_id name func args "st_thread s" "st_cerr s" Cr_continued pc out] thread ok run
      show ?thesis by (simp add: start_ok_def)
    qed (use run in simp_all)
  qed
  ultimately show ?thesis by blast
qed

theorem thread_start_race_witness:
  "\<exists>s. start_steps (\<lambda>_. 0) (starting_init 1 ''dummyFunction2'' rev [20 :: int, 51]) s \<and> st_creator s = Cr_sleeping \<and>
     st_thread s = At_pin \<and> (\<exists>s'. start_steps (\<lambda>_. 0) s s' \<and> st_thread s' \<in> {Called [51, 20], Exited}) \<and>
     (\<exists>s'. start_steps (\<lambda>_. 0) s s' \<and> st_thread s' = At_pin \<and> st_creator s' = Cr_continued)"
proof -
  let ?s0 = "starting_init 1 ''dummyFunction2'' rev [20 :: int, 51]"
  let ?s1 = "?s0\<lparr>st_thread := At_pin, st_cerr := []\<rparr>"
  have "start_step (\<lambda>_. 0) ?s0 ?s1"
    by (rule start_step.thread) (simp_all add: starting_init_def reading_def)
  then have reach: "start_steps (\<lambda>_. 0) ?s0 ?s1" by blast
  show ?thesis
    using thread_start_race [OF reach] reach by (intro exI [of _ ?s1]) (simp add: starting_init_def)
qed

end
