(* ===== verification/Program.thy ===== *)
theory Program
  imports Engine_Shutdown Thread_Utils
begin

text \<open>
  \<open>main.cpp\<close>: the program creates a logger, three queues and the matching engine, starts it and sleeps;
  on an interrupt it deletes the logger and the engine. No order server and no publisher are created, so no request
  ever arrives. \<open>consumeFunction\<close>, a test of the queue that the program no longer calls, publishes
  slots instead of releasing them; \<open>dummyFunction\<close> is the body of its test threads.
\<close>

section \<open>main\<close>

text \<open>
  All three queues have \<open>ME_MAX_CLIENT_UPDATES\<close> slots. The arguments say whether the log file was
  opened and the threads of the logger and the engine were started.
\<close>

definition exchange_queues :: MatchingEngine where
  "exchange_queues = MatchingEngine_new (LFQueue_new ME_MAX_CLIENT_UPDATES MEClientRequest_default)
     (LFQueue_new ME_MAX_CLIENT_UPDATES MEClientResponse_default) (LFQueue_new ME_MAX_CLIENT_UPDATES MEMarketUpdate_default)"

definition exchange_main :: "bool \<Rightarrow> bool \<Rightarrow> bool \<Rightarrow> (MatchingEngine, unit) prog" where
  "exchange_main is_open log_thread engine_thread =
     bnd (lift_res (Logger_new is_open log_thread)) (\<lambda>logger.
     MatchingEngine_start engine_thread)"

text \<open>
  The two global pointers. The handler of \<open>SIGINT\<close> waits, deletes the logger and then the engine, waits
  again and exits; the results are the file of the logger and the texts that the destructor of the engine
  prints. The destructor of the logger waits for its thread to write out the queue, in \<open>Logger_Shutdown\<close>
  step by step; here the thread has done so.
\<close>

record globals =
  gl_logger :: "Logger option"
  gl_matching_engine :: "MatchingEngine option"

definition delete_logger :: "(32 word \<Rightarrow> string) \<Rightarrow> (64 word \<Rightarrow> string) \<Rightarrow> (globals, string) prog" where
  "delete_logger sf sd g =
     (case gl_logger g of
        None \<Rightarrow> Inr ([], g)
      | Some lg \<Rightarrow> map_sum id (\<lambda>(_, lg'). (lg_file lg', g\<lparr>gl_logger := None\<rparr>))
          (sq (flush_pending sf sd) (wr (\<lambda>lg. lg\<lparr>lg_running := False\<rparr>)) lg))"

definition delete_engine :: "(globals, string list) prog" where
  "delete_engine g =
     (case gl_matching_engine g of
        None \<Rightarrow> Inr ([], g)
      | Some e \<Rightarrow> map_sum id (\<lambda>(texts, _). (texts, g\<lparr>gl_matching_engine := None\<rparr>)) (MatchingEngine_delete e))"

definition signal_handler :: "(32 word \<Rightarrow> string) \<Rightarrow> (64 word \<Rightarrow> string) \<Rightarrow> (globals, string \<times> string list) prog" where
  "signal_handler sf sd = bnd (delete_logger sf sd) (\<lambda>file. bnd delete_engine (\<lambda>texts. ret (file, texts)))"

section \<open>The loop of main\<close>

text \<open>
  Each round logs a line and sleeps; \<open>ctimes\<close> is what \<open>ctime\<close> returns in the rounds, and the loop is cut
  after as many. Line 230 is where the call of \<open>log\<close> begins.
\<close>

definition sleeping_format :: string where
  "sleeping_format = ''%:% %() % Sleeping for a few milliseconds ...'' @ newline"

fun main_loop :: "string \<Rightarrow> string option list \<Rightarrow> (Logger, unit) prog" where
  "main_loop file [] = ret ()"
| "main_loop file (ctime # ctimes) =
     bnd (lift_res (map_sum id fst (getCurrentTimeStr ctime []))) (\<lambda>time.
     sq (log sleeping_format [Str file, Elem (Log_INTEGER 230), Str ''main'', Str time])
    (main_loop file ctimes))"

definition sleeping_line :: "string \<Rightarrow> string \<Rightarrow> string" where
  "sleeping_line file time = file @ '':230 main() '' @ time @ '' Sleeping for a few milliseconds ...'' @ newline"

definition sleeping_elems :: "string \<Rightarrow> string \<Rightarrow> LogElement list" where
  "sleeping_elems file time =
     fill_holes (pieces sleeping_format) [Str file, Elem (Log_INTEGER 230), Str ''main'', Str (time @ [CHR 0x00])]"

lemma sleeping_elems_text:
  assumes "CHR 0x00 \<notin> set file" "CHR 0x00 \<notin> set time"
  shows "concat (map (render sf sd) (sleeping_elems file time)) = sleeping_line file time"
proof -
  have 1: "takeWhile (\<lambda>c. c \<noteq> CHR 0x00) (time @ [CHR 0x00]) = time" "takeWhile (\<lambda>c. c \<noteq> CHR 0x00) file = file"
    using assms by (auto simp: takeWhile_append takeWhile_eq_all_conv)
  have 2: "to_string_signed (230 :: 32 word) = ''230''" by code_simp
  have 3: "concat (map (render sf sd) (map Log_CHAR cs)) = cs" for cs by (induction cs) auto
  have 4: "pieces sleeping_format = Hole # Copy (CHR '':'') # Hole # Copy (CHR '' '') # Hole # map Copy ''() '' @ Hole #
      map Copy ('' Sleeping for a few milliseconds ...'' @ newline)" by code_simp
  have 5: "fill_holes (map Copy cs @ ps) as = map Log_CHAR cs @ fill_holes ps as" for cs ps as by (induction cs) auto
  have 6: "fill_holes (map Copy cs) as = map Log_CHAR cs" for cs as using 5 [of cs "[]" as] by simp
  show ?thesis
    unfolding sleeping_elems_def 4
    by (simp only: fill_holes.simps 5 6 arg_elems.simps 1 map_append concat_append 3)
      (simp add: 2 3 [unfolded map_map] sleeping_line_def)
qed

lemma main_loop_run:
  assumes "q_wf (lg_queue lg)" "\<forall>t \<in> set ts. CHR 0x00 \<notin> set t"
  shows "main_loop file (map (\<lambda>t. Some (t @ newline)) ts) lg = Inr ((), push_all (concat (map (sleeping_elems file) ts)) lg)"
  using assms
proof (induction ts arbitrary: lg)
  case (Cons t ts)
  have holes: "holes sleeping_format = 4" by code_simp
  have time: "getCurrentTimeStr (Some (t @ newline)) [] = Inr (t @ [CHR 0x00], t @ [CHR 0x00])"
    using time_string(1) [of t "[]"] Cons.prems(2) by simp
  have "log sleeping_format [Str file, Elem (Log_INTEGER 230), Str ''main'', Str (t @ [CHR 0x00])] lg =
      Inr ((), push_all (sleeping_elems file t) lg)"
    using log_run [OF Cons.prems(1), of sleeping_format] holes by (simp add: sleeping_elems_def)
  then show ?case using Cons.IH [of "push_all (sleeping_elems file t) lg"] Cons.prems time
    by (simp add: bnd_def sq_def del: push_all_push_all)
qed simp

text \<open>Each round leaves one line in the file, with the file name and the time of the round.\<close>

lemma main_log_lines:
  assumes "q_ok (lg_queue lg)" "q_list (lg_queue lg) = []" "CHR 0x00 \<notin> set file" "\<forall>t \<in> set ts. CHR 0x00 \<notin> set t"
    "length (concat (map (sleeping_elems file) ts)) \<le> q_room (lg_queue lg)"
  shows "\<exists>q'. sq (main_loop file (map (\<lambda>t. Some (t @ newline)) ts)) (flush_pending sf sd) lg =
    Inr ((), lg\<lparr>lg_file := lg_file lg @ concat (map (sleeping_line file) ts), lg_queue := q'\<rparr>) \<and> q_ok q' \<and> q_list q' = []"
proof -
  let ?xs = "concat (map (sleeping_elems file) ts)"
  have run: "main_loop file (map (\<lambda>t. Some (t @ newline)) ts) lg = Inr ((), push_all ?xs lg)"
    by (rule main_loop_run [OF q_ok_wf [OF assms(1)] assms(4)])
  have "concat (map (render sf sd) ?xs) = concat (map (sleeping_line file) ts)"
    using assms(3,4) by (induction ts) (simp_all add: sleeping_elems_text)
  then show ?thesis
    using run flush_pending_run [of "push_all ?xs lg" sf sd] q_push_batch [OF assms(1,5)] assms(2)
    by (simp add: sq_def bnd_def)
qed

section \<open>dummyFunction\<close>

text \<open>What it prints; \<open>None\<close> when the product of the two \<open>int\<close>s overflows, which is undefined.\<close>

definition dummyFunction :: "32 word \<Rightarrow> 32 word \<Rightarrow> bool \<Rightarrow> string list option" where
  "dummyFunction a b sleep =
     (if sint (a * b) \<noteq> sint a * sint b then None
      else Some ([''Dummy function('' @ to_string_signed a @ '','' @ to_string_signed b @ '')'',
          ''Dummy output = '' @ to_string_signed (a * b)]
        @ (if sleep then [''dummyFunction sleeping ...''] else [])
        @ [''dummyFunction done. '']))"

section \<open>consumeFunction\<close>

record MyStruct =
  d_0 :: "32 word"
  d_1 :: "32 word"
  d_2 :: "32 word"

text \<open>One round of the loop: the element read, or a fault. \<open>consumeFunction\<close> may run forever.\<close>

definition consume_round :: "(MyStruct LFQueue, MyStruct) prog" where
  "consume_round =
     bnd getNextToRead (\<lambda>d.
     sq updateWriteIndex
    (case d of None \<Rightarrow> fail Null_deref | Some i \<Rightarrow> read_slot i))"

partial_function (option) consumeFunction ::
  "MyStruct LFQueue \<Rightarrow> MyStruct list \<Rightarrow> (fault + MyStruct list \<times> MyStruct LFQueue) option"
where
  "consumeFunction lfq out =
     (if q_num_elements lfq = 0 then Some (Inr (out, lfq))
      else
        (case consume_round lfq of
           Inl e \<Rightarrow> Some (Inl e)
         | Inr r \<Rightarrow> consumeFunction (snd r) (out @ [fst r])))"

text \<open>How far the write index is behind the read index.\<close>

definition gap :: "'a LFQueue \<Rightarrow> nat" where
  "gap q = (q_next_read_index q + q_cap q - q_next_write_index q) mod q_cap q"

lemma gap_cases:
  assumes "q_wf q"
  shows "gap q = (if q_next_write_index q \<le> q_next_read_index q then q_next_read_index q - q_next_write_index q
    else q_next_read_index q + q_cap q - q_next_write_index q)"
proof (cases "q_next_write_index q \<le> q_next_read_index q")
  case True
  then have eq: "q_next_read_index q + q_cap q - q_next_write_index q = (q_next_read_index q - q_next_write_index q) + q_cap q"
    by simp
  have "q_next_read_index q - q_next_write_index q < q_cap q" using assms by (simp add: q_wf_def less_imp_diff_less)
  then have "(q_next_read_index q - q_next_write_index q + q_cap q) mod q_cap q = q_next_read_index q - q_next_write_index q"
    by (simp only: mod_add_self2 mod_less)
  then show ?thesis using True unfolding gap_def eq by (simp only: if_True)
next
  case False
  then have "q_next_read_index q + q_cap q - q_next_write_index q < q_cap q"
    using assms unfolding q_wf_def by linarith
  then show ?thesis using False by (simp add: gap_def)
qed

lemma gap_0: "q_wf q \<Longrightarrow> gap q = 0 \<longleftrightarrow> q_next_read_index q = q_next_write_index q"
  by (auto simp: gap_cases q_wf_def)

definition bump :: "'a LFQueue \<Rightarrow> 'a LFQueue" where
  "bump q = q\<lparr>q_next_write_index := (q_next_write_index q + 1) mod q_cap q, q_num_elements := q_num_elements q + 1\<rparr>"

lemma bump_ok: "q_wf q \<Longrightarrow> q_wf (bump q)"
  by (auto simp: bump_def q_wf_def q_cap_def)

lemma gap_bump:
  assumes "q_wf q" "gap q \<noteq> 0"
  shows "gap (bump q) < gap q"
  using assms(2) gap_0 [OF assms(1)] assms(1)
  by (cases "q_next_write_index q + 1 = q_cap q")
    (auto simp: gap_cases [OF assms(1)] gap_cases [OF bump_ok [OF assms(1)]], auto simp: bump_def q_wf_def q_cap_def)

lemma consume_round_run:
  assumes "q_wf lfq"
  shows "consume_round lfq = (if gap lfq = 0 then Inl Null_deref
    else Inr (aget (q_store lfq) (q_next_read_index lfq), bump lfq))"
  using assms gap_0 [OF assms]
  by (auto simp: consume_round_def bnd_def sq_def getNextToRead_def updateWriteIndex_def next_index_def read_slot_def
      bump_def q_wf_def q_cap_def)

lemma consume_faults:
  assumes "q_wf lfq" "q_num_elements lfq \<noteq> 0"
  shows "consumeFunction lfq out = Some (Inl Null_deref)"
  using assms
proof (induction "gap lfq" arbitrary: lfq out rule: less_induct)
  case less
  show ?case
  proof (cases "gap lfq = 0")
    case True
    then show ?thesis using less.prems by (subst consumeFunction.simps) (simp add: consume_round_run)
  next
    case False
    then have "consumeFunction (bump lfq) out' = Some (Inl Null_deref)" for out'
      using less.hyps [OF gap_bump [OF less.prems(1) False] bump_ok [OF less.prems(1)]] by (simp add: bump_def)
    then show ?thesis using less.prems False by (subst consumeFunction.simps) (simp add: consume_round_run)
  qed
qed

section \<open>Properties\<close>

text \<open>
  \<open>consumeFunction\<close> never empties a queue: it publishes the slots it should release, so it reads the
  first element again and again until the write index has come around to the read index, and then
  dereferences the null pointer \<open>getNextToRead\<close> returns. On an empty queue it does nothing.
\<close>

theorem consumeFunction_faults:
  assumes "q_ok lfq"
  shows "consumeFunction lfq [] = (if q_list lfq = [] then Some (Inr ([], lfq)) else Some (Inl Null_deref))"
proof (cases "q_num_elements lfq = 0")
  case True
  then show ?thesis by (subst consumeFunction.simps) (simp add: q_list_def)
next
  case False
  then show ?thesis using consume_faults [OF q_ok_wf [OF assms]] by (simp add: q_list_def)
qed

theorem consumeFunction_faults_witness:
  "consumeFunction (q_push \<lparr>d_0 = 1, d_1 = 10, d_2 = 100\<rparr> (LFQueue_new 20 \<lparr>d_0 = 0, d_1 = 0, d_2 = 0\<rparr>)) [] =
     Some (Inl Null_deref)"
proof -
  let ?q = "LFQueue_new 20 \<lparr>d_0 = 0, d_1 = 0, d_2 = 0\<rparr>" and ?x = "\<lparr>d_0 = 1, d_1 = 10, d_2 = 100\<rparr>"
  have "q_ok ?q" "q_list ?q = []" "0 < q_room ?q" by (simp_all add: LFQueue_new_ok)
  then have "q_ok (q_push ?x ?q)" "q_list (q_push ?x ?q) = [?x]" using q_push_batch [of ?q "[?x]"] by auto
  then show ?thesis using consumeFunction_faults [of "q_push ?x ?q"] by simp
qed

text \<open>
  The program as it is started trades nothing: the engine runs for any number of rounds without a
  request, a response or an update, and an interrupt writes out what was logged and takes the engine down,
  every book with an empty rendering.
\<close>

theorem main_idles:
  "\<exists>e. sq (exchange_main True True True) (run_rounds n) exchange_queues = Inr ((), e) \<and>
     q_list (me_outgoing_ogw_responses e) = [] \<and> q_list (me_outgoing_md_updates e) = [] \<and>
     (q_ok (lg_queue lg) \<longrightarrow>
       signal_handler sf sd \<lparr>gl_logger = Some lg, gl_matching_engine = Some e\<rparr> =
         Inr ((lg_file lg @ concat (map (render sf sd) (q_list (lg_queue lg))),
           map (\<lambda>i. ''Ticker:'' @ tickerIdToString (of_nat i) @ newline
             @ newline @ ''                          X'' @ newline @ newline) [0..<ME_MAX_TICKERS]),
           \<lparr>gl_logger = None, gl_matching_engine = None\<rparr>))"
proof -
  have q: "q_ok (LFQueue_new ME_MAX_CLIENT_UPDATES d)" for d :: 'a by (rule LFQueue_new_ok) (simp add: limit_defs)
  let ?e = "exchange_queues\<lparr>me_run := True\<rparr>"
  have main: "exchange_main True True True exchange_queues = Inr ((), ?e)"
    by (simp add: exchange_main_def Logger_new_def MatchingEngine_start_def bnd_def sq_def)
  have "run_rounds n ?e = Inr ((), ?e)"
    by (rule run_rounds_idle) (simp_all add: exchange_queues_def MatchingEngine_new_def q LFQueue_new_ok)
  moreover have "engine_rel ?e (\<lambda>_. empty_book)"
    using MatchingEngine_new_rel [OF q_ok_wf [OF q] q_ok_wf [OF q]] by (simp add: exchange_queues_def engine_rel_def)
  then have "\<exists>e'. delete_books [0..<ME_MAX_TICKERS] (?e\<lparr>me_run := False\<rparr>) = Inr (map (\<lambda>i. book_text
      (ob_ticker_id (aget (me_ticker_order_book (?e\<lparr>me_run := False\<rparr>)) i)) empty_book) [0..<ME_MAX_TICKERS], e') \<and>
      me_run e' = me_run (?e\<lparr>me_run := False\<rparr>)"
    by (intro delete_books_texts) (simp_all add: engine_rel_def printable_def empty_book_def)
  then obtain e' where e': "MatchingEngine_delete ?e = Inr (map (\<lambda>i. ''Ticker:'' @ tickerIdToString (of_nat i) @ newline
       @ newline @ ''                          X'' @ newline @ newline) [0..<ME_MAX_TICKERS], e')"
    by (auto simp: MatchingEngine_delete_def bnd_def sq_def exchange_queues_def MatchingEngine_new_def
        MEOrderBook_new_def book_text_def spec_toString_def empty_book_def with_neighbours_def)
  have "signal_handler sf sd \<lparr>gl_logger = Some lg, gl_matching_engine = Some ?e\<rparr> =
      Inr ((lg_file lg @ concat (map (render sf sd) (q_list (lg_queue lg))),
        map (\<lambda>i. ''Ticker:'' @ tickerIdToString (of_nat i) @ newline
             @ newline @ ''                          X'' @ newline @ newline) [0..<ME_MAX_TICKERS]),
        \<lparr>gl_logger = None, gl_matching_engine = None\<rparr>)" if "q_ok (lg_queue lg)"
    using flush_pending_run [OF that, of sf sd] e'
    by (auto simp: signal_handler_def delete_logger_def delete_engine_def bnd_def sq_def)
  ultimately show ?thesis
    using main by (intro exI [of _ ?e]) (simp add: exchange_queues_def MatchingEngine_new_def q LFQueue_new_ok)
qed

end
