(* ===== verification/Socket_Utils.thy ===== *)
theory Socket_Utils
  imports Types
begin

unbundle bit_operations_syntax

text \<open>
  \<open>low-latency-components/socket_utils.h\<close>: socket options and \<open>CreateSocket\<close>. The state is the list of
  the system calls made so far; what the kernel answers is the parameter \<open>ans\<close>, a function of that
  list and the call. The theorems say which calls a successful \<open>CreateSocket\<close> has made, and which
  failures it does not see.
\<close>

section \<open>System calls\<close>

record addrinfo =
  ai_family :: int
  ai_socktype :: int
  ai_protocol :: int
  ai_addr :: nat

text \<open>The two kinds of addresses passed to \<open>bind\<close>: any interface with a port, or one of \<open>getaddrinfo\<close>.\<close>

datatype sockaddr = Any_address "16 word" | Ai_addr nat

datatype sockopt =
    TCP_NODELAY | SO_TIMESTAMP | SO_REUSEADDR
  | IP_MULTICAST_TTL "32 word" | IP_TTL "32 word" | IP_ADD_MEMBERSHIP string

datatype syscall =
    Sys_getaddrinfo string string bool bool
  | Sys_socket int int int
  | Sys_getfl int
  | Sys_setfl int "32 word"
  | Sys_setsockopt int sockopt
  | Sys_connect int nat
  | Sys_bind int sockaddr
  | Sys_listen int nat

type_synonym answers = "syscall list \<Rightarrow> syscall \<Rightarrow> 32 word"

definition sys :: "answers \<Rightarrow> syscall \<Rightarrow> (syscall list, 32 word) prog" where
  "sys ans c = bnd (rd (\<lambda>cs. ans cs c)) (\<lambda>r. sq (wr (\<lambda>cs. cs @ [c])) (ret r))"

section \<open>Options\<close>

definition O_NONBLOCK :: "32 word" where "O_NONBLOCK = 0x800"
definition EWOULDBLOCK :: int where "EWOULDBLOCK = 11"
definition EINPROGRESS :: int where "EINPROGRESS = 115"
definition MaxTCPServerBacklog :: nat where "MaxTCPServerBacklog = 1024"

definition setNonBlocking :: "answers \<Rightarrow> int \<Rightarrow> (syscall list, bool) prog" where
  "setNonBlocking ans fd =
     bnd (sys ans (Sys_getfl fd)) (\<lambda>flags.
     if flags = - 1 then ret False
     else if flags AND O_NONBLOCK \<noteq> 0 then ret True
     else bnd (sys ans (Sys_setfl fd (flags OR O_NONBLOCK))) (\<lambda>r. ret (r \<noteq> - 1)))"

definition set_option :: "answers \<Rightarrow> int \<Rightarrow> sockopt \<Rightarrow> (syscall list, bool) prog" where
  "set_option ans fd opt = bnd (sys ans (Sys_setsockopt fd opt)) (\<lambda>r. ret (r \<noteq> - 1))"

definition setNoDelay :: "answers \<Rightarrow> int \<Rightarrow> (syscall list, bool) prog" where
  "setNoDelay ans fd = set_option ans fd TCP_NODELAY"

definition setSOTimestamp :: "answers \<Rightarrow> int \<Rightarrow> (syscall list, bool) prog" where
  "setSOTimestamp ans fd = set_option ans fd SO_TIMESTAMP"

definition wouldBlock :: "int \<Rightarrow> bool" where
  "wouldBlock errno \<longleftrightarrow> errno = EWOULDBLOCK \<or> errno = EINPROGRESS"

definition setMcastTTL :: "answers \<Rightarrow> int \<Rightarrow> 32 word \<Rightarrow> (syscall list, bool) prog" where
  "setMcastTTL ans fd mcast_ttl = set_option ans fd (IP_MULTICAST_TTL mcast_ttl)"

definition setTTL :: "answers \<Rightarrow> int \<Rightarrow> 32 word \<Rightarrow> (syscall list, bool) prog" where
  "setTTL ans fd ttl = set_option ans fd (IP_TTL ttl)"

definition disableNagle :: "answers \<Rightarrow> int \<Rightarrow> (syscall list, bool) prog" where
  "disableNagle ans fd = set_option ans fd TCP_NODELAY"

definition join :: "answers \<Rightarrow> int \<Rightarrow> string \<Rightarrow> (syscall list, bool) prog" where
  "join ans fd ip = set_option ans fd (IP_ADD_MEMBERSHIP ip)"

section \<open>Interfaces and configurations\<close>

text \<open>An entry of \<open>getifaddrs\<close>; \<open>if_host\<close> is what \<open>getnameinfo\<close> wrote into the buffer for it.\<close>

record ifaddrs =
  if_name :: string
  if_inet :: bool
  if_host :: string

fun getIfaceIP :: "ifaddrs list \<Rightarrow> string \<Rightarrow> string" where
  "getIfaceIP [] iface = []"
| "getIfaceIP (ifa # ifas) iface =
     (if if_inet ifa \<and> iface = if_name ifa then if_host ifa else getIfaceIP ifas iface)"

record SocketCfg =
  sc_ip :: string
  sc_iface :: string
  sc_port :: "32 word"
  sc_is_udp :: bool
  sc_is_listening :: bool
  sc_needs_so_timestamp :: bool

text \<open>A stream prints a \<open>bool\<close> as a digit.\<close>

definition bool_text :: "bool \<Rightarrow> string" where
  "bool_text b = (if b then ''1'' else ''0'')"

definition SocketCfg_toString :: "SocketCfg \<Rightarrow> string" where
  "SocketCfg_toString c =
     ''SocketCfg [ ''
     @ '' ip: '' @ sc_ip c
     @ '' iface: '' @ sc_iface c
     @ '' port: '' @ to_string_signed (sc_port c)
     @ '' is_udp: '' @ bool_text (sc_is_udp c)
     @ '' is_listening: '' @ bool_text (sc_is_listening c)
     @ '' needs_SO_timestamp: '' @ bool_text (sc_needs_so_timestamp c)
     @ '' ] ''"

section \<open>CreateSocket\<close>

text \<open>The body of the loop over the results of \<open>getaddrinfo\<close>.\<close>

definition create_one :: "answers \<Rightarrow> SocketCfg \<Rightarrow> addrinfo \<Rightarrow> (syscall list, int) prog" where
  "create_one ans cfg rp =
     bnd (sys ans (Sys_socket (ai_family rp) (ai_socktype rp) (ai_protocol rp))) (\<lambda>r.
     let socket_fd = sint r in
     sq (ASSERT (socket_fd \<noteq> - 1) ''socket() failed. errno:'')
    (sq (bnd (setNonBlocking ans socket_fd) (\<lambda>b. ASSERT b ''setNonBlocking() failed. errno:''))
    (sq (when_do (\<not> sc_is_udp cfg)
          (bnd (disableNagle ans socket_fd) (\<lambda>b. ASSERT b ''disableNagle() failed. errno:'')))
    (sq (when_do (\<not> sc_is_listening cfg)
          (bnd (sys ans (Sys_connect socket_fd (ai_addr rp))) (\<lambda>r. ASSERT (r \<noteq> 1) ''connect() failed. errno:'')))
    (sq (when_do (sc_is_listening cfg)
          (bnd (sys ans (Sys_setsockopt socket_fd SO_REUSEADDR)) (\<lambda>r.
           ASSERT (r = 0) ''setsockopt() SO_REUSEADDR failed. errno:'')))
    (sq (when_do (sc_is_listening cfg)
          (bnd (sys ans (Sys_bind socket_fd
                 (if sc_is_udp cfg then Any_address (ucast (sc_port cfg)) else Ai_addr (ai_addr rp)))) (\<lambda>r.
           ASSERT (r = 0) ''bind() failed. errno:%'')))
    (sq (when_do (\<not> sc_is_udp cfg \<and> sc_is_listening cfg)
          (bnd (sys ans (Sys_listen socket_fd MaxTCPServerBacklog)) (\<lambda>r. ASSERT (r = 0) ''listen() failed. errno:'')))
    (sq (when_do (sc_needs_so_timestamp cfg)
          (bnd (setSOTimestamp ans socket_fd) (\<lambda>b. ASSERT b ''setSOTimestamp() failed. errno:'')))
    (ret socket_fd)))))))))"

fun create_loop :: "answers \<Rightarrow> SocketCfg \<Rightarrow> addrinfo list \<Rightarrow> int \<Rightarrow> (syscall list, int) prog" where
  "create_loop ans cfg [] socket_fd = ret socket_fd"
| "create_loop ans cfg (rp # rps) socket_fd = bnd (create_one ans cfg rp) (create_loop ans cfg rps)"

text \<open>\<open>result\<close> is the list \<open>getaddrinfo\<close> returned, \<open>ifs\<close> that of \<open>getifaddrs\<close>.\<close>

definition CreateSocket :: "answers \<Rightarrow> ifaddrs list \<Rightarrow> addrinfo list \<Rightarrow> SocketCfg \<Rightarrow> (syscall list, int) prog" where
  "CreateSocket ans ifs result socket_cfg =
     (let ip = if sc_ip socket_cfg = [] then getIfaceIP ifs (sc_iface socket_cfg) else sc_ip socket_cfg in
      bnd (sys ans (Sys_getaddrinfo ip (to_string_signed (sc_port socket_cfg)) (sc_is_listening socket_cfg)
             (sc_is_udp socket_cfg))) (\<lambda>rc.
      sq (ASSERT (rc = 0) ''getaddrinfo() failed. error:'')
     (create_loop ans socket_cfg result (- 1))))"

section \<open>The calls of a successful CreateSocket\<close>

lemma sys_run [simp]: "sys ans c cs = Inr (ans cs c, cs @ [c])"
  by (simp add: sys_def bnd_def sq_def)

lemma sys_eq_Inr: "sys ans c cs = Inr (r, cs') \<longleftrightarrow> r = ans cs c \<and> cs' = cs @ [c]"
  by auto

lemma when_do_eq_Inr [simp]: "when_do c m s = Inr (u, s') \<longleftrightarrow> (if c then m s = Inr (u, s') else s' = s)"
  by (auto simp: when_do_def)

text \<open>The calls on one descriptor, after \<open>socket()\<close>; \<open>flags\<close> is what \<open>F_GETFL\<close> returned.\<close>

definition non_blocking_calls :: "int \<Rightarrow> 32 word \<Rightarrow> syscall list" where
  "non_blocking_calls fd flags =
     Sys_getfl fd # (if flags AND O_NONBLOCK \<noteq> 0 then [] else [Sys_setfl fd (flags OR O_NONBLOCK)])"

definition setup_calls :: "SocketCfg \<Rightarrow> addrinfo \<Rightarrow> int \<Rightarrow> 32 word \<Rightarrow> syscall list" where
  "setup_calls cfg rp fd flags = non_blocking_calls fd flags
     @ (if sc_is_udp cfg then [] else [Sys_setsockopt fd TCP_NODELAY])
     @ (if sc_is_listening cfg
        then [Sys_setsockopt fd SO_REUSEADDR,
          Sys_bind fd (if sc_is_udp cfg then Any_address (ucast (sc_port cfg)) else Ai_addr (ai_addr rp))]
          @ (if sc_is_udp cfg then [] else [Sys_listen fd MaxTCPServerBacklog])
        else [Sys_connect fd (ai_addr rp)])
     @ (if sc_needs_so_timestamp cfg then [Sys_setsockopt fd SO_TIMESTAMP] else [])"

definition create_calls :: "SocketCfg \<Rightarrow> addrinfo \<Rightarrow> int \<times> 32 word \<Rightarrow> syscall list" where
  "create_calls cfg rp = (\<lambda>(fd, flags).
     Sys_socket (ai_family rp) (ai_socktype rp) (ai_protocol rp) # setup_calls cfg rp fd flags)"

lemma setNonBlocking_calls:
  "setNonBlocking ans fd cs = Inr (b, cs') \<Longrightarrow> b \<Longrightarrow> \<exists>flags. cs' = cs @ non_blocking_calls fd flags"
  by (auto simp: setNonBlocking_def sys_eq_Inr non_blocking_calls_def split: if_splits)

lemma set_option_calls: "set_option ans fd opt cs = Inr (b, cs') \<Longrightarrow> cs' = cs @ [Sys_setsockopt fd opt]"
  by (auto simp: set_option_def sys_eq_Inr)

lemma create_one_calls:
  assumes "create_one ans cfg rp cs = Inr (fd, cs')"
  shows "fd \<noteq> - 1 \<and> (\<exists>flags. cs' = cs @ create_calls cfg rp (fd, flags))"
  using assms
  by (cases "sc_is_udp cfg"; cases "sc_is_listening cfg"; cases "sc_needs_so_timestamp cfg")
    (auto simp: create_one_def Let_def sys_eq_Inr create_calls_def setup_calls_def disableNagle_def setSOTimestamp_def
      dest!: setNonBlocking_calls set_option_calls)

text \<open>What the kernel answers when every call succeeds, but for \<open>connect\<close>, which answers \<open>r\<close>.\<close>

definition answers_ok :: "32 word \<Rightarrow> answers \<Rightarrow> bool" where
  "answers_ok r ans \<longleftrightarrow> (\<forall>cs c. case c of
       Sys_socket _ _ _ \<Rightarrow> ans cs c \<noteq> - 1
     | Sys_getfl _ \<Rightarrow> ans cs c \<noteq> - 1
     | Sys_connect _ _ \<Rightarrow> ans cs c = r
     | _ \<Rightarrow> ans cs c = 0)"

lemma answers_okD:
  assumes "answers_ok r ans"
  shows "ans cs (Sys_socket a b c) \<noteq> - 1" "ans cs (Sys_getfl fd) \<noteq> - 1" "ans cs (Sys_connect fd ad) = r"
    "ans cs (Sys_setfl fd fl) = 0" "ans cs (Sys_setsockopt fd opt) = 0" "ans cs (Sys_bind fd sa) = 0"
    "ans cs (Sys_listen fd n) = 0" "ans cs (Sys_getaddrinfo ip service p u) = 0"
  using assms[unfolded answers_ok_def, rule_format, of cs "Sys_socket a b c"]
    assms[unfolded answers_ok_def, rule_format, of cs "Sys_getfl fd"]
    assms[unfolded answers_ok_def, rule_format, of cs "Sys_connect fd ad"]
    assms[unfolded answers_ok_def, rule_format, of cs "Sys_setfl fd fl"]
    assms[unfolded answers_ok_def, rule_format, of cs "Sys_setsockopt fd opt"]
    assms[unfolded answers_ok_def, rule_format, of cs "Sys_bind fd sa"]
    assms[unfolded answers_ok_def, rule_format, of cs "Sys_listen fd n"]
    assms[unfolded answers_ok_def, rule_format, of cs "Sys_getaddrinfo ip service p u"]
  by simp_all

lemma set_option_ok: "answers_ok r ans \<Longrightarrow> set_option ans fd opt cs = Inr (True, cs @ [Sys_setsockopt fd opt])"
  by (simp add: set_option_def bnd_def answers_okD)

lemma setNonBlocking_ok:
  "answers_ok r ans \<Longrightarrow> setNonBlocking ans fd cs = Inr (True, cs @ non_blocking_calls fd (ans cs (Sys_getfl fd)))"
  by (simp add: setNonBlocking_def bnd_def answers_okD non_blocking_calls_def)

lemma sint_minus_one: "(w :: 32 word) \<noteq> - 1 \<Longrightarrow> sint w \<noteq> - 1"
  by (metis signed_word_eqI sint_n1)

lemma create_one_ok:
  assumes "answers_ok r ans" "r \<noteq> 1"
  shows "\<exists>fd cs'. create_one ans cfg rp cs = Inr (fd, cs')"
proof -
  have "sint (ans cs (Sys_socket (ai_family rp) (ai_socktype rp) (ai_protocol rp))) \<noteq> - 1"
    by (rule sint_minus_one [OF answers_okD(1) [OF assms(1)]])
  then show ?thesis
    using assms(2)
    by (cases "sc_is_udp cfg"; cases "sc_is_listening cfg"; cases "sc_needs_so_timestamp cfg")
      (simp_all add: create_one_def Let_def bnd_def sq_def setNonBlocking_ok [OF assms(1)] set_option_ok [OF assms(1)]
        disableNagle_def setSOTimestamp_def answers_okD [OF assms(1)])
qed

lemma create_loop_calls:
  assumes "create_loop ans cfg rps fd0 cs = Inr (fd, cs')"
  shows "\<exists>ss. length ss = length rps \<and> cs' = cs @ concat (map2 (create_calls cfg) rps ss) \<and>
    (\<forall>s \<in> set ss. fst s \<noteq> - 1) \<and> fd = (if rps = [] then fd0 else fst (last ss))"
  using assms
proof (induction rps arbitrary: fd0 cs)
  case (Cons rp rps)
  then obtain fd1 cs1 where one: "create_one ans cfg rp cs = Inr (fd1, cs1)"
    and loop: "create_loop ans cfg rps fd1 cs1 = Inr (fd, cs')" by auto
  from create_one_calls [OF one] obtain flags where s: "fd1 \<noteq> - 1" "cs1 = cs @ create_calls cfg rp (fd1, flags)" by blast
  from Cons.IH [OF loop] obtain ss where ss: "length ss = length rps" "cs' = cs1 @ concat (map2 (create_calls cfg) rps ss)"
    "\<forall>s \<in> set ss. fst s \<noteq> - 1" "fd = (if rps = [] then fd1 else fst (last ss))" by blast
  then show ?case using s by (intro exI [of _ "(fd1, flags) # ss"]) auto
qed simp

lemma create_loop_ok:
  assumes "answers_ok r ans" "r \<noteq> 1"
  shows "\<exists>fd cs'. create_loop ans cfg rps fd0 cs = Inr (fd, cs')"
proof (induction rps arbitrary: fd0 cs)
  case (Cons rp rps)
  obtain fd1 cs1 where "create_one ans cfg rp cs = Inr (fd1, cs1)" using create_one_ok [OF assms] by blast
  then show ?case using Cons.IH [of fd1 cs1] by auto
qed simp

section \<open>Properties\<close>

text \<open>
  \<open>CreateSocket\<close> opens and sets up one descriptor per result of \<open>getaddrinfo\<close>, each with the same
  calls in the same order: non-blocking, \<open>TCP_NODELAY\<close>, \<open>connect\<close> or \<open>SO_REUSEADDR\<close>, \<open>bind\<close> and \<open>listen\<close>,
  and the time stamps. It returns the last descriptor; it makes no other call, so the earlier ones
  stay open. It returns whenever the calls succeed.
\<close>

theorem CreateSocket_calls:
  "(CreateSocket ans ifs result cfg [] = Inr (fd, cs) \<longrightarrow>
      (\<exists>first ss. cs = first # concat (map2 (create_calls cfg) result ss) \<and> length ss = length result \<and>
        (\<forall>s \<in> set ss. fst s \<noteq> - 1) \<and> fd = (if result = [] then - 1 else fst (last ss)))) \<and>
   (answers_ok 0 ans \<longrightarrow> (\<exists>fd cs. CreateSocket ans ifs result cfg [] = Inr (fd, cs)))"
  (is "?calls \<and> ?returns")
proof
  show ?calls
    using create_loop_calls [of ans cfg result "- 1"] by (fastforce simp: CreateSocket_def Let_def sys_eq_Inr)
  show ?returns
    using create_loop_ok [of 0 ans cfg result "- 1"] by (auto simp: CreateSocket_def Let_def bnd_def sq_def answers_okD)
qed

text \<open>A kernel that has one descriptor to give, and one whose \<open>connect\<close> fails.\<close>

definition kernel_with :: "32 word \<Rightarrow> answers" where
  "kernel_with r cs c = (case c of Sys_socket _ _ _ \<Rightarrow> 7 | Sys_connect _ _ \<Rightarrow> r | _ \<Rightarrow> 0)"

lemma kernel_with_ok: "answers_ok r (kernel_with r)"
  by (simp add: answers_ok_def kernel_with_def split: syscall.split)

definition client_cfg :: SocketCfg where
  "client_cfg = \<lparr>sc_ip = ''127.0.0.1'', sc_iface = ''lo'', sc_port = 12345, sc_is_udp = False, sc_is_listening = False,
     sc_needs_so_timestamp = False\<rparr>"

definition one_result :: addrinfo where
  "one_result = \<lparr>ai_family = 2, ai_socktype = 1, ai_protocol = 6, ai_addr = 0\<rparr>"

theorem CreateSocket_calls_witness:
  "\<exists>fd cs. CreateSocket (kernel_with 0) [] [one_result] client_cfg [] = Inr (fd, cs) \<and>
     (\<exists>flags. tl cs = create_calls client_cfg one_result (fd, flags))"
proof -
  obtain fd cs where run: "CreateSocket (kernel_with 0) [] [one_result] client_cfg [] = Inr (fd, cs)"
    using CreateSocket_calls [of "kernel_with 0" "[]" "[one_result]" client_cfg] kernel_with_ok by blast
  then obtain first ss where "cs = first # concat (map2 (create_calls client_cfg) [one_result] ss)" "length ss = 1"
    "fd = fst (last ss)"
    using CreateSocket_calls [of "kernel_with 0" "[]" "[one_result]" client_cfg fd cs] by auto
  then show ?thesis using run by (cases ss) (auto intro!: exI [of _ fd])
qed

text \<open>
  A failed connection goes unnoticed: \<open>connect\<close> returns \<open>- 1\<close> on failure and the assertion compares
  with \<open>1\<close>, so when every \<open>connect\<close> fails a client still gets an open descriptor back; only an answer of
  \<open>1\<close>, which \<open>connect\<close> never gives, would end the process.
\<close>

theorem failed_connect_unnoticed:
  assumes "answers_ok r ans" "r = - 1" "\<not> sc_is_listening cfg" "result \<noteq> []"
  shows "\<exists>fd cs. CreateSocket ans ifs result cfg [] = Inr (fd, cs) \<and> fd \<noteq> - 1 \<and>
    Sys_connect fd (ai_addr (last result)) \<in> set cs"
proof -
  obtain fd cs where run: "create_loop ans cfg result (- 1) [Sys_getaddrinfo
      (if sc_ip cfg = [] then getIfaceIP ifs (sc_iface cfg) else sc_ip cfg) (to_string_signed (sc_port cfg))
      (sc_is_listening cfg) (sc_is_udp cfg)] = Inr (fd, cs)"
    using create_loop_ok [OF assms(1), of cfg result "- 1"] assms(2) by fastforce
  then have "CreateSocket ans ifs result cfg [] = Inr (fd, cs)"
    using answers_okD(8) [OF assms(1)] by (simp add: CreateSocket_def Let_def bnd_def sq_def)
  moreover obtain ss where ss: "length ss = length result" "\<forall>s \<in> set ss. fst s \<noteq> - 1" "fd = fst (last ss)"
    "set (concat (map2 (create_calls cfg) result ss)) \<subseteq> set cs"
  proof -
    obtain first ss where "length ss = length result" "cs = [first] @ concat (map2 (create_calls cfg) result ss)"
      "\<forall>s \<in> set ss. fst s \<noteq> - 1" "fd = fst (last ss)"
      using create_loop_calls [OF run] assms(4) by metis
    then show thesis by (intro that [of ss]) (simp_all only: set_append Un_upper2)
  qed
  obtain rps rp where rp: "result = rps @ [rp]" using assms(4) by (cases result rule: rev_cases) auto
  with ss(1) obtain ss' s where s: "ss = ss' @ [s]" "length ss' = length rps" by (cases ss rule: rev_cases) auto
  have "Sys_connect fd (ai_addr rp) \<in> set (create_calls cfg rp s)"
    using ss(3) s assms(3) by (cases s) (simp add: create_calls_def setup_calls_def)
  then have "Sys_connect fd (ai_addr (last result)) \<in> set cs" using ss(4) rp s by auto
  ultimately show ?thesis using ss(2,3) s by auto
qed

theorem failed_connect_unnoticed_witness:
  "\<exists>fd cs. CreateSocket (kernel_with (- 1)) [] [one_result] client_cfg [] = Inr (fd, cs) \<and> fd \<noteq> - 1"
  using failed_connect_unnoticed [OF kernel_with_ok refl, of client_cfg "[one_result]" "[]"]
  by (simp add: client_cfg_def) blast

end
