(* ===== verification/Mcast_Socket.thy ===== *)
theory Mcast_Socket
  imports TCP_Socket Socket_Utils
begin

text \<open>
  \<open>low-latency-components/mcast_socket.h\<close>: the buffers of a multicast socket, which are those of a TCP
  socket but for three differences: \<open>send\<close> asserts that the buffer is not full, after the copy;
  \<open>sendAndRecv\<close> calls the callback without looking whether one is set; there are no receive times.
\<close>

section \<open>The socket\<close>

definition McastBufferSize :: nat where
  "McastBufferSize = 64 * 1024 * 1024"

text \<open>\<open>mc_wire\<close> is not in the code: it collects the bytes the kernel has accepted from this socket.\<close>

record McastSocket =
  mc_socket_fd :: int
  mc_outbound_data :: "byte carray"
  mc_next_send_valid_index :: nat
  mc_inbound_data :: "byte carray"
  mc_next_rcv_valid_index :: nat
  mc_wire :: "byte list"

definition McastSocket_new :: McastSocket where
  "McastSocket_new = \<lparr>mc_socket_fd = - 1, mc_outbound_data = arr_fill McastBufferSize 0, mc_next_send_valid_index = 0,
     mc_inbound_data = arr_fill McastBufferSize 0, mc_next_rcv_valid_index = 0, mc_wire = []\<rparr>"

text \<open>\<open>init\<close>; \<open>fd\<close> is what \<open>CreateSocket\<close> returned. \<open>leave\<close> ignores its arguments.\<close>

definition McastSocket_init :: "int \<Rightarrow> (McastSocket, int) prog" where
  "McastSocket_init fd = sq (wr (\<lambda>s. s\<lparr>mc_socket_fd := fd\<rparr>)) (ret fd)"

definition McastSocket_leave :: "(McastSocket, unit) prog" where
  "McastSocket_leave = wr (\<lambda>s. s\<lparr>mc_socket_fd := - 1\<rparr>)"

text \<open>\<open>join\<close> hands the descriptor to the function of that name in \<open>socket_utils.h\<close>.\<close>

definition McastSocket_join :: "answers \<Rightarrow> string \<Rightarrow> McastSocket \<Rightarrow> (syscall list, bool) prog" where
  "McastSocket_join ans ip s = join ans (mc_socket_fd s) ip"

definition McastSocket_send :: "byte list \<Rightarrow> (McastSocket, unit) prog" where
  "McastSocket_send data =
     bnd (rd (\<lambda>s. memcpy (mc_next_send_valid_index s) data (mc_outbound_data s))) (\<lambda>r.
     bnd (lift_res r) (\<lambda>out.
     sq (wr (\<lambda>s. s\<lparr>mc_outbound_data := out\<rparr>))
    (sq (wr (\<lambda>s. s\<lparr>mc_next_send_valid_index := mc_next_send_valid_index s + length data\<rparr>))
    (bnd (rd mc_next_send_valid_index) (\<lambda>n.
     ASSERT (n < McastBufferSize) ''Mcast socket buffer filled up and sendAndRecv() not called.'')))))"

text \<open>
  \<open>data\<close> is what \<open>recv\<close> delivered, nothing when it returned zero or less; \<open>n\<close> is what \<open>::send\<close>
  returned. The callback is a \<open>std::function\<close>: calling an empty one throws, and \<open>sendAndRecv\<close> is
  \<open>noexcept\<close>.
\<close>

definition McastSocket_sendAndRecv ::
  "(McastSocket, unit) prog option \<Rightarrow> byte list \<Rightarrow> int \<Rightarrow> (McastSocket, bool) prog" where
  "McastSocket_sendAndRecv recv_callback data n =
     sq (if data = [] then ret ()
         else
           sq (wr (\<lambda>s. s\<lparr>mc_inbound_data := blit (mc_next_rcv_valid_index s) data (mc_inbound_data s),
                 mc_next_rcv_valid_index := mc_next_rcv_valid_index s + length data\<rparr>))
          (case recv_callback of None \<Rightarrow> fail Terminate | Some cb \<Rightarrow> cb))
    (sq (wr (\<lambda>s. if mc_next_send_valid_index s > 0
           then s\<lparr>mc_wire := mc_wire s @ take (nat n) (slice 0 (mc_next_send_valid_index s) (mc_outbound_data s))\<rparr>
           else s))
    (sq (wr (\<lambda>s. s\<lparr>mc_next_send_valid_index := 0\<rparr>))
    (ret (data \<noteq> []))))"

section \<open>Buffers as byte strings\<close>

definition mc_ok :: "McastSocket \<Rightarrow> bool" where
  "mc_ok s \<longleftrightarrow> alen (mc_outbound_data s) = McastBufferSize \<and> alen (mc_inbound_data s) = McastBufferSize \<and>
     mc_next_send_valid_index s < McastBufferSize \<and> mc_next_rcv_valid_index s \<le> McastBufferSize"

definition mc_out :: "McastSocket \<Rightarrow> byte list" where
  "mc_out s = slice 0 (mc_next_send_valid_index s) (mc_outbound_data s)"

definition mc_in :: "McastSocket \<Rightarrow> byte list" where
  "mc_in s = slice 0 (mc_next_rcv_valid_index s) (mc_inbound_data s)"

lemma McastSocket_new_ok: "mc_ok McastSocket_new" "mc_out McastSocket_new = []" "mc_in McastSocket_new = []"
  by (simp_all add: McastSocket_new_def mc_ok_def mc_out_def mc_in_def slice_def McastBufferSize_def)

lemma slice_none [simp]: "slice off 0 a = []"
  by (simp add: slice_def)

lemma length_mc_out [simp]: "length (mc_out s) = mc_next_send_valid_index s"
  by (simp add: mc_out_def)

lemma McastSocket_send_run:
  assumes "mc_ok s"
  shows "McastSocket_send bs s =
    (if length (mc_out s) + length bs > McastBufferSize then Inl Out_of_bounds
     else if length (mc_out s) + length bs = McastBufferSize
     then Inl (Fatal ''Mcast socket buffer filled up and sendAndRecv() not called.'')
     else Inr ((), s\<lparr>mc_outbound_data := blit (mc_next_send_valid_index s) bs (mc_outbound_data s),
       mc_next_send_valid_index := mc_next_send_valid_index s + length bs\<rparr>))"
  using assms by (simp add: McastSocket_send_def bnd_def sq_def memcpy_def mc_ok_def ASSERT_def)

section \<open>Properties\<close>

text \<open>
  The assertion of \<open>send\<close> comes after the copy: a message that leaves a byte free is appended and
  goes out with the next \<open>sendAndRecv\<close>; one that fills the buffer exactly ends the process with the
  assertion's message; a longer one is copied past the end of the buffer before anything is checked.
\<close>

theorem McastSocket_send_checks_late:
  assumes "mc_ok s"
  shows "if length (mc_out s) + length bs < McastBufferSize
    then \<exists>s'. sq (McastSocket_send bs) (McastSocket_sendAndRecv cb [] n) s = Inr (False, s') \<and> mc_ok s' \<and>
      mc_out s' = [] \<and> mc_in s' = mc_in s \<and> mc_wire s' = mc_wire s @ take (nat n) (mc_out s @ bs)
    else McastSocket_send bs s =
      (if length (mc_out s) + length bs = McastBufferSize
       then Inl (Fatal ''Mcast socket buffer filled up and sendAndRecv() not called.'') else Inl Out_of_bounds)"
  using assms
  by (auto simp: McastSocket_send_run sq_def bnd_def McastSocket_sendAndRecv_def mc_ok_def mc_out_def mc_in_def
      slice_blit_append)

theorem McastSocket_send_checks_late_witness:
  "\<exists>s'. sq (McastSocket_send [1, 2]) (McastSocket_sendAndRecv None [] 2) McastSocket_new = Inr (False, s') \<and>
     mc_wire s' = [1, 2]"
  using McastSocket_send_checks_late [OF McastSocket_new_ok(1), of "[1, 2]" None 2]
  by (auto simp: McastSocket_new_ok(2) McastBufferSize_def) (auto simp: McastSocket_new_def)

end
