(* ===== verification/Spec2Isabelle.thy ===== *)
theory Spec2Isabelle
  imports Book_Returns Guest_Orders Guest_Buys Exchange_Wire Epoll_Events Engine_Accounts Log_Calls Logger_Shutdown Program Mcast_Socket
begin

text \<open>
  A verification library for TradingEcosystem, a trading exchange in C++. Clients connect to the order
  server (\<open>src/src/exchange/order_server\<close>) over TCP; it cuts their byte streams into requests, checks
  sequence numbers, sorts the requests of one poll by receive time and writes them into a lock-free
  queue. The matching engine (\<open>src/src/exchange/matcher\<close>) takes them from there, keeps one limit order
  book per ticker, and writes responses for the clients and market updates into two other queues. The
  order server sends the responses back. The building blocks (memory pool, queue, logger, sockets) are
  in \<open>src/src/low-latency-components\<close>.

  \<^bold>\<open>How the code is modelled.\<close> A class is a record, an enumeration or tagged union a datatype with one
  more constructor for bytes without an enumerator, an integer a word of its width. A member function
  is a state-passing computation \<open>('s, 'a) prog\<close> (theory \<open>Prelude\<close>): it returns a result and the new
  object, or a fault. The faults are the ways a step of the program can end it: a null dereference, an
  access out of bounds, a division by zero, an exception that leaves a \<open>noexcept\<close> function, \<open>ASSERT\<close>
  and \<open>FATAL\<close>, and a loop that never ends. A pointer to a pooled object is the index of its block, or
  \<open>None\<close>. Answers of the operating system and of the library are arguments.

  \<^bold>\<open>Theories.\<close>
  \<^item> \<open>Prelude\<close>: computations, faults, arrays, preservation rules. \<open>Types\<close>: \<open>types.h\<close>, the messages and
    their renderings (\<open>client_request.h\<close>, \<open>client_response.h\<close>, \<open>market_update.h\<close>), orders and levels.
  \<^item> \<open>Mem_Pool\<close>: \<open>mem_pool.h\<close>, with the interface of an allocator as a locale. \<open>Lock_Free_Queue\<close>:
    \<open>lock_free_queue.h\<close> one call at a time, with the locale of a first-in first-out queue;
    \<open>Queue_Threads\<close>: the same queue under a writer and a reader thread, as a step relation;
    \<open>Queue_Progress\<close>: its fair executions.
  \<^item> \<open>ME_Order_Book\<close> and \<open>ME_Matching\<close>: \<open>me_order_book.h\<close> and \<open>me_order_book.cpp\<close>, pointer by pointer.
    \<open>Linked_Rings\<close>, \<open>Book_Levels\<close>, \<open>Level_Insert\<close>, \<open>Book_Orders\<close>, \<open>Order_Insert\<close>: the shape of its
    linked rings and its two index arrays, and what each operation does to them.
  \<^item> \<open>Order_Book_Spec\<close>: the abstract book, lists of price levels with their orders, and what \<open>add\<close> and
    \<open>cancel\<close> promise on it. \<open>Book_Abstraction\<close>, \<open>Book_Matching\<close>, \<open>Order_Placement\<close>, \<open>Book_Refinement\<close>:
    the relation between the two books and the refinement lemmas. \<open>Book_Properties\<close> and \<open>Book_Returns\<close>:
    the properties of the book. \<open>Price_Collision\<close>: sell orders whose slot is taken;
    \<open>Shared_Levels\<close>: the level that such an order shares with another; \<open>Guest_Orders\<close>: what becomes of the
    asks when both are cancelled; \<open>Guest_Buys\<close>: buy orders in the level of the best ask. \<open>Book_Accounts\<close>: the
    book as a subscriber sees it, and its quantities. \<open>Book_Printing\<close>: \<open>toString\<close> of orders, levels and books.
  \<^item> \<open>Matching_Engine\<close>: \<open>matching_engine.h\<close> and \<open>matching_engine.cpp\<close>, and the abstract engine, a fold
    of the abstract operations over the pending requests. \<open>Trade_Sides\<close>: no book ever has a best bid.
    \<open>Engine_Messages\<close>: the fields of its messages and the requests they go back to; \<open>Engine_Accounts\<close>: what its messages say
    together. \<open>Engine_Shutdown\<close>: the destructors. \<open>Program\<close>: \<open>main.cpp\<close>.
  \<^item> \<open>Logging\<close>: \<open>logging.h\<close>; \<open>Log_Calls\<close>: every call of \<open>log\<close> and its number of arguments.
    \<open>Logger_Shutdown\<close>: the destructor of the logger beside the thread that flushes, as a step relation.
    \<open>Thread_Utils\<close>: \<open>thread_utils.h\<close>, the new thread and its creator as a step relation, and
    \<open>time_utils.h\<close>.
  \<^item> \<open>FIFO_Sequencer\<close>: \<open>fifo_sequencer.h\<close>, with the contract of \<open>std::sort\<close> as a locale and two sorts
    that meet it. \<open>Wire_Format\<close>: the packed structures as bytes.
  \<^item> \<open>TCP_Socket\<close>, \<open>TCP_Server\<close> (with \<open>Epoll_Events\<close>), \<open>Mcast_Socket\<close>, \<open>Socket_Utils\<close>: \<open>tcp_socket.h\<close>, \<open>tcp_server.h\<close>,
    \<open>mcast_socket.h\<close>, \<open>socket_utils.h\<close>. \<open>Order_Server\<close> and \<open>Server_Properties\<close>: \<open>order_server.h\<close> and
    \<open>order_server.cpp\<close>. \<open>Server_Traffic\<close> and \<open>Server_Rounds\<close>: whole rounds of the server, for any events and
    for some. \<open>Exchange_System\<close>: from the bytes of the clients to the books.
  \<^item> \<open>Exchange_Threads\<close> and \<open>Exchange_Properties\<close>: the order server and the engine as two threads that share
    the queues of requests and responses; a step is a poll, a call of \<open>sendAndRecv\<close>, a response sent, a
    request processed or a request released. \<open>Exchange_Wire\<close>: what leaves on the sockets. The rounds are those behind the first log call of
    \<open>OrderServer::run\<close>, which ends the process as the code stands.

  \<^bold>\<open>What is shown.\<close> The order book refines its abstract specification, faults included; a buy order
  trades by price, then by time, and what is left of it is below every ask that remains; \<open>add\<close> returns when there is room, and
  cancelling undoes it. The engine serves its queue as the abstract engine does, one ticker at a time.
  The queue is first-in first-out below its capacity, for single calls and for two threads, and a
  reader that asks \<open>size()\<close> never fails its assertion. The order server takes from the byte
  streams exactly the requests that are in sequence and on the socket of their client, whatever the split,
  publishes those of all sockets in the order of their receive times, and numbers the responses per
  client. Every message of the engine goes back to a request. Rendering a book gives the text of the abstract book. The market
  updates determine the open orders of every book, and the responses account for every quantity. In
  every interleaving of the order server and the engine no request and no response is lost, doubled or
  reordered, the sequence numbers count them, every response has a socket to go to, and the engine,
  between two requests and with room for the responses, can serve all published requests that the abstract
  engine serves without a fault; what leaves on a socket is made of the numbered frames of the replies to
  its clients, in order, but for bytes the kernel did not take. In every fair execution of a queue whose reader asks \<open>size()\<close>,
  what is written is read; a reader that does not ask may fail its assertion first. In every fair execution the
  destructor of the logger returns with all lines in the file.
  And, as the code stands: no sell order ever trades (the best bid is never assigned, C++ parses
  \<open>a ? b : c = v\<close> as \<open>a ? b : (c = v)\<close>); asks at rising prices leave the ring of levels open, after
  which a third one, a cancellation and the shutdown dereference a null pointer; a sell order whose
  slot is taken, by a buy order at its price or by a price 256 apart, is queued in that level, and cancelling both orders
  may make all other asks unreachable; a buy order whose slot is that of the best ask is queued there and
  trades with other buy orders, after which the process may end in a null pointer; a market
  order id is cut to 32 bits on its way to the fills; a thread that is late
  reads arguments that are gone;
  no socket is ever listed for sending; \<open>OrderServer::run\<close> ends in its first log call; requests of
  equal receive times may change their order; partial sends lose bytes; and several indices that come
  from the network, and buffers, are not checked.

  \<^bold>\<open>Bounds and loops.\<close> The loops of \<open>checkForMatch\<close>, of the pool, of the logger and of the responses end by
  a measure. The walk over the levels and the loops of \<open>toString\<close> are partial functions, since on a
  damaged ring they need not end; on the rings the operations build they do. The outer loops of
  threads (\<open>MatchingEngine::run\<close>, \<open>OrderServer::run\<close>) end when another thread says so: \<open>run_rounds n\<close>
  is the loop cut after \<open>n\<close> rounds, and \<open>n\<close> at least the number of pending requests serves them all.
  Counters of the queue and offsets into buffers are natural numbers: they would have to pass 64 bits
  to wrap.

  \<^bold>\<open>Assumptions.\<close> The atomics of the queue are sequentially consistent, as their default is. The machine is
  little-endian. A theorem on \<open>add\<close> asks for \<open>add_ok\<close>: the order is a buy or a sell, the market order ids
  have not run out, and when something is left after matching, the slot of its price in the array of
  256 price levels is free or holds a level of the same side and price. So it leaves out a sell order at
  the price of a resting buy order, and prices that are equal modulo 256; \<open>Price_Collision\<close>,
  \<open>Guest_Orders\<close> and \<open>Guest_Buys\<close> follow what the code does with those, one such order at a time. The
  theorems on the engine and the exchange ask for it of every request (\<open>requests_ok\<close>). The theorems on
  what \<open>recvCallback\<close> takes ask for client ids below 256 and room for the pending requests; \<open>client_ids_unchecked\<close>
  says what other ids do. The sort meets its contract. The kernel writes no more bytes into a buffer than it was offered. The two threads of the
  exchange take turns between the calls listed above; the interleaving inside a queue operation is that
  of \<open>Queue_Threads\<close>, and the queues have room.

  \<^bold>\<open>Not modelled.\<close> Pauses, the output on the terminal but for the test functions, and the commented-out code
  of \<open>main.cpp\<close>. Log calls are left out of the models where \<open>log\<close> returns, which \<open>Log_Calls\<close> and the lemmas
  of \<open>Logging\<close> show of all but one. Deleted constructors and fields that no operation reads have no
  counterpart. The market data publisher has no operations: its header declares fields only, and includes
  a file that is not in the repository.
\<close>

end
